(* ===== verification/Cbx_Prelude.thy ===== *)
theory Cbx_Prelude
  imports Main "HOL-Library.Word"
begin

text \<open>
  Shared vocabulary of the development: the machine types of the C++ sources, the
  collections of lemmas the component theories extend, and the facts on bytes, words and
  lists that several components need.
\<close>

unbundle bit_operations_syntax

section \<open>Machine types\<close>

text \<open>
  \<open>unsigned char\<close>, \<open>unsigned short\<close>, \<open>unsigned int\<close> and \<open>uint64\<close> are words of their
  width: their arithmetic wraps, as in C++. A signed \<open>int\<close> or \<open>int64\<close> is an \<open>int\<close> of
  HOL: signed overflow is undefined in C++, and where a component relies on its absence
  a bound is proved. A \<open>uint256\<close> used as a hash is a 256-bit word (theory \<open>Uint_Base\<close>
  shows what the limb arithmetic of the class computes).
\<close>

type_synonym byte = "8 word"
type_synonym bytes = "8 word list"
type_synonym u16 = "16 word"
type_synonym u32 = "32 word"
type_synonym u64 = "64 word"
type_synonym u160 = "160 word"
type_synonym u256 = "256 word"

named_theorems codec_simps \<open>unfolding rules of the wire format\<close>
named_theorems uval_simps \<open>values of limb lists\<close>

section \<open>Words\<close>
lemma unat_lt_2p: "unat (x :: 'a::len word) < 2 ^ LENGTH('a)"
  by (rule unsigned_less)

lemma unat_byte_lt [simp]: "unat (b :: byte) < 256"
  using unat_lt_2p [of b] by simp

lemma unat_u32_lt [simp]: "unat (x :: u32) < 4294967296"
  using unat_lt_2p [of x] by simp

lemma unat_u64_lt [simp]: "unat (x :: u64) < 18446744073709551616"
  using unat_lt_2p [of x] by simp

lemma unat_ucast_up:
  assumes "LENGTH('a) \<le> LENGTH('b)"
  shows "unat (ucast (x :: 'a::len word) :: 'b::len word) = unat x"
proof -
  have "unat x < 2 ^ LENGTH('b)"
    using unat_lt_2p [of x] assms by (meson less_le_trans one_le_numeral power_increasing)
  then show ?thesis by (simp add: unsigned_ucast_eq take_bit_nat_eq_self)
qed

lemma unat_minus_1: "unat (- 1 :: 'a::len word) = 2 ^ LENGTH('a) - 1"
  by (simp add: unsigned_minus_1_eq_mask mask_eq_exp_minus_1)

lemma unat_NOT: "unat (NOT x) = 2 ^ LENGTH('a) - 1 - unat (x :: 'a::len word)"
proof -
  have "NOT x = - 1 - x" by (simp add: not_eq_complement)
  moreover have "x \<le> - 1" by simp
  ultimately show ?thesis by (simp add: unat_sub unat_minus_1)
qed

lemma unat_of_nat_small: "n < 2 ^ LENGTH('a) \<Longrightarrow> unat (of_nat n :: 'a::len word) = n"
  by (simp add: unat_of_nat take_bit_nat_eq_self)

lemma word_eq_iff_unat: "(a :: 'a::len word) = b \<longleftrightarrow> unat a = unat b"
  by (simp add: word_eq_iff_unsigned)

section \<open>Little-endian byte strings\<close>

text \<open>
  The number a byte string denotes with the least significant byte first, and the
  \<open>n\<close>-byte string of a number: how an integer lies in memory on the platforms the
  program supports.
\<close>

fun le_val :: "bytes \<Rightarrow> nat" where
  "le_val [] = 0"
| "le_val (b # bs) = unat b + 256 * le_val bs"

fun le_bytes :: "nat \<Rightarrow> nat \<Rightarrow> bytes" where
  "le_bytes 0 v = []"
| "le_bytes (Suc n) v = of_nat v # le_bytes n (v div 256)"

lemma length_le_bytes [simp]: "length (le_bytes n v) = n"
  by (induction n arbitrary: v) auto

lemma le_bytes_numeral:
  "le_bytes (numeral k) v = of_nat v # le_bytes (pred_numeral k) (v div 256)"
  using numeral_eq_Suc [of k] by (metis le_bytes.simps(2))

lemma unat_of_nat_byte: "unat (of_nat v :: byte) = v mod 256"
  by (simp add: unat_of_nat take_bit_eq_mod)

lemma le_val_le_bytes: "le_val (le_bytes n v) = v mod 256 ^ n"
proof (induction n arbitrary: v)
  case 0
  then show ?case by simp
next
  case (Suc n)
  have "v mod (256 * 256 ^ n) = 256 * (v div 256 mod 256 ^ n) + v mod 256"
    by (rule mod_mult2_eq)
  then show ?case by (simp add: Suc.IH unat_of_nat_byte)
qed

lemma le_val_bound: "le_val bs < 256 ^ length bs"
proof (induction bs)
  case Nil
  then show ?case by simp
next
  case (Cons b bs)
  have "unat b + 256 * le_val bs < 256 * (le_val bs + 1)" by simp
  also have "\<dots> \<le> 256 * 256 ^ length bs"
    using Cons.IH by (intro mult_le_mono2) simp
  finally show ?case by simp
qed

lemma of_nat_unat_byte_add: "(of_nat (unat b + 256 * m) :: byte) = b"
  by (simp only: word_eq_iff_unat unat_of_nat_byte) simp

lemma le_bytes_le_val: "le_bytes (length bs) (le_val bs) = bs"
proof (induction bs)
  case Nil
  then show ?case by simp
next
  case (Cons b bs)
  have "(unat b + 256 * le_val bs) div 256 = le_val bs" by simp
  with Cons.IH show ?case
    using of_nat_unat_byte_add [of b "le_val bs"] by (simp del: of_nat_add of_nat_mult)
qed

lemma le_val_append: "le_val (xs @ ys) = le_val xs + 256 ^ length xs * le_val ys"
  by (induction xs) (auto simp: algebra_simps)

lemma le_val_inj: "length xs = length ys \<Longrightarrow> le_val xs = le_val ys \<Longrightarrow> xs = ys"
  by (metis le_bytes_le_val)

section \<open>Lists and options\<close>
lemma nth_fold_outside:
  assumes "\<And>i xs. i \<in> set is \<Longrightarrow> length (f i xs) = length xs"
    and "\<And>i xs. i \<in> set is \<Longrightarrow> f i xs ! j = xs ! j"
  shows "fold f is xs ! j = xs ! j"
  using assms by (induction "is" arbitrary: xs) auto

lemma option_bind_eq_Some:
  "Option.bind x f = Some y \<longleftrightarrow> (\<exists>z. x = Some z \<and> f z = Some y)"
  by (cases x) auto

section \<open>Results that can be errors\<close>

text \<open>
  A call that can throw returns \<open>error + value\<close>; \<open>rbind\<close> sequences two such calls, the
  first exception winning, as C++ unwinding does.
\<close>

definition rbind :: "'e + 'a \<Rightarrow> ('a \<Rightarrow> 'e + 'b) \<Rightarrow> 'e + 'b" where
  "rbind m f = (case m of Inl e \<Rightarrow> Inl e | Inr x \<Rightarrow> f x)"

lemma rbind_simps [simp]: "rbind (Inl e) f = Inl e" "rbind (Inr x) f = f x"
  by (simp_all add: rbind_def)

lemma rbind_eq_Inr: "rbind m f = Inr y \<longleftrightarrow> (\<exists>x. m = Inr x \<and> f x = Inr y)"
  by (cases m) auto

lemma rbind_eq_Inl: "rbind m f = Inl e \<longleftrightarrow> m = Inl e \<or> (\<exists>x. m = Inr x \<and> f x = Inl e)"
  by (cases m) auto

lemma rbind_assoc: "rbind (rbind m f) g = rbind m (\<lambda>x. rbind (f x) g)"
  by (cases m) auto

lemma rbind_cong: "m = m' \<Longrightarrow> (\<And>x. m' = Inr x \<Longrightarrow> f x = g x) \<Longrightarrow> rbind m f = rbind m' g"
  by (cases m') auto

end
