(* ===== verification/Extern.thy ===== *)
theory Extern
  imports Cbx_Prelude
begin

text \<open>
  The code the program calls and does not contain: OpenSSL's big numbers, hash functions
  and elliptic-curve keys, and the assembly routine \<open>scrypt_core\<close> of the build. Every function of it is a field of the record \<open>extlib\<close>, an
  argument \<open>L\<close> of the definitions that call it. \<open>bn_ok L\<close> states the documented
  behaviour of the big-number functions, \<open>hash_ok L\<close> the lengths of the digests; nothing
  is assumed of the cryptographic strength of anything.
\<close>

section \<open>Sign-magnitude byte strings\<close>

text \<open>
  The MPI format is a 4-byte big-endian length and a big-endian magnitude whose top bit is
  the sign. Here it is read from the other end, as \<open>CBigNum::getvch\<close> stores it: little
  endian, the sign in the top bit of the last byte.
\<close>

definition sm_half :: "bytes \<Rightarrow> nat" where
  "sm_half bs = 128 * 256 ^ (length bs - 1)"

definition sm_decode :: "bytes \<Rightarrow> int" where
  "sm_decode bs =
     (if bs = [] then 0
      else if sm_half bs \<le> le_val bs then - int (le_val bs - sm_half bs)
      else int (le_val bs))"

fun sm_len :: "nat \<Rightarrow> nat" where
  "sm_len m = (if m < 128 then 1 else Suc (sm_len (m div 256)))"

declare sm_len.simps [simp del]

definition sm_encode :: "int \<Rightarrow> bytes" where
  "sm_encode n =
     (if n = 0 then []
      else let m = nat \<bar>n\<bar>; k = sm_len m
           in le_bytes k (if n < 0 then m + 128 * 256 ^ (k - 1) else m))"

definition be32 :: "nat \<Rightarrow> bytes" where
  "be32 n = rev (le_bytes 4 n)"

section \<open>The library\<close>

record extlib =
  BN_set_word :: "u64 \<Rightarrow> int"
  BN_get_word :: "int \<Rightarrow> u64"
  BN_add :: "int \<Rightarrow> int \<Rightarrow> int"
  BN_sub :: "int \<Rightarrow> int \<Rightarrow> int"
  BN_mul :: "int \<Rightarrow> int \<Rightarrow> int"
  BN_div :: "int \<Rightarrow> int \<Rightarrow> (int \<times> int) option"
  BN_cmp :: "int \<Rightarrow> int \<Rightarrow> int"
  BN_lshift :: "int \<Rightarrow> nat \<Rightarrow> int"
  BN_rshift :: "int \<Rightarrow> nat \<Rightarrow> int"
  BN_mpi2bn :: "bytes \<Rightarrow> int"
  BN_bn2mpi :: "int \<Rightarrow> bytes"
  SHA1 :: "bytes \<Rightarrow> bytes"
  SHA256 :: "bytes \<Rightarrow> bytes"
  RIPEMD160 :: "bytes \<Rightarrow> bytes"
  EC_o2i :: "bytes \<Rightarrow> bool"
  DER_normalize :: "bytes \<Rightarrow> bytes option"
  ECDSA_verify :: "bytes \<Rightarrow> u256 \<Rightarrow> bytes \<Rightarrow> bool"
  ECDSA_sign :: "bytes \<Rightarrow> bool \<Rightarrow> u256 \<Rightarrow> bytes option"
  EC_pub_of_secret :: "bytes \<Rightarrow> bool \<Rightarrow> bytes"
  AES_encrypt :: "bytes \<Rightarrow> bytes \<Rightarrow> bytes \<Rightarrow> bytes option"
  AES_decrypt :: "bytes \<Rightarrow> bytes \<Rightarrow> bytes \<Rightarrow> bytes option"
  scrypt_asm :: "u32 list \<Rightarrow> u32 list"

text \<open>
  \<open>BIGNUM\<close> values are integers. A number of more than \<open>2\<^sup>3\<^sup>1\<close> bytes does not fit the
  \<open>int\<close> lengths of the interface, so the conversions are specified below that size.
\<close>

definition bn_small :: "int \<Rightarrow> bool" where
  "bn_small n \<longleftrightarrow> length (sm_encode n) < 2147483000"

definition bn_ok :: "('x) extlib_scheme \<Rightarrow> bool" where
  "bn_ok L \<longleftrightarrow>
     (\<forall>w. BN_set_word L w = int (unat w)) \<and>
     (\<forall>n. BN_get_word L n = (if 2 ^ 64 \<le> \<bar>n\<bar> then - 1 else of_nat (nat \<bar>n\<bar>))) \<and>
     (\<forall>a b. BN_add L a b = a + b) \<and>
     (\<forall>a b. BN_sub L a b = a - b) \<and>
     (\<forall>a b. BN_mul L a b = a * b) \<and>
     (\<forall>a b. BN_div L a b =
        (if b = 0 then None
         else let q = sgn a * sgn b * (\<bar>a\<bar> div \<bar>b\<bar>) in Some (q, a - q * b))) \<and>
     (\<forall>a b. BN_cmp L a b = sgn (a - b)) \<and>
     (\<forall>a k. BN_lshift L a k = a * 2 ^ k) \<and>
     (\<forall>a k. BN_rshift L a k = sgn a * (\<bar>a\<bar> div 2 ^ k)) \<and>
     (\<forall>m. length m < 2147483000 \<longrightarrow> BN_mpi2bn L (be32 (length m) @ m) = sm_decode (rev m)) \<and>
     (\<forall>n. bn_small n \<longrightarrow> BN_bn2mpi L n = be32 (length (sm_encode n)) @ rev (sm_encode n))"

definition hash_ok :: "('x) extlib_scheme \<Rightarrow> bool" where
  "hash_ok L \<longleftrightarrow>
     (\<forall>b. length (SHA1 L b) = 20) \<and> (\<forall>b. length (SHA256 L b) = 32) \<and> (\<forall>b. length (RIPEMD160 L b) = 20)"

named_theorems bn_simps \<open>what the big-number library computes\<close>
lemma bn_ok_arith [bn_simps]:
  assumes "bn_ok L"
  shows "BN_set_word L w = int (unat w)"
    and "BN_get_word L n = (if 2 ^ 64 \<le> \<bar>n\<bar> then - 1 else of_nat (nat \<bar>n\<bar>))"
    and "BN_add L a b = a + b"
    and "BN_sub L a b = a - b"
    and "BN_mul L a b = a * b"
    and "BN_cmp L a b = sgn (a - b)"
    and "BN_lshift L a k = a * 2 ^ k"
    and "BN_rshift L a k = sgn a * (\<bar>a\<bar> div 2 ^ k)"
  using assms unfolding bn_ok_def by blast+

lemma bn_ok_div:
  "bn_ok L \<Longrightarrow> BN_div L a b =
     (if b = 0 then None else let q = sgn a * sgn b * (\<bar>a\<bar> div \<bar>b\<bar>) in Some (q, a - q * b))"
  unfolding bn_ok_def by blast

lemma bn_ok_mpi2bn [bn_simps]:
  "bn_ok L \<Longrightarrow> length m < 2147483000 \<Longrightarrow> BN_mpi2bn L (be32 (length m) @ m) = sm_decode (rev m)"
  unfolding bn_ok_def by blast

lemma bn_ok_bn2mpi [bn_simps]:
  "bn_ok L \<Longrightarrow> bn_small n \<Longrightarrow> BN_bn2mpi L n = be32 (length (sm_encode n)) @ rev (sm_encode n)"
  unfolding bn_ok_def by blast

section \<open>A library that meets the documentation\<close>

text \<open>
  The instance the witnesses compute with. Its big numbers are the documented ones; its
  digests and keys are arbitrary functions of the right type (padding instead of hashing),
  since no property rests on what they compute.
\<close>

definition pad_digest :: "nat \<Rightarrow> bytes \<Rightarrow> bytes" where
  "pad_digest n b = take n (b @ replicate n 0)"

definition ref_lib :: extlib where
  "ref_lib = \<lparr>
     BN_set_word = \<lambda>w. int (unat w),
     BN_get_word = \<lambda>n. if 2 ^ 64 \<le> \<bar>n\<bar> then - 1 else of_nat (nat \<bar>n\<bar>),
     BN_add = (+), BN_sub = (-), BN_mul = (*),
     BN_div = \<lambda>a b. if b = 0 then None
       else let q = sgn a * sgn b * (\<bar>a\<bar> div \<bar>b\<bar>) in Some (q, a - q * b),
     BN_cmp = \<lambda>a b. sgn (a - b),
     BN_lshift = \<lambda>a k. a * 2 ^ k,
     BN_rshift = \<lambda>a k. sgn a * (\<bar>a\<bar> div 2 ^ k),
     BN_mpi2bn = \<lambda>b. sm_decode (rev (drop 4 b)),
     BN_bn2mpi = \<lambda>n. be32 (length (sm_encode n)) @ rev (sm_encode n),
     SHA1 = pad_digest 20, SHA256 = pad_digest 32, RIPEMD160 = pad_digest 20,
     EC_o2i = \<lambda>b. b \<noteq> [],
     DER_normalize = Some,
     ECDSA_verify = \<lambda>pub h sig. sig = take 8 pub,
     ECDSA_sign = \<lambda>secret c h. Some (take 8 secret),
     EC_pub_of_secret = \<lambda>secret c. if c then secret @ [1] else secret @ replicate 33 0,
     AES_encrypt = \<lambda>k iv b. Some (b @ k),
     AES_decrypt = \<lambda>k iv b. if length k \<le> length b \<and> drop (length b - length k) b = k
       then Some (take (length b - length k) b) else None,
     scrypt_asm = \<lambda>x. x\<rparr>"

lemma length_be32 [simp]: "length (be32 n) = 4"
  by (simp add: be32_def)

lemma bn_ok_ref: "bn_ok ref_lib"
  by (simp add: bn_ok_def ref_lib_def)

lemma hash_ok_ref: "hash_ok ref_lib"
  by (auto simp: hash_ok_def ref_lib_def pad_digest_def)

text \<open>
  Public keys made from a 32-byte secret are valid, 33 bytes long when compressed and 65
  bytes otherwise; decryption undoes encryption. What the wallet relies on of the curve and
  of AES-256-CBC.
\<close>

definition ec_ok :: "('x) extlib_scheme \<Rightarrow> bool" where
  "ec_ok L \<longleftrightarrow> (\<forall>s c. length s = 32 \<longrightarrow>
     EC_o2i L (EC_pub_of_secret L s c) \<and> length (EC_pub_of_secret L s c) = (if c then 33 else 65))"

definition aes_ok :: "('x) extlib_scheme \<Rightarrow> bool" where
  "aes_ok L \<longleftrightarrow> (\<forall>k iv p c. AES_encrypt L k iv p = Some c \<longrightarrow> AES_decrypt L k iv c = Some p)"

lemma ec_ok_ref: "ec_ok ref_lib"
  by (auto simp: ec_ok_def ref_lib_def)

lemma aes_ok_ref: "aes_ok ref_lib"
  by (auto simp: aes_ok_def ref_lib_def)

section \<open>The two directions of the format\<close>
lemma sm_len_pos [simp]: "0 < sm_len m"
  by (subst sm_len.simps) simp

lemma sm_len_bound: "m < 128 * 256 ^ (sm_len m - 1)"
proof (induction m rule: sm_len.induct)
  case (1 m)
  show ?case
  proof (cases "m < 128")
    case True
    then show ?thesis by (subst sm_len.simps) simp
  next
    case False
    obtain k where k: "sm_len (m div 256) = Suc k" using sm_len_pos [of "m div 256"] by (cases "sm_len (m div 256)") auto
    from 1 [OF False] have "m div 256 < 128 * 256 ^ k" by (simp add: k)
    then have "m < 128 * 256 ^ k * 256" by (simp add: div_less_iff_less_mult)
    moreover have "sm_len m = Suc (Suc k)" using False k by (subst sm_len.simps) simp
    ultimately show ?thesis by simp
  qed
qed

lemma sm_len_least: "Suc k < sm_len m \<Longrightarrow> 128 * 256 ^ k \<le> m"
proof (induction m arbitrary: k rule: sm_len.induct)
  case (1 m)
  have F: "\<not> m < 128"
    using "1.prems" by (subst (asm) sm_len.simps) (auto split: if_splits)
  then have k: "k < sm_len (m div 256)"
    using "1.prems" by (subst (asm) sm_len.simps) simp
  show ?case
  proof (cases k)
    case 0
    with F show ?thesis by simp
  next
    case (Suc j)
    with "1.IH" [OF F, of j] k have "128 * 256 ^ j \<le> m div 256" by simp
    then have "128 * 256 ^ j * 256 \<le> m" by (simp add: less_eq_div_iff_mult_less_eq)
    with Suc show ?thesis by simp
  qed
qed

lemma sm_len_eqI: "m < 128 * 256 ^ k \<Longrightarrow> (0 < k \<Longrightarrow> 128 * 256 ^ (k - 1) \<le> m) \<Longrightarrow> sm_len m = Suc k"
proof (induction k arbitrary: m)
  case 0
  then show ?case by (simp add: sm_len.simps)
next
  case (Suc k)
  have "128 * 256 ^ k \<le> m" using Suc.prems(2) by simp
  moreover have "128 \<le> 128 * (256 :: nat) ^ k" by simp
  ultimately have "128 \<le> m" by (rule order.trans [rotated])
  moreover have "sm_len (m div 256) = Suc k"
  proof (rule Suc.IH)
    show "m div 256 < 128 * 256 ^ k" using Suc.prems(1) by (simp add: div_less_iff_less_mult)
    show "128 * 256 ^ (k - 1) \<le> m div 256" if "0 < k"
      using Suc.prems(2) that by (cases k) (simp_all add: less_eq_div_iff_mult_less_eq)
  qed
  ultimately show ?case by (subst sm_len.simps) simp
qed

lemma length_sm_encode: "length (sm_encode n) = (if n = 0 then 0 else sm_len (nat \<bar>n\<bar>))"
  by (simp add: sm_encode_def Let_def)

lemma sm_half_double: "bs \<noteq> [] \<Longrightarrow> 2 * sm_half bs = 256 ^ length bs"
  by (cases bs) (simp_all add: sm_half_def)

lemma sm_decode_encode: "sm_decode (sm_encode n) = n"
proof (cases "n = 0")
  case True
  then show ?thesis by (simp add: sm_decode_def sm_encode_def)
next
  case False
  define m where "m = nat \<bar>n\<bar>"
  define k where "k = sm_len m"
  define H where "H = 128 * (256 :: nat) ^ (k - 1)"
  have e: "sm_encode n = le_bytes k (if n < 0 then m + H else m)"
    using False by (simp add: sm_encode_def Let_def m_def k_def H_def)
  have k: "0 < k" by (simp add: k_def)
  then have ne: "sm_encode n \<noteq> []" by (metis e length_le_bytes length_0_conv less_irrefl)
  have half: "sm_half (sm_encode n) = H" by (simp add: sm_half_def e H_def)
  have m: "m < H" unfolding H_def k_def by (rule sm_len_bound)
  have "2 * H = 256 ^ k" using sm_half_double [OF ne] unfolding half by (simp add: e)
  then have val: "le_val (sm_encode n) = (if n < 0 then m + H else m)"
    using m by (simp add: e le_val_le_bytes)
  show ?thesis using ne m False by (auto simp: sm_decode_def val half m_def)
qed

text \<open>The strings that are the encoding of a number: no byte is only padding.\<close>

definition sm_minimal :: "bytes \<Rightarrow> bool" where
  "sm_minimal bs \<longleftrightarrow>
     bs = [] \<or> (let m = nat \<bar>sm_decode bs\<bar> in m \<noteq> 0 \<and> sm_len m = length bs)"

lemma sm_encode_decode: "sm_minimal bs \<Longrightarrow> sm_encode (sm_decode bs) = bs"
proof (cases "bs = []")
  case True
  then show ?thesis by (simp add: sm_decode_def sm_encode_def)
next
  case False
  assume "sm_minimal bs"
  with False have m: "nat \<bar>sm_decode bs\<bar> \<noteq> 0" "sm_len (nat \<bar>sm_decode bs\<bar>) = length bs"
    by (auto simp: sm_minimal_def Let_def)
  have "le_bytes (length bs) (if sm_decode bs < 0 then nat \<bar>sm_decode bs\<bar> + sm_half bs
      else nat \<bar>sm_decode bs\<bar>) = bs"
    using False m(1) by (auto simp: sm_decode_def le_bytes_le_val nat_diff_distrib simp flip: of_nat_diff)
  with m show ?thesis by (auto simp: sm_encode_def Let_def sm_half_def)
qed

lemma sm_decode_bound: "bs \<noteq> [] \<Longrightarrow> \<bar>sm_decode bs\<bar> < int (sm_half bs)"
  using le_val_bound [of bs] sm_half_double [of bs] by (auto simp: sm_decode_def)

end
