(* ===== verification/Uint_Base.thy ===== *)
theory Uint_Base
  imports Cbx_Prelude
begin

text \<open>
  The fixed-width integers of \<open>uint256.h\<close>: a \<open>base_uint<BITS>\<close> is an array \<open>pn\<close> of
  \<open>WIDTH = BITS/32\<close> 32-bit limbs, least significant first. The width of a value is the
  length of its limb list (5 for \<open>uint160\<close>, 8 for \<open>uint256\<close>). Every operator is the
  loop of the header; the second half of the theory relates each one to the number the
  limbs denote, modulo \<open>2 ^ BITS\<close>.
\<close>

type_synonym base_uint = "u32 list"

section \<open>Operators\<close>

definition bu_is_zero :: "base_uint \<Rightarrow> bool" where
  "bu_is_zero pn = list_all (\<lambda>x. x = 0) pn"

definition bu_compl :: "base_uint \<Rightarrow> base_uint" where
  "bu_compl pn = map NOT pn"

text \<open>
  \<open>operator++\<close>: \<open>while (++pn[i] == 0 && i < WIDTH-1) i++\<close>. \<open>operator--\<close> is the same
  loop on \<open>--pn[i] == -1\<close>.
\<close>

fun bu_inc :: "base_uint \<Rightarrow> base_uint" where
  "bu_inc [] = []"
| "bu_inc (x # xs) = (if x + 1 = 0 then (x + 1) # bu_inc xs else (x + 1) # xs)"

fun bu_dec :: "base_uint \<Rightarrow> base_uint" where
  "bu_dec [] = []"
| "bu_dec (x # xs) = (if x - 1 = - 1 then (x - 1) # bu_dec xs else (x - 1) # xs)"

definition bu_neg :: "base_uint \<Rightarrow> base_uint" where
  "bu_neg pn = bu_inc (map NOT pn)"

definition bu_assign64 :: "nat \<Rightarrow> u64 \<Rightarrow> base_uint" where
  "bu_assign64 WIDTH b = [ucast b, ucast (drop_bit 32 b)] @ replicate (WIDTH - 2) 0"

definition bu_xor :: "base_uint \<Rightarrow> base_uint \<Rightarrow> base_uint" where
  "bu_xor a b = map2 (XOR) a b"

definition bu_and :: "base_uint \<Rightarrow> base_uint \<Rightarrow> base_uint" where
  "bu_and a b = map2 (AND) a b"

definition bu_or :: "base_uint \<Rightarrow> base_uint \<Rightarrow> base_uint" where
  "bu_or a b = map2 (OR) a b"

definition bu_xor64 :: "base_uint \<Rightarrow> u64 \<Rightarrow> base_uint" where
  "bu_xor64 pn b = (pn[0 := pn ! 0 XOR ucast b])[1 := pn ! 1 XOR ucast (drop_bit 32 b)]"

definition bu_or64 :: "base_uint \<Rightarrow> u64 \<Rightarrow> base_uint" where
  "bu_or64 pn b = (pn[0 := pn ! 0 OR ucast b])[1 := pn ! 1 OR ucast (drop_bit 32 b)]"

text \<open>One iteration of the loop of \<open>operator<<=\<close> (\<open>a\<close> is the copy of the operand).\<close>

definition bu_shl_step :: "base_uint \<Rightarrow> nat \<Rightarrow> nat \<Rightarrow> nat \<Rightarrow> base_uint \<Rightarrow> base_uint" where
  "bu_shl_step a k shift i pn =
     (let pn1 = (if i + k + 1 < length a \<and> shift \<noteq> 0
                 then pn[i + k + 1 := pn ! (i + k + 1) OR drop_bit (32 - shift) (a ! i)] else pn)
      in if i + k < length a then pn1[i + k := pn1 ! (i + k) OR push_bit shift (a ! i)] else pn1)"

definition bu_shl :: "base_uint \<Rightarrow> nat \<Rightarrow> base_uint" where
  "bu_shl a shift =
     fold (bu_shl_step a (shift div 32) (shift mod 32)) [0..<length a] (replicate (length a) 0)"

definition bu_shr_step :: "base_uint \<Rightarrow> nat \<Rightarrow> nat \<Rightarrow> nat \<Rightarrow> base_uint \<Rightarrow> base_uint" where
  "bu_shr_step a k shift i pn =
     (let pn1 = (if k + 1 \<le> i \<and> shift \<noteq> 0
                 then pn[i - k - 1 := pn ! (i - k - 1) OR push_bit (32 - shift) (a ! i)] else pn)
      in if k \<le> i then pn1[i - k := pn1 ! (i - k) OR drop_bit shift (a ! i)] else pn1)"

definition bu_shr :: "base_uint \<Rightarrow> nat \<Rightarrow> base_uint" where
  "bu_shr a shift =
     fold (bu_shr_step a (shift div 32) (shift mod 32)) [0..<length a] (replicate (length a) 0)"

text \<open>\<open>operator+=\<close> with its 64-bit running sum; \<open>operator-=\<close> adds the negation.\<close>

fun bu_add_carry :: "u64 \<Rightarrow> base_uint \<Rightarrow> base_uint \<Rightarrow> base_uint" where
  "bu_add_carry carry (x # xs) (y # ys) =
     (let n = carry + ucast x + ucast y
      in ucast (n AND 0xffffffff) # bu_add_carry (drop_bit 32 n) xs ys)"
| "bu_add_carry carry _ _ = []"

definition bu_add :: "base_uint \<Rightarrow> base_uint \<Rightarrow> base_uint" where
  "bu_add a b = bu_add_carry 0 a b"

definition bu_sub :: "base_uint \<Rightarrow> base_uint \<Rightarrow> base_uint" where
  "bu_sub a b = bu_add a (bu_neg b)"

definition bu_add64 :: "base_uint \<Rightarrow> u64 \<Rightarrow> base_uint" where
  "bu_add64 a b64 = bu_add a (bu_assign64 (length a) b64)"

definition bu_sub64 :: "base_uint \<Rightarrow> u64 \<Rightarrow> base_uint" where
  "bu_sub64 a b64 = bu_add a (bu_neg (bu_assign64 (length a) b64))"

text \<open>
  The comparison loops run from the top limb down; the argument is the number of limbs
  still to compare.
\<close>

fun bu_less_from :: "bool \<Rightarrow> nat \<Rightarrow> base_uint \<Rightarrow> base_uint \<Rightarrow> bool" where
  "bu_less_from eq 0 a b = eq"
| "bu_less_from eq (Suc i) a b =
     (if a ! i < b ! i then True else if b ! i < a ! i then False else bu_less_from eq i a b)"

definition bu_less :: "base_uint \<Rightarrow> base_uint \<Rightarrow> bool" where
  "bu_less a b = bu_less_from False (length a) a b"

definition bu_le :: "base_uint \<Rightarrow> base_uint \<Rightarrow> bool" where
  "bu_le a b = bu_less_from True (length a) a b"

fun bu_greater_from :: "bool \<Rightarrow> nat \<Rightarrow> base_uint \<Rightarrow> base_uint \<Rightarrow> bool" where
  "bu_greater_from eq 0 a b = eq"
| "bu_greater_from eq (Suc i) a b =
     (if b ! i < a ! i then True else if a ! i < b ! i then False else bu_greater_from eq i a b)"

definition bu_greater :: "base_uint \<Rightarrow> base_uint \<Rightarrow> bool" where
  "bu_greater a b = bu_greater_from False (length a) a b"

definition bu_ge :: "base_uint \<Rightarrow> base_uint \<Rightarrow> bool" where
  "bu_ge a b = bu_greater_from True (length a) a b"

fun bu_eq :: "base_uint \<Rightarrow> base_uint \<Rightarrow> bool" where
  "bu_eq (x # xs) (y # ys) = (if x \<noteq> y then False else bu_eq xs ys)"
| "bu_eq _ _ = True"

definition bu_neq :: "base_uint \<Rightarrow> base_uint \<Rightarrow> bool" where
  "bu_neq a b = (\<not> bu_eq a b)"

definition bu_eq64 :: "base_uint \<Rightarrow> u64 \<Rightarrow> bool" where
  "bu_eq64 a b =
     (if a ! 0 \<noteq> ucast b then False
      else if a ! 1 \<noteq> ucast (drop_bit 32 b) then False
      else list_all (\<lambda>x. x = 0) (drop 2 a))"

definition bu_neq64 :: "base_uint \<Rightarrow> u64 \<Rightarrow> bool" where
  "bu_neq64 a b = (\<not> bu_eq64 a b)"

section \<open>Bytes and hexadecimal text\<close>

text \<open>The limbs as they lie in memory, and a memory image read back as limbs.\<close>

definition bu_bytes :: "base_uint \<Rightarrow> bytes" where
  "bu_bytes pn = concat (map (\<lambda>x. le_bytes 4 (unat x)) pn)"

fun bu_of_bytes :: "nat \<Rightarrow> bytes \<Rightarrow> base_uint" where
  "bu_of_bytes 0 bs = []"
| "bu_of_bytes (Suc n) bs = of_nat (le_val (take 4 bs)) # bu_of_bytes n (drop 4 bs)"

definition hex_char :: "nat \<Rightarrow> char" where
  "hex_char n = ''0123456789abcdef'' ! n"

definition bu_GetHex :: "base_uint \<Rightarrow> string" where
  "bu_GetHex pn =
     concat (map (\<lambda>b. [hex_char (unat b div 16), hex_char (unat b mod 16)]) (rev (bu_bytes pn)))"

text \<open>The table \<open>phexdigit\<close>: 0 for every character that is no hexadecimal digit.\<close>

definition phexdigit :: "char \<Rightarrow> byte" where
  "phexdigit c =
     (let n = of_char c :: nat
      in if 48 \<le> n \<and> n \<le> 57 then of_nat (n - 48)
         else if 65 \<le> n \<and> n \<le> 70 then of_nat (n - 55)
         else if 97 \<le> n \<and> n \<le> 102 then of_nat (n - 87) else 0)"

definition isspace :: "char \<Rightarrow> bool" where
  "isspace c = (let n = of_char c :: nat in n = 32 \<or> (9 \<le> n \<and> n \<le> 13))"

text \<open>
  The digits are consumed from the last one backwards, two per byte, until they or the
  \<open>4 * WIDTH\<close> bytes run out.
\<close>

fun hex_fill :: "nat \<Rightarrow> char list \<Rightarrow> bytes" where
  "hex_fill 0 ds = []"
| "hex_fill (Suc n) [] = 0 # hex_fill n []"
| "hex_fill (Suc n) [d] = phexdigit d # hex_fill n []"
| "hex_fill (Suc n) (d # e # ds) = (phexdigit d OR push_bit 4 (phexdigit e)) # hex_fill n ds"

definition skip_0x :: "string \<Rightarrow> string" where
  "skip_0x psz =
     (case psz of c # d # rest \<Rightarrow> if c = CHR ''0'' \<and> (d = CHR ''x'' \<or> d = CHR ''X'') then rest else psz
      | _ \<Rightarrow> psz)"

definition bu_SetHex :: "nat \<Rightarrow> string \<Rightarrow> base_uint" where
  "bu_SetHex WIDTH psz =
     (let pbegin = skip_0x (dropWhile isspace psz);
          digits = takeWhile (\<lambda>c. phexdigit c \<noteq> 0 \<or> c = CHR ''0'') pbegin
      in bu_of_bytes WIDTH (hex_fill (WIDTH * 4) (rev digits)))"

definition bu_Get64 :: "base_uint \<Rightarrow> nat \<Rightarrow> u64" where
  "bu_Get64 pn n = ucast (pn ! (2 * n)) OR push_bit 32 (ucast (pn ! (2 * n + 1)))"

definition bu_of_vch :: "nat \<Rightarrow> bytes \<Rightarrow> base_uint" where
  "bu_of_vch WIDTH vch =
     (if length vch = 4 * WIDTH then bu_of_bytes WIDTH vch else bu_assign64 WIDTH 0)"

section \<open>The number a limb list denotes\<close>

fun uval :: "base_uint \<Rightarrow> nat" where
  "uval [] = 0"
| "uval (x # xs) = unat x + 4294967296 * uval xs"

lemma uval_bound: "uval xs < 4294967296 ^ length xs"
proof (induction xs)
  case Nil
  then show ?case by simp
next
  case (Cons x xs)
  have "unat x + 4294967296 * uval xs < 4294967296 * (uval xs + 1)" by simp
  also have "\<dots> \<le> 4294967296 * 4294967296 ^ length xs"
    using Cons.IH by (intro mult_le_mono2) simp
  finally show ?case by simp
qed

lemma uval_inj: "length xs = length ys \<Longrightarrow> uval xs = uval ys \<Longrightarrow> xs = ys"
proof (induction xs ys rule: list_induct2)
  case Nil
  then show ?case by simp
next
  case (Cons x xs y ys)
  have "unat x = (unat x + 4294967296 * uval xs) mod 4294967296" by simp
  also have "\<dots> = (unat y + 4294967296 * uval ys) mod 4294967296" using Cons.prems by simp
  finally have "unat x = unat y" by simp
  with Cons show ?case by (simp add: word_eq_iff_unat)
qed

lemma uval_replicate_0 [simp]: "uval (replicate n 0) = 0"
  by (induction n) auto

lemma uval_zero_iff: "uval xs = 0 \<longleftrightarrow> list_all (\<lambda>x. x = 0) xs"
  by (induction xs) (auto simp: unat_eq_zero)

text \<open>The arithmetic of one limb: a number below \<open>B * P\<close> is its limb and the rest.\<close>
lemma limb_mod: "((n::nat) + B * m) mod (B * P) = n mod B + B * ((n div B + m) mod P)" if "0 < B"
proof -
  have "(n + B * m) mod (B * P) = B * ((n + B * m) div B mod P) + (n + B * m) mod B"
    by (rule mod_mult2_eq)
  with that show ?thesis by (simp add: add.commute)
qed

subsection \<open>Addition and subtraction\<close>
lemma unat_low32: "unat (ucast (n AND 0xffffffff :: u64) :: u32) = unat n mod 4294967296"
proof -
  have "(0xffffffff :: u64) = mask 32" by (simp add: mask_eq_exp_minus_1)
  then have "n AND 0xffffffff = take_bit 32 n" by (simp add: take_bit_eq_mask)
  then show ?thesis
    by (simp add: unsigned_ucast_eq unsigned_take_bit_eq) (simp add: take_bit_eq_mod)
qed

lemma unat_high32: "unat (drop_bit 32 n :: u64) = unat n div 4294967296"
  by (subst unat_drop_bit_eq) (simp add: drop_bit_eq_div)

lemma unat_up64 [simp]: "unat (ucast (x :: u32) :: u64) = unat x"
  by (rule unat_ucast_up) simp

lemma unat_sum64:
  assumes "unat c \<le> 1"
  shows "unat (c + ucast (x :: u32) + ucast (y :: u32) :: u64) = unat c + unat x + unat y"
proof -
  have "unat c + unat x + unat y < 18446744073709551616"
    using assms unat_u32_lt [of x] unat_u32_lt [of y] by linarith
  then show ?thesis by (simp add: unat_word_ariths)
qed

lemma uval_add_carry:
  "length xs = length ys \<Longrightarrow> unat c \<le> 1 \<Longrightarrow>
   uval (bu_add_carry c xs ys) = (unat c + uval xs + uval ys) mod 4294967296 ^ length xs"
proof (induction c xs ys rule: bu_add_carry.induct)
  case (1 carry x xs y ys)
  define n :: u64 where "n = carry + ucast x + ucast y"
  have un: "unat n = unat carry + unat x + unat y"
    unfolding n_def using "1.prems"(2) by (rule unat_sum64)
  have hi: "unat (drop_bit 32 n) \<le> 1"
    using un "1.prems"(2) unat_u32_lt [of x] unat_u32_lt [of y] unfolding unat_high32 by linarith
  have "uval (bu_add_carry (drop_bit 32 n) xs ys)
      = (unat (drop_bit 32 n) + uval xs + uval ys) mod 4294967296 ^ length xs"
    using "1.prems"(1) hi by (intro "1.IH" [OF n_def]) auto
  then have "uval (bu_add_carry carry (x # xs) (y # ys))
      = (unat n + 4294967296 * (uval xs + uval ys)) mod (4294967296 * 4294967296 ^ length xs)"
    unfolding limb_mod [OF zero_less_numeral] bu_add_carry.simps n_def [symmetric] Let_def
    by (simp add: unat_low32 unat_high32 add.assoc)
  then show ?case by (simp add: un algebra_simps)
qed auto

lemma length_add_carry [simp]: "length (bu_add_carry c xs ys) = min (length xs) (length ys)"
  by (induction c xs ys rule: bu_add_carry.induct) (auto simp: Let_def)

lemma unat_succ: "unat (x + 1 :: u32) = (if unat x = 4294967295 then 0 else unat x + 1)"
proof (cases "unat x = 4294967295")
  case False
  with unat_u32_lt [of x] have "unat x + 1 < 4294967296" by linarith
  with False show ?thesis by (simp add: unat_word_ariths)
qed (simp add: unat_word_ariths)

lemma unat_pred: "unat (x - 1 :: u32) = (if unat x = 0 then 4294967295 else unat x - 1)"
proof (cases "x = 0")
  case False
  then show ?thesis by (simp add: unat_eq_zero unat_minus_one)
qed (simp add: unat_minus_1)

lemma uval_inc: "uval (bu_inc xs) = (uval xs + 1) mod 4294967296 ^ length xs"
proof (induction xs)
  case Nil
  then show ?case by simp
next
  case (Cons x xs)
  have eq: "(uval (x # xs) + 1) mod 4294967296 ^ length (x # xs)
      = (unat x + 1) mod 4294967296
        + 4294967296 * (((unat x + 1) div 4294967296 + uval xs) mod 4294967296 ^ length xs)"
    using limb_mod [of 4294967296 "unat x + 1" "uval xs" "4294967296 ^ length xs"]
    by (simp add: add_ac)
  show ?case
  proof (cases "unat x = 4294967295")
    case True
    then have "x + 1 = 0" by (simp add: word_eq_iff_unat unat_succ)
    with True Cons.IH show ?thesis unfolding eq by (simp add: add.commute)
  next
    case False
    then have "x + 1 \<noteq> 0" by (simp add: word_eq_iff_unat unat_succ)
    moreover have "unat x + 1 < 4294967296" using False unat_u32_lt [of x] by linarith
    ultimately show ?thesis unfolding eq
      using uval_bound [of xs] False by (simp add: unat_succ)
  qed
qed

lemma length_inc [simp]: "length (bu_inc xs) = length xs"
  by (induction xs) auto

lemma length_dec [simp]: "length (bu_dec xs) = length xs"
  by (induction xs) auto

lemma inc_dec: "bu_inc (bu_dec xs) = xs"
  by (induction xs) auto

lemma dec_inc: "bu_dec (bu_inc xs) = xs"
  by (induction xs) (auto simp: add_eq_0_iff2)

lemma uval_compl: "uval (map NOT xs) + uval xs + 1 = 4294967296 ^ length xs"
proof (induction xs)
  case Nil
  then show ?case by simp
next
  case (Cons x xs)
  have "unat (NOT x) + unat x + 1 = 4294967296"
    unfolding unat_NOT using unat_u32_lt [of x] by (simp del: unat_u32_lt)
  with Cons.IH show ?case by simp
qed

lemma uval_neg: "uval (bu_neg xs) = (4294967296 ^ length xs - uval xs) mod 4294967296 ^ length xs"
proof -
  have "uval (map NOT xs) + 1 = 4294967296 ^ length xs - uval xs"
    using uval_compl [of xs] by linarith
  then show ?thesis by (simp add: bu_neg_def uval_inc)
qed

lemma length_neg [simp]: "length (bu_neg xs) = length xs"
  by (simp add: bu_neg_def)

lemma uval_add:
  "length a = length b \<Longrightarrow> uval (bu_add a b) = (uval a + uval b) mod 4294967296 ^ length a"
  by (simp add: bu_add_def uval_add_carry)

lemma length_add [simp]: "length (bu_add a b) = min (length a) (length b)"
  by (simp add: bu_add_def)

lemma length_sub [simp]: "length (bu_sub a b) = min (length a) (length b)"
  by (simp add: bu_sub_def)

lemma uval_sub:
  assumes "length a = length b"
  shows "uval (bu_sub a b) = (uval a + (4294967296 ^ length a - uval b)) mod 4294967296 ^ length a"
  using assms by (simp add: bu_sub_def uval_add uval_neg mod_simps)

lemma length_assign64 [simp]: "2 \<le> n \<Longrightarrow> length (bu_assign64 n b) = n"
  by (simp add: bu_assign64_def)

lemma unat_ucast_64_32: "unat (ucast (b :: u64) :: u32) = unat b mod 4294967296"
  by (simp add: unsigned_ucast_eq take_bit_eq_mod)

lemma uval_assign64: "uval (bu_assign64 n b) = unat b"
proof -
  have "unat b div 4294967296 < 4294967296"
    using unat_u64_lt [of b] by (simp add: div_less_iff_less_mult del: unat_u64_lt)
  then show ?thesis by (simp add: bu_assign64_def unat_ucast_64_32 unat_high32)
qed

lemma uval_append: "uval (xs @ ys) = uval xs + 4294967296 ^ length xs * uval ys"
  by (induction xs) (auto simp: algebra_simps)

subsection \<open>Comparison\<close>
lemma uval_snoc: "uval (xs @ [x]) = uval xs + 4294967296 ^ length xs * unat x"
  by (simp add: uval_append)

lemma limb_order:
  assumes "length xs = length ys" and "unat x < unat y"
  shows "uval (xs @ [x]) < uval (ys @ [y])"
proof -
  have "uval (xs @ [x]) < 4294967296 ^ length xs * (unat x + 1)"
    using uval_bound [of xs] by (simp add: uval_snoc algebra_simps)
  also have "\<dots> \<le> 4294967296 ^ length xs * unat y"
    using assms(2) by (intro mult_le_mono2) simp
  also have "\<dots> \<le> uval (ys @ [y])" using assms(1) by (simp add: uval_snoc)
  finally show ?thesis .
qed

lemma bu_less_from_uval:
  "n \<le> length a \<Longrightarrow> length a = length b \<Longrightarrow>
   bu_less_from e n a b \<longleftrightarrow>
     uval (take n a) < uval (take n b) \<or> (e \<and> uval (take n a) = uval (take n b))"
proof (induction n)
  case 0
  then show ?case by simp
next
  case (Suc n)
  then have ta: "take (Suc n) a = take n a @ [a ! n]" and tb: "take (Suc n) b = take n b @ [b ! n]"
    and len: "length (take n a) = length (take n b)"
    by (simp_all add: take_Suc_conv_app_nth)
  consider "unat (a ! n) < unat (b ! n)" | "unat (b ! n) < unat (a ! n)" | "a ! n = b ! n"
    by (metis linorder_neqE_nat word_eq_iff_unat)
  then show ?case
  proof cases
    case 1
    with limb_order [OF len 1] show ?thesis
      by (simp add: ta tb word_less_nat_alt)
  next
    case 2
    with limb_order [OF len [symmetric] 2] show ?thesis
      by (auto simp: ta tb word_less_nat_alt)
  next
    case 3
    with Suc show ?thesis by (simp add: ta tb uval_snoc)
  qed
qed

lemma bu_greater_from_swap: "bu_greater_from e n a b = bu_less_from e n b a"
  by (induction n) auto

lemma uval_compare:
  assumes "length a = length b"
  shows "bu_less a b \<longleftrightarrow> uval a < uval b" and "bu_le a b \<longleftrightarrow> uval a \<le> uval b"
    and "bu_greater a b \<longleftrightarrow> uval b < uval a" and "bu_ge a b \<longleftrightarrow> uval b \<le> uval a"
  using assms
  by (auto simp: bu_less_def bu_le_def bu_greater_def bu_ge_def bu_greater_from_swap bu_less_from_uval)

lemma bu_eq_iff: "length a = length b \<Longrightarrow> bu_eq a b \<longleftrightarrow> a = b"
  by (induction a b rule: bu_eq.induct) auto

lemma bu_eq64_iff:
  assumes "2 \<le> length a"
  shows "bu_eq64 a b \<longleftrightarrow> a = bu_assign64 (length a) b"
proof -
  obtain x y zs where a: "a = x # y # zs"
    using assms by (metis Suc_le_length_iff numeral_2_eq_2)
  have "list_all (\<lambda>x. x = 0) zs \<longleftrightarrow> zs = replicate (length zs) 0"
    by (induction zs) auto
  then show ?thesis by (auto simp: a bu_eq64_def bu_assign64_def)
qed

subsection \<open>Shifts\<close>
lemma bit_limb_sum:
  assumes "(a::nat) < 2 ^ n"
  shows "bit (a + 2 ^ n * b) m \<longleftrightarrow> (if m < n then bit a m else bit b (m - n))"
proof (cases "m < n")
  case True
  then obtain d where n: "n = m + Suc d" using less_imp_Suc_add by auto
  have "(a + 2 ^ n * b) div 2 ^ m = a div 2 ^ m + 2 * 2 ^ d * b"
    using div_mult_self2 [of "2 ^ m :: nat" a "2 * 2 ^ d * b"]
    by (simp add: n power_add mult.assoc mult.left_commute)
  then show ?thesis using True by (simp add: bit_iff_odd)
next
  case False
  then obtain d where m: "m = n + d" using le_Suc_ex not_less by blast
  have "(a + 2 ^ n * b) div 2 ^ m = b div 2 ^ d"
    using assms by (simp add: m power_add div_mult2_eq)
  then show ?thesis using False by (simp add: bit_iff_odd m)
qed

lemma bit_uval: "bit (uval xs) m \<longleftrightarrow> m div 32 < length xs \<and> bit (xs ! (m div 32)) (m mod 32)"
proof (induction xs arbitrary: m)
  case Nil
  then show ?case by simp
next
  case (Cons x xs)
  have *: "bit (uval (x # xs)) m \<longleftrightarrow> (if m < 32 then bit (unat x) m else bit (uval xs) (m - 32))"
    using bit_limb_sum [of "unat x" 32 "uval xs" m] by simp
  show ?case
  proof (cases "m < 32")
    case True
    then show ?thesis unfolding * by (simp add: bit_unsigned_iff)
  next
    case False
    then have "m div 32 = Suc ((m - 32) div 32)" "m mod 32 = (m - 32) mod 32"
      by (simp_all add: le_div_geq le_mod_geq)
    with False show ?thesis unfolding * using Cons.IH [of "m - 32"] by simp
  qed
qed

lemma length_shl_step [simp]: "length (bu_shl_step a k s i pn) = length pn"
  by (simp add: bu_shl_step_def Let_def)

lemma length_shr_step [simp]: "length (bu_shr_step a k s i pn) = length pn"
  by (simp add: bu_shr_step_def Let_def)

lemma length_fold_steps [simp]:
  "length (fold (bu_shl_step a k s) is pn) = length pn"
  "length (fold (bu_shr_step a k s) is pn) = length pn"
  by (induction "is" arbitrary: pn) auto

lemma length_shl [simp]: "length (bu_shl a n) = length a"
  and length_shr [simp]: "length (bu_shr a n) = length a"
  by (simp_all add: bu_shl_def bu_shr_def)

lemma shl_step_nth:
  assumes "i < length a" and "j < length a" and "length pn = length a"
  shows "bu_shl_step a k s i pn ! j =
    pn ! j OR (if j = i + k then push_bit s (a ! i) else 0)
           OR (if j = i + k + 1 \<and> s \<noteq> 0 then drop_bit (32 - s) (a ! i) else 0)"
  using assms by (auto simp: bu_shl_step_def Let_def nth_list_update)

lemma shr_step_nth:
  assumes "i < length a" and "j < length a" and "length pn = length a"
  shows "bu_shr_step a k s i pn ! j =
    pn ! j OR (if i = j + k then drop_bit s (a ! i) else 0)
           OR (if i = j + k + 1 \<and> s \<noteq> 0 then push_bit (32 - s) (a ! i) else 0)"
  using assms by (auto simp: bu_shr_step_def Let_def nth_list_update)

lemma shl_loop_nth:
  "n \<le> length a \<Longrightarrow> j < length a \<Longrightarrow>
   fold (bu_shl_step a k s) [0..<n] (replicate (length a) 0) ! j =
     (if k \<le> j \<and> j - k < n then push_bit s (a ! (j - k)) else 0) OR
     (if s \<noteq> 0 \<and> k + 1 \<le> j \<and> j - k - 1 < n then drop_bit (32 - s) (a ! (j - k - 1)) else 0)"
proof (induction n)
  case 0
  then show ?case by simp
next
  case (Suc n)
  have step: "fold (bu_shl_step a k s) [0..<Suc n] (replicate (length a) 0) ! j
      = fold (bu_shl_step a k s) [0..<n] (replicate (length a) 0) ! j
          OR (if j = n + k then push_bit s (a ! n) else 0)
          OR (if j = n + k + 1 \<and> s \<noteq> 0 then drop_bit (32 - s) (a ! n) else 0)"
    using Suc.prems by (simp add: shl_step_nth)
  note IH = Suc.IH [OF Suc_leD [OF Suc.prems(1)] Suc.prems(2)]
  consider "j = n + k" | "j = n + k + 1" | "k \<le> j" "j - k < n" | "j < k"
    | "n + k + 1 < j" "\<not> j - k < Suc n" "\<not> j - Suc k < Suc n"
    by linarith
  then show ?case unfolding step IH by cases (simp_all add: or.commute)
qed

lemma shr_loop_nth:
  "n \<le> length a \<Longrightarrow> j < length a \<Longrightarrow>
   fold (bu_shr_step a k s) [0..<n] (replicate (length a) 0) ! j =
     (if j + k < n then drop_bit s (a ! (j + k)) else 0) OR
     (if s \<noteq> 0 \<and> j + k + 1 < n then push_bit (32 - s) (a ! (j + k + 1)) else 0)"
proof (induction n)
  case 0
  then show ?case by simp
next
  case (Suc n)
  have step: "fold (bu_shr_step a k s) [0..<Suc n] (replicate (length a) 0) ! j
      = fold (bu_shr_step a k s) [0..<n] (replicate (length a) 0) ! j
          OR (if n = j + k then drop_bit s (a ! n) else 0)
          OR (if n = j + k + 1 \<and> s \<noteq> 0 then push_bit (32 - s) (a ! n) else 0)"
    using Suc.prems by (simp add: shr_step_nth)
  note IH = Suc.IH [OF Suc_leD [OF Suc.prems(1)] Suc.prems(2)]
  consider "n = j + k" | "n = j + k + 1" | "j + k + 1 < n" | "n < j + k" by linarith
  then show ?case unfolding step IH by cases simp_all
qed

lemma limb_index: "m = 32 * q + r \<Longrightarrow> r < 32 \<Longrightarrow> m div 32 = q \<and> m mod (32 :: nat) = r"
  by auto

lemma shift_index:
  fixes m n :: nat
  defines "j \<equiv> m div 32" and "b \<equiv> m mod 32" and "k \<equiv> n div 32" and "s \<equiv> n mod 32"
  shows "s \<le> b \<Longrightarrow> k \<le> j \<Longrightarrow> n \<le> m \<and> (m - n) div 32 = j - k \<and> (m - n) mod 32 = b - s"
    and "b < s \<Longrightarrow> k < j \<Longrightarrow> n \<le> m \<and> (m - n) div 32 = j - k - 1 \<and> (m - n) mod 32 = b + 32 - s"
    and "s \<le> b \<Longrightarrow> j < k \<Longrightarrow> m < n" and "b < s \<Longrightarrow> j \<le> k \<Longrightarrow> m < n"
    and "s + b < 32 \<Longrightarrow> (m + n) div 32 = j + k \<and> (m + n) mod 32 = s + b"
    and "32 \<le> s + b \<Longrightarrow> (m + n) div 32 = j + k + 1 \<and> (m + n) mod 32 = s + b - 32"
proof -
  have m: "m = 32 * j + b" "b < 32" and n: "n = 32 * k + s" "s < 32"
    by (simp_all add: j_def b_def k_def s_def)
  show "n \<le> m \<and> (m - n) div 32 = j - k \<and> (m - n) mod 32 = b - s" if "s \<le> b" "k \<le> j"
  proof -
    have "n \<le> m" using that m n by linarith
    moreover have "m - n = 32 * (j - k) + (b - s)" using that m n by linarith
    ultimately show ?thesis using limb_index [of "m - n" "j - k" "b - s"] m(2) by linarith
  qed
  show "n \<le> m \<and> (m - n) div 32 = j - k - 1 \<and> (m - n) mod 32 = b + 32 - s" if "b < s" "k < j"
  proof -
    have "n \<le> m" using that m n by linarith
    moreover have "m - n = 32 * (j - k - 1) + (b + 32 - s)" using that m n by linarith
    ultimately show ?thesis using limb_index [of "m - n" "j - k - 1" "b + 32 - s"] that by linarith
  qed
  show "m < n" if "s \<le> b" "j < k" using that m n by linarith
  show "m < n" if "b < s" "j \<le> k" using that m n by linarith
  show "(m + n) div 32 = j + k \<and> (m + n) mod 32 = s + b" if "s + b < 32"
    using limb_index [of "m + n" "j + k" "s + b"] that m n by simp
  show "(m + n) div 32 = j + k + 1 \<and> (m + n) mod 32 = s + b - 32" if "32 \<le> s + b"
    using limb_index [of "m + n" "j + k + 1" "s + b - 32"] that m n by simp
qed

lemma bit_u32_lt: "bit (x :: u32) i \<Longrightarrow> i < 32"
  using bit_imp_le_length [of x i] by simp

lemma bit_shl:
  assumes "m < 32 * length a"
  shows "bit (uval (bu_shl a n)) m \<longleftrightarrow> n \<le> m \<and> bit (uval a) (m - n)"
proof -
  let ?k = "n div 32" and ?s = "n mod 32" and ?j = "m div 32" and ?b = "m mod 32"
  have j: "?j < length a" using assms by (simp add: div_less_iff_less_mult mult.commute)
  have eq: "bit (uval (bu_shl a n)) m \<longleftrightarrow>
      ?k \<le> ?j \<and> ?s \<le> ?b \<and> bit (a ! (?j - ?k)) (?b - ?s) \<or>
      ?s \<noteq> 0 \<and> ?k + 1 \<le> ?j \<and> bit (a ! (?j - ?k - 1)) (32 - ?s + ?b)"
    using j by (auto simp: bit_uval bu_shl_def shl_loop_nth bit_or_iff bit_push_bit_iff bit_drop_bit_eq)
  show ?thesis
  proof (cases "?s \<le> ?b")
    case True
    have out: "\<not> (?s \<noteq> 0 \<and> ?k + 1 \<le> ?j \<and> bit (a ! (?j - ?k - 1)) (32 - ?s + ?b))"
      using True bit_u32_lt [of "a ! (?j - ?k - 1)" "32 - ?s + ?b"] by force
    show ?thesis
    proof (cases "?k \<le> ?j")
      case kj: True
      note ix = shift_index(1) [OF True kj]
      have "?j - ?k < length a" using j by linarith
      with True kj out ix show ?thesis unfolding eq by (auto simp: bit_uval)
    next
      case kj: False
      with shift_index(3) [OF True] have "m < n" by simp
      with kj out show ?thesis unfolding eq by simp
    qed
  next
    case False
    then have bs: "?b < ?s" by simp
    then have s0: "?s \<noteq> 0" "32 - ?s + ?b = ?b + 32 - ?s" by simp_all
    show ?thesis
    proof (cases "?k < ?j")
      case kj: True
      note ix = shift_index(2) [OF bs kj]
      have "?j - ?k - 1 < length a" using j by linarith
      with False kj s0 ix show ?thesis unfolding eq by (simp add: bit_uval)
    next
      case kj: False
      with shift_index(4) [OF bs] have "m < n" by simp
      with kj False show ?thesis unfolding eq by simp
    qed
  qed
qed

lemma bit_shr: "bit (uval (bu_shr a n)) m \<longleftrightarrow> bit (uval a) (m + n)"
proof (cases "m div 32 < length a")
  case False
  then have "\<not> (m + n) div 32 < length a"
    using div_le_mono [of m "m + n" 32] by linarith
  with False show ?thesis by (simp add: bit_uval)
next
  case j: True
  let ?k = "n div 32" and ?s = "n mod 32" and ?j = "m div 32" and ?b = "m mod 32"
  have eq: "bit (uval (bu_shr a n)) m \<longleftrightarrow>
      ?j + ?k < length a \<and> bit (a ! (?j + ?k)) (?s + ?b) \<or>
      ?s \<noteq> 0 \<and> ?j + ?k + 1 < length a \<and> 32 - ?s \<le> ?b \<and> bit (a ! (?j + ?k + 1)) (?b - (32 - ?s))"
    using j by (auto simp: bit_uval bu_shr_def shr_loop_nth bit_or_iff bit_push_bit_iff bit_drop_bit_eq)
  show ?thesis
  proof (cases "?s + ?b < 32")
    case True
    then have "\<not> (?s \<noteq> 0 \<and> 32 - ?s \<le> ?b)" by linarith
    with shift_index(5) [OF True] show ?thesis unfolding eq by (auto simp: bit_uval)
  next
    case False
    then have le: "32 \<le> ?s + ?b" by simp
    have "?s < 32" "?b < 32" by simp_all
    with False have "?s \<noteq> 0" "32 - ?s \<le> ?b" "?b - (32 - ?s) = ?s + ?b - 32" by linarith+
    moreover have "\<not> bit (a ! (?j + ?k)) (?s + ?b)" using False bit_u32_lt by blast
    ultimately show ?thesis using shift_index(6) [OF le] unfolding eq by (simp add: bit_uval)
  qed
qed

lemma uval_shl: "uval (bu_shl a n) = uval a * 2 ^ n mod 4294967296 ^ length a"
proof -
  have "uval (bu_shl a n) = take_bit (32 * length a) (push_bit n (uval a))"
  proof (rule bit_eqI)
    fix m
    show "bit (uval (bu_shl a n)) m \<longleftrightarrow> bit (take_bit (32 * length a) (push_bit n (uval a))) m"
    proof (cases "m < 32 * length a")
      case True
      then show ?thesis by (simp add: bit_shl bit_take_bit_iff bit_push_bit_iff)
    next
      case False
      then show ?thesis by (simp add: bit_uval bit_take_bit_iff div_less_iff_less_mult mult.commute)
    qed
  qed
  then show ?thesis by (simp add: take_bit_eq_mod push_bit_eq_mult power_mult)
qed

lemma uval_shr: "uval (bu_shr a n) = uval a div 2 ^ n"
proof -
  have "uval (bu_shr a n) = drop_bit n (uval a)"
    by (rule bit_eqI) (simp add: bit_shr bit_drop_bit_eq add.commute)
  then show ?thesis by (simp add: drop_bit_eq_div)
qed

subsection \<open>Memory image and hexadecimal text\<close>
lemma length_bu_bytes [simp]: "length (bu_bytes pn) = 4 * length pn"
  by (induction pn) (auto simp: bu_bytes_def)

lemma bu_bytes_Cons: "bu_bytes (x # xs) = le_bytes 4 (unat x) @ bu_bytes xs"
  by (simp add: bu_bytes_def)

lemma length_bu_of_bytes [simp]: "length (bu_of_bytes n bs) = n"
  by (induction n arbitrary: bs) auto

lemma bu_of_bytes_bytes: "length pn = n \<Longrightarrow> bu_of_bytes n (bu_bytes pn) = pn"
proof (induction pn arbitrary: n)
  case Nil
  then show ?case by simp
next
  case (Cons x xs)
  then show ?case by (auto simp: bu_bytes_Cons le_val_le_bytes word_eq_iff_unat unat_of_nat)
qed

lemma le_val_bu_bytes: "le_val (bu_bytes pn) = uval pn"
  by (induction pn) (auto simp: bu_bytes_Cons le_val_append le_val_le_bytes, simp add: bu_bytes_def)

definition hex_char_ok :: "nat \<Rightarrow> bool" where
  "hex_char_ok k \<longleftrightarrow> phexdigit (hex_char k) = of_nat k \<and> \<not> isspace (hex_char k)
     \<and> hex_char k \<noteq> CHR ''x'' \<and> hex_char k \<noteq> CHR ''X''
     \<and> (phexdigit (hex_char k) \<noteq> 0 \<or> hex_char k = CHR ''0'')"

lemma hex_char_ok: "k < 16 \<Longrightarrow> hex_char_ok k"
proof -
  have "list_all hex_char_ok [0..<16]" by code_simp
  then show "k < 16 \<Longrightarrow> hex_char_ok k" by (auto simp: list_all_iff)
qed

lemma byte_nibbles: "(of_nat (unat b mod 16) OR push_bit 4 (of_nat (unat b div 16)) :: byte) = b"
proof -
  have "(of_nat (unat b mod 16) :: byte) = take_bit 4 b"
    by (simp add: word_eq_iff_unat unsigned_take_bit_eq take_bit_eq_mod unat_of_nat unat_mod)
  moreover have "(of_nat (unat b div 16) :: byte) = drop_bit 4 b"
    by (subst word_eq_iff_unat, subst unat_drop_bit_eq)
      (simp add: unat_of_nat take_bit_eq_mod drop_bit_eq_div less_imp_diff_less div_le_dividend order_le_less_trans [OF div_le_dividend])
  moreover have "take_bit 4 b OR push_bit 4 (drop_bit 4 b) = b"
  proof (rule bit_word_eqI)
    fix n show "bit (take_bit 4 b OR push_bit 4 (drop_bit 4 b)) n \<longleftrightarrow> bit b n" if "n < LENGTH(8)"
      using that by (cases "n < 4") (auto simp: bit_or_iff bit_take_bit_iff bit_push_bit_iff bit_drop_bit_eq)
  qed
  ultimately show ?thesis by simp
qed

lemma hex_fill_bytes:
  "hex_fill (length bs)
     (concat (map (\<lambda>b. [hex_char (unat b mod 16), hex_char (unat b div 16)]) bs)) = bs"
proof (induction bs)
  case Nil
  then show ?case by simp
next
  case (Cons b bs)
  have "unat b div 16 < 16" using unat_byte_lt [of b] by (simp add: div_less_iff_less_mult del: unat_byte_lt)
  then have "hex_char_ok (unat b mod 16)" "hex_char_ok (unat b div 16)" by (simp_all add: hex_char_ok)
  with Cons.IH show ?case by (simp add: hex_char_ok_def byte_nibbles)
qed

lemma GetHex_chars: "c \<in> set (bu_GetHex pn) \<Longrightarrow> \<exists>k < 16. c = hex_char k"
proof -
  assume "c \<in> set (bu_GetHex pn)"
  then have "\<exists>b :: byte. c = hex_char (unat b div 16) \<or> c = hex_char (unat b mod 16)"
    by (auto simp: bu_GetHex_def)
  then obtain b :: byte where "c = hex_char (unat b div 16) \<or> c = hex_char (unat b mod 16)" ..
  moreover have "unat b div 16 < 16" using unat_byte_lt [of b] by (simp add: div_less_iff_less_mult del: unat_byte_lt)
  ultimately show ?thesis by (metis mod_less_divisor zero_less_numeral)
qed

lemma hex_prefix_kept:
  assumes "\<And>c. c \<in> set h \<Longrightarrow> \<exists>k < 16. c = hex_char k"
  shows "skip_0x (dropWhile isspace h) = h"
    and "takeWhile (\<lambda>c. phexdigit c \<noteq> 0 \<or> c = CHR ''0'') h = h"
proof -
  have ok: "\<not> isspace c \<and> c \<noteq> CHR ''x'' \<and> c \<noteq> CHR ''X'' \<and> (phexdigit c \<noteq> 0 \<or> c = CHR ''0'')"
    if "c \<in> set h" for c
    using assms [OF that] hex_char_ok unfolding hex_char_ok_def by metis
  then have "dropWhile isspace h = h" by (cases h) auto
  with ok show "skip_0x (dropWhile isspace h) = h"
    by (auto simp: skip_0x_def split: list.splits)
  show "takeWhile (\<lambda>c. phexdigit c \<noteq> 0 \<or> c = CHR ''0'') h = h"
    using ok by (simp add: takeWhile_eq_all_conv)
qed

lemma rev_GetHex:
  "rev (bu_GetHex pn) =
     concat (map (\<lambda>b. [hex_char (unat b mod 16), hex_char (unat b div 16)]) (bu_bytes pn))"
  by (simp add: bu_GetHex_def rev_concat rev_map comp_def)

section \<open>The interface of the integer classes\<close>

text \<open>
  What the rest of the program expects of an unsigned integer of \<open>bits\<close> bits: every
  operation computes the operation on numbers, reduced modulo \<open>2 ^ bits\<close>.
\<close>

locale fixed_uint =
  fixes bits :: nat
    and valid :: "'u \<Rightarrow> bool"
    and val :: "'u \<Rightarrow> nat"
    and add sub :: "'u \<Rightarrow> 'u \<Rightarrow> 'u"
    and shl shr :: "'u \<Rightarrow> nat \<Rightarrow> 'u"
    and less :: "'u \<Rightarrow> 'u \<Rightarrow> bool"
  assumes val_bound: "valid a \<Longrightarrow> val a < 2 ^ bits"
    and val_inj: "valid a \<Longrightarrow> valid b \<Longrightarrow> val a = val b \<Longrightarrow> a = b"
    and valid_add: "valid a \<Longrightarrow> valid b \<Longrightarrow> valid (add a b)"
    and valid_sub: "valid a \<Longrightarrow> valid b \<Longrightarrow> valid (sub a b)"
    and valid_shl: "valid a \<Longrightarrow> valid (shl a n)"
    and valid_shr: "valid a \<Longrightarrow> valid (shr a n)"
    and val_add: "valid a \<Longrightarrow> valid b \<Longrightarrow> val (add a b) = (val a + val b) mod 2 ^ bits"
    and val_sub: "valid a \<Longrightarrow> valid b \<Longrightarrow> val (sub a b) = (val a + (2 ^ bits - val b)) mod 2 ^ bits"
    and val_shl: "valid a \<Longrightarrow> val (shl a n) = val a * 2 ^ n mod 2 ^ bits"
    and val_shr: "valid a \<Longrightarrow> val (shr a n) = val a div 2 ^ n"
    and val_less: "valid a \<Longrightarrow> valid b \<Longrightarrow> less a b \<longleftrightarrow> val a < val b"
begin

lemma add_commute: "valid a \<Longrightarrow> valid b \<Longrightarrow> add a b = add b a"
  by (rule val_inj) (simp_all add: valid_add val_add add.commute)

lemma sub_add_cancel: "valid a \<Longrightarrow> valid b \<Longrightarrow> add (sub a b) b = a"
  using val_bound [of b] val_bound [of a]
  by (intro val_inj) (simp_all add: valid_add valid_sub val_add val_sub mod_simps)

lemma shr_bound: "valid a \<Longrightarrow> n \<le> bits \<Longrightarrow> val (shr a n) < 2 ^ (bits - n)"
  using val_bound [of a]
  by (simp add: val_shr div_less_iff_less_mult flip: power_add)

lemma shr_shl_id: "valid a \<Longrightarrow> val a * 2 ^ n < 2 ^ bits \<Longrightarrow> shr (shl a n) n = a"
  by (intro val_inj) (simp_all add: valid_shl valid_shr val_shl val_shr)

lemma less_total: "valid a \<Longrightarrow> valid b \<Longrightarrow> less a b \<or> a = b \<or> less b a"
  using val_inj [of a b] by (auto simp: val_less)

lemma less_trans: "valid a \<Longrightarrow> valid b \<Longrightarrow> valid c \<Longrightarrow> less a b \<Longrightarrow> less b c \<Longrightarrow> less a c"
  by (simp add: val_less)

end

lemma uval_bound_256: "length a = 8 \<Longrightarrow> uval a < 2 ^ 256"
  and uval_bound_160: "length a = 5 \<Longrightarrow> uval a < 2 ^ 160"
  using uval_bound [of a] by simp_all

lemma unat_minus_mod: "unat (a - b) = (unat a + (2 ^ LENGTH('a) - unat b)) mod 2 ^ LENGTH('a)"
  for a b :: "'a::len word"
proof (cases "unat b \<le> unat a")
  case True
  then have "unat a + (2 ^ LENGTH('a) - unat b) = (unat a - unat b) + 2 ^ LENGTH('a)"
    using unat_lt_2p [of b] by linarith
  then have "(unat a + (2 ^ LENGTH('a) - unat b)) mod 2 ^ LENGTH('a) = unat a - unat b"
    using unat_lt_2p [of a] by (metis less_imp_diff_less mod_add_self2 mod_less)
  with True show ?thesis by (simp add: unat_sub_if_size)
next
  case False
  then have "unat a + (2 ^ LENGTH('a) - unat b) < 2 ^ LENGTH('a)"
    and "unat a + (2 ^ LENGTH('a) - unat b) = unat a + 2 ^ LENGTH('a) - unat b"
    using unat_lt_2p [of b] by linarith+
  with False show ?thesis by (simp add: unat_sub_if_size word_size)
qed

interpretation u256: fixed_uint 256 "\<lambda>a. length a = 8" uval bu_add bu_sub bu_shl bu_shr bu_less
  by unfold_locales
    (auto simp: uval_add uval_sub uval_shl uval_shr uval_compare uval_inj intro: uval_bound_256 [simplified])

interpretation u160: fixed_uint 160 "\<lambda>a. length a = 5" uval bu_add bu_sub bu_shl bu_shr bu_less
  by unfold_locales
    (auto simp: uval_add uval_sub uval_shl uval_shr uval_compare uval_inj intro: uval_bound_160 [simplified])

text \<open>
  The 256-bit words the other theories use for hashes satisfy the same contract, so a
  limb list and the word of the same value are interchangeable.
\<close>

interpretation w256: fixed_uint 256 "\<lambda>a :: u256. True" unat "(+)" "(-)"
  "\<lambda>a n. push_bit n a" "\<lambda>a n. drop_bit n a" "(<)"
proof unfold_locales
  fix a b :: u256 and n
  show "unat a < 2 ^ 256" using unat_lt_2p [of a] by simp
  show "unat a = unat b \<Longrightarrow> a = b" by (simp add: word_eq_iff_unat)
  show "unat (a + b) = (unat a + unat b) mod 2 ^ 256" by (simp add: unat_word_ariths)
  show "unat (a - b) = (unat a + (2 ^ 256 - unat b)) mod 2 ^ 256"
    using unat_minus_mod [of a b] by simp
  show "unat (push_bit n a) = unat a * 2 ^ n mod 2 ^ 256"
    by (subst unsigned_push_bit_eq) (simp add: take_bit_eq_mod push_bit_eq_mult)
  show "unat (drop_bit n a) = unat a div 2 ^ n"
    by (subst unat_drop_bit_eq) (simp add: drop_bit_eq_div)
  show "a < b \<longleftrightarrow> unat a < unat b" by (simp add: word_less_nat_alt)
qed auto

definition word_of_bu :: "base_uint \<Rightarrow> u256" where
  "word_of_bu pn = of_nat (uval pn)"

section \<open>Properties\<close>

text \<open>The limb loops of \<open>base_uint\<close> compute modulo the width: addition with carry,
  subtraction through the two's complement, the shifts that move whole limbs and bits, and
  the comparison from the top limb down are those of the numbers the limbs denote.\<close>
theorem base_uint_arithmetic:
  assumes "length a = length b"
  shows "uval (bu_add a b) = (uval a + uval b) mod 2 ^ (32 * length a)
    \<and> uval (bu_sub a b) = (uval a + 2 ^ (32 * length a) - uval b) mod 2 ^ (32 * length a)
    \<and> uval (bu_shl a n) = uval a * 2 ^ n mod 2 ^ (32 * length a)
    \<and> uval (bu_shr a n) = uval a div 2 ^ n
    \<and> (bu_less a b \<longleftrightarrow> uval a < uval b) \<and> (bu_le a b \<longleftrightarrow> uval a \<le> uval b)
    \<and> (bu_greater a b \<longleftrightarrow> uval a > uval b) \<and> (bu_ge a b \<longleftrightarrow> uval a \<ge> uval b)"
proof -
  have p: "(2 :: nat) ^ (32 * k) = 4294967296 ^ k" for k by (simp add: power_mult)
  have "uval b \<le> 4294967296 ^ length a" using uval_bound [of b] assms by simp
  then show ?thesis
    unfolding p by (simp add: uval_add uval_sub uval_shl uval_shr uval_compare assms)
qed

theorem base_uint_arithmetic_witness:
  "uval (bu_add [4294967295, 1] [1, 2]) = 17179869184 \<and> bu_less [4294967295, 1] [1, 2]"
  using base_uint_arithmetic [of "[4294967295, 1]" "[1, 2]"] by (simp add: uval.simps)

text \<open>Reading back the hexadecimal text of an integer of any width gives the integer.\<close>
theorem uint_hex_roundtrip: "bu_SetHex (length pn) (bu_GetHex pn) = pn"
proof -
  have h: "skip_0x (dropWhile isspace (bu_GetHex pn)) = bu_GetHex pn"
    "takeWhile (\<lambda>c. phexdigit c \<noteq> 0 \<or> c = CHR ''0'') (bu_GetHex pn) = bu_GetHex pn"
    by (rule hex_prefix_kept, erule GetHex_chars)+
  show ?thesis
    using hex_fill_bytes [of "bu_bytes pn"]
    by (simp only: bu_SetHex_def h Let_def rev_GetHex)
      (simp add: bu_of_bytes_bytes mult.commute)
qed

end
