(* ===== verification/Bignum.thy ===== *)
theory Bignum
  imports Extern Uint_Base
begin

text \<open>
  \<open>CBigNum\<close> of \<open>bignum.h\<close>: the conversions the class writes itself (64-bit and 256-bit
  integers, byte vectors, the compact form of a target, hexadecimal) through the buffer it
  hands to \<open>BN_mpi2bn\<close> or gets from \<open>BN_bn2mpi\<close>, and its operators. A \<open>CBigNum\<close> is the
  integer it holds. An operator that throws returns \<open>None\<close>.
\<close>

section \<open>Machine integers\<close>

definition setulong :: "extlib \<Rightarrow> u64 \<Rightarrow> int" where "setulong L n = BN_set_word L n"
definition getulong :: "extlib \<Rightarrow> int \<Rightarrow> u64" where "getulong L b = BN_get_word L b"
definition getuint :: "extlib \<Rightarrow> int \<Rightarrow> u32" where "getuint L b = ucast (BN_get_word L b)"

definition getint :: "extlib \<Rightarrow> int \<Rightarrow> int" where
  "getint L b =
     (let n = BN_get_word L b
      in if \<not> b < 0 then if 2147483647 < n then 2147483647 else int (unat n)
         else if 2147483647 < n then - 2147483648 else - int (unat n))"

text \<open>The bytes of \<open>n\<close>, the top one first: \<open>c = (n >> 56) & 0xff; n <<= 8\<close>.\<close>

fun be_loop :: "nat \<Rightarrow> u64 \<Rightarrow> bytes" where
  "be_loop 0 n = []"
| "be_loop (Suc k) n = ucast (drop_bit 56 n AND 0xff) # be_loop k (push_bit 8 n)"

text \<open>
  The loop that drops leading zero bytes and puts the sign into the top bit, in a byte of
  its own when that bit is taken.
\<close>

fun mpi_body :: "bool \<Rightarrow> bytes \<Rightarrow> bytes" where
  "mpi_body fNegative [] = []"
| "mpi_body fNegative (c # cs) =
     (if c = 0 then mpi_body fNegative cs
      else if c AND 0x80 \<noteq> 0 then (if fNegative then 0x80 else 0) # c # cs
      else if fNegative then (c OR 0x80) # cs
      else c # cs)"

definition mpi_size :: "u32 \<Rightarrow> bytes" where
  "mpi_size nSize =
     [ucast (drop_bit 24 nSize AND 0xff), ucast (drop_bit 16 nSize AND 0xff),
      ucast (drop_bit 8 nSize AND 0xff), ucast (nSize AND 0xff)]"

definition mpi_buffer :: "bytes \<Rightarrow> bytes" where
  "mpi_buffer p = mpi_size (of_nat (length p)) @ p"

definition setint64 :: "extlib \<Rightarrow> int \<Rightarrow> int" where
  "setint64 L sn =
     (let fNegative = (sn < 0);
          n = (if fNegative then of_int (- (sn + 1)) + 1 else of_int sn)
      in BN_mpi2bn L (mpi_buffer (mpi_body fNegative (be_loop 8 n))))"

definition setuint64 :: "extlib \<Rightarrow> u64 \<Rightarrow> int" where
  "setuint64 L n = BN_mpi2bn L (mpi_buffer (mpi_body False (be_loop 8 n)))"

definition setuint256 :: "extlib \<Rightarrow> u256 \<Rightarrow> int" where
  "setuint256 L n = BN_mpi2bn L (mpi_buffer (mpi_body False (rev (le_bytes 32 (unat n)))))"

text \<open>
  The other direction clears the sign bit and copies the last bytes of the buffer, at most
  as many as the result holds, from the low end.
\<close>

definition mpi_low_bytes :: "extlib \<Rightarrow> nat \<Rightarrow> int \<Rightarrow> bytes" where
  "mpi_low_bytes L k b =
     (let vch = BN_bn2mpi L b
      in if length vch < 4 then []
         else let vch = (if 4 < length vch then vch[4 := vch ! 4 AND 0x7f] else vch)
              in take k (rev (drop 4 vch)))"

definition getuint64 :: "extlib \<Rightarrow> int \<Rightarrow> u64" where
  "getuint64 L b = of_nat (le_val (mpi_low_bytes L 8 b))"

definition getuint256 :: "extlib \<Rightarrow> int \<Rightarrow> u256" where
  "getuint256 L b = of_nat (le_val (mpi_low_bytes L 32 b))"

text \<open>\<open>CBigNum(int n)\<close>.\<close>

definition bn_of_int :: "extlib \<Rightarrow> int \<Rightarrow> int" where
  "bn_of_int L n = (if 0 \<le> n then setulong L (of_int n) else setint64 L n)"

section \<open>Byte vectors\<close>

definition setvch :: "extlib \<Rightarrow> bytes \<Rightarrow> int" where
  "setvch L vch = BN_mpi2bn L (mpi_size (of_nat (length vch)) @ rev vch)"

definition getvch :: "extlib \<Rightarrow> int \<Rightarrow> bytes" where
  "getvch L b =
     (let vch = BN_bn2mpi L b in if length vch \<le> 4 then [] else rev (drop 4 vch))"

section \<open>Compact targets\<close>

definition SetCompact :: "extlib \<Rightarrow> u32 \<Rightarrow> int" where
  "SetCompact L nCompact =
     (let nSize = unat (drop_bit 24 nCompact);
          vch = (replicate (4 + nSize) (0 :: byte))[3 := of_nat nSize];
          vch = (if 1 \<le> nSize then vch[4 := ucast (drop_bit 16 nCompact AND 0xff)] else vch);
          vch = (if 2 \<le> nSize then vch[5 := ucast (drop_bit 8 nCompact AND 0xff)] else vch);
          vch = (if 3 \<le> nSize then vch[6 := ucast (nCompact AND 0xff)] else vch)
      in BN_mpi2bn L vch)"

definition GetCompact :: "extlib \<Rightarrow> int \<Rightarrow> u32" where
  "GetCompact L b =
     (let vch = BN_bn2mpi L b;
          nSize = length vch - 4;
          nCompact = push_bit 24 (of_nat nSize);
          nCompact = (if 1 \<le> nSize then nCompact OR push_bit 16 (ucast (vch ! 4)) else nCompact);
          nCompact = (if 2 \<le> nSize then nCompact OR push_bit 8 (ucast (vch ! 5)) else nCompact);
          nCompact = (if 3 \<le> nSize then nCompact OR ucast (vch ! 6) else nCompact)
      in nCompact)"

section \<open>Operators\<close>

text \<open>
  \<open>+ - * << == < \<dots>\<close> pass their operands on to the library. Division throws when the
  library reports an error, and \<open>>>=\<close> gives 0 when the operand is below \<open>2\<^sup>s\<^sup>h\<^sup>i\<^sup>f\<^sup>t\<close>.
\<close>

definition bn_shr :: "extlib \<Rightarrow> int \<Rightarrow> nat \<Rightarrow> int" where
  "bn_shr L b shift =
     (let a = BN_lshift L (bn_of_int L 1) shift
      in if 0 < BN_cmp L a b then bn_of_int L 0 else BN_rshift L b shift)"

definition bn_div :: "extlib \<Rightarrow> int \<Rightarrow> int \<Rightarrow> int option" where
  "bn_div L a b = (case BN_div L a b of None \<Rightarrow> None | Some (q, r) \<Rightarrow> Some q)"

definition bn_mod :: "extlib \<Rightarrow> int \<Rightarrow> int \<Rightarrow> int option" where
  "bn_mod L a b = (case BN_div L a b of None \<Rightarrow> None | Some (q, r) \<Rightarrow> Some r)"

definition bn_uminus :: "int \<Rightarrow> int" where
  "bn_uminus a = - a"

definition bn_eq :: "extlib \<Rightarrow> int \<Rightarrow> int \<Rightarrow> bool" where "bn_eq L a b = (BN_cmp L a b = 0)"
definition bn_neq :: "extlib \<Rightarrow> int \<Rightarrow> int \<Rightarrow> bool" where "bn_neq L a b = (BN_cmp L a b \<noteq> 0)"
definition bn_le :: "extlib \<Rightarrow> int \<Rightarrow> int \<Rightarrow> bool" where "bn_le L a b = (BN_cmp L a b \<le> 0)"
definition bn_ge :: "extlib \<Rightarrow> int \<Rightarrow> int \<Rightarrow> bool" where "bn_ge L a b = (0 \<le> BN_cmp L a b)"
definition bn_lt :: "extlib \<Rightarrow> int \<Rightarrow> int \<Rightarrow> bool" where "bn_lt L a b = (BN_cmp L a b < 0)"
definition bn_gt :: "extlib \<Rightarrow> int \<Rightarrow> int \<Rightarrow> bool" where "bn_gt L a b = (0 < BN_cmp L a b)"

section \<open>What the operators compute\<close>
lemma setulong_int [bn_simps]: "bn_ok L \<Longrightarrow> setulong L n = int (unat n)"
  by (simp add: setulong_def bn_simps)

lemma bn_cmp_ops [bn_simps]:
  assumes "bn_ok L"
  shows "bn_eq L a b \<longleftrightarrow> a = b" and "bn_neq L a b \<longleftrightarrow> a \<noteq> b" and "bn_le L a b \<longleftrightarrow> a \<le> b"
    and "bn_ge L a b \<longleftrightarrow> b \<le> a" and "bn_lt L a b \<longleftrightarrow> a < b" and "bn_gt L a b \<longleftrightarrow> b < a"
  by (auto simp: bn_eq_def bn_neq_def bn_le_def bn_ge_def bn_lt_def bn_gt_def
      bn_simps [OF assms] sgn_if)

lemma bn_div_nonneg [bn_simps]:
  assumes "bn_ok L" and "0 \<le> a" and "0 < b"
  shows "bn_div L a b = Some (a div b)" and "bn_mod L a b = Some (a mod b)"
  using assms
  by (auto simp: bn_div_def bn_mod_def bn_ok_div Let_def sgn_if minus_div_mult_eq_mod)

lemma bn_div_zero: "bn_ok L \<Longrightarrow> bn_div L a 0 = None \<and> bn_mod L a 0 = None"
  by (simp add: bn_div_def bn_mod_def bn_ok_div)

lemma getint_clamp:
  assumes "bn_ok L"
  shows "getint L n = (if 2147483647 < n then 2147483647
    else if n < - 2147483647 then - 2147483648 else n)"
proof -
  have "unat (BN_get_word L n) = (if 2 ^ 64 \<le> \<bar>n\<bar> then 2 ^ 64 - 1 else nat \<bar>n\<bar>)"
    using unat_of_nat_small [of "nat \<bar>n\<bar>", where 'a = 64]
    by (auto simp: bn_simps [OF assms] unat_minus_1 simp del: of_nat_nat)
  then show ?thesis
    by (auto simp: getint_def Let_def word_less_nat_alt)
qed

section \<open>Buffers\<close>
lemma and_ff: "x AND 0xff = take_bit 8 (x :: 'a::len word)"
  by (simp add: take_bit_eq_mask mask_eq_exp_minus_1)

lemma unat_low_byte: "unat (ucast (x AND 0xff) :: byte) = unat (x :: 'a::len word) mod 256"
  by (simp only: and_ff unsigned_ucast_eq unsigned_take_bit_eq) (simp add: take_bit_eq_mod)

lemma unat_drop_bit_div: "unat (drop_bit k (w :: 'a::len word)) = unat w div 2 ^ k"
  by (subst unat_drop_bit_eq) (simp add: drop_bit_eq_div)

lemma mod_div_mod: "(n :: nat) mod (d * (256 * e)) div d mod 256 = n div d mod 256"
  by (cases "d = 0") (simp_all add: mod_mult2_eq [of n d] mod_mod_cancel)

lemma mpi_size_be32: "mpi_size (of_nat n) = be32 n"
proof -
  have "unat (of_nat n :: u32) = n mod 4294967296"
    by (simp add: unat_of_nat take_bit_eq_mod)
  then show ?thesis
    using mod_div_mod [of n "2 ^ 24" 1] mod_div_mod [of n "2 ^ 16" 256]
      mod_div_mod [of n "2 ^ 8" "256 * 256"] mod_div_mod [of n 1 "256 * 256 * 256"]
    by (simp add: mpi_size_def be32_def word_eq_iff_unat unat_low_byte unat_drop_bit_div
        unat_of_nat_byte le_bytes_numeral div_mult2_eq [symmetric])
qed

lemma length_mpi_body: "length (mpi_body neg cs) \<le> length cs + 1"
  by (induction cs) auto

section \<open>The sign bit\<close>
lemma byte_sign_bit: "(c :: byte) AND 0x80 \<noteq> 0 \<longleftrightarrow> 128 \<le> unat c"
proof -
  have "c AND 0x80 = 0 \<longleftrightarrow> \<not> bit c 7"
    using and_exp_eq_0_iff_not_bit [of c 7] by simp
  moreover have "bit c 7 \<longleftrightarrow> odd (unat c div 128)"
  proof -
    have "bit c 7 = bit (unat c) 7" by (simp add: bit_unsigned_iff)
    also have "\<dots> = odd (unat c div 2 ^ 7)" by (rule bit_iff_odd)
    finally show ?thesis by simp
  qed
  moreover have "unat c div 128 < 2" using unat_byte_lt [of c] by linarith
  ultimately show ?thesis by (auto simp: less_2_cases_iff)
qed

lemma byte_set_sign: "(c :: byte) AND 0x80 = 0 \<Longrightarrow> unat (c OR 0x80) = unat c + 128"
proof -
  assume a: "c AND 0x80 = 0"
  then have "unat c < 128" using byte_sign_bit [of c] by simp
  moreover have "c OR 0x80 = c + 0x80"
    using a by (simp add: disjunctive_add bit_eq_iff bit_simps)
  ultimately show ?thesis by (simp add: unat_word_ariths)
qed

lemma byte_clear_sign: "unat ((c :: byte) AND 0x7f) = unat c mod 128"
proof -
  have "c AND 0x7f = take_bit 7 c" by (simp add: take_bit_eq_mask mask_eq_exp_minus_1)
  then show ?thesis by (simp only: unsigned_take_bit_eq) (simp add: take_bit_eq_mod)
qed

lemma sm_half_snoc: "sm_half (bs @ [b]) = 128 * 256 ^ length bs"
  by (simp add: sm_half_def)

lemma sm_decode_snoc:
  "sm_decode (bs @ [b]) =
     (if 128 \<le> unat b then - int (le_val bs + 256 ^ length bs * (unat b - 128))
      else int (le_val bs + 256 ^ length bs * unat b))"
proof -
  have v: "le_val (bs @ [b]) = le_val bs + 256 ^ length bs * unat b"
    by (simp add: le_val_append)
  have "128 * 256 ^ length bs \<le> le_val (bs @ [b]) \<longleftrightarrow> 128 \<le> unat b"
  proof (cases "128 \<le> unat b")
    case True
    then have "256 ^ length bs * 128 \<le> 256 ^ length bs * unat b" by (rule mult_le_mono2)
    then have "128 * 256 ^ length bs \<le> le_val bs + 256 ^ length bs * unat b"
      by (intro trans_le_add2) (simp add: mult.commute)
    with True show ?thesis by (simp add: v)
  next
    case False
    then have "256 ^ length bs * unat b \<le> 256 ^ length bs * 127" by (intro mult_le_mono2) simp
    then have "le_val bs + 256 ^ length bs * unat b < 128 * 256 ^ length bs"
      using le_val_bound [of bs] by linarith
    with False show ?thesis by (simp add: v)
  qed
  then show ?thesis
    by (simp add: sm_decode_def sm_half_snoc v) (simp add: algebra_simps of_nat_diff)
qed

lemma sm_decode_mpi_body:
  "sm_decode (rev (mpi_body neg cs)) = (if neg then - int (le_val (rev cs)) else int (le_val (rev cs)))"
proof (induction cs)
  case Nil
  then show ?case by (simp add: sm_decode_def)
next
  case (Cons c cs)
  consider "c = 0" | "c \<noteq> 0" "c AND 0x80 \<noteq> 0" | "c \<noteq> 0" "c AND 0x80 = 0" by blast
  then show ?case
  proof cases
    case 1
    with Cons.IH show ?thesis by (simp add: le_val_append)
  next
    case 2
    have "sm_decode ((rev cs @ [c]) @ [if neg then 0x80 else 0]) =
        (if neg then - int (le_val (rev cs @ [c])) else int (le_val (rev cs @ [c])))"
      unfolding sm_decode_snoc by simp
    with 2 show ?thesis by simp
  next
    case 3
    then have "unat c < 128" using byte_sign_bit [of c] by simp
    with 3 show ?thesis
      by (auto simp: sm_decode_snoc byte_set_sign le_val_append)
  qed
qed

lemma mpi_buffer_value:
  "bn_ok L \<Longrightarrow> length p < 2147483000 \<Longrightarrow> BN_mpi2bn L (mpi_buffer p) = sm_decode (rev p)"
  by (simp add: mpi_buffer_def mpi_size_be32 bn_simps)

lemma be_loop_numeral:
  "be_loop (numeral k) n =
     ucast (drop_bit 56 n AND 0xff) # be_loop (pred_numeral k) (push_bit 8 n)"
  using numeral_eq_Suc [of k] by (metis be_loop.simps(2))

lemma shifted_top_byte:
  "i \<le> 56 \<Longrightarrow> ucast (drop_bit 56 (push_bit i (n :: u64)) AND 0xff) = (ucast (drop_bit (56 - i) n) :: byte)"
  by (rule bit_word_eqI) (auto simp: and_ff bit_simps)

lemma byte_of_div: "(of_nat (unat (n :: u64) div 2 ^ k) :: byte) = ucast (drop_bit k n)"
  by (simp only: word_eq_iff_unat unat_of_nat_byte)
     (simp add: unsigned_ucast_eq take_bit_eq_mod unat_drop_bit_div)

lemma length_be_loop [simp]: "length (be_loop k n) = k"
  by (induction k n rule: be_loop.induct) auto

lemma be_loop_bytes: "rev (be_loop 8 n) = le_bytes 8 (unat n)"
  using shifted_top_byte [of 0 n] byte_of_div [of n 0] byte_of_div [of n 8] byte_of_div [of n 16]
    byte_of_div [of n 24] byte_of_div [of n 32] byte_of_div [of n 40] byte_of_div [of n 48]
    byte_of_div [of n 56]
  by (simp add: le_bytes_numeral div_mult2_eq [symmetric] shifted_top_byte push_bit_push_bit
      be_loop_numeral)

section \<open>What the conversions compute\<close>
lemma setuint64_value [bn_simps]: "bn_ok L \<Longrightarrow> setuint64 L n = int (unat n)"
  using length_mpi_body [of False "be_loop 8 n"] le_val_le_bytes [of 8 "unat n"]
  by (simp add: setuint64_def mpi_buffer_value sm_decode_mpi_body be_loop_bytes)

lemma setint64_value [bn_simps]:
  assumes "bn_ok L" and "- (2 ^ 63) \<le> n" and "n < 2 ^ 63"
  shows "setint64 L n = n"
proof -
  let ?w = "if n < 0 then of_int (- (n + 1)) + 1 else of_int n :: u64"
  have "(of_int (- (n + 1)) + 1 :: u64) = of_int (- n)" by simp
  then have w: "?w = of_int \<bar>n\<bar>" by auto
  have u: "unat (of_int \<bar>n\<bar> :: u64) = nat \<bar>n\<bar>"
    using assms(2,3) unat_of_nat_small [of "nat \<bar>n\<bar>", where 'a = 64] by simp
  have "le_val (le_bytes 8 (unat ?w)) = nat \<bar>n\<bar>"
    unfolding w u using assms(2,3) by (simp add: le_val_le_bytes)
  then have "sm_decode (rev (mpi_body (n < 0) (be_loop 8 ?w))) = n"
    by (simp only: sm_decode_mpi_body be_loop_bytes) simp
  moreover have "length (mpi_body (n < 0) (be_loop 8 ?w)) < 2147483000"
    using length_mpi_body [of "n < 0" "be_loop 8 ?w"] by simp
  ultimately show ?thesis
    by (simp only: setint64_def Let_def mpi_buffer_value [OF assms(1)])
qed

lemma setuint256_value [bn_simps]: "bn_ok L \<Longrightarrow> setuint256 L n = int (unat n)"
  using length_mpi_body [of False "rev (le_bytes 32 (unat n))"] le_val_le_bytes [of 32 "unat n"]
    unat_lt_2p [of n]
  by (simp add: setuint256_def mpi_buffer_value sm_decode_mpi_body)

lemma bn_of_int_value [bn_simps]:
  assumes "bn_ok L" and "- (2 ^ 63) \<le> n" and "n < 2 ^ 63"
  shows "bn_of_int L n = n"
  using assms by (auto simp: bn_of_int_def bn_simps unsigned_of_int take_bit_int_eq_self)

lemma bn_shr_value:
  "bn_ok L \<Longrightarrow> bn_shr L b k = (if 2 ^ k \<le> b then b div 2 ^ k else 0)"
  using zero_less_power [of "2 :: int" k]
  by (auto simp: bn_shr_def bn_simps Let_def sgn_if simp del: zero_less_power)

lemma setvch_value [bn_simps]:
  "bn_ok L \<Longrightarrow> length v < 2147483000 \<Longrightarrow> setvch L v = sm_decode v"
  using bn_ok_mpi2bn [of L "rev v"] by (simp add: setvch_def mpi_size_be32)

lemma getvch_value [bn_simps]: "bn_ok L \<Longrightarrow> bn_small n \<Longrightarrow> getvch L n = sm_encode n"
  by (auto simp: getvch_def bn_simps Let_def)

lemma le_val_take: "le_val (take k xs) = le_val xs mod 256 ^ k"
proof (induction xs arbitrary: k)
  case Nil
  then show ?case by simp
next
  case (Cons b xs)
  show ?case
  proof (cases k)
    case 0
    then show ?thesis by simp
  next
    case (Suc j)
    have "(unat b + 256 * le_val xs) mod (256 * 256 ^ j) =
        256 * ((unat b + 256 * le_val xs) div 256 mod 256 ^ j) + (unat b + 256 * le_val xs) mod 256"
      by (rule mod_mult2_eq)
    with Cons.IH [of j] show ?thesis by (simp add: Suc)
  qed
qed

lemma le_val_clear_sign:
  assumes "bs \<noteq> []"
  shows "le_val (butlast bs @ [last bs AND 0x7f]) = nat \<bar>sm_decode bs\<bar>"
proof -
  obtain xs b where bs: "bs = xs @ [b]" using assms by (metis append_butlast_last_id)
  have "unat b mod 128 = (if 128 \<le> unat b then unat b - 128 else unat b)"
  proof (cases "128 \<le> unat b")
    case True
    moreover have "unat b - 128 < 128" using unat_byte_lt [of b] by linarith
    ultimately show ?thesis by (simp add: le_mod_geq)
  qed simp
  then have "le_val (xs @ [b AND 0x7f]) =
      (if 128 \<le> unat b then le_val xs + 256 ^ length xs * (unat b - 128)
       else le_val xs + 256 ^ length xs * unat b)"
    by (simp add: le_val_append byte_clear_sign del: unsigned_and_eq)
  then show ?thesis by (simp only: bs butlast_snoc last_snoc sm_decode_snoc abs_minus_cancel
        abs_of_nat nat_int split: if_split) blast
qed

lemma mpi_low_bytes_value:
  assumes "bn_ok L" and "bn_small b"
  shows "le_val (mpi_low_bytes L k b) = nat \<bar>b\<bar> mod 256 ^ k"
proof (cases "sm_encode b = []")
  case True
  then have "b = 0" using sm_decode_encode [of b] by (simp add: sm_decode_def)
  moreover have "BN_bn2mpi L b = be32 0"
    using True by (simp add: bn_ok_bn2mpi [OF assms])
  ultimately show ?thesis by (simp add: mpi_low_bytes_def Let_def)
next
  case False
  then obtain xs c where e: "sm_encode b = xs @ [c]" by (metis append_butlast_last_id)
  have "mpi_low_bytes L k b = take k (xs @ [c AND 0x7f])"
    by (simp add: mpi_low_bytes_def bn_simps assms Let_def e nth_append list_update_append)
  also have "xs @ [c AND 0x7f] = butlast (sm_encode b) @ [last (sm_encode b) AND 0x7f]"
    by (simp add: e)
  finally show ?thesis
    using le_val_clear_sign [OF False] by (simp only: le_val_take sm_decode_encode)
qed

lemma getuint64_value: "bn_ok L \<Longrightarrow> bn_small b \<Longrightarrow> getuint64 L b = of_nat (nat \<bar>b\<bar>)"
  by (simp only: getuint64_def mpi_low_bytes_value word_eq_iff_unat unat_of_nat)
     (simp add: take_bit_eq_mod)

lemma getuint256_value: "bn_ok L \<Longrightarrow> bn_small b \<Longrightarrow> getuint256 L b = of_nat (nat \<bar>b\<bar>)"
  by (simp only: getuint256_def mpi_low_bytes_value word_eq_iff_unat unat_of_nat)
     (simp add: take_bit_eq_mod)

lemma bn_small_bound: "\<bar>n\<bar> < 256 ^ k \<Longrightarrow> k < 2147482990 \<Longrightarrow> bn_small n"
proof -
  assume n: "\<bar>n\<bar> < 256 ^ k" and k: "k < 2147482990"
  have "sm_len (nat \<bar>n\<bar>) \<le> Suc k"
  proof (rule ccontr)
    assume "\<not> ?thesis"
    then have "128 * 256 ^ k \<le> nat \<bar>n\<bar>" by (intro sm_len_least) simp
    moreover have "nat \<bar>n\<bar> < 256 ^ k" using n by (simp add: nat_less_iff)
    ultimately show False by simp
  qed
  with k show ?thesis by (auto simp: bn_small_def length_sm_encode)
qed

section \<open>Compact targets\<close>

text \<open>The magnitude \<open>m\<close> of three bytes, placed so that the number has \<open>s\<close> bytes.\<close>

definition compact_shift :: "nat \<Rightarrow> nat \<Rightarrow> nat" where
  "compact_shift m s = (if 3 \<le> s then m * 256 ^ (s - 3) else m div 256 ^ (3 - s))"

definition compact_value :: "u32 \<Rightarrow> int" where
  "compact_value c =
     (let s = unat c div 2 ^ 24; m = unat c mod 2 ^ 24
      in if s = 0 then 0
         else if 2 ^ 23 \<le> m then - int (compact_shift (m - 2 ^ 23) s)
         else int (compact_shift m s))"

lemma compact_buffer:
  assumes "s < 256"
  shows "(let vch = (replicate (4 + s) (0 :: byte))[3 := of_nat s];
              vch = (if 1 \<le> s then vch[4 := x] else vch);
              vch = (if 2 \<le> s then vch[5 := y] else vch);
              vch = (if 3 \<le> s then vch[6 := z] else vch) in vch)
    = be32 s @ take s [x, y, z] @ replicate (s - 3) 0"
proof -
  have be: "be32 s = [0, 0, 0, of_nat s]"
    using assms by (simp add: be32_def le_bytes_numeral word_eq_iff_unat unat_of_nat_byte)
  consider "s = 0" | "s = 1" | "s = 2" | k where "s = Suc (Suc (Suc k))"
    by (metis One_nat_def Suc_1 old.nat.exhaust)
  then show ?thesis
    unfolding be by cases (simp_all add: Let_def numeral_eq_Suc)
qed

lemma SetCompact_buffer:
  "SetCompact L c =
     (let s = unat (drop_bit 24 c)
      in BN_mpi2bn L (be32 s @ take s [ucast (drop_bit 16 c AND 0xff), ucast (drop_bit 8 c AND 0xff),
           ucast (c AND 0xff)] @ replicate (s - 3) 0))"
proof -
  have "unat (drop_bit 24 c) < 256" by (simp add: unat_drop_bit_div div_less_iff_less_mult)
  from compact_buffer [OF this, of "ucast (drop_bit 16 c AND 0xff)"
      "ucast (drop_bit 8 c AND 0xff)" "ucast (c AND 0xff)"]
  show ?thesis by (simp only: SetCompact_def Let_def)
qed

lemma le_val_replicate_0 [simp]: "le_val (replicate n 0) = 0"
  by (induction n) auto

lemma le_val_compact_body:
  assumes "0 < s"
  shows "le_val (rev (take s [x, y, z] @ replicate (s - 3) 0)) =
    compact_shift (unat x * 2 ^ 16 + unat y * 2 ^ 8 + unat z) s"
proof -
  have "unat z < 256" "unat y < 256" by simp_all
  consider "s = 1" | "s = 2" | k where "s = Suc (Suc (Suc k))"
    using assms by (metis One_nat_def Suc_1 not0_implies_Suc not_less_zero old.nat.exhaust)
  then show ?thesis
  proof cases
    case 1
    have "unat y * 256 + unat z < 65536" using \<open>unat z < 256\<close> \<open>unat y < 256\<close> by linarith
    then have "(unat x * 65536 + (unat y * 256 + unat z)) div 65536 = unat x" by simp
    with 1 show ?thesis by (simp add: compact_shift_def add.assoc)
  next
    case 2
    have "(unat x * 65536 + unat y * 256 + unat z) div 256 = unat x * 256 + unat y"
      using \<open>unat z < 256\<close> by (simp add: div_add1_eq)
    with 2 show ?thesis by (simp add: compact_shift_def)
  next
    case 3
    then show ?thesis
      by (simp add: compact_shift_def le_val_append algebra_simps)
  qed
qed

lemma three_bytes:
  assumes "m < 16777216"
  shows "m div 65536 mod 256 * 65536 + m div 256 mod 256 * 256 + m mod 256 = (m :: nat)"
proof -
  have "m div 65536 mod 256 = m div 65536" using assms by (simp add: div_less_iff_less_mult)
  moreover have "m div 256 = m div 65536 * 256 + m div 256 mod 256"
    using div_mult_mod_eq [of "m div 256" 256] by (simp add: div_mult2_eq [symmetric])
  moreover have "m = m div 256 * 256 + m mod 256" by simp
  ultimately show ?thesis by linarith
qed

lemma compact_shift_sign:
  assumes "0 < s"
  shows "128 * 256 ^ (s - 1) \<le> compact_shift m s \<longleftrightarrow> 8388608 \<le> m"
    and "8388608 \<le> m \<Longrightarrow> compact_shift m s - 128 * 256 ^ (s - 1) = compact_shift (m - 8388608) s"
proof -
  consider "s = 1" | "s = 2" | k where "s = Suc (Suc (Suc k))"
    using assms by (metis One_nat_def Suc_1 not0_implies_Suc not_less_zero old.nat.exhaust)
  note cases = this
  show "128 * 256 ^ (s - 1) \<le> compact_shift m s \<longleftrightarrow> 8388608 \<le> m"
    using cases
    by cases (simp_all add: compact_shift_def less_eq_div_iff_mult_less_eq)
  show "compact_shift m s - 128 * 256 ^ (s - 1) = compact_shift (m - 8388608) s" if "8388608 \<le> m"
    using cases
    by cases (simp_all add: compact_shift_def diff_mult_distrib)
qed

lemma SetCompact_value:
  assumes "bn_ok L"
  shows "SetCompact L c = compact_value c"
proof -
  define s where "s = unat c div 2 ^ 24"
  define m where "m = unat c mod 2 ^ 24"
  let ?x = "ucast (drop_bit 16 c AND 0xff) :: byte" and ?y = "ucast (drop_bit 8 c AND 0xff) :: byte"
    and ?z = "ucast (c AND 0xff) :: byte"
  let ?b = "take s [?x, ?y, ?z] @ replicate (s - 3) 0"
  have s: "unat (drop_bit 24 c) = s" by (simp add: unat_drop_bit_div s_def)
  have s256: "s < 256" by (simp add: s_def div_less_iff_less_mult)
  have len: "length ?b = s" by simp
  have "SetCompact L c = BN_mpi2bn L (be32 (length ?b) @ ?b)"
    unfolding SetCompact_buffer s Let_def len by simp
  also have "\<dots> = sm_decode (rev ?b)"
    using s256 len by (intro bn_ok_mpi2bn [OF assms]) simp
  also have "\<dots> = compact_value c"
  proof (cases "s = 0")
    case True
    then show ?thesis by (simp add: sm_decode_def compact_value_def s_def)
  next
    case False
    have "unat ?x = m div 2 ^ 16 mod 256" "unat ?y = m div 2 ^ 8 mod 256" "unat ?z = m mod 256"
      using mod_div_mod [of "unat c" "2 ^ 16" 1] mod_div_mod [of "unat c" "2 ^ 8" 256]
        mod_div_mod [of "unat c" 1 "256 * 256"]
      by (simp_all add: unat_low_byte unat_drop_bit_div m_def)
    then have m: "unat ?x * 2 ^ 16 + unat ?y * 2 ^ 8 + unat ?z = m"
      using three_bytes [of m] by (simp add: m_def)
    have v: "le_val (rev ?b) = compact_shift m s"
      using le_val_compact_body [of s ?x ?y ?z] False unfolding m by simp
    have h: "sm_half (rev ?b) = 128 * 256 ^ (s - 1)"
      unfolding sm_half_def length_rev len ..
    have ne: "rev ?b \<noteq> []" using len False by (metis length_rev list.size(3))
    have "m < 2 ^ 24" by (simp add: m_def)
    then have cmp: "128 * 256 ^ (s - 1) \<le> compact_shift m s \<longleftrightarrow> 2 ^ 23 \<le> m"
      and diff: "2 ^ 23 \<le> m \<Longrightarrow> compact_shift m s - 128 * 256 ^ (s - 1) = compact_shift (m - 2 ^ 23) s"
      using compact_shift_sign [of s m] False by simp_all
    have "sm_decode (rev ?b) = (if 128 * 256 ^ (s - 1) \<le> compact_shift m s
        then - int (compact_shift m s - 128 * 256 ^ (s - 1)) else int (compact_shift m s))"
      unfolding sm_decode_def v h using ne by (simp only: if_False)
    also have "\<dots> = compact_value c"
      unfolding compact_value_def Let_def using False cmp diff
      by (cases "2 ^ 23 \<le> m")
        (simp_all only: s_def [symmetric] m_def [symmetric] if_True if_False simp_thms)
    finally show ?thesis .
  qed
  finally show ?thesis .
qed

lemma compact_word_bytes:
  fixes x y z :: byte and k :: nat
  defines "c \<equiv> push_bit 24 (of_nat k) OR push_bit 16 (ucast x) OR push_bit 8 (ucast y) OR ucast z :: u32"
  assumes "k < 256"
  shows "unat (drop_bit 24 c) = k"
    and "ucast (drop_bit 16 c AND 0xff) = x" and "ucast (drop_bit 8 c AND 0xff) = y"
    and "ucast (c AND 0xff) = z"
proof -
  have nob: "\<not> bit (w :: byte) n" if "8 \<le> n" for w n
    using that bit_imp_le_length [of w n] by auto
  have k: "(of_nat k :: u32) = ucast (of_nat k :: byte)"
    using assms(2) by (simp add: word_eq_iff_unat unat_ucast_up unat_of_nat take_bit_eq_mod)
  have "drop_bit 24 c = ucast (of_nat k :: byte)"
    unfolding c_def k by (rule bit_word_eqI) (auto simp: bit_simps nob)
  then show "unat (drop_bit 24 c) = k"
    using assms(2) by (simp add: unat_ucast_up unat_of_nat_byte)
  show "ucast (drop_bit 16 c AND 0xff) = x" and "ucast (drop_bit 8 c AND 0xff) = y"
    and "ucast (c AND 0xff) = z"
    unfolding c_def k by (rule bit_word_eqI; auto simp: and_ff bit_simps nob)+
qed

lemma GetCompact_bytes:
  assumes "bn_ok L" and "length (sm_encode b) < 256"
  defines "c \<equiv> GetCompact L b" and "e \<equiv> rev (sm_encode b)"
  shows "unat (drop_bit 24 c) = length e"
    and "take (length e) [ucast (drop_bit 16 c AND 0xff), ucast (drop_bit 8 c AND 0xff),
           ucast (c AND 0xff)] = take 3 e"
proof -
  have small: "bn_small b" using assms(2) by (simp add: bn_small_def)
  define x y z where "x = (if 1 \<le> length e then e ! 0 else 0)"
    and "y = (if 2 \<le> length e then e ! 1 else 0)" and "z = (if 3 \<le> length e then e ! 2 else 0)"
  have k: "length e < 256" using assms(2) by (simp add: e_def)
  have vch: "BN_bn2mpi L b = be32 (length e) @ e"
    using bn_ok_bn2mpi [OF assms(1) small] by (simp add: e_def)
  have "c = push_bit 24 (of_nat (length e)) OR push_bit 16 (ucast x) OR push_bit 8 (ucast y) OR ucast z"
    unfolding c_def GetCompact_def Let_def vch x_def y_def z_def
    by (auto simp: nth_append or.assoc)
  note b = compact_word_bytes [OF k, of x y z, folded this]
  show "unat (drop_bit 24 c) = length e" by (rule b)
  have "take (length e) [x, y, z] = take 3 e"
    by (rule nth_equalityI) (auto simp: x_def y_def z_def nth_Cons numeral_2_eq_2 split: nat.split)
  then show "take (length e) [ucast (drop_bit 16 c AND 0xff), ucast (drop_bit 8 c AND 0xff),
      ucast (c AND 0xff)] = take 3 e"
    by (simp only: b)
qed

text \<open>The compact form keeps the three top bytes.\<close>

definition compact_trunc :: "int \<Rightarrow> int" where
  "compact_trunc b =
     (let j = length (sm_encode b) - 3 in sgn b * (\<bar>b\<bar> div 256 ^ j * 256 ^ j))"

lemma sm_decode_trunc:
  assumes "j < length e"
  shows "sm_decode (replicate j 0 @ drop j e) =
    sgn (sm_decode e) * (\<bar>sm_decode e\<bar> div 256 ^ j * 256 ^ j)"
proof -
  obtain xs b where e: "e = xs @ [b]" using assms by (metis append_butlast_last_id list.size(3) not_less_zero)
  have j: "j \<le> length xs" using assms by (simp add: e)
  have xs: "le_val xs = le_val (take j xs) + 256 ^ j * le_val (drop j xs)"
    using le_val_append [of "take j xs" "drop j xs"] j by simp
  have t: "le_val (take j xs) < 256 ^ j" using le_val_bound [of "take j xs"] j by (simp only: length_take min_absorb2)
  have p: "(256 :: nat) ^ length xs = 256 ^ j * 256 ^ (length xs - j)" using j by (simp flip: power_add)
  have div: "(le_val xs + 256 ^ length xs * u) div 256 ^ j * 256 ^ j =
      256 ^ j * le_val (drop j xs) + 256 ^ length xs * u" for u
  proof -
    have "le_val xs + 256 ^ length xs * u =
        le_val (take j xs) + 256 ^ j * (le_val (drop j xs) + 256 ^ (length xs - j) * u)"
      unfolding xs p by (simp add: algebra_simps)
    moreover have "(le_val (take j xs) + 256 ^ j * (le_val (drop j xs) + 256 ^ (length xs - j) * u))
        div 256 ^ j = le_val (drop j xs) + 256 ^ (length xs - j) * u"
      using t by simp
    ultimately show ?thesis by (simp add: p algebra_simps)
  qed
  have int_div: "sgn (int v) * (\<bar>int v\<bar> div 256 ^ j * 256 ^ j) = int (v div 256 ^ j * 256 ^ j)"
    "sgn (- int v) * (\<bar>- int v\<bar> div 256 ^ j * 256 ^ j) = - int (v div 256 ^ j * 256 ^ j)" for v
    by (cases "v = 0"; simp add: zdiv_int)+
  have "sm_decode (replicate j 0 @ drop j e) = sm_decode ((replicate j 0 @ drop j xs) @ [b])"
    using j by (simp add: e)
  also have "\<dots> = sgn (sm_decode e) * (\<bar>sm_decode e\<bar> div 256 ^ j * 256 ^ j)"
    using j unfolding e sm_decode_snoc
    by (auto simp only: if_True if_False int_div div le_val_append le_val_replicate_0
        length_append length_replicate length_drop add_0 le_add_diff_inverse split: if_split)
  finally show ?thesis .
qed

lemma SetCompact_GetCompact:
  assumes "bn_ok L" and "length (sm_encode b) < 256"
  shows "SetCompact L (GetCompact L b) = compact_trunc b"
proof -
  let ?e = "sm_encode b"
  define j where "j = length ?e - 3"
  have "SetCompact L (GetCompact L b) =
      BN_mpi2bn L (be32 (length ?e) @ take 3 (rev ?e) @ replicate (length ?e - 3) 0)"
    unfolding SetCompact_buffer Let_def GetCompact_bytes [OF assms] by simp
  also have "\<dots> = sm_decode (rev (take 3 (rev ?e) @ replicate j 0))"
  proof -
    have len: "length (take 3 (rev ?e) @ replicate j 0) = length ?e" by (simp add: j_def)
    show ?thesis
      using bn_ok_mpi2bn [OF assms(1), of "take 3 (rev ?e) @ replicate j 0"] assms(2)
      unfolding len by (simp add: j_def)
  qed
  also have "rev (take 3 (rev ?e) @ replicate j 0) = replicate j 0 @ drop j ?e"
    by (simp add: j_def take_rev)
  also have "sm_decode (replicate j 0 @ drop j ?e) = compact_trunc b"
  proof (cases "?e = []")
    case True
    then have "b = 0" using sm_decode_encode [of b] by (simp add: sm_decode_def)
    with True show ?thesis by (simp add: j_def sm_decode_def compact_trunc_def)
  next
    case False
    then have "j < length ?e" by (simp add: j_def)
    then show ?thesis
      by (simp add: sm_decode_trunc sm_decode_encode compact_trunc_def Let_def flip: j_def)
  qed
  finally show ?thesis .
qed

section \<open>Properties\<close>

text \<open>A target survives \<open>GetCompact\<close> and \<open>SetCompact\<close> up to its three most significant
  bytes: the sign is kept, the bytes below are cut off, and a number of at most three bytes
  comes back unchanged.\<close>
theorem compact_roundtrip:
  assumes "bn_ok L" and "length (sm_encode b) < 256"
  shows "SetCompact L (GetCompact L b) = compact_trunc b
    \<and> (length (sm_encode b) \<le> 3 \<longrightarrow> SetCompact L (GetCompact L b) = b)"
  using SetCompact_GetCompact [OF assms] by (auto simp: compact_trunc_def Let_def sgn_mult_abs)

theorem compact_roundtrip_witness:
  "SetCompact ref_lib (GetCompact ref_lib 305419896) = 305419776"
proof -
  have e: "sm_encode 305419896 = [0x78, 0x56, 0x34, 0x12]"
    by (simp add: sm_encode_def Let_def sm_len.simps le_bytes_numeral)
  then show ?thesis
    using compact_roundtrip [OF bn_ok_ref, of 305419896] by (simp add: compact_trunc_def e)
qed

text \<open>What \<open>SetCompact\<close> makes of the 32 bits: a size byte, a sign bit and a mantissa of
  23 bits, shifted by whole bytes.\<close>
theorem SetCompact_meaning:
  assumes "bn_ok L"
  shows "SetCompact L c =
    (let s = unat c div 2 ^ 24; m = unat c mod 2 ^ 23; v = int (compact_shift m s)
     in if s = 0 then 0 else if unat c mod 2 ^ 24 < 2 ^ 23 then v else - v)"
proof -
  define q where "q = unat c mod 16777216"
  have "q < 16777216" by (simp add: q_def)
  moreover have "unat c mod 8388608 = q mod 8388608"
    unfolding q_def using mod_mult2_eq [of "unat c" 8388608 2] by simp
  ultimately have "unat c mod 2 ^ 23 = (if 2 ^ 23 \<le> q then q - 2 ^ 23 else q)"
    by (simp add: le_mod_geq)
  moreover have "SetCompact L c = (if unat c div 2 ^ 24 = 0 then 0
      else if 2 ^ 23 \<le> q then - int (compact_shift (q - 2 ^ 23) (unat c div 2 ^ 24))
      else int (compact_shift q (unat c div 2 ^ 24)))"
    unfolding SetCompact_value [OF assms] compact_value_def Let_def q_def by simp
  moreover have "unat c mod 2 ^ 24 = q" by (simp add: q_def)
  ultimately show ?thesis
    unfolding Let_def by (cases "2 ^ 23 \<le> q") (simp_all only: if_True if_False not_le [symmetric] simp_thms)
qed

theorem SetCompact_meaning_witness: "SetCompact ref_lib 0x1d00ffff = 0xffff * 256 ^ 26"
  using SetCompact_meaning [OF bn_ok_ref, of "0x1d00ffff"] by (simp add: Let_def compact_shift_def)

text \<open>The numbers the script machine and the proof-of-stake code hand through byte
  vectors, 64-bit and 256-bit integers come back as they were.\<close>
theorem bignum_conversions:
  assumes "bn_ok L" and "bn_small n"
  shows "setvch L (getvch L n) = n
    \<and> getuint256 L (setuint256 L h) = h
    \<and> getuint64 L (setuint64 L w) = w
    \<and> (- (2 ^ 63) \<le> i \<and> i < 2 ^ 63 \<longrightarrow> bn_of_int L i = i)
    \<and> (sm_minimal v \<and> length v \<le> 520 \<longrightarrow> getvch L (setvch L v) = v)"
proof -
  have len: "length (sm_encode n) < 2147483000" using assms(2) by (simp add: bn_small_def)
  have h: "bn_small (int (unat h))"
    using unat_lt_2p [of h] by (intro bn_small_bound [of _ 32]) (simp_all flip: of_nat_less_iff [where 'a = int])
  have w: "bn_small (int (unat w))"
    using unat_lt_2p [of w] by (intro bn_small_bound [of _ 8]) (simp_all flip: of_nat_less_iff [where 'a = int])
  have v: "getvch L (setvch L v) = v" if "sm_minimal v" "length v \<le> 520"
  proof -
    have "length (sm_encode (sm_decode v)) < 2147483000" using that by (simp add: sm_encode_decode)
    then show ?thesis
      using that by (simp add: setvch_value getvch_value assms(1) bn_small_def sm_encode_decode)
  qed
  show ?thesis
    using h w v assms(2) len
    by (auto simp: bn_simps assms(1) sm_decode_encode getuint256_value getuint64_value
        word_eq_iff_unat unat_of_nat_small [OF unat_lt_2p] simp del: of_nat_unat)
qed

theorem bignum_conversions_witness: "setvch ref_lib (getvch ref_lib (- 255)) = - 255"
proof -
  have "bn_small (- 255)" by (rule bn_small_bound [of _ 1]) simp_all
  then show ?thesis using bignum_conversions [OF bn_ok_ref, of "- 255"] by blast
qed

end
