(* ===== verification/Serialize.thy ===== *)
theory Serialize
  imports Cbx_Prelude
begin

text \<open>
  The wire format of \<open>serialize.h\<close>: fixed-width integers as their memory image,
  \<open>CompactSize\<close> lengths, vectors, pairs, tuples and sets, and the buffer \<open>CDataStream\<close>
  they are written to and read from. Reading past the end of a stream throws (the
  exception mask every stream of the program keeps), so a reader returns an error or the
  value with the rest of the stream. The locale \<open>codec\<close> is the contract between
  \<open>Serialize\<close>, \<open>Unserialize\<close> and \<open>GetSerializeSize\<close> of one type, under which the
  template instances for vectors and pairs satisfy it again.
\<close>

datatype ser_error = EndOfData | SizeTooLarge

type_synonym 'a reader = "bytes \<Rightarrow> ser_error + ('a \<times> bytes)"

section \<open>The data stream\<close>

text \<open>
  \<open>vch\<close> is the buffer and \<open>nReadPos\<close> an \<open>unsigned int\<close> into it; the unread bytes are
  those from \<open>nReadPos\<close> on.
\<close>

record CDataStream =
  ds_vch :: bytes
  ds_nReadPos :: nat

definition ds_init :: "bytes \<Rightarrow> CDataStream" where
  "ds_init v = \<lparr>ds_vch = v, ds_nReadPos = 0\<rparr>"

definition ds_unread :: "CDataStream \<Rightarrow> bytes" where
  "ds_unread ds = drop (ds_nReadPos ds) (ds_vch ds)"

definition ds_size :: "CDataStream \<Rightarrow> nat" where
  "ds_size ds = length (ds_vch ds) - ds_nReadPos ds"

definition ds_empty :: "CDataStream \<Rightarrow> bool" where
  "ds_empty ds = (length (ds_vch ds) = ds_nReadPos ds)"

definition ds_write :: "bytes \<Rightarrow> CDataStream \<Rightarrow> CDataStream" where
  "ds_write b ds = ds\<lparr>ds_vch := ds_vch ds @ b\<rparr>"

definition ds_append :: "CDataStream \<Rightarrow> CDataStream \<Rightarrow> CDataStream" where
  "ds_append a b = a\<lparr>ds_vch := ds_vch a @ ds_unread b\<rparr>"

text \<open>\<open>read\<close>: the next position is computed in 32 bits; a short buffer throws.\<close>

definition ds_read :: "nat \<Rightarrow> CDataStream \<Rightarrow> ser_error + (bytes \<times> CDataStream)" where
  "ds_read nSize ds =
     (let nReadPosNext = (ds_nReadPos ds + nSize) mod 2 ^ 32
      in if length (ds_vch ds) \<le> nReadPosNext
         then if length (ds_vch ds) < nReadPosNext then Inl EndOfData
              else Inr (take nSize (drop (ds_nReadPos ds) (ds_vch ds)), \<lparr>ds_vch = [], ds_nReadPos = 0\<rparr>)
         else Inr (take nSize (drop (ds_nReadPos ds) (ds_vch ds)), ds\<lparr>ds_nReadPos := nReadPosNext\<rparr>))"

definition ds_ignore :: "nat \<Rightarrow> CDataStream \<Rightarrow> ser_error + CDataStream" where
  "ds_ignore nSize ds =
     (let nReadPosNext = (ds_nReadPos ds + nSize) mod 2 ^ 32
      in if length (ds_vch ds) \<le> nReadPosNext
         then if length (ds_vch ds) < nReadPosNext then Inl EndOfData
              else Inr \<lparr>ds_vch = [], ds_nReadPos = 0\<rparr>
         else Inr (ds\<lparr>ds_nReadPos := nReadPosNext\<rparr>))"

text \<open>
  \<open>insert(it, first, last)\<close> with \<open>it\<close> at index \<open>i\<close> of the buffer: at the read position
  the bytes go into the room already read, if there is enough.
\<close>

definition ds_insert :: "nat \<Rightarrow> bytes \<Rightarrow> CDataStream \<Rightarrow> CDataStream" where
  "ds_insert i b ds =
     (if i = ds_nReadPos ds \<and> length b \<le> ds_nReadPos ds
      then \<lparr>ds_vch = take (ds_nReadPos ds - length b) (ds_vch ds) @ b @ drop (ds_nReadPos ds) (ds_vch ds),
            ds_nReadPos = ds_nReadPos ds - length b\<rparr>
      else ds\<lparr>ds_vch := take i (ds_vch ds) @ b @ drop i (ds_vch ds)\<rparr>)"

definition ds_erase :: "nat \<Rightarrow> CDataStream \<Rightarrow> CDataStream" where
  "ds_erase i ds =
     (if i = ds_nReadPos ds
      then if length (ds_vch ds) \<le> ds_nReadPos ds + 1 then \<lparr>ds_vch = [], ds_nReadPos = 0\<rparr>
           else ds\<lparr>ds_nReadPos := ds_nReadPos ds + 1\<rparr>
      else ds\<lparr>ds_vch := take i (ds_vch ds) @ drop (i + 1) (ds_vch ds)\<rparr>)"

definition ds_erase_range :: "nat \<Rightarrow> nat \<Rightarrow> CDataStream \<Rightarrow> CDataStream" where
  "ds_erase_range ifirst ilast ds =
     (if ifirst = ds_nReadPos ds
      then if ilast = length (ds_vch ds) then \<lparr>ds_vch = [], ds_nReadPos = 0\<rparr>
           else ds\<lparr>ds_nReadPos := ilast\<rparr>
      else ds\<lparr>ds_vch := take ifirst (ds_vch ds) @ drop ilast (ds_vch ds)\<rparr>)"

definition ds_Compact :: "CDataStream \<Rightarrow> CDataStream" where
  "ds_Compact ds = \<lparr>ds_vch = drop (ds_nReadPos ds) (ds_vch ds), ds_nReadPos = 0\<rparr>"

definition ds_Rewind :: "nat \<Rightarrow> CDataStream \<Rightarrow> bool \<times> CDataStream" where
  "ds_Rewind n ds =
     (if ds_nReadPos ds < n then (False, ds) else (True, ds\<lparr>ds_nReadPos := ds_nReadPos ds - n\<rparr>))"

text \<open>The stream as the serialization templates see it: the bytes still to be read.\<close>

definition stream_read :: "nat \<Rightarrow> bytes reader" where
  "stream_read n s = (if length s < n then Inl EndOfData else Inr (take n s, drop n s))"

section \<open>Basic types\<close>

definition ser_u8 :: "byte \<Rightarrow> bytes" where "ser_u8 x = [x]"
definition ser_u16 :: "u16 \<Rightarrow> bytes" where "ser_u16 x = le_bytes 2 (unat x)"
definition ser_u32 :: "u32 \<Rightarrow> bytes" where "ser_u32 x = le_bytes 4 (unat x)"
definition ser_u64 :: "u64 \<Rightarrow> bytes" where "ser_u64 x = le_bytes 8 (unat x)"
definition ser_u256 :: "u256 \<Rightarrow> bytes" where "ser_u256 x = le_bytes 32 (unat x)"

definition ser_i32 :: "int \<Rightarrow> bytes" where "ser_i32 x = le_bytes 4 (nat (x mod 2 ^ 32))"
definition ser_i64 :: "int \<Rightarrow> bytes" where "ser_i64 x = le_bytes 8 (nat (x mod 2 ^ 64))"
definition ser_bool :: "bool \<Rightarrow> bytes" where "ser_bool b = [if b then 1 else 0]"

definition read_word :: "nat \<Rightarrow> 'a::len word reader" where
  "read_word n s = rbind (stream_read n s) (\<lambda>(b, r). Inr (of_nat (le_val b), r))"

definition unser_u8 :: "byte reader" where "unser_u8 = read_word 1"
definition unser_u16 :: "u16 reader" where "unser_u16 = read_word 2"
definition unser_u32 :: "u32 reader" where "unser_u32 = read_word 4"
definition unser_u64 :: "u64 reader" where "unser_u64 = read_word 8"
definition unser_u256 :: "u256 reader" where "unser_u256 = read_word 32"

definition unser_i32 :: "int reader" where
  "unser_i32 s = rbind (unser_u32 s) (\<lambda>(x, r). Inr (sint x, r))"

definition unser_i64 :: "int reader" where
  "unser_i64 s = rbind (unser_u64 s) (\<lambda>(x, r). Inr (sint x, r))"

definition unser_bool :: "bool reader" where
  "unser_bool s = rbind (unser_u8 s) (\<lambda>(x, r). Inr (x \<noteq> 0, r))"

section \<open>Compact sizes\<close>

definition MAX_SIZE :: u64 where "MAX_SIZE = 0x02000000"

definition GetSizeOfCompactSize :: "u64 \<Rightarrow> nat" where
  "GetSizeOfCompactSize nSize =
     (if nSize < 253 then 1
      else if nSize \<le> 0xffff then 1 + 2
      else if nSize \<le> 0xffffffff then 1 + 4
      else 1 + 8)"

definition WriteCompactSize :: "u64 \<Rightarrow> bytes" where
  "WriteCompactSize nSize =
     (if nSize < 253 then ser_u8 (ucast nSize)
      else if nSize \<le> 0xffff then ser_u8 253 @ ser_u16 (ucast nSize)
      else if nSize \<le> 0xffffffff then ser_u8 254 @ ser_u32 (ucast nSize)
      else ser_u8 255 @ ser_u64 nSize)"

definition ReadCompactSize :: "u64 reader" where
  "ReadCompactSize s =
     rbind (unser_u8 s) (\<lambda>(chSize, s1).
       rbind (if chSize < 253 then Inr (ucast chSize, s1)
              else if chSize = 253 then rbind (unser_u16 s1) (\<lambda>(x, r). Inr (ucast x, r))
              else if chSize = 254 then rbind (unser_u32 s1) (\<lambda>(x, r). Inr (ucast x, r))
              else unser_u64 s1)
         (\<lambda>(nSizeRet, r). if MAX_SIZE < nSizeRet then Inl SizeTooLarge else Inr (nSizeRet, r)))"

section \<open>Byte strings, vectors, pairs\<close>

definition ser_bytes :: "bytes \<Rightarrow> bytes" where
  "ser_bytes v = WriteCompactSize (of_nat (length v)) @ v"

definition bytes_size :: "bytes \<Rightarrow> nat" where
  "bytes_size v = GetSizeOfCompactSize (of_nat (length v)) + length v"

text \<open>
  A vector of bytes is read in blocks of at most five million, so that a false length
  cannot make the reader allocate more than the stream holds; \<open>left\<close> is \<open>nSize - i\<close>.
\<close>

function read_blocks :: "nat \<Rightarrow> bytes reader" where
  "read_blocks left s =
     (if left = 0 then Inr ([], s)
      else let blk = min left (1 + 4999999)
           in rbind (stream_read blk s) (\<lambda>(b, s1).
                rbind (read_blocks (left - blk) s1) (\<lambda>(bs, r). Inr (b @ bs, r))))"
  by pat_completeness auto
termination
  by (relation "measure fst") auto

declare read_blocks.simps [simp del]

definition unser_bytes :: "bytes reader" where
  "unser_bytes s = rbind (ReadCompactSize s) (\<lambda>(nSize, s1). read_blocks (unat nSize) s1)"

definition ser_vector :: "('a \<Rightarrow> bytes) \<Rightarrow> 'a list \<Rightarrow> bytes" where
  "ser_vector ser v = WriteCompactSize (of_nat (length v)) @ concat (map ser v)"

definition vector_size :: "('a \<Rightarrow> nat) \<Rightarrow> 'a list \<Rightarrow> nat" where
  "vector_size sz v = GetSizeOfCompactSize (of_nat (length v)) + sum_list (map sz v)"

text \<open>\<open>for (; i < nMid; i++) Unserialize(is, v[i])\<close>: \<open>n\<close> elements in a row.\<close>

fun unser_items :: "'a reader \<Rightarrow> nat \<Rightarrow> 'a list reader" where
  "unser_items unser 0 s = Inr ([], s)"
| "unser_items unser (Suc n) s =
     rbind (unser s) (\<lambda>(x, s1). rbind (unser_items unser n s1) (\<lambda>(xs, r). Inr (x # xs, r)))"

text \<open>
  The outer loop grows the vector by \<open>step = 5000000 / sizeof(T)\<close> elements at a time;
  \<open>left\<close> is the number still to read.
\<close>

function unser_chunks :: "nat \<Rightarrow> 'a reader \<Rightarrow> nat \<Rightarrow> 'a list reader" where
  "unser_chunks step unser left s =
     (if left = 0 \<or> step = 0 then Inr ([], s)
      else let n = min step left
           in rbind (unser_items unser n s) (\<lambda>(xs, s1).
                rbind (unser_chunks step unser (left - n) s1) (\<lambda>(ys, r). Inr (xs @ ys, r))))"
  by pat_completeness auto
termination
  by (relation "measure (\<lambda>(step, unser, left, s). left)") auto

declare unser_chunks.simps [simp del]

definition unser_vector :: "nat \<Rightarrow> 'a reader \<Rightarrow> 'a list reader" where
  "unser_vector step unser s =
     rbind (ReadCompactSize s) (\<lambda>(nSize, s1). unser_chunks step unser (unat nSize) s1)"

definition ser_pair :: "('a \<Rightarrow> bytes) \<Rightarrow> ('b \<Rightarrow> bytes) \<Rightarrow> 'a \<times> 'b \<Rightarrow> bytes" where
  "ser_pair sa sb item = sa (fst item) @ sb (snd item)"

definition unser_pair :: "'a reader \<Rightarrow> 'b reader \<Rightarrow> ('a \<times> 'b) reader" where
  "unser_pair ua ub s =
     rbind (ua s) (\<lambda>(x, s1). rbind (ub s1) (\<lambda>(y, r). Inr ((x, y), r)))"

definition pair_size :: "('a \<Rightarrow> nat) \<Rightarrow> ('b \<Rightarrow> nat) \<Rightarrow> 'a \<times> 'b \<Rightarrow> nat" where
  "pair_size za zb item = za (fst item) + zb (snd item)"

text \<open>
  A \<open>std::set\<close> is its elements in increasing order. It is written like a vector, and read
  by inserting one element after the other.
\<close>

definition set_insert :: "'a::linorder \<Rightarrow> 'a list \<Rightarrow> 'a list" where
  "set_insert x xs = (if x \<in> set xs then xs else insort x xs)"

fun unser_set_items :: "'a::linorder reader \<Rightarrow> nat \<Rightarrow> 'a list \<Rightarrow> 'a list reader" where
  "unser_set_items unser 0 m s = Inr (m, s)"
| "unser_set_items unser (Suc n) m s =
     rbind (unser s) (\<lambda>(x, s1). unser_set_items unser n (set_insert x m) s1)"

definition unser_set :: "'a::linorder reader \<Rightarrow> 'a list reader" where
  "unser_set unser s =
     rbind (ReadCompactSize s) (\<lambda>(nSize, s1). unser_set_items unser (unat nSize) [] s1)"

definition ser_set :: "('a::linorder \<Rightarrow> bytes) \<Rightarrow> 'a list \<Rightarrow> bytes" where
  "ser_set ser m = WriteCompactSize (of_nat (length m)) @ concat (map ser m)"

section \<open>The buffer refines the byte stream\<close>

definition ds_ok :: "CDataStream \<Rightarrow> bool" where
  "ds_ok ds \<longleftrightarrow> ds_nReadPos ds \<le> length (ds_vch ds) \<and> length (ds_vch ds) < 2 ^ 31"

lemma ds_size_unread: "ds_size ds = length (ds_unread ds)"
  by (simp add: ds_size_def ds_unread_def)

lemma ds_read_refines:
  assumes "ds_ok ds" and "n < 2 ^ 31"
  shows "ds_read n ds = Inl e \<Longrightarrow> stream_read n (ds_unread ds) = Inl e"
    and "ds_read n ds = Inr (b, ds') \<Longrightarrow>
      stream_read n (ds_unread ds) = Inr (b, ds_unread ds') \<and> ds_ok ds'"
proof -
  have "(ds_nReadPos ds + n) mod 2 ^ 32 = ds_nReadPos ds + n"
    using assms by (intro mod_less) (simp add: ds_ok_def)
  then show "ds_read n ds = Inl e \<Longrightarrow> stream_read n (ds_unread ds) = Inl e"
    and "ds_read n ds = Inr (b, ds') \<Longrightarrow>
      stream_read n (ds_unread ds) = Inr (b, ds_unread ds') \<and> ds_ok ds'"
    using assms(1)
    by (auto simp: ds_read_def ds_unread_def ds_ok_def stream_read_def Let_def add.commute
        split: if_splits)
qed

lemma ds_ignore_refines:
  assumes "ds_ok ds" and "n < 2 ^ 31"
  shows "ds_ignore n ds = (case ds_read n ds of Inl e \<Rightarrow> Inl e | Inr (b, ds') \<Rightarrow> Inr ds')"
  by (simp add: ds_ignore_def ds_read_def Let_def)

lemma ds_write_unread:
  "ds_ok ds \<Longrightarrow> ds_unread (ds_write b ds) = ds_unread ds @ b"
  by (simp add: ds_unread_def ds_write_def ds_ok_def)

lemma ds_Compact_unread: "ds_unread (ds_Compact ds) = ds_unread ds"
  by (simp add: ds_unread_def ds_Compact_def)

lemma ds_erase_unread: "ds_ok ds \<Longrightarrow> ds_unread (ds_erase (ds_nReadPos ds) ds) = tl (ds_unread ds)"
  by (auto simp: ds_unread_def ds_erase_def ds_ok_def drop_Suc tl_drop)

lemma ds_insert_unread:
  "ds_ok ds \<Longrightarrow> ds_unread (ds_insert (ds_nReadPos ds) b ds) = b @ ds_unread ds"
  by (auto simp: ds_unread_def ds_insert_def ds_ok_def min_def)

section \<open>Round trips of the basic types\<close>
lemma stream_read_append [codec_simps]: "length b = n \<Longrightarrow> stream_read n (b @ r) = Inr (b, r)"
  by (simp add: stream_read_def)

lemma read_word_le:
  assumes "unat x < 256 ^ n"
  shows "read_word n (le_bytes n (unat x) @ r) = Inr (x, r)"
  using assms by (simp add: read_word_def stream_read_def le_val_le_bytes)

lemma read_word_basic [codec_simps]:
  "unser_u8 (b # r) = Inr (b, r)"
  "unser_u16 (ser_u16 w @ r) = Inr (w, r)"
  "unser_u32 (ser_u32 x @ r) = Inr (x, r)"
  "unser_u64 (ser_u64 y @ r) = Inr (y, r)"
  "unser_u256 (ser_u256 z @ r) = Inr (z, r)"
  using read_word_le [of w 2] unat_lt_2p [of w] read_word_le [of x 4] read_word_le [of y 8]
    read_word_le [of z 32] unat_lt_2p [of z]
  by (simp_all add: unser_u8_def unser_u16_def unser_u32_def unser_u64_def unser_u256_def
      ser_u16_def ser_u32_def ser_u64_def ser_u256_def read_word_def stream_read_def)

lemma length_ser_basic [simp]:
  "length (ser_u8 b) = 1" "length (ser_u16 w) = 2" "length (ser_u32 x) = 4"
  "length (ser_u64 y) = 8" "length (ser_u256 z) = 32" "length (ser_i32 i) = 4"
  "length (ser_i64 j) = 8" "length (ser_bool bo) = 1"
  by (simp_all add: ser_u8_def ser_u16_def ser_u32_def ser_u64_def ser_u256_def ser_i32_def
      ser_i64_def ser_bool_def)

lemma ser_i32_word: "ser_i32 i = ser_u32 (of_int i)"
  by (simp add: ser_i32_def ser_u32_def unsigned_of_int take_bit_eq_mod)

lemma ser_i64_word: "ser_i64 i = ser_u64 (of_int i)"
  by (simp add: ser_i64_def ser_u64_def unsigned_of_int take_bit_eq_mod)

definition i32_ok :: "int \<Rightarrow> bool" where "i32_ok i \<longleftrightarrow> - (2 ^ 31) \<le> i \<and> i < 2 ^ 31"
definition i64_ok :: "int \<Rightarrow> bool" where "i64_ok i \<longleftrightarrow> - (2 ^ 63) \<le> i \<and> i < 2 ^ 63"

lemma sint_of_int_i32: "i32_ok i \<Longrightarrow> sint (of_int i :: u32) = i"
  by (simp add: i32_ok_def signed_of_int signed_take_bit_int_eq_self)

lemma sint_of_int_i64: "i64_ok i \<Longrightarrow> sint (of_int i :: u64) = i"
  by (simp add: i64_ok_def signed_of_int signed_take_bit_int_eq_self)

lemma unser_signed [codec_simps]:
  "i32_ok i \<Longrightarrow> unser_i32 (ser_i32 i @ r) = Inr (i, r)"
  "i64_ok j \<Longrightarrow> unser_i64 (ser_i64 j @ r) = Inr (j, r)"
  by (simp_all add: unser_i32_def unser_i64_def ser_i32_word ser_i64_word codec_simps
      sint_of_int_i32 sint_of_int_i64)

section \<open>Compact sizes\<close>
lemma length_WriteCompactSize: "length (WriteCompactSize n) = GetSizeOfCompactSize n"
  by (simp add: WriteCompactSize_def GetSizeOfCompactSize_def ser_u8_def)

lemma ucast_back:
  "n \<le> 0xffff \<Longrightarrow> (ucast (ucast n :: u16) :: u64) = n"
  "n \<le> 0xffffffff \<Longrightarrow> (ucast (ucast n :: u32) :: u64) = n"
  "n < 253 \<Longrightarrow> (ucast (ucast n :: byte) :: u64) = n"
  "n < 253 \<Longrightarrow> (ucast n :: byte) < 253"
  by (simp_all add: word_eq_iff_unat word_le_nat_alt word_less_nat_alt unsigned_ucast_eq
      take_bit_eq_mod unat_ucast_up unat_mod)

lemma ReadCompactSize_Write:
  "ReadCompactSize (WriteCompactSize n @ r) =
     (if MAX_SIZE < n then Inl SizeTooLarge else Inr (n, r))"
proof -
  consider "n < 253" | "253 \<le> n" "n \<le> 0xffff" | "0xffff < n" "n \<le> 0xffffffff" | "0xffffffff < n"
    by (meson linorder_not_less)
  then show ?thesis
  proof cases
    case 1
    then show ?thesis
      by (simp add: ReadCompactSize_def WriteCompactSize_def ser_u8_def codec_simps ucast_back)
  next
    case 2
    then have "\<not> n < 253" by (simp add: not_less)
    with 2 show ?thesis
      by (simp add: ReadCompactSize_def WriteCompactSize_def ser_u8_def codec_simps ucast_back)
  next
    case 3
    then have "\<not> n < 253" "\<not> n \<le> 0xffff" by (auto simp: word_less_nat_alt word_le_nat_alt)
    with 3 show ?thesis
      by (simp add: ReadCompactSize_def WriteCompactSize_def ser_u8_def codec_simps ucast_back)
  next
    case 4
    then have "\<not> n < 253" "\<not> n \<le> 0xffff" "\<not> n \<le> 0xffffffff"
      by (auto simp: word_less_nat_alt word_le_nat_alt)
    then show ?thesis
      by (simp add: ReadCompactSize_def WriteCompactSize_def ser_u8_def codec_simps)
  qed
qed

lemma ReadCompactSize_max: "ReadCompactSize s = Inr (n, r) \<Longrightarrow> n \<le> MAX_SIZE"
  by (auto simp: ReadCompactSize_def rbind_eq_Inr split: if_splits)

section \<open>The contract of a serializable type\<close>

text \<open>
  \<open>ok\<close> is the set of values the format can carry (lengths within \<open>MAX_SIZE\<close>, integers
  within their width), \<open>size\<close> what \<open>GetSerializeSize\<close> returns.
\<close>

locale codec =
  fixes ok :: "'a \<Rightarrow> bool"
    and ser :: "'a \<Rightarrow> bytes"
    and unser :: "'a reader"
    and size :: "'a \<Rightarrow> nat"
  assumes unser_ser: "ok x \<Longrightarrow> unser (ser x @ r) = Inr (x, r)"
    and length_ser: "ok x \<Longrightarrow> length (ser x) = size x"
begin

lemma ser_prefix_free:
  assumes "ok x" and "ok y" and "ser x @ r = ser y @ t"
  shows "x = y \<and> r = t"
proof -
  have "Inr (x, r) = unser (ser x @ r)" by (rule unser_ser [OF assms(1), symmetric])
  also have "\<dots> = Inr (y, t)" unfolding assms(3) by (rule unser_ser [OF assms(2)])
  finally show ?thesis by simp
qed

lemma ser_inj: "ok x \<Longrightarrow> ok y \<Longrightarrow> ser x = ser y \<Longrightarrow> x = y"
  using ser_prefix_free [of x y "[]" "[]"] by simp

lemma unser_items_ser:
  "list_all ok xs \<Longrightarrow> unser_items unser (length xs) (concat (map ser xs) @ r) = Inr (xs, r)"
  by (induction xs) (auto simp: unser_ser)

lemma unser_items_split:
  "unser_items unser (m + n) s =
     rbind (unser_items unser m s) (\<lambda>(xs, s1).
       rbind (unser_items unser n s1) (\<lambda>(ys, r). Inr (xs @ ys, r)))"
proof (induction m arbitrary: s)
  case 0
  then show ?case by (simp add: rbind_def split: sum.split)
next
  case (Suc m)
  show ?case
    by (simp add: rbind_assoc case_prod_unfold Suc.IH)
qed

lemma unser_chunks_items:
  "0 < step \<Longrightarrow> unser_chunks step unser n s = unser_items unser n s"
proof (induction n arbitrary: s rule: less_induct)
  case (less n)
  show ?case
  proof (cases "n = 0")
    case True
    then show ?thesis by (simp add: unser_chunks.simps)
  next
    case False
    let ?m = "min step n"
    have "unser_chunks step unser (n - ?m) s1 = unser_items unser (n - ?m) s1" for s1
      using less False by simp
    moreover have "?m + (n - ?m) = n" by simp
    ultimately show ?thesis
      using False less.prems unser_items_split [of ?m "n - ?m" s]
      by (subst unser_chunks.simps) (simp add: Let_def)
  qed
qed

definition vector_ok :: "'a list \<Rightarrow> bool" where
  "vector_ok xs \<longleftrightarrow> list_all ok xs \<and> length xs \<le> 0x02000000"

lemma size_list: "list_all ok xs \<Longrightarrow> length (concat (map ser xs)) = sum_list (map size xs)"
  by (induction xs) (auto simp: length_ser)

end

lemma compact_length [simp]:
  assumes "n \<le> 0x02000000"
  shows "unat (of_nat n :: u64) = n" and "\<not> MAX_SIZE < of_nat n"
proof -
  show *: "unat (of_nat n :: u64) = n" using assms by (intro unat_of_nat_small) simp
  show "\<not> MAX_SIZE < of_nat n" using assms by (simp add: MAX_SIZE_def word_less_nat_alt * del: word_less_no)
qed

lemma vector_codec:
  assumes "codec ok ser unser sz" and "0 < step"
  shows "codec (\<lambda>xs. list_all ok xs \<and> length xs \<le> 0x02000000)
           (ser_vector ser) (unser_vector step unser) (vector_size sz)"
proof
  fix xs :: "'a list" and r
  assume xs: "list_all ok xs \<and> length xs \<le> 0x02000000"
  then show "unser_vector step unser (ser_vector ser xs @ r) = Inr (xs, r)"
    using codec.unser_items_ser [OF assms(1)] assms
    by (simp add: unser_vector_def ser_vector_def ReadCompactSize_Write codec.unser_chunks_items)
  from xs show "length (ser_vector ser xs) = vector_size sz xs"
    using codec.size_list [OF assms(1)]
    by (simp add: ser_vector_def vector_size_def length_WriteCompactSize)
qed

lemma pair_codec:
  assumes "codec oka sa ua za" and "codec okb sb ub zb"
  shows "codec (\<lambda>p. oka (fst p) \<and> okb (snd p)) (ser_pair sa sb) (unser_pair ua ub) (pair_size za zb)"
proof
  fix p :: "'a \<times> 'b" and r
  assume "oka (fst p) \<and> okb (snd p)"
  then show "unser_pair ua ub (ser_pair sa sb p @ r) = Inr (p, r)"
    and "length (ser_pair sa sb p) = pair_size za zb p"
    by (simp_all add: unser_pair_def ser_pair_def pair_size_def codec.unser_ser [OF assms(1)]
        codec.unser_ser [OF assms(2)] codec.length_ser [OF assms(1)] codec.length_ser [OF assms(2)])
qed

text \<open>Reading in blocks is reading at once.\<close>
lemma read_blocks_stream: "read_blocks n s = stream_read n s"
proof (induction n arbitrary: s rule: less_induct)
  case (less n)
  show ?case
  proof (cases "n = 0")
    case True
    then show ?thesis by (simp add: read_blocks.simps stream_read_def)
  next
    case False
    have "read_blocks (n - min n (1 + 4999999)) s1 = stream_read (n - min n (1 + 4999999)) s1" for s1
      using less False by simp
    then show ?thesis using False
      by (subst read_blocks.simps) (auto simp: Let_def stream_read_def min_def take_add [symmetric])
  qed
qed

interpretation u8: codec "\<lambda>_. True" ser_u8 unser_u8 "\<lambda>_. 1"
  by unfold_locales (simp_all add: codec_simps, simp add: ser_u8_def codec_simps)

interpretation u32: codec "\<lambda>_. True" ser_u32 unser_u32 "\<lambda>_. 4"
  by unfold_locales (simp_all add: codec_simps)

interpretation u64: codec "\<lambda>_. True" ser_u64 unser_u64 "\<lambda>_. 8"
  by unfold_locales (simp_all add: codec_simps)

interpretation hash256: codec "\<lambda>_. True" ser_u256 unser_u256 "\<lambda>_. 32"
  by unfold_locales (simp_all add: codec_simps)

interpretation i32: codec i32_ok ser_i32 unser_i32 "\<lambda>_. 4"
  by unfold_locales (simp_all add: codec_simps)

interpretation i64: codec i64_ok ser_i64 unser_i64 "\<lambda>_. 8"
  by unfold_locales (simp_all add: codec_simps)

interpretation compact: codec "\<lambda>n. n \<le> MAX_SIZE" WriteCompactSize ReadCompactSize GetSizeOfCompactSize
  by unfold_locales (auto simp: ReadCompactSize_Write length_WriteCompactSize)

definition bytes_ok :: "bytes \<Rightarrow> bool" where
  "bytes_ok v \<longleftrightarrow> length v \<le> 0x02000000"

interpretation byte_vector: codec bytes_ok ser_bytes unser_bytes bytes_size
  by unfold_locales
    (simp_all add: bytes_ok_def ser_bytes_def unser_bytes_def bytes_size_def ReadCompactSize_Write
      read_blocks_stream codec_simps length_WriteCompactSize)

section \<open>Sets\<close>
lemma set_insert_snoc:
  "sorted_wrt (<) (m @ [x]) \<Longrightarrow> set_insert (x :: 'a::linorder) m = m @ [x]"
proof -
  assume "sorted_wrt (<) (m @ [x])"
  then have "x \<notin> set m" and "\<forall>y\<in>set m. y \<le> x" and "sorted m"
    by (auto simp: sorted_wrt_append less_imp_le strict_sorted_imp_sorted)
  then show ?thesis by (simp add: set_insert_def sorted_insort_is_snoc)
qed

lemma set_insert_sorted: "sorted_wrt (<) m \<Longrightarrow> sorted_wrt (<) (set_insert x m)"
  by (auto simp: set_insert_def strict_sorted_iff sorted_insort distinct_insort)

lemma unser_set_items_ser:
  assumes "codec ok ser unser sz"
  shows "sorted_wrt (<) (m @ xs) \<Longrightarrow> list_all ok xs \<Longrightarrow>
    unser_set_items unser (length xs) m (concat (map ser xs) @ r) = Inr (m @ xs, r)"
proof (induction xs arbitrary: m)
  case Nil
  then show ?case by simp
next
  case (Cons x xs)
  have "set_insert x m = m @ [x]"
    using Cons.prems(1) by (intro set_insert_snoc) (auto simp: sorted_wrt_append)
  with Cons show ?case by (simp add: codec.unser_ser [OF assms])
qed

lemma set_codec:
  assumes "codec ok ser unser sz"
  shows "codec (\<lambda>xs. sorted_wrt (<) xs \<and> list_all ok xs \<and> length xs \<le> 0x02000000)
           (ser_set ser) (unser_set unser) (vector_size sz)"
proof
  fix xs :: "'a list" and r
  assume xs: "sorted_wrt (<) xs \<and> list_all ok xs \<and> length xs \<le> 0x02000000"
  then show "unser_set unser (ser_set ser xs @ r) = Inr (xs, r)"
    using unser_set_items_ser [OF assms, of "[]" xs r]
    by (simp add: unser_set_def ser_set_def ReadCompactSize_Write)
  from xs show "length (ser_set ser xs) = vector_size sz xs"
    using codec.size_list [OF assms]
    by (simp add: ser_set_def vector_size_def length_WriteCompactSize)
qed

lemma unser_set_items_sorted:
  "sorted_wrt (<) m \<Longrightarrow> unser_set_items unser n m s = Inr (xs, r) \<Longrightarrow> sorted_wrt (<) xs"
  by (induction unser n m s rule: unser_set_items.induct) (auto simp: rbind_eq_Inr set_insert_sorted)

section \<open>Properties\<close>

text \<open>A compact size is read back as it was written unless it exceeds the limit for
  lengths, in which case reading throws; it takes the number of bytes \<open>GetSizeOfCompactSize\<close>
  announces, and reading never returns more than the limit.\<close>
theorem compact_size_roundtrip:
  "ReadCompactSize (WriteCompactSize n @ r) = (if MAX_SIZE < n then Inl SizeTooLarge else Inr (n, r))
   \<and> length (WriteCompactSize n) = GetSizeOfCompactSize n
   \<and> (\<forall>m t. ReadCompactSize s = Inr (m, t) \<longrightarrow> m \<le> MAX_SIZE)"
  using ReadCompactSize_Write length_WriteCompactSize ReadCompactSize_max by blast

theorem compact_size_roundtrip_witness:
  "ReadCompactSize [253, 0, 1, 7] = Inr (256, [7]) \<and> (256 :: u64) \<le> MAX_SIZE"
proof -
  have r: "ReadCompactSize [253, 0, 1, 7] = Inr (256, [7])"
    by code_simp
  with compact_size_roundtrip [of 0 "[]" "[253, 0, 1, 7]"] show ?thesis by blast
qed

text \<open>Reading from the buffer is reading from the bytes still unread: the outcome and
  the bytes are the same, and the read position never passes the end of the buffer.\<close>
theorem stream_refines_bytes:
  assumes "ds_ok ds" and "n < 2 ^ 31"
  shows "(case ds_read n ds of
      Inl e \<Rightarrow> stream_read n (ds_unread ds) = Inl e
    | Inr (b, ds') \<Rightarrow> stream_read n (ds_unread ds) = Inr (b, ds_unread ds') \<and> ds_ok ds')"
  using ds_read_refines [OF assms] by (auto split: sum.split)

theorem stream_refines_bytes_witness:
  "ds_read 2 \<lparr>ds_vch = [1, 2, 3], ds_nReadPos = 1\<rparr> = Inr ([2, 3], \<lparr>ds_vch = [], ds_nReadPos = 0\<rparr>)
   \<and> stream_read 2 [2, 3] = Inr ([2, 3], [])"
  using stream_refines_bytes [of "\<lparr>ds_vch = [1, 2, 3], ds_nReadPos = 1\<rparr>" 2]
  by (simp add: ds_read_def ds_unread_def ds_ok_def Let_def)

end
