(* ===== verification/Hashing.thy ===== *)
theory Hashing
  imports Bignum Serialize
begin

text \<open>
  The hash wrappers of \<open>util.h\<close> and the parts of \<open>key.h\<close> and \<open>key.cpp\<close> that do not
  only call OpenSSL: public keys and their identifiers, the comparison of big-endian
  numbers and the range check on signature elements. A digest is written over the memory
  of a \<open>uint256\<close> or \<open>uint160\<close>, so its bytes are the number's, the lowest first.
\<close>

section \<open>Hashes\<close>

definition Hash :: "extlib \<Rightarrow> bytes \<Rightarrow> u256" where
  "Hash L b = of_nat (le_val (SHA256 L (SHA256 L b)))"

definition Hash2 :: "extlib \<Rightarrow> bytes \<Rightarrow> bytes \<Rightarrow> u256" where
  "Hash2 L p1 p2 = of_nat (le_val (SHA256 L (SHA256 L (p1 @ p2))))"

definition Hash3 :: "extlib \<Rightarrow> bytes \<Rightarrow> bytes \<Rightarrow> bytes \<Rightarrow> u256" where
  "Hash3 L p1 p2 p3 = of_nat (le_val (SHA256 L (SHA256 L (p1 @ p2 @ p3))))"

text \<open>\<open>CHashWriter\<close>: the context is what was written since \<open>Init\<close>.\<close>

record CHashWriter =
  hw_ctx :: bytes

definition hw_Init :: CHashWriter where "hw_Init = \<lparr>hw_ctx = []\<rparr>"
definition hw_write :: "bytes \<Rightarrow> CHashWriter \<Rightarrow> CHashWriter" where
  "hw_write b w = w\<lparr>hw_ctx := hw_ctx w @ b\<rparr>"
definition hw_GetHash :: "extlib \<Rightarrow> CHashWriter \<Rightarrow> u256" where
  "hw_GetHash L w = of_nat (le_val (SHA256 L (SHA256 L (hw_ctx w))))"

definition SerializeHash :: "extlib \<Rightarrow> ('a \<Rightarrow> bytes) \<Rightarrow> 'a \<Rightarrow> u256" where
  "SerializeHash L ser obj = hw_GetHash L (hw_write (ser obj) hw_Init)"

definition Hash160 :: "extlib \<Rightarrow> bytes \<Rightarrow> u160" where
  "Hash160 L vch = of_nat (le_val (RIPEMD160 L (SHA256 L vch)))"

definition u160_bytes :: "u160 \<Rightarrow> bytes" where "u160_bytes h = le_bytes 20 (unat h)"
definition u256_bytes :: "u256 \<Rightarrow> bytes" where "u256_bytes h = le_bytes 32 (unat h)"

lemma SerializeHash_Hash: "SerializeHash L ser obj = Hash L (ser obj)"
  by (simp add: SerializeHash_def hw_GetHash_def hw_write_def hw_Init_def Hash_def)

lemma Hash_concat: "Hash2 L p q = Hash L (p @ q)" "Hash3 L p q r = Hash L (p @ q @ r)"
  by (simp_all add: Hash_def Hash2_def Hash3_def)

lemma length_u160_bytes [simp]: "length (u160_bytes h) = 20"
  by (simp add: u160_bytes_def)

lemma length_u256_bytes [simp]: "length (u256_bytes h) = 32"
  by (simp add: u256_bytes_def)

lemma u160_bytes_inj: "u160_bytes h = u160_bytes k \<longleftrightarrow> h = k"
proof
  assume "u160_bytes h = u160_bytes k"
  then have "le_val (le_bytes 20 (unat h)) = le_val (le_bytes 20 (unat k))"
    by (simp add: u160_bytes_def)
  then show "h = k"
    using unat_lt_2p [of h] unat_lt_2p [of k] by (simp add: le_val_le_bytes word_eq_iff_unat)
qed simp

lemma u160_bytes_of_val: "length b = 20 \<Longrightarrow> u160_bytes (of_nat (le_val b)) = b"
proof -
  assume b: "length b = 20"
  then have "le_val b < 2 ^ LENGTH(160)" using le_val_bound [of b] by simp
  then have "unat (of_nat (le_val b) :: u160) = le_val b" by (rule unat_of_nat_small)
  with b show ?thesis using le_bytes_le_val [of b] by (simp add: u160_bytes_def)
qed

lemma u256_bytes_of_val: "length b = 32 \<Longrightarrow> u256_bytes (of_nat (le_val b)) = b"
proof -
  assume b: "length b = 32"
  then have "le_val b < 2 ^ LENGTH(256)" using le_val_bound [of b] by simp
  then have "unat (of_nat (le_val b) :: u256) = le_val b" by (rule unat_of_nat_small)
  with b show ?thesis using le_bytes_le_val [of b] by (simp add: u256_bytes_def)
qed

lemma Hash160_bytes: "hash_ok L \<Longrightarrow> u160_bytes (Hash160 L v) = RIPEMD160 L (SHA256 L v)"
  by (simp add: Hash160_def u160_bytes_of_val hash_ok_def)

lemma Hash_bytes: "hash_ok L \<Longrightarrow> u256_bytes (Hash L v) = SHA256 L (SHA256 L v)"
  by (simp add: Hash_def u256_bytes_of_val hash_ok_def)

section \<open>Public keys\<close>

record CPubKey =
  pk_vch :: bytes

definition CPubKey_GetID :: "extlib \<Rightarrow> CPubKey \<Rightarrow> u160" where
  "CPubKey_GetID L k = Hash160 L (pk_vch k)"

definition CPubKey_GetHash :: "extlib \<Rightarrow> CPubKey \<Rightarrow> u256" where
  "CPubKey_GetHash L k = Hash L (pk_vch k)"

definition CPubKey_IsValid :: "CPubKey \<Rightarrow> bool" where
  "CPubKey_IsValid k = (length (pk_vch k) = 33 \<or> length (pk_vch k) = 65)"

definition CPubKey_IsCompressed :: "CPubKey \<Rightarrow> bool" where
  "CPubKey_IsCompressed k = (length (pk_vch k) = 33)"

definition ser_CPubKey :: "CPubKey \<Rightarrow> bytes" where
  "ser_CPubKey k = ser_bytes (pk_vch k)"

definition unser_CPubKey :: "CPubKey reader" where
  "unser_CPubKey s = rbind (unser_bytes s) (\<lambda>(b, r). Inr (\<lparr>pk_vch = b\<rparr>, r))"

interpretation pubkey: codec "\<lambda>k. bytes_ok (pk_vch k)" ser_CPubKey unser_CPubKey
  "\<lambda>k. bytes_size (pk_vch k)"
  by unfold_locales
    (simp_all add: ser_CPubKey_def unser_CPubKey_def byte_vector.unser_ser byte_vector.length_ser)

text \<open>\<open>CKey::SetPubKey\<close> and \<open>CKey::Verify\<close> on a key that holds only a public key.\<close>

definition SetPubKey :: "extlib \<Rightarrow> CPubKey \<Rightarrow> (CPubKey \<times> bool) option" where
  "SetPubKey L k = (if EC_o2i L (pk_vch k) then Some (k, length (pk_vch k) = 33) else None)"

definition Key_Verify :: "extlib \<Rightarrow> CPubKey \<Rightarrow> u256 \<Rightarrow> bytes \<Rightarrow> bool" where
  "Key_Verify L k hash vchSig =
     (case DER_normalize L vchSig of
        None \<Rightarrow> False
      | Some norm_der \<Rightarrow> ECDSA_verify L (pk_vch k) hash norm_der)"

section \<open>Big-endian comparison\<close>

fun skip_left :: "nat \<Rightarrow> bytes \<Rightarrow> bytes option" where
  "skip_left k [] = Some []"
| "skip_left k (c # cs) =
     (if k < length (c # cs) then if c \<noteq> 0 then None else skip_left k cs else Some (c # cs))"

fun cmp_bytes :: "bytes \<Rightarrow> bytes \<Rightarrow> int" where
  "cmp_bytes (a # c1) (b # c2) = (if b < a then 1 else if a < b then - 1 else cmp_bytes c1 c2)"
| "cmp_bytes _ _ = 0"

definition CompareBigEndian :: "bytes \<Rightarrow> bytes \<Rightarrow> int" where
  "CompareBigEndian c1 c2 =
     (case skip_left (length c2) c1 of
        None \<Rightarrow> 1
      | Some d1 \<Rightarrow>
          (case skip_left (length d1) c2 of
             None \<Rightarrow> - 1
           | Some d2 \<Rightarrow> cmp_bytes d1 d2))"

definition vchMaxModOrder :: bytes where
  "vchMaxModOrder =
    [0xFF,0xFF,0xFF,0xFF,0xFF,0xFF,0xFF,0xFF,
     0xFF,0xFF,0xFF,0xFF,0xFF,0xFF,0xFF,0xFE,
     0xBA,0xAE,0xDC,0xE6,0xAF,0x48,0xA0,0x3B,
     0xBF,0xD2,0x5E,0x8C,0xD0,0x36,0x41,0x40]"

definition vchMaxModHalfOrder :: bytes where
  "vchMaxModHalfOrder =
    [0x7F,0xFF,0xFF,0xFF,0xFF,0xFF,0xFF,0xFF,
     0xFF,0xFF,0xFF,0xFF,0xFF,0xFF,0xFF,0xFF,
     0x5D,0x57,0x6E,0x73,0x57,0xA4,0x50,0x1D,
     0xDF,0xE9,0x2F,0x46,0x68,0x1B,0x20,0xA0]"

definition CheckSignatureElement :: "bytes \<Rightarrow> bool \<Rightarrow> bool" where
  "CheckSignatureElement vch half =
     (0 < CompareBigEndian vch []
      \<and> CompareBigEndian vch (if half then vchMaxModHalfOrder else vchMaxModOrder) \<le> 0)"

definition be_val :: "bytes \<Rightarrow> nat" where
  "be_val bs = le_val (rev bs)"

lemma be_val_Cons: "be_val (c # cs) = be_val cs + 256 ^ length cs * unat c"
  by (simp add: be_val_def le_val_append)

lemma be_val_Nil [simp]: "be_val [] = 0"
  by (simp add: be_val_def)

lemma be_val_bound: "be_val bs < 256 ^ length bs"
  using le_val_bound [of "rev bs"] by (simp add: be_val_def)

lemma be_val_Cons_pos: "c \<noteq> 0 \<Longrightarrow> 256 ^ length cs \<le> be_val (c # cs)"
proof -
  assume "c \<noteq> 0"
  then have "1 \<le> unat c" by (simp add: unat_gt_0 Suc_leI)
  then have "256 ^ length cs * 1 \<le> 256 ^ length cs * unat c" by (rule mult_le_mono2)
  then show ?thesis unfolding be_val_Cons by linarith
qed

lemma skip_left_None: "skip_left k cs = None \<Longrightarrow> 256 ^ k \<le> be_val cs"
proof (induction cs)
  case (Cons c cs)
  then show ?case
  proof (cases "c = 0")
    case False
    with Cons.prems have "k \<le> length cs" by (auto split: if_splits)
    then have "(256 :: nat) ^ k \<le> 256 ^ length cs" by (intro power_increasing) simp_all
    from this be_val_Cons_pos [OF False] show ?thesis by (rule order.trans)
  qed (auto simp: be_val_Cons split: if_splits)
qed simp

lemma skip_left_Some:
  "skip_left k cs = Some ds \<Longrightarrow> be_val ds = be_val cs \<and> length ds = min k (length cs)"
  by (induction cs) (auto simp: be_val_Cons min_def split: if_splits)

lemma be_val_Cons_less:
  assumes "y < x" and "length xs = length ys"
  shows "be_val (y # ys) < be_val (x # xs)"
proof -
  define P where "P = (256 :: nat) ^ length ys"
  have "unat y + 1 \<le> unat x" using assms(1) by (simp add: word_less_nat_alt)
  then have "P * (unat y + 1) \<le> P * unat x" by (rule mult_le_mono2)
  moreover have "be_val ys < P" unfolding P_def by (rule be_val_bound)
  ultimately show ?thesis unfolding be_val_Cons assms(2) P_def [symmetric] by (simp add: distrib_left)
qed

lemma cmp_bytes_val:
  "length c1 = length c2 \<Longrightarrow> cmp_bytes c1 c2 = sgn (int (be_val c1) - int (be_val c2))"
proof (induction c1 c2 rule: list_induct2)
  case Nil
  show ?case by simp
next
  case (Cons a c1 b c2)
  consider "b < a" | "a < b" | "a = b" by fastforce
  then show ?case
  proof cases
    case 1
    have "be_val (b # c2) < be_val (a # c1)" using 1 Cons.hyps by (rule be_val_Cons_less)
    then have "sgn (int (be_val (a # c1)) - int (be_val (b # c2))) = 1" by simp
    then show ?thesis using 1 by (simp only: cmp_bytes.simps if_True)
  next
    case 2
    have "be_val (a # c1) < be_val (b # c2)" using 2 Cons.hyps [symmetric] by (rule be_val_Cons_less)
    then have "sgn (int (be_val (a # c1)) - int (be_val (b # c2))) = - 1" by simp
    moreover have "\<not> b < a" using 2 by simp
    ultimately show ?thesis using 2 by (simp only: cmp_bytes.simps if_True if_False)
  next
    case 3
    have "int (be_val (a # c1)) - int (be_val (b # c2)) = int (be_val c1) - int (be_val c2)"
      using 3 Cons.hyps by (simp add: be_val_Cons)
    then show ?thesis using 3 Cons.IH by (simp only: cmp_bytes.simps less_irrefl if_False)
  qed
qed

lemma CompareBigEndian_val:
  "CompareBigEndian c1 c2 = sgn (int (be_val c1) - int (be_val c2))"
proof (cases "skip_left (length c2) c1")
  case None
  have "be_val c2 < be_val c1"
    using skip_left_None [OF None] be_val_bound [of c2] by (rule less_le_trans [rotated])
  then show ?thesis by (simp add: CompareBigEndian_def None)
next
  case (Some d1)
  note d1 = skip_left_Some [OF Some]
  show ?thesis
  proof (cases "skip_left (length d1) c2")
    case None
    have "be_val d1 < be_val c2"
      using skip_left_None [OF None] be_val_bound [of d1] by (rule less_le_trans [rotated])
    with d1 have "be_val c1 < be_val c2" by simp
    then show ?thesis by (simp add: CompareBigEndian_def Some None)
  next
    case (Some d2)
    note d2 = skip_left_Some [OF Some]
    have "CompareBigEndian c1 c2 = cmp_bytes d1 d2"
      by (simp add: CompareBigEndian_def \<open>skip_left (length c2) c1 = Some d1\<close> Some)
    also have "\<dots> = sgn (int (be_val d1) - int (be_val d2))"
      by (rule cmp_bytes_val) (use d1 d2 in linarith)
    finally show ?thesis using d1 d2 by (simp only:)
  qed
qed

section \<open>Properties\<close>

text \<open>\<open>CompareBigEndian\<close> compares the numbers two byte strings denote, whatever their
  lengths and leading zeros, so \<open>CheckSignatureElement\<close> accepts exactly the numbers from 1 to
  the order (or half the order) less one.\<close>
theorem CompareBigEndian_numeric:
  "CompareBigEndian c1 c2 = sgn (int (be_val c1) - int (be_val c2))
   \<and> (CheckSignatureElement c1 half \<longleftrightarrow>
       0 < be_val c1 \<and> be_val c1 \<le> be_val (if half then vchMaxModHalfOrder else vchMaxModOrder))"
  by (auto simp: CheckSignatureElement_def CompareBigEndian_val sgn_if)

end
