(* ===== verification/Script_Codec.thy ===== *)
theory Script_Codec
  imports Hashing
begin

text \<open>
  Scripts as byte strings (\<open>script.h\<close>): the opcodes, how data and numbers are pushed, how
  instructions are read back (\<open>GetOp\<close>), the searches and tests that walk over a script, and
  the canonical forms of public keys and signatures (\<open>script.cpp\<close>). A position in a script
  is the suffix that starts there.
\<close>

section \<open>Opcodes\<close>

type_synonym opcodetype = byte
type_synonym valtype = bytes
type_synonym CScript = bytes

abbreviation "OP_0 \<equiv> 0x00 :: opcodetype"
abbreviation "OP_PUSHDATA1 \<equiv> 0x4c :: opcodetype"
abbreviation "OP_PUSHDATA2 \<equiv> 0x4d :: opcodetype"
abbreviation "OP_PUSHDATA4 \<equiv> 0x4e :: opcodetype"
abbreviation "OP_1 \<equiv> 0x51 :: opcodetype"
abbreviation "OP_16 \<equiv> 0x60 :: opcodetype"
abbreviation "OP_IF \<equiv> 0x63 :: opcodetype"
abbreviation "OP_NOTIF \<equiv> 0x64 :: opcodetype"
abbreviation "OP_ELSE \<equiv> 0x67 :: opcodetype"
abbreviation "OP_ENDIF \<equiv> 0x68 :: opcodetype"
abbreviation "OP_DUP \<equiv> 0x76 :: opcodetype"
abbreviation "OP_EQUAL \<equiv> 0x87 :: opcodetype"
abbreviation "OP_EQUALVERIFY \<equiv> 0x88 :: opcodetype"
abbreviation "OP_HASH160 \<equiv> 0xa9 :: opcodetype"
abbreviation "OP_CODESEPARATOR \<equiv> 0xab :: opcodetype"
abbreviation "OP_CHECKSIG \<equiv> 0xac :: opcodetype"
abbreviation "OP_CHECKSIGVERIFY \<equiv> 0xad :: opcodetype"
abbreviation "OP_CHECKMULTISIG \<equiv> 0xae :: opcodetype"
abbreviation "OP_CHECKMULTISIGVERIFY \<equiv> 0xaf :: opcodetype"
abbreviation "OP_SMALLINTEGER \<equiv> 0xfa :: opcodetype"
abbreviation "OP_PUBKEYS \<equiv> 0xfb :: opcodetype"
abbreviation "OP_PUBKEYHASH \<equiv> 0xfd :: opcodetype"
abbreviation "OP_PUBKEY \<equiv> 0xfe :: opcodetype"
abbreviation "OP_INVALIDOPCODE \<equiv> 0xff :: opcodetype"

text \<open>The enumerators of \<open>opcodetype\<close> with their values, in the order of the header.\<close>

definition opcodes :: "(string \<times> opcodetype) list" where
  "opcodes =
    [(''OP_0'', 0x00), (''OP_PUSHDATA1'', 0x4c), (''OP_PUSHDATA2'', 0x4d), (''OP_PUSHDATA4'', 0x4e),
     (''OP_1NEGATE'', 0x4f), (''OP_RESERVED'', 0x50), (''OP_1'', 0x51), (''OP_2'', 0x52),
     (''OP_3'', 0x53), (''OP_4'', 0x54), (''OP_5'', 0x55), (''OP_6'', 0x56), (''OP_7'', 0x57),
     (''OP_8'', 0x58), (''OP_9'', 0x59), (''OP_10'', 0x5a), (''OP_11'', 0x5b), (''OP_12'', 0x5c),
     (''OP_13'', 0x5d), (''OP_14'', 0x5e), (''OP_15'', 0x5f), (''OP_16'', 0x60),
     (''OP_NOP'', 0x61), (''OP_VER'', 0x62), (''OP_IF'', 0x63), (''OP_NOTIF'', 0x64),
     (''OP_VERIF'', 0x65), (''OP_VERNOTIF'', 0x66), (''OP_ELSE'', 0x67), (''OP_ENDIF'', 0x68),
     (''OP_VERIFY'', 0x69), (''OP_RETURN'', 0x6a), (''OP_TOALTSTACK'', 0x6b),
     (''OP_FROMALTSTACK'', 0x6c), (''OP_2DROP'', 0x6d), (''OP_2DUP'', 0x6e), (''OP_3DUP'', 0x6f),
     (''OP_2OVER'', 0x70), (''OP_2ROT'', 0x71), (''OP_2SWAP'', 0x72), (''OP_IFDUP'', 0x73),
     (''OP_DEPTH'', 0x74), (''OP_DROP'', 0x75), (''OP_DUP'', 0x76), (''OP_NIP'', 0x77),
     (''OP_OVER'', 0x78), (''OP_PICK'', 0x79), (''OP_ROLL'', 0x7a), (''OP_ROT'', 0x7b),
     (''OP_SWAP'', 0x7c), (''OP_TUCK'', 0x7d), (''OP_CAT'', 0x7e), (''OP_SUBSTR'', 0x7f),
     (''OP_LEFT'', 0x80), (''OP_RIGHT'', 0x81), (''OP_SIZE'', 0x82), (''OP_INVERT'', 0x83),
     (''OP_AND'', 0x84), (''OP_OR'', 0x85), (''OP_XOR'', 0x86), (''OP_EQUAL'', 0x87),
     (''OP_EQUALVERIFY'', 0x88), (''OP_RESERVED1'', 0x89), (''OP_RESERVED2'', 0x8a),
     (''OP_1ADD'', 0x8b), (''OP_1SUB'', 0x8c), (''OP_2MUL'', 0x8d), (''OP_2DIV'', 0x8e),
     (''OP_NEGATE'', 0x8f), (''OP_ABS'', 0x90), (''OP_NOT'', 0x91), (''OP_0NOTEQUAL'', 0x92),
     (''OP_ADD'', 0x93), (''OP_SUB'', 0x94), (''OP_MUL'', 0x95), (''OP_DIV'', 0x96),
     (''OP_MOD'', 0x97), (''OP_LSHIFT'', 0x98), (''OP_RSHIFT'', 0x99), (''OP_BOOLAND'', 0x9a),
     (''OP_BOOLOR'', 0x9b), (''OP_NUMEQUAL'', 0x9c), (''OP_NUMEQUALVERIFY'', 0x9d),
     (''OP_NUMNOTEQUAL'', 0x9e), (''OP_LESSTHAN'', 0x9f), (''OP_GREATERTHAN'', 0xa0),
     (''OP_LESSTHANOREQUAL'', 0xa1), (''OP_GREATERTHANOREQUAL'', 0xa2), (''OP_MIN'', 0xa3),
     (''OP_MAX'', 0xa4), (''OP_WITHIN'', 0xa5), (''OP_RIPEMD160'', 0xa6), (''OP_SHA1'', 0xa7),
     (''OP_SHA256'', 0xa8), (''OP_HASH160'', 0xa9), (''OP_HASH256'', 0xaa),
     (''OP_CODESEPARATOR'', 0xab), (''OP_CHECKSIG'', 0xac), (''OP_CHECKSIGVERIFY'', 0xad),
     (''OP_CHECKMULTISIG'', 0xae), (''OP_CHECKMULTISIGVERIFY'', 0xaf), (''OP_NOP1'', 0xb0),
     (''OP_NOP2'', 0xb1), (''OP_NOP3'', 0xb2), (''OP_NOP4'', 0xb3), (''OP_NOP5'', 0xb4),
     (''OP_NOP6'', 0xb5), (''OP_NOP7'', 0xb6), (''OP_NOP8'', 0xb7), (''OP_NOP9'', 0xb8),
     (''OP_NOP10'', 0xb9), (''OP_SMALLINTEGER'', 0xfa), (''OP_PUBKEYS'', 0xfb),
     (''OP_PUBKEYHASH'', 0xfd), (''OP_PUBKEY'', 0xfe), (''OP_INVALIDOPCODE'', 0xff)]"

text \<open>
  \<open>GetOpName\<close>: the enumerator, except for the small numbers, which print as numbers, and
  the two template parameters the switch does not list.
\<close>

definition GetOpName :: "opcodetype \<Rightarrow> string" where
  "GetOpName opcode =
     (if opcode = 0 then ''0''
      else if opcode = 0x4f then ''-1''
      else if opcode = OP_SMALLINTEGER \<or> opcode = OP_PUBKEYS then ''OP_UNKNOWN''
      else case find (\<lambda>p. snd p = opcode) opcodes of
             Some p \<Rightarrow> if 0x51 \<le> opcode \<and> opcode \<le> 0x60 then drop 3 (fst p) else fst p
           | None \<Rightarrow> ''OP_UNKNOWN'')"

datatype txnouttype =
  TX_NONSTANDARD | TX_PUBKEY | TX_PUBKEYHASH | TX_SCRIPTHASH | TX_MULTISIG | TX_NULL_DATA

fun GetTxnOutputType :: "txnouttype \<Rightarrow> string" where
  "GetTxnOutputType TX_NONSTANDARD = ''nonstandard''"
| "GetTxnOutputType TX_PUBKEY = ''pubkey''"
| "GetTxnOutputType TX_PUBKEYHASH = ''pubkeyhash''"
| "GetTxnOutputType TX_SCRIPTHASH = ''scripthash''"
| "GetTxnOutputType TX_MULTISIG = ''multisig''"
| "GetTxnOutputType TX_NULL_DATA = ''nulldata''"

text \<open>\<open>CTxDestination\<close>: the variant of its three alternatives.\<close>

datatype CTxDestination = CNoDestination | CKeyID u160 | CScriptID u160

abbreviation (input) "SIGHASH_ALL \<equiv> 1 :: int"
abbreviation (input) "SIGHASH_NONE \<equiv> 2 :: int"
abbreviation (input) "SIGHASH_SINGLE \<equiv> 3 :: int"
abbreviation (input) "SIGHASH_ANYONECANPAY \<equiv> 0x80 :: int"

abbreviation (input) "SCRIPT_VERIFY_STRICTENC \<equiv> 2 :: u32"
abbreviation (input) "SCRIPT_VERIFY_LOW_S \<equiv> 4 :: u32"

section \<open>Writing scripts\<close>

definition push_data :: "bytes \<Rightarrow> CScript" where
  "push_data b =
     (if length b < unat OP_PUSHDATA1 then [of_nat (length b)]
      else if length b \<le> 0xff then [OP_PUSHDATA1, of_nat (length b)]
      else if length b \<le> 0xffff then OP_PUSHDATA2 # ser_u16 (of_nat (length b))
      else OP_PUSHDATA4 # ser_u32 (of_nat (length b))) @ b"

definition push_int64 :: "extlib \<Rightarrow> int \<Rightarrow> CScript" where
  "push_int64 L n =
     (if n = - 1 \<or> (1 \<le> n \<and> n \<le> 16) then [of_int (n + (0x51 - 1))]
      else push_data (getvch L (setint64 L n)))"

definition push_uint64 :: "extlib \<Rightarrow> u64 \<Rightarrow> CScript" where
  "push_uint64 L n =
     (if 1 \<le> n \<and> n \<le> 16 then [ucast (n + (0x51 - 1))]
      else push_data (getvch L (setuint64 L n)))"

definition push_op :: "opcodetype \<Rightarrow> CScript" where
  "push_op opcode = [opcode]"

definition push_uint160 :: "u160 \<Rightarrow> CScript" where
  "push_uint160 b = 20 # u160_bytes b"

definition push_uint256 :: "u256 \<Rightarrow> CScript" where
  "push_uint256 b = 32 # u256_bytes b"

definition push_bignum :: "extlib \<Rightarrow> int \<Rightarrow> CScript" where
  "push_bignum L b = push_data (getvch L b)"

definition push_pubkey :: "CPubKey \<Rightarrow> CScript" where
  "push_pubkey key = push_data (pk_vch key)"

section \<open>Reading scripts\<close>

text \<open>
  \<open>GetOp2\<close> from the suffix \<open>pc\<close>: the opcode, the data it pushes and the suffix after it,
  or \<open>None\<close> at the end of the script or when the operand is cut short. After a failure
  the opcode is \<open>OP_INVALIDOPCODE\<close> and the data empty; only \<open>Solver\<close> looks at them.
\<close>

definition GetOp_operand :: "opcodetype \<Rightarrow> bytes \<Rightarrow> (nat \<times> bytes) option" where
  "GetOp_operand opcode pc =
     (if opcode < OP_PUSHDATA1 then Some (unat opcode, pc)
      else if opcode = OP_PUSHDATA1
        then if length pc < 1 then None else Some (unat (hd pc), tl pc)
      else if opcode = OP_PUSHDATA2
        then if length pc < 2 then None else Some (le_val (take 2 pc), drop 2 pc)
      else if length pc < 4 then None else Some (le_val (take 4 pc), drop 4 pc))"

fun GetOp :: "bytes \<Rightarrow> (opcodetype \<times> bytes \<times> bytes) option" where
  "GetOp [] = None"
| "GetOp (opcode # pc) =
     (if opcode \<le> OP_PUSHDATA4
      then case GetOp_operand opcode pc of
             None \<Rightarrow> None
           | Some (nSize, pc) \<Rightarrow>
               if length pc < nSize then None else Some (opcode, take nSize pc, drop nSize pc)
      else Some (opcode, [], pc))"

definition DecodeOP_N :: "opcodetype \<Rightarrow> int" where
  "DecodeOP_N opcode = (if opcode = OP_0 then 0 else int (unat opcode) - (0x51 - 1))"

definition EncodeOP_N :: "int \<Rightarrow> opcodetype" where
  "EncodeOP_N n = (if n = 0 then OP_0 else of_int (0x51 + n - 1))"

lemma GetOp_operand_len: "GetOp_operand opcode pc = Some (n, r) \<Longrightarrow> length r \<le> length pc"
  by (auto simp: GetOp_operand_def split: if_splits)

lemma GetOp_shorter: "GetOp pc = Some (opcode, d, r) \<Longrightarrow> length r < length pc"
  by (cases pc)
    (auto dest!: GetOp_operand_len simp: less_Suc_eq_le le_diff_conv split: if_splits option.splits)

text \<open>The walks over a script, one recursive call per instruction read.\<close>

function GetOp_count :: "(opcodetype \<Rightarrow> bool) \<Rightarrow> bytes \<Rightarrow> nat" where
  "GetOp_count p pc =
     (case GetOp pc of
        None \<Rightarrow> 0
      | Some (opcode, d, r) \<Rightarrow> (if p opcode then 1 else 0) + GetOp_count p r)"
  by pat_completeness auto
termination
  by (relation "measure (\<lambda>(p, pc). length pc)") (auto dest: GetOp_shorter)

definition Find :: "opcodetype \<Rightarrow> CScript \<Rightarrow> nat" where
  "Find op script = GetOp_count (\<lambda>opcode. opcode = op) script"

function IsPushOnly :: "CScript \<Rightarrow> bool" where
  "IsPushOnly pc =
     (if pc = [] then True
      else case GetOp pc of
             None \<Rightarrow> False
           | Some (opcode, d, r) \<Rightarrow> if OP_16 < opcode then False else IsPushOnly r)"
  by pat_completeness auto
termination
  by (relation "measure length") (auto dest: GetOp_shorter)

definition canonical_push :: "opcodetype \<Rightarrow> bytes \<Rightarrow> bool" where
  "canonical_push opcode data =
     (if OP_16 < opcode then True
      else if opcode < OP_PUSHDATA1 \<and> OP_0 < opcode \<and> length data = 1 \<and> data ! 0 \<le> 16 then False
      else if opcode = OP_PUSHDATA1 \<and> length data < unat OP_PUSHDATA1 then False
      else if opcode = OP_PUSHDATA2 \<and> length data \<le> 0xff then False
      else if opcode = OP_PUSHDATA4 \<and> length data \<le> 0xffff then False
      else True)"

function HasCanonicalPushes :: "CScript \<Rightarrow> bool" where
  "HasCanonicalPushes pc =
     (if pc = [] then True
      else case GetOp pc of
             None \<Rightarrow> False
           | Some (opcode, data, r) \<Rightarrow>
               if canonical_push opcode data then HasCanonicalPushes r else False)"
  by pat_completeness auto
termination
  by (relation "measure length") (auto dest: GetOp_shorter)

text \<open>
  \<open>FindAndDelete\<close>: at each instruction boundary every copy of \<open>b\<close> that starts there is
  erased; then one instruction is skipped.
\<close>

function strip_copies :: "bytes \<Rightarrow> bytes \<Rightarrow> nat \<times> bytes" where
  "strip_copies b pc =
     (if b \<noteq> [] \<and> length b \<le> length pc \<and> take (length b) pc = b
      then let (n, r) = strip_copies b (drop (length b) pc) in (n + 1, r)
      else (0, pc))"
  by pat_completeness auto
termination
  by (relation "measure (\<lambda>(b, pc). length pc)")
    (simp, simp, metis diff_less length_greater_0_conv less_le_trans)

declare strip_copies.simps [simp del]

lemma strip_copies_len: "length (snd (strip_copies b pc)) \<le> length pc"
  by (induction b pc rule: strip_copies.induct)
    (subst strip_copies.simps, auto simp: Let_def split: prod.split)

function FindAndDelete_from :: "bytes \<Rightarrow> bytes \<Rightarrow> nat \<times> bytes" where
  "FindAndDelete_from b pc =
     (case strip_copies b pc of (n, r) \<Rightarrow>
        case GetOp r of
          None \<Rightarrow> (n, r)
        | Some (opcode, d, r') \<Rightarrow>
            let (m, out) = FindAndDelete_from b r' in (n + m, take (length r - length r') r @ out))"
  by pat_completeness auto
termination
proof (relation "measure (\<lambda>(b, pc). length pc)")
  fix b pc x n r a opcode y d r'
  assume "(n, r) = strip_copies b pc" "GetOp r = Some a" "(opcode, y) = a" "(d, r') = y"
  then show "((b, r'), b, pc) \<in> measure (\<lambda>(b, pc). length pc)"
    using strip_copies_len [of b pc] GetOp_shorter [of r opcode d r'] by (auto dest: sym)
qed simp

definition FindAndDelete :: "CScript \<Rightarrow> CScript \<Rightarrow> nat \<times> CScript" where
  "FindAndDelete b script = (if b = [] then (0, script) else FindAndDelete_from b script)"

declare GetOp_count.simps [simp del] IsPushOnly.simps [simp del] HasCanonicalPushes.simps [simp del]
  FindAndDelete_from.simps [simp del]

definition CScript_GetID :: "extlib \<Rightarrow> CScript \<Rightarrow> u160" where
  "CScript_GetID L script = Hash160 L script"

section \<open>Canonical public keys and signatures\<close>

definition IsCanonicalPubKey :: "valtype \<Rightarrow> u32 \<Rightarrow> bool" where
  "IsCanonicalPubKey vchPubKey flags =
     (if flags AND SCRIPT_VERIFY_STRICTENC = 0 then True
      else if length vchPubKey < 33 then False
      else if vchPubKey ! 0 = 0x04 then length vchPubKey = 65
      else if vchPubKey ! 0 = 0x02 \<or> vchPubKey ! 0 = 0x03 then length vchPubKey = 33
      else False)"

text \<open>One of the two integers of a signature: \<open>len\<close> bytes from \<open>vch[at]\<close>, its type byte two before.\<close>

definition canonical_integer :: "valtype \<Rightarrow> nat \<Rightarrow> nat \<Rightarrow> bool" where
  "canonical_integer vch at len =
     (if vch ! (at - 2) \<noteq> 0x02 then False
      else if len = 0 then False
      else if vch ! at AND 0x80 \<noteq> 0 then False
      else if 1 < len \<and> vch ! at = 0x00 \<and> vch ! (at + 1) AND 0x80 = 0 then False
      else True)"

definition IsCanonicalSignature :: "valtype \<Rightarrow> u32 \<Rightarrow> bool" where
  "IsCanonicalSignature vchSig flags =
     (if flags AND SCRIPT_VERIFY_STRICTENC = 0 then True
      else if length vchSig < 9 then False
      else if 73 < length vchSig then False
      else let nHashType = vchSig ! (length vchSig - 1) AND NOT 0x80 in
        if nHashType < 1 \<or> 3 < nHashType then False
        else if vchSig ! 0 \<noteq> 0x30 then False
        else if unat (vchSig ! 1) \<noteq> length vchSig - 3 then False
        else let nLenR = unat (vchSig ! 3) in
          if length vchSig \<le> 5 + nLenR then False
          else let nLenS = unat (vchSig ! (5 + nLenR)) in
            if nLenR + nLenS + 7 \<noteq> length vchSig then False
            else if \<not> canonical_integer vchSig 4 nLenR then False
            else if \<not> canonical_integer vchSig (6 + nLenR) nLenS then False
            else if flags AND SCRIPT_VERIFY_LOW_S \<noteq> 0
              then CheckSignatureElement (take nLenS (drop (6 + nLenR) vchSig)) True
            else True)"

text \<open>The format as a printer: two DER integers, tagged and counted, and a hash type.\<close>

definition der_integer :: "bytes \<Rightarrow> bool" where
  "der_integer X \<longleftrightarrow>
     X \<noteq> [] \<and> X ! 0 AND 0x80 = 0 \<and> \<not> (1 < length X \<and> X ! 0 = 0 \<and> X ! 1 AND 0x80 = 0)"

definition der_signature :: "bytes \<Rightarrow> bytes \<Rightarrow> byte \<Rightarrow> bytes" where
  "der_signature R S ht =
     [0x30, of_nat (length R + length S + 4), 0x02, of_nat (length R)] @ R @
     [0x02, of_nat (length S)] @ S @ [ht]"

lemma take_two: "2 \<le> length xs \<Longrightarrow> take 2 xs = [xs ! 0, xs ! 1]"
  by (cases xs; cases "tl xs") (auto simp: numeral_2_eq_2)

lemma signature_parts:
  assumes "length sig = r + s + 7"
  shows "sig = [sig ! 0, sig ! 1, sig ! 2, sig ! 3] @ take r (drop 4 sig) @
    [sig ! (4 + r), sig ! (5 + r)] @ take s (drop (6 + r) sig) @ [sig ! (length sig - 1)]"
proof -
  have "take 4 sig = [sig ! 0, sig ! 1, sig ! 2, sig ! 3]"
    using assms by (intro nth_equalityI) (auto simp: nth_Cons' numeral_eq_Suc less_Suc_eq)
  moreover have "take 2 (drop (4 + r) sig) = [sig ! (4 + r), sig ! (5 + r)]"
    using assms by (subst take_two) (simp_all add: add.commute)
  moreover have "drop (6 + r + s) sig = [sig ! (length sig - 1)]"
    using assms by (intro nth_equalityI) (auto simp: ac_simps)
  moreover have "sig = take 4 sig @ take r (drop 4 sig) @ take 2 (drop (4 + r) sig) @
      take s (drop (6 + r) sig) @ drop (6 + r + s) sig"
  proof -
    have "drop (4 + r) sig = take 2 (drop (4 + r) sig) @ take s (drop (6 + r) sig) @ drop (6 + r + s) sig"
    proof -
      have "drop (6 + r) sig = drop 2 (drop (4 + r) sig)" by simp
      moreover have "drop (6 + r + s) sig = drop s (drop (6 + r) sig)" by (simp add: add.commute)
      ultimately show ?thesis by (metis append_take_drop_id)
    qed
    moreover have "drop 4 sig = take r (drop 4 sig) @ drop (4 + r) sig"
      by (metis append_take_drop_id drop_drop add.commute)
    ultimately show ?thesis by (metis append_take_drop_id)
  qed
  ultimately show ?thesis by simp
qed

lemma canonical_integer_der:
  assumes "vch ! (at - 2) = 0x02" and "at + len \<le> length vch"
  shows "canonical_integer vch at len \<longleftrightarrow> der_integer (take len (drop at vch))"
  using assms by (cases len) (auto simp: canonical_integer_def der_integer_def)

lemma byte_of_unat: "unat (b :: byte) = n \<Longrightarrow> b = of_nat n"
  by auto

lemma length_der_signature [simp]:
  "length (der_signature R S ht) = length R + length S + 7"
  by (simp add: der_signature_def)

lemma der_signature_nth:
  assumes "sig = der_signature R S ht"
  shows "sig ! 0 = 0x30" and "sig ! 1 = of_nat (length R + length S + 4)" and "sig ! 2 = 0x02"
    and "sig ! 3 = of_nat (length R)" and "sig ! (4 + length R) = 0x02"
    and "sig ! (5 + length R) = of_nat (length S)"
    and "take (length R) (drop 4 sig) = R" and "take (length S) (drop (6 + length R) sig) = S"
    and "sig ! (length sig - 1) = ht"
  by (auto simp: assms der_signature_def nth_append numeral_eq_Suc nth_Cons')

text \<open>The checks of \<open>IsCanonicalSignature\<close> accept exactly the canonical DER encodings:
  two positive integers without superfluous leading zeros, every length byte in agreement,
  a defined hash type and, when low \<open>S\<close> values are demanded, \<open>S\<close> between 1 and half the
  order of the curve.\<close>
theorem canonical_signature_iff_der:
  assumes "flags AND SCRIPT_VERIFY_STRICTENC \<noteq> 0"
  shows "IsCanonicalSignature sig flags \<longleftrightarrow>
    (\<exists>R S ht. sig = der_signature R S ht \<and> der_integer R \<and> der_integer S
       \<and> length R + length S \<le> 66 \<and> ht AND NOT 0x80 \<noteq> 0 \<and> ht AND NOT 0x80 \<le> 3
       \<and> (flags AND SCRIPT_VERIFY_LOW_S \<noteq> 0 \<longrightarrow>
            0 < be_val S \<and> be_val S \<le> be_val vchMaxModHalfOrder))"
    (is "?lhs \<longleftrightarrow> (\<exists>R S ht. ?rhs R S ht)")
proof
  assume c: ?lhs
  define r where "r = unat (sig ! 3)"
  define s where "s = unat (sig ! (5 + r))"
  have len: "length sig = r + s + 7" "length sig \<le> 73"
    and ht: "sig ! (length sig - 1) AND NOT 0x80 \<noteq> 0" "sig ! (length sig - 1) AND NOT 0x80 \<le> 3"
    and b: "sig ! 0 = 0x30" "unat (sig ! 1) = length sig - 3"
    and R: "canonical_integer sig 4 r" and S: "canonical_integer sig (6 + r) s"
    and low: "flags AND SCRIPT_VERIFY_LOW_S \<noteq> 0 \<Longrightarrow>
      CheckSignatureElement (take s (drop (6 + r) sig)) True"
    using c assms
    by (auto simp: IsCanonicalSignature_def Let_def r_def s_def not_less split: if_splits)
  have tags: "sig ! 2 = 0x02" "sig ! (4 + r) = 0x02"
    using R S by (auto simp: canonical_integer_def split: if_splits)
  let ?R = "take r (drop 4 sig)" and ?S = "take s (drop (6 + r) sig)"
  have lens: "length ?R = r" "length ?S = s" using len(1) by simp_all
  have "sig ! 1 = of_nat (r + s + 4)" "sig ! 3 = of_nat r" "sig ! (5 + r) = of_nat s"
    using b(2) len(1) byte_of_unat [of "sig ! 1" "r + s + 4"] byte_of_unat [of "sig ! 3" r]
      byte_of_unat [of "sig ! (5 + r)" s] by (simp_all add: r_def s_def)
  then have "sig = der_signature ?R ?S (sig ! (length sig - 1))"
    using signature_parts [OF len(1)] b(1) tags unfolding der_signature_def lens by simp
  moreover have "der_integer ?R" "der_integer ?S"
    using R S tags len(1) canonical_integer_der [of sig 4 r] canonical_integer_der [of sig "6 + r" s]
    by simp_all
  moreover have "0 < be_val ?S \<and> be_val ?S \<le> be_val vchMaxModHalfOrder"
    if "flags AND SCRIPT_VERIFY_LOW_S \<noteq> 0"
    using low [OF that] by (simp add: CheckSignatureElement_def CompareBigEndian_val sgn_if split: if_splits)
  ultimately show "\<exists>R S ht. ?rhs R S ht"
    using ht len lens by (intro exI [of _ ?R] exI [of _ ?S] exI [of _ "sig ! (length sig - 1)"]) auto
next
  assume "\<exists>R S ht. ?rhs R S ht"
  then obtain R S ht where sig: "sig = der_signature R S ht" and R: "der_integer R" and S: "der_integer S"
    and len: "length R + length S \<le> 66" and ht: "ht AND NOT 0x80 \<noteq> 0" "ht AND NOT 0x80 \<le> 3"
    and low: "flags AND SCRIPT_VERIFY_LOW_S \<noteq> 0 \<Longrightarrow>
      0 < be_val S \<and> be_val S \<le> be_val vchMaxModHalfOrder" by blast
  note n = der_signature_nth [OF sig]
  have l: "length sig = length R + length S + 7" by (simp add: sig)
  have u: "unat (of_nat (length R) :: byte) = length R" "unat (of_nat (length S) :: byte) = length S"
    "unat (of_nat (length R + length S + 4) :: byte) = length R + length S + 4"
    using len by (simp_all add: unat_of_nat_byte del: of_nat_add)
  have ne: "R \<noteq> []" "S \<noteq> []" using R S by (auto simp: der_integer_def)
  have "canonical_integer sig 4 (length R)"
    using canonical_integer_der [of sig 4 "length R"] n R l by simp
  moreover have "canonical_integer sig (6 + length R) (length S)"
    using canonical_integer_der [of sig "6 + length R" "length S"] n S l by simp
  moreover have "CheckSignatureElement S True" if "flags AND SCRIPT_VERIFY_LOW_S \<noteq> 0"
    using low [OF that] by (simp add: CheckSignatureElement_def CompareBigEndian_val sgn_if)
  moreover have "9 \<le> length sig" "length sig \<le> 73"
    using len ne l by (auto simp: Suc_le_eq) (cases R; cases S; simp)
  moreover have "unat (sig ! 3) = length R" "unat (sig ! (5 + length R)) = length S"
    "unat (sig ! 1) = length sig - 3"
    using n u l by simp_all
  moreover have "\<not> sig ! (length sig - 1) AND NOT 0x80 < 1" "\<not> 3 < sig ! (length sig - 1) AND NOT 0x80"
    using ht n(9) by auto
  moreover have "\<not> length sig \<le> 5 + length R" "length R + length S + 7 = length sig"
    using l ne by auto
  ultimately show ?lhs
    unfolding IsCanonicalSignature_def by (simp only: Let_def n(1,8) not_less [symmetric] if_True if_False
      simp_thms not_not split: if_split) auto
qed

theorem canonical_signature_iff_der_witness:
  "IsCanonicalSignature (der_signature [1] [0, 0x80] 1) 2 \<and> \<not> IsCanonicalSignature (der_signature [0, 1] [2] 1) 2"
  using canonical_signature_iff_der [of 2 "der_signature [1] [0, 0x80] 1"]
  by (auto simp: der_integer_def IsCanonicalSignature_def der_signature_def canonical_integer_def Let_def)

section \<open>Instructions\<close>

text \<open>The instructions of a script up to the first one that cannot be read.\<close>

function script_ops :: "CScript \<Rightarrow> (opcodetype \<times> bytes) list" where
  "script_ops pc =
     (case GetOp pc of None \<Rightarrow> [] | Some (opcode, d, r) \<Rightarrow> (opcode, d) # script_ops r)"
  by pat_completeness auto
termination
  by (relation "measure length") (auto dest: GetOp_shorter)

declare script_ops.simps [simp del]

text \<open>Reading an instruction looks only at its own bytes.\<close>
lemma GetOp_operand_local:
  assumes "GetOp_operand opcode rest = Some (n, s)"
  obtains q where "rest = q @ s" and "\<And>t. GetOp_operand opcode (q @ t) = Some (n, t)"
proof -
  consider "opcode < OP_PUSHDATA1" | "opcode = OP_PUSHDATA1"
    | "\<not> opcode < OP_PUSHDATA1" "opcode = OP_PUSHDATA2"
    | "\<not> opcode < OP_PUSHDATA1" "opcode \<noteq> OP_PUSHDATA1" "opcode \<noteq> OP_PUSHDATA2" by blast
  then show ?thesis
  proof cases
    case 1
    with assms that [of "[]"] show ?thesis by (simp add: GetOp_operand_def)
  next
    case 2
    with assms that [of "take 1 rest"] show ?thesis
      by (cases rest) (simp_all add: GetOp_operand_def)
  next
    case 3
    with assms that [of "take 2 rest"] show ?thesis
      by (auto simp: GetOp_operand_def split: if_splits)
  next
    case 4
    with assms that [of "take 4 rest"] show ?thesis
      by (auto simp: GetOp_operand_def split: if_splits)
  qed
qed

lemma GetOp_local:
  assumes "GetOp pc = Some (opcode, d, r)"
  obtains p where "pc = p @ r" and "hd pc = opcode" and "\<And>t. GetOp (p @ t) = Some (opcode, d, t)"
proof -
  obtain rest where pc: "pc = opcode # rest"
    using assms by (cases pc) (auto split: if_splits option.splits)
  show ?thesis
  proof (cases "opcode \<le> OP_PUSHDATA4")
    case False
    with assms that [of "[opcode]"] show ?thesis by (simp add: pc)
  next
    case True
    then obtain n s where op: "GetOp_operand opcode rest = Some (n, s)" and n: "n \<le> length s"
      and d: "d = take n s" "r = drop n s"
      using assms by (auto simp: pc split: option.splits if_splits)
    obtain q where q: "rest = q @ s" and opq: "\<And>t. GetOp_operand opcode (q @ t) = Some (n, t)"
      using GetOp_operand_local [OF op] by blast
    show ?thesis
    proof (rule that [of "opcode # q @ d"])
      show "pc = (opcode # q @ d) @ r" by (simp add: pc q d)
      show "hd pc = opcode" by (simp add: pc)
      show "GetOp ((opcode # q @ d) @ t) = Some (opcode, d, t)" for t
        using True n d by (simp add: opq)
    qed
  qed
qed

lemma GetOp_push_data:
  assumes "length b < 2 ^ 32"
  obtains opcode where "GetOp (push_data b @ r) = Some (opcode, b, r)" and "opcode \<le> OP_PUSHDATA4"
    and "canonical_push opcode b \<longleftrightarrow> \<not> (length b = 1 \<and> b ! 0 \<le> 16)"
proof -
  consider "length b < 76" | "76 \<le> length b" "length b \<le> 0xff" | "0xff < length b" "length b \<le> 0xffff"
    | "0xffff < length b" by linarith
  then show ?thesis
  proof cases
    case 1
    then have u: "unat (of_nat (length b) :: byte) = length b" by (simp add: unat_of_nat_byte)
    then have less: "(of_nat (length b) :: byte) < OP_PUSHDATA1" using 1 by (simp add: word_less_nat_alt)
    with u 1 show ?thesis
      by (intro that [of "of_nat (length b)"])
        (auto simp: push_data_def GetOp_operand_def word_le_nat_alt word_less_nat_alt canonical_push_def)
  next
    case 2
    then have "unat (of_nat (length b) :: byte) = length b" by (simp add: unat_of_nat_byte)
    with 2 show ?thesis
      by (intro that [of OP_PUSHDATA1]) (auto simp: push_data_def GetOp_operand_def canonical_push_def)
  next
    case 3
    then have "unat (of_nat (length b) :: u16) = length b" by (intro unat_of_nat_small) simp
    with 3 show ?thesis
      by (intro that [of OP_PUSHDATA2])
        (auto simp: push_data_def GetOp_operand_def ser_u16_def le_val_le_bytes canonical_push_def)
  next
    case 4
    then have "unat (of_nat (length b) :: u32) = length b" using assms by (intro unat_of_nat_small) simp
    with 4 assms show ?thesis
      by (intro that [of OP_PUSHDATA4])
        (auto simp: push_data_def GetOp_operand_def ser_u32_def le_val_le_bytes canonical_push_def)
  qed
qed

lemma script_ops_push_data:
  "length b < 2 ^ 32 \<Longrightarrow> \<exists>opcode \<le> OP_PUSHDATA4. script_ops (push_data b @ r) = (opcode, b) # script_ops r"
  by (erule GetOp_push_data [of b r]) (subst script_ops.simps, auto)

lemma IsPushOnly_push_data: "length b < 2 ^ 32 \<Longrightarrow> IsPushOnly (push_data b @ r) = IsPushOnly r"
proof (erule GetOp_push_data [of b r])
  fix opcode assume "GetOp (push_data b @ r) = Some (opcode, b, r)" and le: "opcode \<le> OP_PUSHDATA4"
  moreover have "\<not> OP_16 < opcode" using le by (simp add: word_le_nat_alt word_less_nat_alt)
  ultimately show ?thesis by (subst IsPushOnly.simps) (auto simp: push_data_def split: if_splits)
qed

lemma HasCanonicalPushes_push_data:
  "length b < 2 ^ 32 \<Longrightarrow>
    HasCanonicalPushes (push_data b @ r) \<longleftrightarrow> \<not> (length b = 1 \<and> b ! 0 \<le> 16) \<and> HasCanonicalPushes r"
proof (erule GetOp_push_data [of b r])
  fix opcode assume "GetOp (push_data b @ r) = Some (opcode, b, r)"
    and "canonical_push opcode b = (\<not> (length b = 1 \<and> b ! 0 \<le> 16))"
  moreover have "push_data b @ r \<noteq> []" by (simp add: push_data_def)
  ultimately show ?thesis by (subst HasCanonicalPushes.simps) auto
qed

lemma strip_copies_op:
  assumes "OP_PUSHDATA4 < c"
  shows "filter (\<lambda>(op, d). op \<noteq> c) (script_ops (snd (strip_copies [c] pc))) =
      filter (\<lambda>(op, d). op \<noteq> c) (script_ops pc)
    \<and> (snd (strip_copies [c] pc) = [] \<or> hd (snd (strip_copies [c] pc)) \<noteq> c)"
proof (induction "[c]" pc rule: strip_copies.induct)
  case (1 pc)
  show ?case
  proof (cases "pc \<noteq> [] \<and> hd pc = c")
    case True
    then obtain r where pc: "pc = c # r" by (cases pc) auto
    have "GetOp (c # r) = Some (c, [], r)" using assms by (simp add: not_le [symmetric])
    then have "script_ops pc = (c, []) # script_ops r" by (subst script_ops.simps) (simp add: pc)
    then show ?thesis using 1 by (subst (1 2 3) strip_copies.simps) (simp add: pc Let_def split_beta)
  next
    case False
    then show ?thesis by (subst (1 2 3) strip_copies.simps) (cases pc; auto)
  qed
qed

lemma FindAndDelete_op_filter:
  assumes "OP_PUSHDATA4 < c"
  shows "script_ops (snd (FindAndDelete_from [c] pc)) = filter (\<lambda>(op, d). op \<noteq> c) (script_ops pc)"
proof (induction "[c]" pc rule: FindAndDelete_from.induct)
  case (1 pc)
  obtain n r where st: "strip_copies [c] pc = (n, r)" by fastforce
  have f: "filter (\<lambda>(op, d). op \<noteq> c) (script_ops pc) = filter (\<lambda>(op, d). op \<noteq> c) (script_ops r)"
    and hd: "r = [] \<or> hd r \<noteq> c"
    using strip_copies_op [OF assms, of pc] by (simp_all add: st)
  show ?case
  proof (cases "GetOp r")
    case None
    then show ?thesis
      by (subst FindAndDelete_from.simps, subst f) (simp add: st script_ops.simps [of r])
  next
    case (Some a)
    then obtain op d r' where g: "GetOp r = Some (op, d, r')" by (cases a) auto
    obtain p where p: "r = p @ r'" "hd r = op" "\<And>t. GetOp (p @ t) = Some (op, d, t)"
      using GetOp_local [OF g] by blast
    have "r \<noteq> []" using g by auto
    with hd p(2) have "op \<noteq> c" by simp
    obtain m out where rec: "FindAndDelete_from [c] r' = (m, out)" by fastforce
    have IH: "script_ops out = filter (\<lambda>(op, d). op \<noteq> c) (script_ops r')"
      using "1.hyps" [OF st [symmetric] g refl refl] by (simp add: rec)
    have "snd (FindAndDelete_from [c] pc) = p @ out"
      by (subst FindAndDelete_from.simps) (simp add: st rec p(1) p(3))
    moreover have "script_ops (p @ out) = (op, d) # script_ops out"
      by (subst script_ops.simps) (simp add: p(3))
    moreover have "script_ops r = (op, d) # script_ops r'"
      by (subst script_ops.simps) (simp add: g)
    ultimately show ?thesis using IH \<open>op \<noteq> c\<close> by (simp add: f)
  qed
qed

lemma strip_copies_count: "fst (strip_copies b pc) * length b + length (snd (strip_copies b pc)) = length pc"
  by (induction b pc rule: strip_copies.induct)
    (subst (1 2) strip_copies.simps, auto simp: Let_def algebra_simps split: prod.split)

lemma FindAndDelete_count:
  "fst (FindAndDelete_from b pc) * length b + length (snd (FindAndDelete_from b pc)) = length pc"
proof (induction b pc rule: FindAndDelete_from.induct)
  case (1 b pc)
  obtain n r where st: "strip_copies b pc = (n, r)" by fastforce
  have c: "n * length b + length r = length pc" using strip_copies_count [of b pc] by (simp add: st)
  show ?case
  proof (cases "GetOp r")
    case None
    then show ?thesis using c by (subst (1 2) FindAndDelete_from.simps) (simp add: st)
  next
    case (Some a)
    then obtain op d r' where g: "GetOp r = Some (op, d, r')" by (cases a) auto
    have "length r' < length r" using g by (rule GetOp_shorter)
    moreover have "fst (FindAndDelete_from b r') * length b + length (snd (FindAndDelete_from b r')) = length r'"
      using "1.IH" [OF st [symmetric] g refl refl] .
    ultimately show ?thesis using c
      by (subst (1 2) FindAndDelete_from.simps) (simp add: st g split_beta algebra_simps)
  qed
qed

section \<open>Properties\<close>

text \<open>Data written with \<open>operator<<\<close> is read back by \<open>GetOp\<close> as one push of the same bytes,
  whatever follows; such a script is push-only, and canonical unless the data is a single byte
  that a small-number opcode could have pushed.\<close>
theorem push_data_roundtrip:
  assumes "length b < 2 ^ 32"
  shows "(\<exists>opcode \<le> OP_PUSHDATA4. GetOp (push_data b @ r) = Some (opcode, b, r))
    \<and> (IsPushOnly (push_data b @ r) \<longleftrightarrow> IsPushOnly r)
    \<and> (HasCanonicalPushes (push_data b @ r) \<longleftrightarrow>
         \<not> (length b = 1 \<and> b ! 0 \<le> 16) \<and> HasCanonicalPushes r)"
  using GetOp_push_data [OF assms, of r] IsPushOnly_push_data [OF assms]
    HasCanonicalPushes_push_data [OF assms] by blast

theorem push_data_roundtrip_witness: "GetOp (push_data (replicate 80 7) @ [0xac]) = Some (OP_PUSHDATA1, replicate 80 7, [0xac])"
  using push_data_roundtrip [of "replicate 80 7" "[0xac]"] by (auto simp: push_data_def GetOp_operand_def)

text \<open>\<open>FindAndDelete\<close> of a single instruction (as \<open>SignatureHash\<close> does with
  \<open>OP_CODESEPARATOR\<close>) removes exactly the occurrences of that instruction, never a byte of
  pushed data that looks like it, and for any pattern the number it returns accounts for the
  bytes removed.\<close>
theorem FindAndDelete_exact:
  assumes "OP_PUSHDATA4 < c"
  shows "script_ops (snd (FindAndDelete [c] script)) = filter (\<lambda>(op, d). op \<noteq> c) (script_ops script)
    \<and> fst (FindAndDelete b script) * length b + length (snd (FindAndDelete b script)) = length script"
  using FindAndDelete_op_filter [OF assms, of script] FindAndDelete_count [of b script]
  by (simp add: FindAndDelete_def)

theorem FindAndDelete_exact_witness:
  "snd (FindAndDelete [OP_CODESEPARATOR] [0xab, 1, 0xab, 0xac, 0xab]) = [1, 0xab, 0xac]
   \<and> script_ops [1, 0xab, 0xac] = filter (\<lambda>(op, d). op \<noteq> 0xab) (script_ops [0xab, 1, 0xab, 0xac, 0xab])"
proof -
  have "snd (FindAndDelete [OP_CODESEPARATOR] [0xab, 1, 0xab, 0xac, 0xab]) = [1, 0xab, 0xac]"
    by (simp add: FindAndDelete_def FindAndDelete_from.simps strip_copies.simps GetOp_operand_def)
  then show ?thesis
    using FindAndDelete_exact [of OP_CODESEPARATOR "[0xab, 1, 0xab, 0xac, 0xab]"] by simp
qed

end
