(* ===== verification/Script_Interp.thy ===== *)
theory Script_Interp
  imports Script_Codec
begin

text \<open>
  The script machine \<open>EvalScript\<close> of \<open>script.cpp\<close>. Stacks are listed from the top:
  \<open>stacktop(-i)\<close> is element \<open>i - 1\<close>. \<open>vfExec\<close> lists the enclosing conditionals, the innermost
  first. The signature check is a parameter: a function of signature, public key and script
  code that also passes on a state of its own, in which the caller keeps the signature cache.
  A \<open>return false\<close> and an exception, which the function catches, are both \<open>Inl\<close> of that
  state; \<open>Inr\<close> continues.
\<close>

type_synonym 's sigcheck = "valtype \<Rightarrow> valtype \<Rightarrow> CScript \<Rightarrow> 's \<Rightarrow> bool \<times> 's"

record 's eval_state =
  stack :: "valtype list"
  altstack :: "valtype list"
  vfExec :: "bool list"
  nOpCount :: int
  codehash :: bytes
  sigstate :: 's

section \<open>Values\<close>

definition vchFalse :: valtype where "vchFalse = []"
definition vchTrue :: valtype where "vchTrue = [1]"

definition vchBool :: "bool \<Rightarrow> valtype" where
  "vchBool b = (if b then vchTrue else vchFalse)"

definition nMaxNumSize :: nat where "nMaxNumSize = 4"

definition CastToBigNum :: "extlib \<Rightarrow> valtype \<Rightarrow> int option" where
  "CastToBigNum L vch =
     (if nMaxNumSize < length vch then None else Some (setvch L (getvch L (setvch L vch))))"

fun CastToBool :: "valtype \<Rightarrow> bool" where
  "CastToBool [] = False"
| "CastToBool (b # bs) = (if b \<noteq> 0 then \<not> (bs = [] \<and> b = 0x80) else CastToBool bs)"

definition resize0 :: "nat \<Rightarrow> bytes \<Rightarrow> bytes" where
  "resize0 n v = take n v @ replicate (n - length v) 0"

definition MakeSameSize :: "valtype \<Rightarrow> valtype \<Rightarrow> valtype \<times> valtype" where
  "MakeSameSize vch1 vch2 =
     (let vch1 = (if length vch1 < length vch2 then resize0 (length vch2) vch1 else vch1);
          vch2 = (if length vch2 < length vch1 then resize0 (length vch1) vch2 else vch2)
      in (vch1, vch2))"

section \<open>Groups of instructions\<close>

definition disabled_op :: "opcodetype \<Rightarrow> bool" where
  "disabled_op opcode \<longleftrightarrow>
     opcode \<in> {0x7e, 0x7f, 0x80, 0x81, 0x83, 0x84, 0x85, 0x86, 0x8d, 0x8e, 0x95, 0x96, 0x97, 0x98, 0x99}"

text \<open>\<open>OP_1NEGATE\<close> and \<open>OP_1\<close> to \<open>OP_16\<close>.\<close>

definition op_push_number :: "extlib \<Rightarrow> opcodetype \<Rightarrow> valtype list \<Rightarrow> valtype list option" where
  "op_push_number L opcode st = Some (getvch L (bn_of_int L (int (unat opcode) - (0x51 - 1))) # st)"

definition op_verify :: "valtype list \<Rightarrow> valtype list option" where
  "op_verify st = (case st of [] \<Rightarrow> None | x # r \<Rightarrow> if CastToBool x then Some r else None)"

text \<open>From \<open>OP_2DROP\<close> to \<open>OP_2SWAP\<close>; the top of the stack is the head of the list.\<close>

definition op_stack_many :: "opcodetype \<Rightarrow> valtype list \<Rightarrow> valtype list option" where
  "op_stack_many opcode st =
     (if opcode = 0x6d then (case st of x2 # x1 # r \<Rightarrow> Some r | _ \<Rightarrow> None)
      else if opcode = 0x6e then (case st of x2 # x1 # r \<Rightarrow> Some (x2 # x1 # x2 # x1 # r) | _ \<Rightarrow> None)
      else if opcode = 0x6f then
        (case st of x3 # x2 # x1 # r \<Rightarrow> Some (x3 # x2 # x1 # x3 # x2 # x1 # r) | _ \<Rightarrow> None)
      else if opcode = 0x70 then
        (case st of x4 # x3 # x2 # x1 # r \<Rightarrow> Some (x2 # x1 # x4 # x3 # x2 # x1 # r) | _ \<Rightarrow> None)
      else if opcode = 0x71 then
        (case st of x6 # x5 # x4 # x3 # x2 # x1 # r \<Rightarrow> Some (x2 # x1 # x6 # x5 # x4 # x3 # r)
         | _ \<Rightarrow> None)
      else if opcode = 0x72 then
        (case st of x4 # x3 # x2 # x1 # r \<Rightarrow> Some (x2 # x1 # x4 # x3 # r) | _ \<Rightarrow> None)
      else None)"

text \<open>From \<open>OP_IFDUP\<close> to \<open>OP_TUCK\<close>.\<close>

definition op_pick_roll :: "extlib \<Rightarrow> opcodetype \<Rightarrow> valtype list \<Rightarrow> valtype list option" where
  "op_pick_roll L opcode st =
     (case st of
        x # y # r \<Rightarrow>
          (case CastToBigNum L x of
             None \<Rightarrow> None
           | Some bn \<Rightarrow>
               let n = getint L bn; st = y # r
               in if n < 0 \<or> int (length st) \<le> n then None
                  else let vch = st ! nat n;
                           st = (if opcode = 0x7a then take (nat n) st @ drop (nat n + 1) st else st)
                       in Some (vch # st))
      | _ \<Rightarrow> None)"

definition op_stack_one :: "extlib \<Rightarrow> opcodetype \<Rightarrow> valtype list \<Rightarrow> valtype list option" where
  "op_stack_one L opcode st =
     (if opcode = 0x73 then
        (case st of x # r \<Rightarrow> Some (if CastToBool x then x # x # r else x # r) | _ \<Rightarrow> None)
      else if opcode = 0x74 then Some (getvch L (setulong L (of_nat (length st))) # st)
      else if opcode = 0x75 then (case st of x # r \<Rightarrow> Some r | _ \<Rightarrow> None)
      else if opcode = 0x76 then (case st of x # r \<Rightarrow> Some (x # x # r) | _ \<Rightarrow> None)
      else if opcode = 0x77 then (case st of x2 # x1 # r \<Rightarrow> Some (x2 # r) | _ \<Rightarrow> None)
      else if opcode = 0x78 then (case st of x2 # x1 # r \<Rightarrow> Some (x1 # x2 # x1 # r) | _ \<Rightarrow> None)
      else if opcode = 0x79 \<or> opcode = 0x7a then op_pick_roll L opcode st
      else if opcode = 0x7b then (case st of x3 # x2 # x1 # r \<Rightarrow> Some (x1 # x3 # x2 # r) | _ \<Rightarrow> None)
      else if opcode = 0x7c then (case st of x2 # x1 # r \<Rightarrow> Some (x1 # x2 # r) | _ \<Rightarrow> None)
      else if opcode = 0x7d then (case st of x2 # x1 # r \<Rightarrow> Some (x2 # x1 # x2 # r) | _ \<Rightarrow> None)
      else None)"

text \<open>
  The splice operations. All but \<open>OP_SIZE\<close> are refused before the switch is reached.
\<close>

definition op_splice :: "extlib \<Rightarrow> opcodetype \<Rightarrow> valtype list \<Rightarrow> valtype list option" where
  "op_splice L opcode st =
     (if opcode = 0x7e then
        (case st of x2 # x1 # r \<Rightarrow> if 520 < length (x1 @ x2) then None else Some ((x1 @ x2) # r)
         | _ \<Rightarrow> None)
      else if opcode = 0x7f then
        (case st of
           x3 # x2 # vch # r \<Rightarrow>
             Option.bind (CastToBigNum L x2) (\<lambda>b. Option.bind (CastToBigNum L x3) (\<lambda>s.
               let nBegin = getint L b; nEnd = nBegin + getint L s
               in if nBegin < 0 \<or> nEnd < nBegin then None
                  else let nBegin = min nBegin (int (length vch)); nEnd = min nEnd (int (length vch))
                       in Some (drop (nat nBegin) (take (nat nEnd) vch) # r)))
         | _ \<Rightarrow> None)
      else if opcode = 0x80 \<or> opcode = 0x81 then
        (case st of
           x2 # vch # r \<Rightarrow>
             Option.bind (CastToBigNum L x2) (\<lambda>s.
               let nSize = getint L s
               in if nSize < 0 then None
                  else let nSize = nat (min nSize (int (length vch)))
                       in Some ((if opcode = 0x80 then take nSize vch
                                 else drop (length vch - nSize) vch) # r))
         | _ \<Rightarrow> None)
      else if opcode = 0x82 then
        (case st of x # r \<Rightarrow> Some (getvch L (setulong L (of_nat (length x))) # x # r) | _ \<Rightarrow> None)
      else None)"

text \<open>\<open>OP_INVERT\<close>, \<open>OP_AND\<close>, \<open>OP_OR\<close>, \<open>OP_XOR\<close> (refused earlier), and equality.\<close>

definition op_bitwise :: "opcodetype \<Rightarrow> valtype list \<Rightarrow> valtype list option" where
  "op_bitwise opcode st =
     (if opcode = 0x83 then (case st of x # r \<Rightarrow> Some (map NOT x # r) | _ \<Rightarrow> None)
      else case st of
        x2 # x1 # r \<Rightarrow>
          let (vch1, vch2) = MakeSameSize x1 x2
          in if opcode = 0x84 then Some (map2 (AND) vch1 vch2 # r)
             else if opcode = 0x85 then Some (map2 (OR) vch1 vch2 # r)
             else Some (map2 (XOR) vch1 vch2 # r)
      | _ \<Rightarrow> None)"

definition op_equal :: "opcodetype \<Rightarrow> valtype list \<Rightarrow> valtype list option" where
  "op_equal opcode st =
     (case st of
        x2 # x1 # r \<Rightarrow>
          let fEqual = (x1 = x2)
          in if opcode = OP_EQUALVERIFY then if fEqual then Some r else None
             else Some (vchBool fEqual # r)
      | _ \<Rightarrow> None)"

definition bn_of_bool :: "extlib \<Rightarrow> bool \<Rightarrow> int" where
  "bn_of_bool L b = bn_of_int L (if b then 1 else 0)"

definition unary_number :: "extlib \<Rightarrow> opcodetype \<Rightarrow> int \<Rightarrow> int" where
  "unary_number L opcode bn =
     (if opcode = 0x8b then BN_add L bn (bn_of_int L 1)
      else if opcode = 0x8c then BN_sub L bn (bn_of_int L 1)
      else if opcode = 0x8d then BN_lshift L bn 1
      else if opcode = 0x8e then bn_shr L bn 1
      else if opcode = 0x8f then bn_uminus bn
      else if opcode = 0x90 then (if bn_lt L bn (bn_of_int L 0) then bn_uminus bn else bn)
      else if opcode = 0x91 then bn_of_bool L (bn_eq L bn (bn_of_int L 0))
      else bn_of_bool L (bn_neq L bn (bn_of_int L 0)))"

definition op_unary :: "extlib \<Rightarrow> opcodetype \<Rightarrow> valtype list \<Rightarrow> valtype list option" where
  "op_unary L opcode st =
     (case st of
        x # r \<Rightarrow>
          Option.bind (CastToBigNum L x) (\<lambda>bn. Some (getvch L (unary_number L opcode bn) # r))
      | _ \<Rightarrow> None)"

definition binary_number :: "extlib \<Rightarrow> opcodetype \<Rightarrow> int \<Rightarrow> int \<Rightarrow> int option" where
  "binary_number L opcode bn1 bn2 =
     (let z = bn_of_int L 0; b = bn_of_bool L in
      if opcode = 0x93 then Some (BN_add L bn1 bn2)
      else if opcode = 0x94 then Some (BN_sub L bn1 bn2)
      else if opcode = 0x95 then Some (BN_mul L bn1 bn2)
      else if opcode = 0x96 then bn_div L bn1 bn2
      else if opcode = 0x97 then bn_mod L bn1 bn2
      else if opcode = 0x98 then
        if bn_lt L bn2 z \<or> bn_gt L bn2 (bn_of_int L 2048) then None
        else Some (BN_lshift L bn1 (unat (getulong L bn2)))
      else if opcode = 0x99 then
        if bn_lt L bn2 z \<or> bn_gt L bn2 (bn_of_int L 2048) then None
        else Some (bn_shr L bn1 (unat (getulong L bn2)))
      else if opcode = 0x9a then Some (b (bn_neq L bn1 z \<and> bn_neq L bn2 z))
      else if opcode = 0x9b then Some (b (bn_neq L bn1 z \<or> bn_neq L bn2 z))
      else if opcode = 0x9c \<or> opcode = 0x9d then Some (b (bn_eq L bn1 bn2))
      else if opcode = 0x9e then Some (b (bn_neq L bn1 bn2))
      else if opcode = 0x9f then Some (b (bn_lt L bn1 bn2))
      else if opcode = 0xa0 then Some (b (bn_gt L bn1 bn2))
      else if opcode = 0xa1 then Some (b (bn_le L bn1 bn2))
      else if opcode = 0xa2 then Some (b (bn_ge L bn1 bn2))
      else if opcode = 0xa3 then Some (if bn_lt L bn1 bn2 then bn1 else bn2)
      else Some (if bn_gt L bn1 bn2 then bn1 else bn2))"

definition op_binary :: "extlib \<Rightarrow> opcodetype \<Rightarrow> valtype list \<Rightarrow> valtype list option" where
  "op_binary L opcode st =
     (case st of
        x2 # x1 # r \<Rightarrow>
          Option.bind (CastToBigNum L x1) (\<lambda>bn1. Option.bind (CastToBigNum L x2) (\<lambda>bn2.
            Option.bind (binary_number L opcode bn1 bn2) (\<lambda>bn.
              let v = getvch L bn
              in if opcode = 0x9d then if CastToBool v then Some r else None else Some (v # r))))
      | _ \<Rightarrow> None)"

definition op_within :: "extlib \<Rightarrow> valtype list \<Rightarrow> valtype list option" where
  "op_within L st =
     (case st of
        x3 # x2 # x1 # r \<Rightarrow>
          Option.bind (CastToBigNum L x1) (\<lambda>bn1. Option.bind (CastToBigNum L x2) (\<lambda>bn2.
            Option.bind (CastToBigNum L x3) (\<lambda>bn3.
              Some (vchBool (bn_le L bn2 bn1 \<and> bn_lt L bn1 bn3) # r))))
      | _ \<Rightarrow> None)"

definition op_hash :: "extlib \<Rightarrow> opcodetype \<Rightarrow> valtype list \<Rightarrow> valtype list option" where
  "op_hash L opcode st =
     (case st of
        vch # r \<Rightarrow>
          Some ((if opcode = 0xa6 then RIPEMD160 L vch
                 else if opcode = 0xa7 then SHA1 L vch
                 else if opcode = 0xa8 then SHA256 L vch
                 else if opcode = OP_HASH160 then u160_bytes (Hash160 L vch)
                 else u256_bytes (Hash L vch)) # r)
      | _ \<Rightarrow> None)"

text \<open>All instructions that act on the stack alone.\<close>

definition op_pure :: "extlib \<Rightarrow> opcodetype \<Rightarrow> valtype list \<Rightarrow> valtype list option" where
  "op_pure L opcode st =
     (if opcode = 0x4f \<or> (OP_1 \<le> opcode \<and> opcode \<le> OP_16) then op_push_number L opcode st
      else if opcode = 0x61 \<or> (0xb0 \<le> opcode \<and> opcode \<le> 0xb9) then Some st
      else if opcode = 0x69 then op_verify st
      else if 0x6d \<le> opcode \<and> opcode \<le> 0x72 then op_stack_many opcode st
      else if 0x73 \<le> opcode \<and> opcode \<le> 0x7d then op_stack_one L opcode st
      else if 0x7e \<le> opcode \<and> opcode \<le> 0x82 then op_splice L opcode st
      else if 0x83 \<le> opcode \<and> opcode \<le> 0x86 then op_bitwise opcode st
      else if opcode = OP_EQUAL \<or> opcode = OP_EQUALVERIFY then op_equal opcode st
      else if 0x8b \<le> opcode \<and> opcode \<le> 0x92 then op_unary L opcode st
      else if 0x93 \<le> opcode \<and> opcode \<le> 0xa4 then op_binary L opcode st
      else if opcode = 0xa5 then op_within L st
      else if 0xa6 \<le> opcode \<and> opcode \<le> 0xaa then op_hash L opcode st
      else None)"

section \<open>Instructions with more state\<close>

type_synonym 's outcome = "'s + 's eval_state"

definition on_stack :: "(valtype list \<Rightarrow> valtype list option) \<Rightarrow> 's eval_state \<Rightarrow> 's outcome" where
  "on_stack f e =
     (case f (stack e) of None \<Rightarrow> Inl (sigstate e) | Some st \<Rightarrow> Inr (e\<lparr>stack := st\<rparr>))"

definition fExec :: "'s eval_state \<Rightarrow> bool" where
  "fExec e = (False \<notin> set (vfExec e))"

text \<open>\<open>OP_IF\<close>, \<open>OP_NOTIF\<close>, \<open>OP_ELSE\<close>, \<open>OP_ENDIF\<close>.\<close>

definition op_if :: "opcodetype \<Rightarrow> 's eval_state \<Rightarrow> 's outcome" where
  "op_if opcode e =
     (if fExec e
      then case stack e of
             [] \<Rightarrow> Inl (sigstate e)
           | vch # r \<Rightarrow>
               let fValue = CastToBool vch;
                   fValue = (if opcode = OP_NOTIF then \<not> fValue else fValue)
               in Inr (e\<lparr>stack := r, vfExec := fValue # vfExec e\<rparr>)
      else Inr (e\<lparr>vfExec := False # vfExec e\<rparr>))"

definition op_else :: "'s eval_state \<Rightarrow> 's outcome" where
  "op_else e =
     (case vfExec e of [] \<Rightarrow> Inl (sigstate e) | b # r \<Rightarrow> Inr (e\<lparr>vfExec := (\<not> b) # r\<rparr>))"

definition op_endif :: "'s eval_state \<Rightarrow> 's outcome" where
  "op_endif e =
     (case vfExec e of [] \<Rightarrow> Inl (sigstate e) | b # r \<Rightarrow> Inr (e\<lparr>vfExec := r\<rparr>))"

definition op_altstack :: "opcodetype \<Rightarrow> 's eval_state \<Rightarrow> 's outcome" where
  "op_altstack opcode e =
     (if opcode = 0x6b
      then case stack e of
             [] \<Rightarrow> Inl (sigstate e)
           | x # r \<Rightarrow> Inr (e\<lparr>stack := r, altstack := x # altstack e\<rparr>)
      else case altstack e of
             [] \<Rightarrow> Inl (sigstate e)
           | x # r \<Rightarrow> Inr (e\<lparr>stack := x # stack e, altstack := r\<rparr>))"

definition push_success :: "opcodetype \<Rightarrow> opcodetype \<Rightarrow> bool \<Rightarrow> 's eval_state \<Rightarrow> 's outcome" where
  "push_success opcode opverify fSuccess e =
     (if opcode = opverify
      then if fSuccess then Inr e else Inl (sigstate e)
      else Inr (e\<lparr>stack := vchBool fSuccess # stack e\<rparr>))"

definition op_checksig :: "'s sigcheck \<Rightarrow> opcodetype \<Rightarrow> 's eval_state \<Rightarrow> 's outcome" where
  "op_checksig chk opcode e =
     (case stack e of
        vchPubKey # vchSig # r \<Rightarrow>
          let scriptCode = snd (FindAndDelete (push_data vchSig) (codehash e));
              (fSuccess, c) = chk vchSig vchPubKey scriptCode (sigstate e)
          in push_success opcode OP_CHECKSIGVERIFY fSuccess (e\<lparr>stack := r, sigstate := c\<rparr>)
      | _ \<Rightarrow> Inl (sigstate e))"

text \<open>
  The loop over signatures and keys: the first signature is tried against the first key, a
  key is used up by every trial, and the loop gives up when fewer keys than signatures are left.
\<close>

fun multisig_loop ::
  "'s sigcheck \<Rightarrow> CScript \<Rightarrow> valtype list \<Rightarrow> valtype list \<Rightarrow> 's \<Rightarrow> bool \<times> 's" where
  "multisig_loop chk scriptCode [] keys c = (True, c)"
| "multisig_loop chk scriptCode (sig # sigs) (key # keys) c =
     (let (ok, c) = chk sig key scriptCode c;
          left = (if ok then sigs else sig # sigs)
      in if length keys < length left then (False, c)
         else multisig_loop chk scriptCode left keys c)"
| "multisig_loop chk scriptCode (sig # sigs) [] c = (False, c)"

definition op_checkmultisig :: "extlib \<Rightarrow> 's sigcheck \<Rightarrow> opcodetype \<Rightarrow> 's eval_state \<Rightarrow> 's outcome" where
  "op_checkmultisig L chk opcode e =
     (let st = stack e in
      if length st < 1 then Inl (sigstate e)
      else case CastToBigNum L (st ! 0) of
        None \<Rightarrow> Inl (sigstate e)
      | Some bnKeys \<Rightarrow>
        let nKeysCount = getint L bnKeys in
        if nKeysCount < 0 \<or> 20 < nKeysCount then Inl (sigstate e)
        else let nOp = nOpCount e + nKeysCount in
        if 201 < nOp then Inl (sigstate e)
        else let k = nat nKeysCount in
        if length st < 2 + k then Inl (sigstate e)
        else case CastToBigNum L (st ! (1 + k)) of
          None \<Rightarrow> Inl (sigstate e)
        | Some bnSigs \<Rightarrow>
          let nSigsCount = getint L bnSigs in
          if nSigsCount < 0 \<or> nKeysCount < nSigsCount then Inl (sigstate e)
          else let s = nat nSigsCount in
          if length st < 3 + k + s then Inl (sigstate e)
          else let keys = take k (drop 1 st);
                   sigs = take s (drop (2 + k) st);
                   scriptCode = fold (\<lambda>sig code. snd (FindAndDelete (push_data sig) code)) sigs (codehash e);
                   (fSuccess, c) = multisig_loop chk scriptCode sigs keys (sigstate e)
               in push_success opcode OP_CHECKMULTISIGVERIFY fSuccess
                    (e\<lparr>stack := drop (3 + k + s) st, nOpCount := nOp, sigstate := c\<rparr>))"

section \<open>The interpreter\<close>

text \<open>\<open>pc\<close> is the position after the instruction.\<close>

definition eval_op :: "extlib \<Rightarrow> 's sigcheck \<Rightarrow> opcodetype \<Rightarrow> bytes \<Rightarrow> 's eval_state \<Rightarrow> 's outcome" where
  "eval_op L chk opcode pc e =
     (if opcode = OP_IF \<or> opcode = OP_NOTIF then op_if opcode e
      else if opcode = OP_ELSE then op_else e
      else if opcode = OP_ENDIF then op_endif e
      else if opcode = 0x6b \<or> opcode = 0x6c then op_altstack opcode e
      else if opcode = OP_CODESEPARATOR then Inr (e\<lparr>codehash := pc\<rparr>)
      else if opcode = OP_CHECKSIG \<or> opcode = OP_CHECKSIGVERIFY then op_checksig chk opcode e
      else if opcode = OP_CHECKMULTISIG \<or> opcode = OP_CHECKMULTISIGVERIFY
        then op_checkmultisig L chk opcode e
      else on_stack (op_pure L opcode) e)"

definition count_op :: "opcodetype \<Rightarrow> 's eval_state \<Rightarrow> 's eval_state" where
  "count_op opcode e = (if OP_16 < opcode then e\<lparr>nOpCount := nOpCount e + 1\<rparr> else e)"

definition exec_op ::
  "extlib \<Rightarrow> 's sigcheck \<Rightarrow> opcodetype \<Rightarrow> bytes \<Rightarrow> bytes \<Rightarrow> 's eval_state \<Rightarrow> 's outcome" where
  "exec_op L chk opcode vchPushValue pc e =
     (if fExec e \<and> opcode \<le> OP_PUSHDATA4 then Inr (e\<lparr>stack := vchPushValue # stack e\<rparr>)
      else if fExec e \<or> (OP_IF \<le> opcode \<and> opcode \<le> OP_ENDIF) then eval_op L chk opcode pc e
      else Inr e)"

definition eval_step :: "extlib \<Rightarrow> 's sigcheck \<Rightarrow> bytes \<Rightarrow> 's eval_state \<Rightarrow> 's + (bytes \<times> 's eval_state)" where
  "eval_step L chk pc e =
     (case GetOp pc of
        None \<Rightarrow> Inl (sigstate e)
      | Some (opcode, vchPushValue, pc) \<Rightarrow>
          if 520 < length vchPushValue then Inl (sigstate e)
          else if OP_16 < opcode \<and> 201 < nOpCount (count_op opcode e) then Inl (sigstate e)
          else if disabled_op opcode then Inl (sigstate e)
          else rbind (exec_op L chk opcode vchPushValue pc (count_op opcode e))
                 (\<lambda>e. if 1000 < length (stack e) + length (altstack e) then Inl (sigstate e)
                      else Inr (pc, e)))"

lemma eval_step_Inr:
  "eval_step L chk pc e = Inr (pc', e') \<longleftrightarrow>
     (\<exists>opcode vch. GetOp pc = Some (opcode, vch, pc') \<and> length vch \<le> 520
        \<and> (OP_16 < opcode \<longrightarrow> nOpCount (count_op opcode e) \<le> 201) \<and> \<not> disabled_op opcode
        \<and> exec_op L chk opcode vch pc' (count_op opcode e) = Inr e'
        \<and> length (stack e') + length (altstack e') \<le> 1000)"
  by (auto simp: eval_step_def rbind_eq_Inr not_less split: option.splits if_splits)

lemma eval_step_shorter: "eval_step L chk pc e = Inr (pc', e') \<Longrightarrow> length pc' < length pc"
  by (auto simp: eval_step_Inr dest: GetOp_shorter)

function eval_loop :: "extlib \<Rightarrow> 's sigcheck \<Rightarrow> bytes \<Rightarrow> 's eval_state \<Rightarrow> 's outcome" where
  "eval_loop L chk pc e =
     (if pc = [] then Inr e
      else case eval_step L chk pc e of
             Inl c \<Rightarrow> Inl c
           | Inr (pc', e') \<Rightarrow> eval_loop L chk pc' e')"
  by pat_completeness auto
termination
  by (relation "measure (\<lambda>(L, chk, pc, e). length pc)") (auto dest: eval_step_shorter)

declare eval_loop.simps [simp del]

definition eval_init :: "valtype list \<Rightarrow> CScript \<Rightarrow> 's \<Rightarrow> 's eval_state" where
  "eval_init st script c =
     \<lparr>stack = st, altstack = [], vfExec = [], nOpCount = 0, codehash = script, sigstate = c\<rparr>"

definition EvalScript ::
  "extlib \<Rightarrow> 's sigcheck \<Rightarrow> valtype list \<Rightarrow> CScript \<Rightarrow> 's \<Rightarrow> 's + (valtype list \<times> 's)" where
  "EvalScript L chk st script c =
     (if 10000 < length script then Inl c
      else rbind (eval_loop L chk script (eval_init st script c))
             (\<lambda>e. if vfExec e \<noteq> [] then Inl (sigstate e) else Inr (stack e, sigstate e)))"

section \<open>Steps as a relation\<close>

text \<open>
  \<open>script_run\<close> is the run of the machine as a sequence of steps, on which invariants are
  proved by rule induction.
\<close>

inductive script_run ::
  "extlib \<Rightarrow> 's sigcheck \<Rightarrow> bytes \<Rightarrow> 's eval_state \<Rightarrow> bytes \<Rightarrow> 's eval_state \<Rightarrow> bool"
  for L chk where
  run_refl: "script_run L chk pc e pc e"
| run_step: "pc \<noteq> [] \<Longrightarrow> eval_step L chk pc e = Inr (pc1, e1) \<Longrightarrow> script_run L chk pc1 e1 pc2 e2 \<Longrightarrow>
    script_run L chk pc e pc2 e2"

inductive_cases script_runE: "script_run L chk pc e pc2 e2"

lemma eval_loop_run: "eval_loop L chk pc e = Inr e' \<longleftrightarrow> script_run L chk pc e [] e'"
proof
  show "eval_loop L chk pc e = Inr e' \<Longrightarrow> script_run L chk pc e [] e'"
  proof (induction L chk pc e rule: eval_loop.induct)
    case (1 L chk pc e)
    then show ?case
      by (subst (asm) (2) eval_loop.simps)
        (auto split: if_splits sum.splits prod.splits intro: script_run.intros)
  qed
  show "script_run L chk pc e [] e' \<Longrightarrow> eval_loop L chk pc e = Inr e'"
  proof (induction pc e "[] :: bytes" e' rule: script_run.induct)
    case (run_refl e)
    show ?case by (simp add: eval_loop.simps)
  next
    case (run_step pc e pc1 e1 e2)
    then show ?case by (subst eval_loop.simps) simp
  qed
qed

lemma script_run_invariant:
  assumes "script_run L chk pc e pc' e'" and "I pc e"
    and "\<And>pc e pc' e'. I pc e \<Longrightarrow> eval_step L chk pc e = Inr (pc', e') \<Longrightarrow> I pc' e'"
  shows "I pc' e'"
  using assms(1,2) by (induction rule: script_run.induct) (auto intro: assms(3))

lemma EvalScript_run:
  "EvalScript L chk st script c = Inr (st', c') \<longleftrightarrow>
    length script \<le> 10000 \<and>
    (\<exists>e. script_run L chk script (eval_init st script c) [] e \<and> vfExec e = [] \<and> stack e = st' \<and> sigstate e = c')"
  by (auto simp: EvalScript_def rbind_eq_Inr eval_loop_run)

section \<open>Numbers on the stack\<close>
lemma length_getvch:
  assumes "bn_ok L" and "\<bar>n\<bar> < 256 ^ 8"
  shows "length (getvch L n) \<le> 9" and "getvch L n = sm_encode n"
proof -
  have small: "bn_small n" using assms(2) by (rule bn_small_bound) simp
  show e: "getvch L n = sm_encode n" using assms(1) small by (rule getvch_value)
  have "sm_len (nat \<bar>n\<bar>) \<le> 9"
  proof (rule ccontr)
    assume "\<not> ?thesis"
    then have "128 * 256 ^ 8 \<le> nat \<bar>n\<bar>" by (intro sm_len_least) simp
    with assms(2) show False by simp
  qed
  then show "length (getvch L n) \<le> 9" by (simp add: e length_sm_encode)
qed

lemma CastToBigNum_value:
  assumes "bn_ok L"
  shows "CastToBigNum L v = (if 4 < length v then None else Some (sm_decode v))"
proof (cases "4 < length v")
  case True
  then show ?thesis by (simp add: CastToBigNum_def nMaxNumSize_def)
next
  case False
  have "\<bar>sm_decode v\<bar> < 256 ^ 8"
  proof (cases "v = []")
    case True
    then show ?thesis by (simp add: sm_decode_def)
  next
    case ne: False
    have "sm_half v \<le> 128 * 256 ^ 3" using False
      by (auto simp: sm_half_def intro!: power_increasing [of _ 3 "256::nat", simplified])
    then have "int (sm_half v) \<le> 2147483648" by simp
    with sm_decode_bound [OF ne] show ?thesis by simp
  qed
  then have g: "getvch L (sm_decode v) = sm_encode (sm_decode v)"
    and "length (getvch L (sm_decode v)) \<le> 9"
    using length_getvch [OF assms] by auto
  then show ?thesis
    using False by (simp add: CastToBigNum_def nMaxNumSize_def setvch_value assms sm_decode_encode)
qed

lemma CastToBigNum_bound:
  assumes "bn_ok L" and "CastToBigNum L v = Some n"
  shows "\<bar>n\<bar> < 2147483648"
proof (cases "v = []")
  case True
  with assms show ?thesis by (simp add: CastToBigNum_value sm_decode_def)
next
  case ne: False
  from assms have v: "length v \<le> 4" "n = sm_decode v" by (auto simp: CastToBigNum_value split: if_splits)
  then have "sm_half v \<le> 128 * 256 ^ 3"
    by (auto simp: sm_half_def intro!: power_increasing [of _ 3 "256::nat", simplified])
  with sm_decode_bound [OF ne] v(2) show ?thesis by simp
qed

lemma bn_of_bool_value [bn_simps]: "bn_ok L \<Longrightarrow> bn_of_bool L b = (if b then 1 else 0)"
  by (simp add: bn_of_bool_def bn_of_int_value)

lemma bn_of_int_small [bn_simps]:
  "bn_ok L \<Longrightarrow> bn_of_int L 0 = 0" "bn_ok L \<Longrightarrow> bn_of_int L 1 = 1"
  by (simp_all add: bn_of_int_value)

lemma unary_bound:
  assumes "bn_ok L" and "\<not> disabled_op opcode"
  shows "\<bar>unary_number L opcode n\<bar> \<le> \<bar>n\<bar> + 1"
  using assms(2) by (auto simp: unary_number_def disabled_op_def bn_simps [OF assms(1)] bn_uminus_def)

lemma binary_bound:
  assumes "bn_ok L" and "\<not> disabled_op opcode" and "binary_number L opcode a b = Some n"
  shows "\<bar>n\<bar> \<le> \<bar>a\<bar> + \<bar>b\<bar> + 1"
  using assms(2,3)
  by (auto simp: binary_number_def disabled_op_def bn_simps [OF assms(1)] Let_def split: if_splits)

section \<open>Bounds on the stacks\<close>

definition small_elems :: "valtype list \<Rightarrow> bool" where
  "small_elems st \<longleftrightarrow> (\<forall>v \<in> set st. length v \<le> 520)"

lemma small_elems_simps [simp]:
  "small_elems []" "small_elems (v # st) \<longleftrightarrow> length v \<le> 520 \<and> small_elems st"
  "small_elems (st @ st') \<longleftrightarrow> small_elems st \<and> small_elems st'"
  by (auto simp: small_elems_def)

lemma small_elems_drop: "small_elems st \<Longrightarrow> small_elems (drop n st)"
  by (auto simp: small_elems_def dest: in_set_dropD)

lemma small_elems_take: "small_elems st \<Longrightarrow> small_elems (take n st)"
  by (auto simp: small_elems_def dest: in_set_takeD)

lemma small_number: "bn_ok L \<Longrightarrow> \<bar>n\<bar> < 256 ^ 8 \<Longrightarrow> length (getvch L n) \<le> 520"
  using length_getvch(1) [of L n] by simp

lemma small_unsigned: "bn_ok L \<Longrightarrow> length (getvch L (setulong L w)) \<le> 520"
  using unat_lt_2p [of w]
  by (intro small_number) (simp_all add: setulong_int flip: of_nat_less_iff [where 'a = int])

lemma small_vchBool [simp]: "length (vchBool b) \<le> 520"
  by (simp add: vchBool_def vchTrue_def vchFalse_def)

text \<open>Every group of instructions keeps the elements of the stack within 520 bytes.\<close>

named_theorems keeps_small

lemma small_op_push_number [keeps_small]:
  assumes "bn_ok L" and "op_push_number L opcode st = Some st'" and "small_elems st"
  shows "small_elems st'"
proof -
  have "bn_of_int L (int (unat opcode) - (0x51 - 1)) = int (unat opcode) - (0x51 - 1)"
    using unsigned_less [of opcode, where 'a = int]
    by (intro bn_of_int_value [OF assms(1)]) simp_all
  moreover have "\<bar>int (unat opcode) - (0x51 - 1)\<bar> < 256 ^ 8"
  proof -
    have "unat opcode < 256" by simp
    then show ?thesis by (simp add: abs_less_iff del: of_nat_unat unat_byte_lt)
  qed
  ultimately show ?thesis
    using assms(2,3) small_number [OF assms(1), of "int (unat opcode) - (0x51 - 1)"]
    by (simp only: op_push_number_def option.inject) (auto simp del: of_nat_unat)
qed

lemma small_op_verify [keeps_small]: "op_verify st = Some st' \<Longrightarrow> small_elems st \<Longrightarrow> small_elems st'"
  by (auto simp: op_verify_def split: list.splits if_splits)

lemma small_op_stack_many [keeps_small]:
  "op_stack_many opcode st = Some st' \<Longrightarrow> small_elems st \<Longrightarrow> small_elems st'"
  by (auto simp: op_stack_many_def split: list.splits if_splits)

lemma small_op_pick_roll:
  assumes "op_pick_roll L opcode st = Some st'" and "small_elems st"
  shows "small_elems st'"
proof -
  obtain x y r bn where st: "st = x # y # r"
    and bn: "\<not> (getint L bn < 0 \<or> int (length (y # r)) \<le> getint L bn)"
    and st': "st' = (y # r) ! nat (getint L bn) #
      (if opcode = 0x7a then take (nat (getint L bn)) (y # r) @ drop (nat (getint L bn) + 1) (y # r) else y # r)"
    using assms(1)
    by (auto simp: op_pick_roll_def Let_def simp del: drop_Suc_Cons split: list.splits option.splits if_splits)
  define n where "n = nat (getint L bn)"
  have yr: "small_elems (y # r)" using assms(2) st by simp
  have n: "n < length (y # r)" using bn by (simp add: n_def nat_less_iff)
  then have "length ((y # r) ! n) \<le> 520" using yr unfolding small_elems_def by (metis nth_mem)
  moreover have "small_elems (take n (y # r) @ drop (n + 1) (y # r))"
    using small_elems_take [OF yr] small_elems_drop [OF yr] by (simp only: small_elems_simps)
  ultimately show ?thesis unfolding st' n_def [symmetric] using yr by (simp del: drop_Suc_Cons)
qed

lemma small_op_stack_one [keeps_small]:
  assumes "bn_ok L" and "op_stack_one L opcode st = Some st'" and "small_elems st"
  shows "small_elems st'"
  using assms small_op_pick_roll [of L opcode st st'] small_unsigned [OF assms(1)]
  by (auto simp: op_stack_one_def split: list.splits if_splits)

lemma small_op_splice [keeps_small]:
  assumes "bn_ok L" and "\<not> disabled_op opcode" and "op_splice L opcode st = Some st'" and "small_elems st"
  shows "small_elems st'"
  using assms small_unsigned [OF assms(1)]
  by (auto simp: op_splice_def disabled_op_def split: list.splits if_splits)

lemma small_op_equal [keeps_small]:
  "op_equal opcode st = Some st' \<Longrightarrow> small_elems st \<Longrightarrow> small_elems st'"
  by (auto simp: op_equal_def Let_def split: list.splits if_splits)

lemma small_op_unary [keeps_small]:
  assumes "bn_ok L" and "\<not> disabled_op opcode" and "op_unary L opcode st = Some st'" and "small_elems st"
  shows "small_elems st'"
proof -
  obtain x r n where st: "st = x # r" and n: "CastToBigNum L x = Some n"
    and st': "st' = getvch L (unary_number L opcode n) # r"
    using assms(3) by (auto simp: op_unary_def option_bind_eq_Some split: list.splits)
  have "\<bar>unary_number L opcode n\<bar> < 256 ^ 8"
    using unary_bound [OF assms(1,2), of n] CastToBigNum_bound [OF assms(1) n] by simp
  then show ?thesis using assms(4) small_number [OF assms(1)] by (simp add: st st')
qed

lemma small_op_binary [keeps_small]:
  assumes "bn_ok L" and "\<not> disabled_op opcode" and "op_binary L opcode st = Some st'" and "small_elems st"
  shows "small_elems st'"
proof -
  obtain x1 x2 r a b n where st: "st = x2 # x1 # r"
    and ab: "CastToBigNum L x1 = Some a" "CastToBigNum L x2 = Some b"
    and n: "binary_number L opcode a b = Some n" and st': "st' = r \<or> st' = getvch L n # r"
    using assms(3)
    by (auto simp: op_binary_def option_bind_eq_Some Let_def split: list.splits if_splits)
  have "\<bar>n\<bar> < 256 ^ 8"
    using binary_bound [OF assms(1,2) n] CastToBigNum_bound [OF assms(1) ab(1)]
      CastToBigNum_bound [OF assms(1) ab(2)] by simp
  then show ?thesis using assms(4) st' small_number [OF assms(1)] by (auto simp: st)
qed

lemma small_op_within [keeps_small]: "op_within L st = Some st' \<Longrightarrow> small_elems st \<Longrightarrow> small_elems st'"
  by (auto simp: op_within_def option_bind_eq_Some split: list.splits)

lemma small_op_hash [keeps_small]:
  "hash_ok L \<Longrightarrow> op_hash L opcode st = Some st' \<Longrightarrow> small_elems st \<Longrightarrow> small_elems st'"
  by (auto simp: op_hash_def hash_ok_def split: list.splits)

lemma small_op_bitwise [keeps_small]:
  assumes "0x83 \<le> opcode \<and> opcode \<le> 0x86" and "\<not> disabled_op opcode"
  shows "small_elems st'"
proof -
  from assms(1) have "unat opcode \<in> {131, 132, 133, 134}" by (auto simp: word_le_nat_alt)
  then have "opcode \<in> {0x83, 0x84, 0x85, 0x86}" by (auto simp: word_eq_iff_unat)
  with assms(2) show ?thesis by (auto simp: disabled_op_def)
qed

lemma small_unchanged [keeps_small]:
  "Some st = Some st' \<Longrightarrow> small_elems st \<Longrightarrow> small_elems st'"
  "None = Some st' \<Longrightarrow> small_elems st'"
  by simp_all

lemma if_SomeE:
  "(if b then x else y) = Some z \<Longrightarrow> (b \<Longrightarrow> x = Some z \<Longrightarrow> P) \<Longrightarrow> (\<not> b \<Longrightarrow> y = Some z \<Longrightarrow> P) \<Longrightarrow> P"
  by (simp split: if_splits)

lemma small_op_pure:
  assumes "bn_ok L" and "hash_ok L" and "\<not> disabled_op opcode"
    and "op_pure L opcode st = Some st'" and "small_elems st"
  shows "small_elems st'"
  using assms(4) unfolding op_pure_def
  by (elim if_SomeE) (rule keeps_small; (assumption | rule assms))+

text \<open>The machine state between two instructions.\<close>

definition eval_inv :: "'s eval_state \<Rightarrow> bool" where
  "eval_inv e \<longleftrightarrow> small_elems (stack e) \<and> small_elems (altstack e)
     \<and> length (stack e) + length (altstack e) \<le> 1000 \<and> 0 \<le> nOpCount e \<and> nOpCount e \<le> 201"

lemma push_success_fields:
  assumes "push_success opcode v b e = Inr e'"
  shows "altstack e' = altstack e \<and> nOpCount e' = nOpCount e \<and> vfExec e' = vfExec e
    \<and> codehash e' = codehash e \<and> sigstate e' = sigstate e
    \<and> (small_elems (stack e) \<longrightarrow> small_elems (stack e'))"
  using assms by (auto simp: push_success_def split: if_splits)

lemma op_checkmultisig_fields:
  assumes "op_checkmultisig L chk opcode e = Inr e'"
  shows "\<exists>n k b c. push_success opcode OP_CHECKMULTISIGVERIFY b
      (e\<lparr>stack := drop k (stack e), nOpCount := nOpCount e + n, sigstate := c\<rparr>) = Inr e'
    \<and> 0 \<le> n \<and> n \<le> 20 \<and> nOpCount e + n \<le> 201"
  using assms
  by (auto simp: op_checkmultisig_def Let_def not_less split: if_splits option.splits prod.splits)
    (intro exI conjI, assumption, linarith+)

lemma eval_op_small:
  assumes "bn_ok L" and "hash_ok L" and "\<not> disabled_op opcode" and "eval_op L chk opcode pc e = Inr e'"
    and "small_elems (stack e)" and "small_elems (altstack e)" and "0 \<le> nOpCount e" and "nOpCount e \<le> 201"
  shows "small_elems (stack e') \<and> small_elems (altstack e') \<and> 0 \<le> nOpCount e' \<and> nOpCount e' \<le> 201"
proof -
  have checksig: ?thesis if "op_checksig chk opcode e = Inr e'"
    using that assms(5-8)
    by (auto simp: op_checksig_def Let_def dest!: push_success_fields split: list.splits prod.splits)
  have multisig: ?thesis if "op_checkmultisig L chk opcode e = Inr e'"
    using op_checkmultisig_fields [OF that] assms(5-8)
    by (auto dest!: push_success_fields simp: small_elems_drop)
  have pure: ?thesis if "on_stack (op_pure L opcode) e = Inr e'"
    using that assms small_op_pure [OF assms(1-3)] by (auto simp: on_stack_def split: option.splits)
  show ?thesis
    using assms(4-8) checksig multisig pure unfolding eval_op_def
    by (auto simp: op_if_def op_else_def op_endif_def op_altstack_def Let_def
        split: if_splits list.splits)
qed

lemma eval_step_inv:
  assumes "bn_ok L" and "hash_ok L" and "eval_step L chk pc e = Inr (pc', e')" and "eval_inv e"
  shows "eval_inv e'"
proof -
  obtain opcode vch where vch: "length vch \<le> 520" and n: "OP_16 < opcode \<longrightarrow> nOpCount (count_op opcode e) \<le> 201"
    and dis: "\<not> disabled_op opcode" and r: "exec_op L chk opcode vch pc' (count_op opcode e) = Inr e'"
    and size: "length (stack e') + length (altstack e') \<le> 1000"
    using assms(3) by (auto simp: eval_step_Inr)
  define e1 where "e1 = count_op opcode e"
  have "small_elems (stack e1) \<and> small_elems (altstack e1) \<and> 0 \<le> nOpCount e1 \<and> nOpCount e1 \<le> 201"
    using assms(4) n by (auto simp: e1_def count_op_def eval_inv_def)
  then have "small_elems (stack e') \<and> small_elems (altstack e') \<and> 0 \<le> nOpCount e' \<and> nOpCount e' \<le> 201"
    using r vch eval_op_small [OF assms(1,2) dis] by (auto simp: exec_op_def e1_def split: if_splits)
  with size show ?thesis by (simp add: eval_inv_def)
qed

section \<open>What an accepted script looks like\<close>

text \<open>The change an instruction makes to the number of open conditionals.\<close>

definition cond_depth :: "opcodetype \<Rightarrow> int" where
  "cond_depth opcode =
     (if opcode = OP_IF \<or> opcode = OP_NOTIF then 1 else if opcode = OP_ENDIF then - 1 else 0)"

definition op_weight :: "opcodetype \<Rightarrow> int" where
  "op_weight opcode = (if OP_16 < opcode then 1 else 0)"

lemma eval_op_effect:
  assumes "eval_op L chk opcode pc e = Inr e'"
  shows "nOpCount e \<le> nOpCount e' \<and> int (length (vfExec e')) = int (length (vfExec e)) + cond_depth opcode"
proof -
  have checksig: ?thesis if "op_checksig chk opcode e = Inr e'" "cond_depth opcode = 0"
    using that by (auto simp: op_checksig_def Let_def dest!: push_success_fields split: list.splits prod.splits)
  have multisig: ?thesis if "op_checkmultisig L chk opcode e = Inr e'" "cond_depth opcode = 0"
    using op_checkmultisig_fields [OF that(1)] that(2) by (auto dest!: push_success_fields)
  have pure: ?thesis if "on_stack (op_pure L opcode) e = Inr e'" "cond_depth opcode = 0"
    using that by (auto simp: on_stack_def split: option.splits)
  show ?thesis
    using assms checksig multisig pure unfolding eval_op_def
    by (auto simp: op_if_def op_else_def op_endif_def op_altstack_def Let_def cond_depth_def
        split: if_splits list.splits)
qed

lemma cond_depth_range:
  "cond_depth opcode \<noteq> 0 \<Longrightarrow> OP_IF \<le> opcode \<and> opcode \<le> OP_ENDIF \<and> \<not> opcode \<le> OP_PUSHDATA4"
  by (auto simp: cond_depth_def split: if_splits)

lemma eval_step_effect:
  assumes "eval_step L chk pc e = Inr (pc', e')"
  obtains opcode d where "GetOp pc = Some (opcode, d, pc')" and "length d \<le> 520" and "\<not> disabled_op opcode"
    and "nOpCount e + op_weight opcode \<le> nOpCount e'"
    and "int (length (vfExec e')) = int (length (vfExec e)) + cond_depth opcode"
proof -
  obtain opcode d where op: "GetOp pc = Some (opcode, d, pc')" "length d \<le> 520" "\<not> disabled_op opcode"
    and r: "exec_op L chk opcode d pc' (count_op opcode e) = Inr e'"
    using assms by (auto simp: eval_step_Inr)
  let ?e = "count_op opcode e"
  have c: "nOpCount ?e = nOpCount e + op_weight opcode" "vfExec ?e = vfExec e"
    by (simp_all add: count_op_def op_weight_def)
  have "nOpCount ?e \<le> nOpCount e' \<and> int (length (vfExec e')) = int (length (vfExec ?e)) + cond_depth opcode"
  proof (cases "cond_depth opcode = 0")
    case True
    then show ?thesis using r by (auto simp: exec_op_def dest!: eval_op_effect split: if_splits)
  next
    case False
    then have "eval_op L chk opcode pc' ?e = Inr e'" using cond_depth_range [OF False] r
      by (simp add: exec_op_def)
    then show ?thesis by (rule eval_op_effect)
  qed
  then show ?thesis using op c that by simp
qed

function fully_read :: "CScript \<Rightarrow> bool" where
  "fully_read pc =
     (if pc = [] then True else case GetOp pc of None \<Rightarrow> False | Some (opcode, d, r) \<Rightarrow> fully_read r)"
  by pat_completeness auto
termination
  by (relation "measure length") (auto dest: GetOp_shorter)

declare fully_read.simps [simp del]

lemma script_run_ops:
  assumes "script_run L chk pc e pc2 e2" and "pc2 = []"
  shows "fully_read pc \<and> (\<forall>(opcode, d) \<in> set (script_ops pc). length d \<le> 520 \<and> \<not> disabled_op opcode)
    \<and> nOpCount e + (\<Sum>(opcode, d) \<leftarrow> script_ops pc. op_weight opcode) \<le> nOpCount e2
    \<and> int (length (vfExec e2)) = int (length (vfExec e)) + (\<Sum>(opcode, d) \<leftarrow> script_ops pc. cond_depth opcode)"
  using assms
proof (induction rule: script_run.induct)
  case (run_refl pc e)
  then show ?case by (simp add: fully_read.simps script_ops.simps)
next
  case (run_step pc e pc1 e1 pc2 e2)
  obtain opcode d where g: "GetOp pc = Some (opcode, d, pc1)" "length d \<le> 520" "\<not> disabled_op opcode"
    "nOpCount e + op_weight opcode \<le> nOpCount e1"
    "int (length (vfExec e1)) = int (length (vfExec e)) + cond_depth opcode"
    using run_step.hyps(2) by (rule eval_step_effect)
  have "script_ops pc = (opcode, d) # script_ops pc1" "fully_read pc = fully_read pc1"
    using g(1) run_step.hyps(1) by (subst script_ops.simps fully_read.simps; simp)+
  then show ?case using g run_step.IH [OF run_step.prems] by auto
qed

lemma script_run_inv:
  assumes "bn_ok L" and "hash_ok L" and "script_run L chk pc e pc' e'" and "eval_inv e"
  shows "eval_inv e'"
  using assms(3,4) eval_step_inv [OF assms(1,2)] by (rule script_run_invariant)

lemma op_weight_count: "(\<Sum>(opcode, d) \<leftarrow> ops. op_weight opcode) = int (length (filter (\<lambda>(opcode, d). OP_16 < opcode) ops))"
  by (induction ops) (auto simp: op_weight_def)

lemma cond_depth_count:
  "(\<Sum>(opcode, d) \<leftarrow> ops. cond_depth opcode) =
     int (length (filter (\<lambda>(opcode, d). opcode = OP_IF \<or> opcode = OP_NOTIF) ops))
     - int (length (filter (\<lambda>(opcode, d). opcode = OP_ENDIF) ops))"
  by (induction ops) (auto simp: cond_depth_def)

lemma eval_step_count:
  assumes "nOpCount e \<le> 201" and "eval_step L chk pc e = Inr (pc', e')"
  shows "nOpCount e' \<le> 201"
proof -
  obtain opcode vch where "OP_16 < opcode \<longrightarrow> nOpCount (count_op opcode e) \<le> 201"
    and r: "exec_op L chk opcode vch pc' (count_op opcode e) = Inr e'"
    using assms(2) unfolding eval_step_Inr by blast
  then have n: "nOpCount (count_op opcode e) \<le> 201"
    using assms(1) by (cases "OP_16 < opcode") (simp_all add: count_op_def)
  have "nOpCount e2 \<le> 201" if "eval_op L chk opcode pc' e1 = Inr e2" "nOpCount e1 \<le> 201" for e1 e2
  proof -
    have checksig: ?thesis if "op_checksig chk opcode e1 = Inr e2"
      using that \<open>nOpCount e1 \<le> 201\<close>
      by (auto simp: op_checksig_def Let_def dest!: push_success_fields split: list.splits prod.splits)
    have multisig: ?thesis if "op_checkmultisig L chk opcode e1 = Inr e2"
      using op_checkmultisig_fields [OF that] by (auto dest!: push_success_fields)
    have pure: ?thesis if "on_stack (op_pure L opcode) e1 = Inr e2"
      using that \<open>nOpCount e1 \<le> 201\<close> by (auto simp: on_stack_def split: option.splits)
    show ?thesis
      using that checksig multisig pure unfolding eval_op_def
      by (auto simp: op_if_def op_else_def op_endif_def op_altstack_def Let_def split: if_splits list.splits)
  qed
  then show ?thesis using r n by (auto simp: exec_op_def split: if_splits)
qed

section \<open>Multiple signatures\<close>

text \<open>
  What the loop decides: the signatures can be assigned, in their order, to different keys,
  in their order, each valid for its key. A sound checker is one whose answer does not
  depend on its state.
\<close>

definition checks :: "'s sigcheck \<Rightarrow> (valtype \<Rightarrow> valtype \<Rightarrow> CScript \<Rightarrow> bool) \<Rightarrow> bool" where
  "checks chk ok \<longleftrightarrow> (\<forall>sig key code c. fst (chk sig key code c) = ok sig key code)"

fun matches :: "(valtype \<Rightarrow> valtype \<Rightarrow> bool) \<Rightarrow> valtype list \<Rightarrow> valtype list \<Rightarrow> bool" where
  "matches ok [] keys \<longleftrightarrow> True"
| "matches ok (sig # sigs) [] \<longleftrightarrow> False"
| "matches ok (sig # sigs) (key # keys) \<longleftrightarrow>
     (ok sig key \<and> matches ok sigs keys) \<or> matches ok (sig # sigs) keys"

lemma matches_length: "matches ok sigs keys \<Longrightarrow> length sigs \<le> length keys"
  by (induction ok sigs keys rule: matches.induct) auto

lemma matches_tl: "matches ok (sig # sigs) keys \<Longrightarrow> matches ok sigs keys"
proof (induction keys)
  case (Cons key keys)
  then show ?case by (cases sigs) auto
qed simp

lemma matches_subseq:
  "matches ok sigs keys \<longleftrightarrow> (\<exists>ks \<in> set (subseqs keys). list_all2 ok sigs ks)"
proof (induction ok sigs keys rule: matches.induct)
  case (1 ok keys)
  have "[] \<in> set (subseqs keys)" by (induction keys) (auto simp: Let_def)
  then show ?case by auto
next
  case (3 ok sig sigs key keys)
  then show ?case by (auto simp: Let_def list_all2_Cons1 image_iff)
qed simp

lemma multisig_loop_matches:
  assumes "checks chk ok" and "length sigs \<le> length keys"
  shows "fst (multisig_loop chk code sigs keys c) \<longleftrightarrow> matches (\<lambda>s k. ok s k code) sigs keys"
  using assms
proof (induction chk code sigs keys c rule: multisig_loop.induct)
  case (2 chk code sig sigs key keys c)
  obtain b c' where r: "chk sig key code c = (b, c')" by fastforce
  have b: "b = ok sig key code" using "2.prems"(1) r unfolding checks_def by (metis fst_conv)
  let ?left = "if b then sigs else sig # sigs"
  have m: "matches (\<lambda>s k. ok s k code) (sig # sigs) (key # keys) \<longleftrightarrow> matches (\<lambda>s k. ok s k code) ?left keys"
    using b matches_tl [of "\<lambda>s k. ok s k code" sig sigs keys] by auto
  show ?case
  proof (cases "length keys < length ?left")
    case True
    then have "\<not> matches (\<lambda>s k. ok s k code) ?left keys" using matches_length by (metis not_less)
    with True show ?thesis by (simp only: multisig_loop.simps r Let_def prod.case if_True fst_conv m)
  next
    case False
    then have "length ?left \<le> length keys" by simp
    from "2.IH" [OF r [symmetric] refl refl False "2.prems"(1) this] show ?thesis
      by (simp only: multisig_loop.simps r Let_def prod.case False if_False m)
  qed
qed auto

section \<open>Checkers with different states\<close>

text \<open>
  Two checkers that answer alike as long as their states are related by \<open>R\<close> make the
  machine behave alike. This is how a cache of signatures is shown to be invisible.
\<close>

definition check_sim :: "('s \<Rightarrow> 't \<Rightarrow> bool) \<Rightarrow> 's sigcheck \<Rightarrow> 't sigcheck \<Rightarrow> bool" where
  "check_sim R chk chk' \<longleftrightarrow>
     (\<forall>sig key code s t. R s t \<longrightarrow>
        fst (chk sig key code s) = fst (chk' sig key code t)
        \<and> R (snd (chk sig key code s)) (snd (chk' sig key code t)))"

inductive state_rel :: "('s \<Rightarrow> 't \<Rightarrow> bool) \<Rightarrow> 's eval_state \<Rightarrow> 't eval_state \<Rightarrow> bool" for R where
  "R s t \<Longrightarrow> state_rel R
     \<lparr>stack = st, altstack = alt, vfExec = vf, nOpCount = n, codehash = code, sigstate = s\<rparr>
     \<lparr>stack = st, altstack = alt, vfExec = vf, nOpCount = n, codehash = code, sigstate = t\<rparr>"

inductive_cases state_relE: "state_rel R e e'"

inductive_simps state_rel_simps:
  "state_rel R \<lparr>stack = st, altstack = alt, vfExec = vf, nOpCount = n, codehash = code, sigstate = s\<rparr>
     \<lparr>stack = st', altstack = alt', vfExec = vf', nOpCount = n', codehash = code', sigstate = t\<rparr>"

abbreviation "outcome_rel R \<equiv> rel_sum R (state_rel R)"

lemma check_simD:
  assumes "check_sim R chk chk'" and "R s t"
  obtains b s' t' where "chk sig key code s = (b, s')" and "chk' sig key code t = (b, t')" and "R s' t'"
proof -
  have "fst (chk sig key code s) = fst (chk' sig key code t)
      \<and> R (snd (chk sig key code s)) (snd (chk' sig key code t))"
    using assms unfolding check_sim_def by blast
  then show thesis
    by (intro that [of "fst (chk sig key code s)" "snd (chk sig key code s)" "snd (chk' sig key code t)"])
      (simp_all add: prod_eq_iff)
qed

lemma multisig_loop_sim:
  assumes "check_sim R chk chk'"
  shows "R s t \<Longrightarrow> fst (multisig_loop chk code sigs keys s) = fst (multisig_loop chk' code sigs keys t)
    \<and> R (snd (multisig_loop chk code sigs keys s)) (snd (multisig_loop chk' code sigs keys t))"
proof (induction keys arbitrary: sigs s t)
  case Nil
  then show ?case by (cases sigs) auto
next
  case (Cons key keys)
  show ?case
  proof (cases sigs)
    case Nil
    with Cons.prems show ?thesis by simp
  next
    case (Cons sig rest)
    obtain b s' t' where "chk sig key code s = (b, s')" "chk' sig key code t = (b, t')" "R s' t'"
      using check_simD [OF assms Cons.prems] by blast
    with Cons.IH show ?thesis by (simp add: Cons Let_def)
  qed
qed

lemma push_success_sim:
  "state_rel R e e' \<Longrightarrow> outcome_rel R (push_success opcode v b e) (push_success opcode v b e')"
  by (auto simp: push_success_def state_rel_simps elim!: state_relE)

lemma on_stack_sim: "state_rel R e e' \<Longrightarrow> outcome_rel R (on_stack f e) (on_stack f e')"
  by (auto simp: on_stack_def state_rel_simps elim!: state_relE split: option.split)

lemma op_control_sim:
  assumes "state_rel R e e'"
  shows "outcome_rel R (op_if opcode e) (op_if opcode e')" and "outcome_rel R (op_else e) (op_else e')"
    and "outcome_rel R (op_endif e) (op_endif e')" and "outcome_rel R (op_altstack opcode e) (op_altstack opcode e')"
  using assms
  by (auto simp: op_if_def op_else_def op_endif_def op_altstack_def fExec_def state_rel_simps Let_def
      elim!: state_relE split: list.split)

lemma op_checksig_sim:
  assumes "check_sim R chk chk'" and "state_rel R e e'"
  shows "outcome_rel R (op_checksig chk opcode e) (op_checksig chk' opcode e')"
  using assms(2)
proof (rule state_relE)
  fix s t st alt vf n code
  assume e: "e = \<lparr>stack = st, altstack = alt, vfExec = vf, nOpCount = n, codehash = code, sigstate = s\<rparr>"
    "e' = \<lparr>stack = st, altstack = alt, vfExec = vf, nOpCount = n, codehash = code, sigstate = t\<rparr>" and R: "R s t"
  show ?thesis
  proof (cases "length st < 2")
    case True
    with R show ?thesis by (auto simp: e op_checksig_def split: list.split)
  next
    case False
    then obtain key sig r where st: "st = key # sig # r" by (cases st; cases "tl st") auto
    obtain b s' t' where "chk sig key (snd (FindAndDelete (push_data sig) code)) s = (b, s')"
      "chk' sig key (snd (FindAndDelete (push_data sig) code)) t = (b, t')" "R s' t'"
      using check_simD [OF assms(1) R] by blast
    then show ?thesis
      by (simp add: e st op_checksig_def Let_def push_success_sim state_rel_simps)
  qed
qed

lemma op_checkmultisig_sim:
  assumes "check_sim R chk chk'" and "state_rel R e e'"
  shows "outcome_rel R (op_checkmultisig L chk opcode e) (op_checkmultisig L chk' opcode e')"
  using assms(2)
proof (rule state_relE)
  fix s t st alt vf n code
  assume e: "e = \<lparr>stack = st, altstack = alt, vfExec = vf, nOpCount = n, codehash = code, sigstate = s\<rparr>"
    "e' = \<lparr>stack = st, altstack = alt, vfExec = vf, nOpCount = n, codehash = code, sigstate = t\<rparr>" and R: "R s t"
  show ?thesis
    using R multisig_loop_sim [OF assms(1) R]
    by (auto simp: e op_checkmultisig_def Let_def state_rel_simps split_beta
        intro!: push_success_sim split: option.split)
qed

lemma state_rel_updates:
  assumes "state_rel R e e'"
  shows "state_rel R (e\<lparr>codehash := pc\<rparr>) (e'\<lparr>codehash := pc\<rparr>)"
    and "state_rel R (count_op opcode e) (count_op opcode e')"
    and "state_rel R (e\<lparr>stack := v # stack e\<rparr>) (e'\<lparr>stack := v # stack e'\<rparr>)"
  using assms by (auto simp: count_op_def state_rel_simps elim!: state_relE)

lemma state_rel_fields:
  assumes "state_rel R e e'"
  shows "stack e = stack e' \<and> altstack e = altstack e' \<and> vfExec e = vfExec e' \<and> nOpCount e = nOpCount e'
    \<and> fExec e = fExec e' \<and> R (sigstate e) (sigstate e')"
  using assms by (auto simp: fExec_def elim!: state_relE)

lemma outcome_if: "(b \<Longrightarrow> outcome_rel R x x') \<Longrightarrow> (\<not> b \<Longrightarrow> outcome_rel R y y') \<Longrightarrow>
    outcome_rel R (if b then x else y) (if b then x' else y')"
  by simp

lemma eval_op_sim:
  assumes "check_sim R chk chk'" and "state_rel R e e'"
  shows "outcome_rel R (eval_op L chk opcode pc e) (eval_op L chk' opcode pc e')"
  unfolding eval_op_def
  by (intro outcome_if op_control_sim op_checksig_sim op_checkmultisig_sim on_stack_sim assms)
    (simp add: state_rel_updates assms(2))

lemma exec_op_sim:
  assumes "check_sim R chk chk'" and "state_rel R e e'"
  shows "outcome_rel R (exec_op L chk opcode v pc e) (exec_op L chk' opcode v pc e')"
  using eval_op_sim [OF assms, of L opcode pc] state_rel_fields [OF assms(2)]
    state_rel_updates(3) [OF assms(2), of v] assms(2)
  by (simp add: exec_op_def)

lemma eval_step_sim:
  assumes "check_sim R chk chk'" and "state_rel R e e'"
  shows "rel_sum R (rel_prod (=) (state_rel R)) (eval_step L chk pc e) (eval_step L chk' pc e')"
proof (cases "GetOp pc")
  case None
  then show ?thesis using state_rel_fields [OF assms(2)] by (simp add: eval_step_def)
next
  case (Some a)
  then obtain opcode v pc' where g: "GetOp pc = Some (opcode, v, pc')" by (cases a) auto
  note c = state_rel_updates(2) [OF assms(2), of opcode]
  have "outcome_rel R (exec_op L chk opcode v pc' (count_op opcode e)) (exec_op L chk' opcode v pc' (count_op opcode e'))"
    using assms(1) c by (rule exec_op_sim)
  then have "rel_sum R (rel_prod (=) (state_rel R))
     (rbind (exec_op L chk opcode v pc' (count_op opcode e))
        (\<lambda>e. if 1000 < length (stack e) + length (altstack e) then Inl (sigstate e) else Inr (pc', e)))
     (rbind (exec_op L chk' opcode v pc' (count_op opcode e'))
        (\<lambda>e. if 1000 < length (stack e) + length (altstack e) then Inl (sigstate e) else Inr (pc', e)))"
    by (cases rule: rel_sum.cases) (auto dest: state_rel_fields)
  then show ?thesis
    using state_rel_fields [OF assms(2)] state_rel_fields [OF c] by (simp add: eval_step_def g)
qed

lemma eval_loop_sim:
  assumes "check_sim R chk chk'"
  shows "state_rel R e e' \<Longrightarrow> outcome_rel R (eval_loop L chk pc e) (eval_loop L chk' pc e')"
proof (induction "length pc" arbitrary: pc e e' rule: less_induct)
  case less
  show ?case
  proof (cases "pc = []")
    case True
    then show ?thesis using less.prems by (simp add: eval_loop.simps)
  next
    case False
    have "rel_sum R (rel_prod (=) (state_rel R)) (eval_step L chk pc e) (eval_step L chk' pc e')"
      using assms less.prems by (rule eval_step_sim)
    then show ?thesis
    proof (cases rule: rel_sum.cases)
      case (1 c d)
      with False show ?thesis by (simp add: eval_loop.simps [of _ _ pc])
    next
      case (2 x y)
      then obtain pc' e1 e1' where r: "eval_step L chk pc e = Inr (pc', e1)" "eval_step L chk' pc e' = Inr (pc', e1')"
        and "state_rel R e1 e1'" by (cases x; cases y) auto
      with less.hyps [OF eval_step_shorter [OF r(1)]] False show ?thesis
        by (simp add: eval_loop.simps [of _ _ pc])
    qed
  qed
qed

lemma EvalScript_sim:
  assumes "check_sim R chk chk'" and "R c c'"
  shows "rel_sum R (rel_prod (=) R) (EvalScript L chk st script c) (EvalScript L chk' st script c')"
proof -
  have "state_rel R (eval_init st script c) (eval_init st script c')"
    unfolding eval_init_def using assms(2) by (rule state_rel.intros)
  with assms(1) have "outcome_rel R (eval_loop L chk script (eval_init st script c))
      (eval_loop L chk' script (eval_init st script c'))"
    by (rule eval_loop_sim)
  then show ?thesis
  proof (cases rule: rel_sum.cases)
    case (1 a b)
    then show ?thesis using assms(2) by (simp add: EvalScript_def)
  next
    case (2 e e')
    then show ?thesis using state_rel_fields [OF 2(3)] assms(2) by (simp add: EvalScript_def)
  qed
qed

section \<open>Pay to public key hash\<close>

definition p2pkh_script :: "bytes \<Rightarrow> CScript" where
  "p2pkh_script h = [OP_DUP, OP_HASH160] @ push_data h @ [OP_EQUALVERIFY, OP_CHECKSIG]"

lemma eval_loop_Nil [simp]: "eval_loop L chk [] e = Inr e"
  by (simp add: eval_loop.simps)

lemma eval_loop_Cons:
  assumes "eval_step L chk pc e = Inr (pc', e')" and "pc \<noteq> []"
  shows "eval_loop L chk pc e = eval_loop L chk pc' e'"
  using assms by (subst eval_loop.simps) simp

lemmas step_simps = eval_step_def exec_op_def eval_op_def count_op_def disabled_op_def fExec_def
  op_pure_def on_stack_def GetOp_operand_def

lemma eval_p2pkh:
  assumes "length h = 20"
  shows "EvalScript L chk [pubkey, sig] (p2pkh_script h) c =
    (if u160_bytes (Hash160 L pubkey) \<noteq> h then Inl c
     else case chk sig pubkey (snd (FindAndDelete (push_data sig) (p2pkh_script h))) c of
            (ok, c') \<Rightarrow> Inr ([vchBool ok], c'))"
proof -
  let ?s = "p2pkh_script h"
  define e0 where "e0 = eval_init [pubkey, sig] ?s c"
  have s: "?s = OP_DUP # OP_HASH160 # 20 # h @ [OP_EQUALVERIFY, OP_CHECKSIG]"
    using assms by (simp add: p2pkh_script_def push_data_def)
  have len: "\<not> 10000 < length ?s" using assms by (simp add: s)
  have 1: "eval_loop L chk ?s e0 = eval_loop L chk (OP_HASH160 # 20 # h @ [OP_EQUALVERIFY, OP_CHECKSIG])
      (e0\<lparr>nOpCount := 1, stack := [pubkey, pubkey, sig]\<rparr>)"
    by (rule eval_loop_Cons) (simp_all add: s e0_def eval_init_def step_simps op_stack_one_def)
  have 2: "eval_loop L chk (OP_HASH160 # 20 # h @ [OP_EQUALVERIFY, OP_CHECKSIG])
      (e0\<lparr>nOpCount := 1, stack := [pubkey, pubkey, sig]\<rparr>) =
    eval_loop L chk (20 # h @ [OP_EQUALVERIFY, OP_CHECKSIG])
      (e0\<lparr>nOpCount := 2, stack := [u160_bytes (Hash160 L pubkey), pubkey, sig]\<rparr>)"
    by (rule eval_loop_Cons) (simp_all add: e0_def eval_init_def step_simps op_hash_def)
  have 3: "eval_loop L chk (20 # h @ [OP_EQUALVERIFY, OP_CHECKSIG])
      (e0\<lparr>nOpCount := 2, stack := [u160_bytes (Hash160 L pubkey), pubkey, sig]\<rparr>) =
    eval_loop L chk [OP_EQUALVERIFY, OP_CHECKSIG]
      (e0\<lparr>nOpCount := 2, stack := [h, u160_bytes (Hash160 L pubkey), pubkey, sig]\<rparr>)"
    by (rule eval_loop_Cons) (simp_all add: e0_def eval_init_def step_simps assms)
  show ?thesis
  proof (cases "u160_bytes (Hash160 L pubkey) = h")
    case False
    have "eval_loop L chk [OP_EQUALVERIFY, OP_CHECKSIG]
        (e0\<lparr>nOpCount := 2, stack := [h, u160_bytes (Hash160 L pubkey), pubkey, sig]\<rparr>) = Inl c"
      using False by (subst eval_loop.simps) (simp add: e0_def eval_init_def step_simps op_equal_def)
    with False len show ?thesis by (simp add: EvalScript_def 1 2 3 flip: e0_def)
  next
    case True
    obtain ok c' where r: "chk sig pubkey (snd (FindAndDelete (push_data sig) ?s)) c = (ok, c')" by fastforce
    have 4: "eval_loop L chk [OP_EQUALVERIFY, OP_CHECKSIG]
        (e0\<lparr>nOpCount := 2, stack := [h, u160_bytes (Hash160 L pubkey), pubkey, sig]\<rparr>) =
      eval_loop L chk [OP_CHECKSIG] (e0\<lparr>nOpCount := 3, stack := [pubkey, sig]\<rparr>)"
      by (rule eval_loop_Cons) (simp_all add: True e0_def eval_init_def step_simps op_equal_def)
    have 5: "eval_loop L chk [OP_CHECKSIG] (e0\<lparr>nOpCount := 3, stack := [pubkey, sig]\<rparr>) =
      eval_loop L chk [] (e0\<lparr>nOpCount := 4, stack := [vchBool ok], sigstate := c'\<rparr>)"
      by (rule eval_loop_Cons)
        (simp_all add: e0_def eval_init_def step_simps op_checksig_def push_success_def r)
    have "eval_loop L chk ?s e0 = Inr (e0\<lparr>nOpCount := 4, stack := [vchBool ok], sigstate := c'\<rparr>)"
      unfolding 1 2 3 4 5 by simp
    moreover have "vfExec e0 = []" by (simp add: e0_def eval_init_def)
    ultimately show ?thesis using True len r by (simp add: EvalScript_def flip: e0_def)
  qed
qed

section \<open>Properties\<close>

text \<open>C28: An evaluation that succeeds leaves at most 1000 elements of at most 520 bytes,
  whatever the script does, provided it started within these limits.\<close>
theorem EvalScript_stack_bounds:
  assumes "bn_ok L" and "hash_ok L" and "EvalScript L chk st script c = Inr (st', c')"
    and "length st \<le> 1000" and "\<forall>v \<in> set st. length v \<le> 520"
  shows "length st' \<le> 1000 \<and> (\<forall>v \<in> set st'. length v \<le> 520)"
proof -
  obtain e where run: "script_run L chk script (eval_init st script c) [] e" and "stack e = st'"
    using assms(3) by (auto simp: EvalScript_run)
  moreover have "eval_inv (eval_init st script c)"
    using assms(4,5) by (simp add: eval_inv_def eval_init_def small_elems_def)
  ultimately have "eval_inv e" "stack e = st'" using script_run_inv [OF assms(1,2)] by blast+
  then show ?thesis by (auto simp: eval_inv_def small_elems_def)
qed

theorem EvalScript_stack_bounds_witness:
  "list_all (\<lambda>v. length v \<le> 520) [[], [5::byte]]
   \<and> EvalScript ref_lib (\<lambda>_ _ _ c. (True, c)) [[5]] [0] () = Inr ([[], [5]], ())"
proof -
  have run: "EvalScript ref_lib (\<lambda>_ _ _ c. (True, c)) [[5]] [0] () = Inr ([[], [5]], ())"
    by (simp add: EvalScript_def eval_loop.simps eval_init_def step_simps)
  from EvalScript_stack_bounds [OF bn_ok_ref hash_ok_ref run]
  have "\<forall>v \<in> set [[], [5::byte]]. length v \<le> 520" by simp
  then show ?thesis unfolding list_all_iff using run by (rule conjI)
qed

text \<open>C29: A script that evaluates is at most 10000 bytes, can be read to its end, pushes at
  most 520 bytes at a time, contains no disabled opcode even in a branch that is not taken, has
  at most 201 counted opcodes, and closes every conditional it opens.\<close>
theorem EvalScript_accepts_only:
  assumes "EvalScript L chk st script c = Inr r"
  shows "length script \<le> 10000 \<and> fully_read script
    \<and> (\<forall>(opcode, d) \<in> set (script_ops script). length d \<le> 520 \<and> \<not> disabled_op opcode)
    \<and> length (filter (\<lambda>(opcode, d). OP_16 < opcode) (script_ops script)) \<le> 201
    \<and> length (filter (\<lambda>(opcode, d). opcode = OP_IF \<or> opcode = OP_NOTIF) (script_ops script)) =
      length (filter (\<lambda>(opcode, d). opcode = OP_ENDIF) (script_ops script))"
proof -
  obtain e where run: "script_run L chk script (eval_init st script c) [] e" and "vfExec e = []"
    and "length script \<le> 10000"
    using assms by (cases r) (auto simp: EvalScript_run)
  moreover have "nOpCount e \<le> 201"
    using run
  proof (rule script_run_invariant [where I = "\<lambda>_ e. nOpCount e \<le> 201"])
    show "nOpCount (eval_init st script c) \<le> 201" by (simp add: eval_init_def)
  next
    fix pc e pc' e' assume "nOpCount e \<le> 201" and "eval_step L chk pc e = Inr (pc', e')"
    then show "nOpCount e' \<le> 201" by (rule eval_step_count)
  qed
  ultimately show ?thesis
    using script_run_ops [OF run refl]
    by (simp add: eval_init_def op_weight_count cond_depth_count)
qed

theorem EvalScript_accepts_only_witness:
  "fully_read [OP_0, OP_IF, OP_ENDIF] \<and>
   EvalScript ref_lib (\<lambda>_ _ _ c. (True, c)) [] [OP_0, OP_IF, OP_ENDIF] () = Inr ([], ())"
proof -
  have "EvalScript ref_lib (\<lambda>_ _ _ c. (True, c)) [] [OP_0, OP_IF, OP_ENDIF] () = Inr ([], ())"
    by (simp add: EvalScript_def eval_loop.simps eval_init_def step_simps op_if_def op_endif_def)
  then show ?thesis using EvalScript_accepts_only by fastforce
qed

text \<open>C30: \<open>OP_CHECKMULTISIG\<close>'s loop, which tries each key once and never goes back, finds an
  assignment whenever there is one: it succeeds exactly if the signatures are valid, in order,
  for some of the keys, in order.\<close>
theorem multisig_complete:
  assumes "checks chk ok" and "length sigs \<le> length keys"
  shows "fst (multisig_loop chk code sigs keys c) \<longleftrightarrow>
    (\<exists>ks \<in> set (subseqs keys). list_all2 (\<lambda>sig key. ok sig key code) sigs ks)"
  using multisig_loop_matches [OF assms] matches_subseq by blast

theorem multisig_complete_witness:
  "fst (multisig_loop (\<lambda>s k _ c. (s = k, c)) [] [[2], [3]] [[1], [2], [3]] ()) \<longleftrightarrow>
   (\<exists>ks \<in> set (subseqs [[1], [2], [3]]). list_all2 (=) [[2], [3 :: byte]] ks)"
  using multisig_complete [of "\<lambda>s k _ c. (s = k, c)" "\<lambda>s k _. s = k" "[[2], [3]]" "[[1], [2], [3]]" "[]" "()"]
  by (simp add: checks_def)

text \<open>On operands of at most four bytes the numeric instructions compute with the integers
  the operands denote, never overflow and push the shortest encoding; longer operands fail.\<close>
theorem numeric_instructions:
  assumes "bn_ok L" and "length x \<le> 4" and "length y \<le> 4"
  defines "a \<equiv> sm_decode x" and "b \<equiv> sm_decode y"
  shows "op_pure L 0x93 (y # x # st) = Some (sm_encode (a + b) # st)
    \<and> op_pure L 0x94 (y # x # st) = Some (sm_encode (a - b) # st)
    \<and> op_pure L 0x8f (x # st) = Some (sm_encode (- a) # st)
    \<and> op_pure L 0x90 (x # st) = Some (sm_encode \<bar>a\<bar> # st)
    \<and> op_pure L 0x9f (y # x # st) = Some (vchBool (a < b) # st)
    \<and> op_pure L 0x9c (y # x # st) = Some (vchBool (a = b) # st)
    \<and> op_pure L 0xa3 (y # x # st) = Some (sm_encode (min a b) # st)
    \<and> op_pure L 0xa4 (y # x # st) = Some (sm_encode (max a b) # st)
    \<and> (4 < length z \<longrightarrow> op_pure L 0x93 (y # z # st) = None \<and> op_pure L 0x8f (z # st) = None)"
proof -
  have cast: "CastToBigNum L x = Some a" "CastToBigNum L y = Some b"
    using assms by (simp_all add: CastToBigNum_value)
  note bound = CastToBigNum_bound [OF assms(1) cast(1)] CastToBigNum_bound [OF assms(1) cast(2)]
  have g: "getvch L n = sm_encode n" if "\<bar>n\<bar> < 256 ^ 8" for n
    using length_getvch(2) [OF assms(1) that] .
  have vb: "getvch L (if p then 1 else 0) = vchBool p" for p
    using g [of 1] g [of 0]
    by (simp add: vchBool_def vchTrue_def vchFalse_def sm_encode_def sm_len.simps)
  have ops: "op_pure L 0x8f = op_unary L 0x8f" "op_pure L 0x90 = op_unary L 0x90"
    "op_pure L 0x93 = op_binary L 0x93" "op_pure L 0x94 = op_binary L 0x94"
    "op_pure L 0x9f = op_binary L 0x9f" "op_pure L 0x9c = op_binary L 0x9c"
    "op_pure L 0xa3 = op_binary L 0xa3" "op_pure L 0xa4 = op_binary L 0xa4"
    by (simp_all add: op_pure_def fun_eq_iff)
  have z: "CastToBigNum L z = None" if "4 < length z"
    using that by (simp add: CastToBigNum_value [OF assms(1)])
  have bin: "op_binary L op (y # x # st) = Some (getvch L n # st)"
    if "binary_number L op a b = Some n" "op \<noteq> 0x9d" for op n
    using that by (simp add: op_binary_def cast)
  have un: "op_unary L op (x # st) = Some (getvch L (unary_number L op a) # st)" for op
    by (simp add: op_unary_def cast)
  have "op_binary L 0x93 (y # x # st) = Some (sm_encode (a + b) # st)"
    "op_binary L 0x94 (y # x # st) = Some (sm_encode (a - b) # st)"
    "op_binary L 0x9f (y # x # st) = Some (vchBool (a < b) # st)"
    "op_binary L 0x9c (y # x # st) = Some (vchBool (a = b) # st)"
    "op_binary L 0xa3 (y # x # st) = Some (sm_encode (min a b) # st)"
    "op_binary L 0xa4 (y # x # st) = Some (sm_encode (max a b) # st)"
    using bound
    by (subst bin, simp add: binary_number_def Let_def bn_simps [OF assms(1)], simp,
        simp add: g [symmetric] vb [symmetric] min_def max_def)+
  moreover have "op_unary L 0x8f (x # st) = Some (sm_encode (- a) # st)"
    "op_unary L 0x90 (x # st) = Some (sm_encode \<bar>a\<bar> # st)"
    using bound g [of "- a"] g [of "\<bar>a\<bar>"]
    by (simp_all add: un unary_number_def bn_uminus_def bn_simps [OF assms(1)])
      (simp add: abs_if split: if_splits)
  ultimately show ?thesis unfolding ops using z by (auto simp: op_binary_def op_unary_def cast)
qed

theorem numeric_instructions_witness: "op_pure ref_lib 0x93 [[0x81], [3]] = Some [[2]]"
proof -
  have "sm_decode [3] = 3" "sm_decode [0x81] = - 1" "sm_encode 2 = [2]"
    by (simp_all add: sm_decode_def sm_half_def sm_encode_def sm_len.simps)
  then show ?thesis using numeric_instructions [OF bn_ok_ref, of "[3]" "[0x81]" "[]"] by simp
qed

text \<open>The pay-to-public-key-hash script, run on a signature and a public key, fails when
  the key does not hash to the 20 bytes in the script, and otherwise leaves exactly the answer
  of the signature check, asked with the script less any copy of the signature.\<close>
theorem p2pkh_evaluation:
  assumes "length h = 20"
  shows "EvalScript L chk [pubkey, sig] (p2pkh_script h) c =
    (if u160_bytes (Hash160 L pubkey) = h
     then case chk sig pubkey (snd (FindAndDelete (push_data sig) (p2pkh_script h))) c of
            (ok, c') \<Rightarrow> Inr ([vchBool ok], c')
     else Inl c)"
  unfolding eval_p2pkh [OF assms] by simp

theorem p2pkh_evaluation_witness:
  "EvalScript ref_lib (\<lambda>_ _ _ c. (True, c)) [[7], [9]] (p2pkh_script (replicate 20 1)) () = Inl ()"
proof -
  have "u160_bytes (Hash160 ref_lib [7]) \<noteq> replicate 20 1"
    by (subst Hash160_bytes [OF hash_ok_ref]) code_simp
  then show ?thesis
    using p2pkh_evaluation [of "replicate 20 1" ref_lib "\<lambda>_ _ _ c. (True, c)" "[7]" "[9]" "()"] by simp
qed

end
