(* ===== verification/Transaction.thy ===== *)
theory Transaction
  imports Script_Codec
begin

text \<open>
  Transactions (\<open>main.h\<close>, \<open>main.cpp\<close>): outpoints, inputs, outputs, the transaction and the
  records the node stores about it, their wire format, and the checks that need no context:
  \<open>CheckTransaction\<close>, \<open>IsFinal\<close>, \<open>IsNewerThan\<close>, \<open>GetMinFee\<close>, \<open>GetValueOut\<close> and the counts of
  signature operations. Amounts are \<open>int64\<close> in the code; the sums are shown to stay within
  the range, so they are integers here.
\<close>

section \<open>Amounts\<close>

definition COIN :: int where "COIN = 1000000"
definition CENT :: int where "CENT = 10000"
definition MIN_TX_FEE :: int where "MIN_TX_FEE = CENT div 10"
definition MIN_RELAY_TX_FEE :: int where "MIN_RELAY_TX_FEE = CENT div 10"
definition MAX_MONEY :: int where "MAX_MONEY = 2000000 * COIN"
definition MIN_TXOUT_AMOUNT :: int where "MIN_TXOUT_AMOUNT = MIN_TX_FEE"
definition MAX_BLOCK_SIZE :: nat where "MAX_BLOCK_SIZE = 1000000"
definition MAX_BLOCK_SIZE_GEN :: nat where "MAX_BLOCK_SIZE_GEN = MAX_BLOCK_SIZE div 2"
definition MAX_BLOCK_SIGOPS :: nat where "MAX_BLOCK_SIGOPS = MAX_BLOCK_SIZE div 50"
definition MAX_STANDARD_TX_SIZE :: nat where "MAX_STANDARD_TX_SIZE = 100000"
definition LOCKTIME_THRESHOLD :: int where "LOCKTIME_THRESHOLD = 500000000"

definition MoneyRange :: "int \<Rightarrow> bool" where
  "MoneyRange nValue = (0 \<le> nValue \<and> nValue \<le> MAX_MONEY)"

lemmas amounts = COIN_def CENT_def MIN_TX_FEE_def MIN_RELAY_TX_FEE_def MAX_MONEY_def
  MIN_TXOUT_AMOUNT_def MoneyRange_def

lemmas block_limits = MAX_BLOCK_SIZE_def MAX_BLOCK_SIZE_GEN_def MAX_BLOCK_SIGOPS_def

section \<open>Outpoints\<close>

datatype COutPoint = COutPoint (out_hash: u256) (out_n: u32)

definition outpoint_null :: COutPoint where "outpoint_null = COutPoint 0 (- 1)"

definition outpoint_IsNull :: "COutPoint \<Rightarrow> bool" where
  "outpoint_IsNull p = (out_hash p = 0 \<and> out_n p = - 1)"

definition outpoint_less :: "COutPoint \<Rightarrow> COutPoint \<Rightarrow> bool" where
  "outpoint_less a b = (out_hash a < out_hash b \<or> (out_hash a = out_hash b \<and> out_n a < out_n b))"

text \<open>The order of the class makes \<open>std::set<COutPoint>\<close> and \<open>std::map\<close> over it well defined.\<close>

instantiation COutPoint :: linorder
begin

definition "a < b \<longleftrightarrow> outpoint_less a b"
definition "a \<le> b \<longleftrightarrow> outpoint_less a b \<or> (a :: COutPoint) = b"

instance
  by standard
    (auto simp: less_COutPoint_def less_eq_COutPoint_def outpoint_less_def intro: COutPoint.expand)

end

definition ser_COutPoint :: "COutPoint \<Rightarrow> bytes" where
  "ser_COutPoint p = ser_u256 (out_hash p) @ ser_u32 (out_n p)"

definition unser_COutPoint :: "COutPoint reader" where
  "unser_COutPoint s =
     rbind (unser_u256 s) (\<lambda>(h, s1). rbind (unser_u32 s1) (\<lambda>(n, r). Inr (COutPoint h n, r)))"

interpretation outpoint: codec "\<lambda>_. True" ser_COutPoint unser_COutPoint "\<lambda>_. 36"
  by unfold_locales (simp_all add: ser_COutPoint_def unser_COutPoint_def codec_simps)

lemma outpoint_IsNull_iff: "outpoint_IsNull p \<longleftrightarrow> p = outpoint_null"
  by (cases p) (simp add: outpoint_IsNull_def outpoint_null_def)

section \<open>Inputs and outputs\<close>

record CTxIn =
  prevout :: COutPoint
  scriptSig :: CScript
  nSequence :: u32

definition txin_new :: "COutPoint \<Rightarrow> CScript \<Rightarrow> CTxIn" where
  "txin_new prevoutIn scriptSigIn = \<lparr>prevout = prevoutIn, scriptSig = scriptSigIn, nSequence = - 1\<rparr>"

definition txin_IsFinal :: "CTxIn \<Rightarrow> bool" where
  "txin_IsFinal i = (nSequence i = - 1)"

definition ser_CTxIn :: "CTxIn \<Rightarrow> bytes" where
  "ser_CTxIn i = ser_COutPoint (prevout i) @ ser_bytes (scriptSig i) @ ser_u32 (nSequence i)"

definition unser_CTxIn :: "CTxIn reader" where
  "unser_CTxIn s =
     rbind (unser_COutPoint s) (\<lambda>(p, s1). rbind (unser_bytes s1) (\<lambda>(sc, s2).
       rbind (unser_u32 s2) (\<lambda>(q, r). Inr (\<lparr>prevout = p, scriptSig = sc, nSequence = q\<rparr>, r))))"

definition txin_size :: "CTxIn \<Rightarrow> nat" where
  "txin_size i = 36 + bytes_size (scriptSig i) + 4"

definition txin_ok :: "CTxIn \<Rightarrow> bool" where
  "txin_ok i \<longleftrightarrow> bytes_ok (scriptSig i)"

interpretation txin: codec txin_ok ser_CTxIn unser_CTxIn txin_size
  by unfold_locales
    (simp_all add: ser_CTxIn_def unser_CTxIn_def txin_size_def txin_ok_def codec_simps
      outpoint.unser_ser outpoint.length_ser byte_vector.unser_ser byte_vector.length_ser)

record CTxOut =
  nValue :: int
  scriptPubKey :: CScript

definition txout_SetNull :: CTxOut where "txout_SetNull = \<lparr>nValue = - 1, scriptPubKey = []\<rparr>"
definition txout_IsNull :: "CTxOut \<Rightarrow> bool" where "txout_IsNull out = (nValue out = - 1)"
definition txout_SetEmpty :: CTxOut where "txout_SetEmpty = \<lparr>nValue = 0, scriptPubKey = []\<rparr>"
definition txout_IsEmpty :: "CTxOut \<Rightarrow> bool" where
  "txout_IsEmpty out = (nValue out = 0 \<and> scriptPubKey out = [])"

definition ser_CTxOut :: "CTxOut \<Rightarrow> bytes" where
  "ser_CTxOut out = ser_i64 (nValue out) @ ser_bytes (scriptPubKey out)"

definition unser_CTxOut :: "CTxOut reader" where
  "unser_CTxOut s =
     rbind (unser_i64 s) (\<lambda>(v, s1). rbind (unser_bytes s1) (\<lambda>(sc, r).
       Inr (\<lparr>nValue = v, scriptPubKey = sc\<rparr>, r)))"

definition txout_size :: "CTxOut \<Rightarrow> nat" where
  "txout_size out = 8 + bytes_size (scriptPubKey out)"

definition txout_ok :: "CTxOut \<Rightarrow> bool" where
  "txout_ok out \<longleftrightarrow> i64_ok (nValue out) \<and> bytes_ok (scriptPubKey out)"

interpretation txout: codec txout_ok ser_CTxOut unser_CTxOut txout_size
  by unfold_locales
    (simp_all add: ser_CTxOut_def unser_CTxOut_def txout_size_def txout_ok_def codec_simps
      byte_vector.unser_ser byte_vector.length_ser)

text \<open>\<open>IsDust\<close> divides signed numbers, so it truncates towards zero.\<close>

definition txout_IsDust :: "int \<Rightarrow> CTxOut \<Rightarrow> bool" where
  "txout_IsDust nMinRelayTxFee out =
     (let n = nValue out * 1000; d = 3 * (int (txout_size out) + 148)
      in sgn n * (\<bar>n\<bar> div d) < nMinRelayTxFee)"

definition txout_GetHash :: "extlib \<Rightarrow> CTxOut \<Rightarrow> u256" where
  "txout_GetHash L out = SerializeHash L ser_CTxOut out"

section \<open>Transactions\<close>

record CTransaction =
  tx_nVersion :: int
  tx_nTime :: u32
  vin :: "CTxIn list"
  vout :: "CTxOut list"
  nLockTime :: u32

definition tx_SetNull :: "u32 \<Rightarrow> CTransaction" where
  "tx_SetNull adjustedTime =
     \<lparr>tx_nVersion = 1, tx_nTime = adjustedTime, vin = [], vout = [], nLockTime = 0\<rparr>"

definition tx_IsNull :: "CTransaction \<Rightarrow> bool" where
  "tx_IsNull tx = (vin tx = [] \<and> vout tx = [])"

text \<open>A vector grows by \<open>5000000 / sizeof(T)\<close> elements at a time: inputs take 72 bytes, outputs 32.\<close>

definition ser_CTransaction :: "CTransaction \<Rightarrow> bytes" where
  "ser_CTransaction tx =
     ser_i32 (tx_nVersion tx) @ ser_u32 (tx_nTime tx) @ ser_vector ser_CTxIn (vin tx)
     @ ser_vector ser_CTxOut (vout tx) @ ser_u32 (nLockTime tx)"

definition unser_CTransaction :: "CTransaction reader" where
  "unser_CTransaction s =
     rbind (unser_i32 s) (\<lambda>(v, s1). rbind (unser_u32 s1) (\<lambda>(t, s2).
       rbind (unser_vector (5000000 div 72) unser_CTxIn s2) (\<lambda>(ins, s3).
         rbind (unser_vector (5000000 div 32) unser_CTxOut s3) (\<lambda>(outs, s4).
           rbind (unser_u32 s4) (\<lambda>(lt, r).
             Inr (\<lparr>tx_nVersion = v, tx_nTime = t, vin = ins, vout = outs, nLockTime = lt\<rparr>, r))))))"

definition tx_size :: "CTransaction \<Rightarrow> nat" where
  "tx_size tx = 4 + 4 + vector_size txin_size (vin tx) + vector_size txout_size (vout tx) + 4"

definition tx_ok :: "CTransaction \<Rightarrow> bool" where
  "tx_ok tx \<longleftrightarrow> i32_ok (tx_nVersion tx)
     \<and> list_all txin_ok (vin tx) \<and> length (vin tx) \<le> 0x02000000
     \<and> list_all txout_ok (vout tx) \<and> length (vout tx) \<le> 0x02000000"

interpretation txins: codec "\<lambda>xs. list_all txin_ok xs \<and> length xs \<le> 0x02000000"
  "ser_vector ser_CTxIn" "unser_vector (5000000 div 72) unser_CTxIn" "vector_size txin_size"
  by (rule vector_codec [OF txin.codec_axioms]) simp

interpretation txouts: codec "\<lambda>xs. list_all txout_ok xs \<and> length xs \<le> 0x02000000"
  "ser_vector ser_CTxOut" "unser_vector (5000000 div 32) unser_CTxOut" "vector_size txout_size"
  by (rule vector_codec [OF txout.codec_axioms]) simp

interpretation transaction: codec tx_ok ser_CTransaction unser_CTransaction tx_size
proof unfold_locales
  fix tx r
  assume ok: "tx_ok tx"
  then have i: "list_all txin_ok (vin tx) \<and> length (vin tx) \<le> 0x02000000"
    and o: "list_all txout_ok (vout tx) \<and> length (vout tx) \<le> 0x02000000"
    by (simp_all add: tx_ok_def)
  show "unser_CTransaction (ser_CTransaction tx @ r) = Inr (tx, r)"
    using ok txins.unser_ser [OF i] txouts.unser_ser [OF o]
    by (simp add: unser_CTransaction_def ser_CTransaction_def codec_simps tx_ok_def)
  show "length (ser_CTransaction tx) = tx_size tx"
    using txins.length_ser [OF i] txouts.length_ser [OF o]
    by (simp add: ser_CTransaction_def tx_size_def)
qed

definition tx_GetHash :: "extlib \<Rightarrow> CTransaction \<Rightarrow> u256" where
  "tx_GetHash L tx = SerializeHash L ser_CTransaction tx"

text \<open>\<open>nBestHeight\<close> and \<open>GetAdjustedTime()\<close> are the arguments \<open>bestHeight\<close> and \<open>adjustedTime\<close>.\<close>

definition tx_IsFinal :: "int \<Rightarrow> int \<Rightarrow> CTransaction \<Rightarrow> int \<Rightarrow> int \<Rightarrow> bool" where
  "tx_IsFinal bestHeight adjustedTime tx nBlockHeight nBlockTime =
     (if nLockTime tx = 0 then True
      else let nBlockHeight = if nBlockHeight = 0 then bestHeight else nBlockHeight;
               nBlockTime = if nBlockTime = 0 then adjustedTime else nBlockTime;
               lock = int (unat (nLockTime tx))
           in if lock < (if lock < LOCKTIME_THRESHOLD then nBlockHeight else nBlockTime) then True
              else list_all txin_IsFinal (vin tx))"

text \<open>The scan of \<open>IsNewerThan\<close> keeps the lowest sequence number seen that differs.\<close>

definition newer_step :: "CTxIn \<times> CTxIn \<Rightarrow> bool \<times> u32 \<Rightarrow> bool \<times> u32" where
  "newer_step p st =
     (case p of (new, old) \<Rightarrow> case st of (fNewer, nLowest) \<Rightarrow>
        if nSequence new \<noteq> nSequence old
        then let (fNewer, nLowest) =
                   (if nSequence new \<le> nLowest then (False, nSequence new) else (fNewer, nLowest))
             in if nSequence old < nLowest then (True, nSequence old) else (fNewer, nLowest)
        else (fNewer, nLowest))"

definition tx_IsNewerThan :: "CTransaction \<Rightarrow> CTransaction \<Rightarrow> bool" where
  "tx_IsNewerThan tx old =
     (if length (vin tx) \<noteq> length (vin old) then False
      else if map prevout (vin tx) \<noteq> map prevout (vin old) then False
      else fst (fold newer_step (zip (vin tx) (vin old)) (False, - 1)))"

definition IsCoinBase :: "CTransaction \<Rightarrow> bool" where
  "IsCoinBase tx =
     (length (vin tx) = 1 \<and> outpoint_IsNull (prevout (vin tx ! 0)) \<and> 1 \<le> length (vout tx))"

definition IsCoinStake :: "CTransaction \<Rightarrow> bool" where
  "IsCoinStake tx =
     (0 < length (vin tx) \<and> \<not> outpoint_IsNull (prevout (vin tx ! 0))
      \<and> 2 \<le> length (vout tx) \<and> txout_IsEmpty (vout tx ! 0))"

text \<open>
  \<open>GetValueOut\<close> throws \<open>runtime_error\<close> out of range. The sum is formed before the test; when
  the addition could overflow, the amount itself is out of range and the call throws.
\<close>

datatype tx_error = ValueOutOfRange | PrevTxNotFound | PrevOutOutOfRange

fun value_out_from :: "int \<Rightarrow> CTxOut list \<Rightarrow> tx_error + int" where
  "value_out_from nValueOut [] = Inr nValueOut"
| "value_out_from nValueOut (txout # outs) =
     (let nValueOut = nValueOut + nValue txout
      in if \<not> MoneyRange (nValue txout) \<or> \<not> MoneyRange nValueOut then Inl ValueOutOfRange
         else value_out_from nValueOut outs)"

definition GetValueOut :: "CTransaction \<Rightarrow> tx_error + int" where
  "GetValueOut tx = value_out_from 0 (vout tx)"

definition AllowFree_threshold :: int where "AllowFree_threshold = COIN * 120 div 250"

section \<open>Checks that need no context\<close>

text \<open>
  A failed check returns \<open>false\<close> after adding to the transaction's denial-of-service score:
  \<open>Inl n\<close> is \<open>return DoS(n, error(...))\<close>, \<open>Inl 0\<close> a plain \<open>return false\<close>.
\<close>

type_synonym check = "int + unit"

fun check_outputs :: "CTransaction \<Rightarrow> int \<Rightarrow> CTxOut list \<Rightarrow> check" where
  "check_outputs tx nValueOut [] = Inr ()"
| "check_outputs tx nValueOut (txout # outs) =
     (if txout_IsEmpty txout \<and> \<not> IsCoinBase tx \<and> \<not> IsCoinStake tx then Inl 100
      else if \<not> txout_IsEmpty txout \<and> nValue txout < MIN_TXOUT_AMOUNT then Inl 100
      else if nValue txout < 0 then Inl 100
      else if nValue txout > MAX_MONEY then Inl 100
      else let nValueOut = nValueOut + nValue txout
           in if \<not> MoneyRange nValueOut then Inl 100 else check_outputs tx nValueOut outs)"

fun check_duplicates :: "COutPoint set \<Rightarrow> CTxIn list \<Rightarrow> check" where
  "check_duplicates vInOutPoints [] = Inr ()"
| "check_duplicates vInOutPoints (txin # ins) =
     (if prevout txin \<in> vInOutPoints then Inl 0
      else check_duplicates (insert (prevout txin) vInOutPoints) ins)"

definition CheckTransaction :: "CTransaction \<Rightarrow> check" where
  "CheckTransaction tx =
     (if vin tx = [] then Inl 10
      else if vout tx = [] then Inl 10
      else if MAX_BLOCK_SIZE < tx_size tx then Inl 100
      else rbind (check_outputs tx 0 (vout tx)) (\<lambda>_.
        rbind (check_duplicates {} (vin tx)) (\<lambda>_.
          if IsCoinBase tx
          then if length (scriptSig (vin tx ! 0)) < 2 \<or> 100 < length (scriptSig (vin tx ! 0))
               then Inl 100 else Inr ()
          else if list_ex (\<lambda>txin. outpoint_IsNull (prevout txin)) (vin tx) then Inl 10
          else Inr ())))"

datatype GetMinFee_mode = GMF_BLOCK | GMF_RELAY | GMF_SEND

definition GetMinFee :: "CTransaction \<Rightarrow> u32 \<Rightarrow> bool \<Rightarrow> GetMinFee_mode \<Rightarrow> u32 \<Rightarrow> int" where
  "GetMinFee tx nBlockSize fAllowFree mode nBytes =
     (let nBaseFee = if mode = GMF_RELAY then MIN_RELAY_TX_FEE else MIN_TX_FEE;
          nBytes = if nBytes = 0 then of_nat (tx_size tx) else nBytes;
          nNewBlockSize = nBlockSize + nBytes;
          nMinFee = (1 + int (unat nBytes) div 1000) * nBaseFee;
          nMinFee = if nMinFee < nBaseFee
                    then fold (\<lambda>txout f. if nValue txout < CENT then nBaseFee else f) (vout tx) nMinFee
                    else nMinFee;
          gen = of_nat MAX_BLOCK_SIZE_GEN :: u32
      in if nBlockSize \<noteq> 1 \<and> gen div 2 \<le> nNewBlockSize
         then if gen \<le> nNewBlockSize then MAX_MONEY
              else let nMinFee = nMinFee * int (unat (gen div (gen - nNewBlockSize)))
                   in if \<not> MoneyRange nMinFee then MAX_MONEY else nMinFee
         else if \<not> MoneyRange nMinFee then MAX_MONEY else nMinFee)"

section \<open>Signature operations\<close>

text \<open>The counter is an \<open>unsigned int\<close>: at most 20 per byte of a script, it cannot wrap.\<close>

function sigop_walk :: "bool \<Rightarrow> opcodetype \<Rightarrow> CScript \<Rightarrow> nat" where
  "sigop_walk fAccurate lastOpcode pc =
     (case GetOp pc of
        None \<Rightarrow> 0
      | Some (opcode, d, r) \<Rightarrow>
          (if opcode = OP_CHECKSIG \<or> opcode = OP_CHECKSIGVERIFY then 1
           else if opcode = OP_CHECKMULTISIG \<or> opcode = OP_CHECKMULTISIGVERIFY
             then if fAccurate \<and> OP_1 \<le> lastOpcode \<and> lastOpcode \<le> OP_16
                  then nat (DecodeOP_N lastOpcode) else 20
           else 0) + sigop_walk fAccurate opcode r)"
  by pat_completeness auto
termination
  by (relation "measure (\<lambda>(f, l, pc). length pc)") (auto dest: GetOp_shorter)

declare sigop_walk.simps [simp del]

definition GetSigOpCount :: "bool \<Rightarrow> CScript \<Rightarrow> nat" where
  "GetSigOpCount fAccurate script = sigop_walk fAccurate OP_INVALIDOPCODE script"

definition IsPayToScriptHash :: "CScript \<Rightarrow> bool" where
  "IsPayToScriptHash s = (length s = 23 \<and> s ! 0 = OP_HASH160 \<and> s ! 1 = 0x14 \<and> s ! 22 = OP_EQUAL)"

text \<open>The last element a push-only script pushes; \<open>None\<close> where the count is zero.\<close>

function last_push :: "bytes \<Rightarrow> CScript \<Rightarrow> bytes option" where
  "last_push data pc =
     (if pc = [] then Some data
      else case GetOp pc of
             None \<Rightarrow> None
           | Some (opcode, d, r) \<Rightarrow> if OP_16 < opcode then None else last_push d r)"
  by pat_completeness auto
termination
  by (relation "measure (\<lambda>(d, pc). length pc)") (auto dest: GetOp_shorter)

declare last_push.simps [simp del]

definition GetSigOpCount_p2sh :: "CScript \<Rightarrow> CScript \<Rightarrow> nat" where
  "GetSigOpCount_p2sh script sig =
     (if \<not> IsPayToScriptHash script then GetSigOpCount True script
      else case last_push [] sig of
             None \<Rightarrow> 0
           | Some subscript \<Rightarrow> GetSigOpCount True subscript)"

definition GetLegacySigOpCount :: "CTransaction \<Rightarrow> nat" where
  "GetLegacySigOpCount tx =
     sum_list (map (\<lambda>txin. GetSigOpCount False (scriptSig txin)) (vin tx))
     + sum_list (map (\<lambda>txout. GetSigOpCount False (scriptPubKey txout)) (vout tx))"

section \<open>What the node stores about a transaction\<close>

text \<open>
  \<open>CDiskTxPos\<close> is written as its memory image, the unused private \<open>blockHash\<close> included; that
  field is zero in every object the program builds, and comparison ignores it.
\<close>

record CDiskTxPos =
  dp_blockHash :: u256
  dp_nFile :: u32
  dp_nBlockPos :: u32
  dp_nTxPos :: u32

definition diskpos :: "u32 \<Rightarrow> u32 \<Rightarrow> u32 \<Rightarrow> CDiskTxPos" where
  "diskpos f b t = \<lparr>dp_blockHash = 0, dp_nFile = f, dp_nBlockPos = b, dp_nTxPos = t\<rparr>"

definition diskpos_SetNull :: "CDiskTxPos \<Rightarrow> CDiskTxPos" where
  "diskpos_SetNull p = p\<lparr>dp_nFile := - 1, dp_nBlockPos := 0, dp_nTxPos := 0\<rparr>"

definition diskpos_null :: CDiskTxPos where "diskpos_null = diskpos (- 1) 0 0"

definition diskpos_IsNull :: "CDiskTxPos \<Rightarrow> bool" where
  "diskpos_IsNull p = (dp_nFile p = - 1)"

definition diskpos_eq :: "CDiskTxPos \<Rightarrow> CDiskTxPos \<Rightarrow> bool" where
  "diskpos_eq a b = (dp_nFile a = dp_nFile b \<and> dp_nBlockPos a = dp_nBlockPos b \<and> dp_nTxPos a = dp_nTxPos b)"

definition ser_CDiskTxPos :: "CDiskTxPos \<Rightarrow> bytes" where
  "ser_CDiskTxPos p =
     ser_u256 (dp_blockHash p) @ ser_u32 (dp_nFile p) @ ser_u32 (dp_nBlockPos p) @ ser_u32 (dp_nTxPos p)"

definition unser_CDiskTxPos :: "CDiskTxPos reader" where
  "unser_CDiskTxPos s =
     rbind (unser_u256 s) (\<lambda>(h, s1). rbind (unser_u32 s1) (\<lambda>(f, s2). rbind (unser_u32 s2) (\<lambda>(b, s3).
       rbind (unser_u32 s3) (\<lambda>(t, r).
         Inr (\<lparr>dp_blockHash = h, dp_nFile = f, dp_nBlockPos = b, dp_nTxPos = t\<rparr>, r)))))"

interpretation diskpos: codec "\<lambda>_. True" ser_CDiskTxPos unser_CDiskTxPos "\<lambda>_. 44"
  by unfold_locales (simp_all add: ser_CDiskTxPos_def unser_CDiskTxPos_def codec_simps)

record CTxIndex =
  txi_pos :: CDiskTxPos
  vSpent :: "CDiskTxPos list"

definition txindex_new :: "CDiskTxPos \<Rightarrow> nat \<Rightarrow> CTxIndex" where
  "txindex_new posIn nOutputs = \<lparr>txi_pos = posIn, vSpent = replicate nOutputs diskpos_null\<rparr>"

definition txindex_SetNull :: "CTxIndex" where
  "txindex_SetNull = \<lparr>txi_pos = diskpos_null, vSpent = []\<rparr>"

definition txindex_IsNull :: "CTxIndex \<Rightarrow> bool" where
  "txindex_IsNull i = diskpos_IsNull (txi_pos i)"

text \<open>On disk the record is preceded by the version of the stream, which reading drops.\<close>

definition ser_CTxIndex :: "bool \<Rightarrow> int \<Rightarrow> CTxIndex \<Rightarrow> bytes" where
  "ser_CTxIndex forHash nVersion i =
     (if forHash then [] else ser_i32 nVersion) @ ser_CDiskTxPos (txi_pos i)
     @ ser_vector ser_CDiskTxPos (vSpent i)"

definition unser_CTxIndex :: "bool \<Rightarrow> CTxIndex reader" where
  "unser_CTxIndex forHash s =
     rbind (if forHash then Inr (0, s) else unser_i32 s) (\<lambda>(v, s1).
       rbind (unser_CDiskTxPos s1) (\<lambda>(p, s2).
         rbind (unser_vector (5000000 div 44) unser_CDiskTxPos s2) (\<lambda>(sp, r).
           Inr (\<lparr>txi_pos = p, vSpent = sp\<rparr>, r))))"

interpretation diskposes: codec "\<lambda>xs. list_all (\<lambda>_. True) xs \<and> length xs \<le> 0x02000000"
  "ser_vector ser_CDiskTxPos" "unser_vector (5000000 div 44) unser_CDiskTxPos" "vector_size (\<lambda>_. 44)"
  by (rule vector_codec [OF diskpos.codec_axioms]) simp

lemma unser_txindex:
  assumes "i32_ok v" and "length (vSpent i) \<le> 0x02000000"
  shows "unser_CTxIndex fh (ser_CTxIndex fh v i @ r) = Inr (i, r)"
  using assms diskposes.unser_ser [of "vSpent i"]
  by (cases fh)
    (simp_all add: unser_CTxIndex_def ser_CTxIndex_def diskpos.unser_ser codec_simps list_all_iff)

record CMerkleTx = CTransaction +
  mtx_hashBlock :: u256
  vMerkleBranch :: "u256 list"
  mtx_nIndex :: int
  fMerkleVerified :: bool

definition merkletx_Init :: "CTransaction \<Rightarrow> CMerkleTx" where
  "merkletx_Init tx = CTransaction.extend tx
     \<lparr>mtx_hashBlock = 0, vMerkleBranch = [], mtx_nIndex = - 1, fMerkleVerified = False\<rparr>"

definition ser_CMerkleTx :: "CMerkleTx \<Rightarrow> bytes" where
  "ser_CMerkleTx m =
     ser_CTransaction (CTransaction.truncate m) @ ser_u256 (mtx_hashBlock m)
     @ ser_vector ser_u256 (vMerkleBranch m) @ ser_i32 (mtx_nIndex m)"

definition unser_CMerkleTx :: "CMerkleTx reader" where
  "unser_CMerkleTx s =
     rbind (unser_CTransaction s) (\<lambda>(tx, s1). rbind (unser_u256 s1) (\<lambda>(hb, s2).
       rbind (unser_vector (5000000 div 32) unser_u256 s2) (\<lambda>(br, s3).
         rbind (unser_i32 s3) (\<lambda>(ix, r).
           Inr (CTransaction.extend tx
             \<lparr>mtx_hashBlock = hb, vMerkleBranch = br, mtx_nIndex = ix, fMerkleVerified = False\<rparr>, r)))))"

text \<open>The previous transactions of an input, with their index records (\<open>MapPrevTx\<close>).\<close>

type_synonym MapPrevTx = "u256 \<rightharpoonup> CTxIndex \<times> CTransaction"

definition GetOutputFor :: "CTxIn \<Rightarrow> MapPrevTx \<Rightarrow> tx_error + CTxOut" where
  "GetOutputFor input inputs =
     (case inputs (out_hash (prevout input)) of
        None \<Rightarrow> Inl PrevTxNotFound
      | Some (txindex, txPrev) \<Rightarrow>
          if length (vout txPrev) \<le> unat (out_n (prevout input)) then Inl PrevOutOutOfRange
          else Inr (vout txPrev ! unat (out_n (prevout input))))"

fun value_in_from :: "MapPrevTx \<Rightarrow> int \<Rightarrow> CTxIn list \<Rightarrow> tx_error + int" where
  "value_in_from inputs nResult [] = Inr nResult"
| "value_in_from inputs nResult (txin # ins) =
     rbind (GetOutputFor txin inputs) (\<lambda>out. value_in_from inputs (nResult + nValue out) ins)"

definition GetValueIn :: "CTransaction \<Rightarrow> MapPrevTx \<Rightarrow> tx_error + int" where
  "GetValueIn tx inputs = (if IsCoinBase tx then Inr 0 else value_in_from inputs 0 (vin tx))"

fun p2sh_sigops_from :: "MapPrevTx \<Rightarrow> nat \<Rightarrow> CTxIn list \<Rightarrow> tx_error + nat" where
  "p2sh_sigops_from inputs nSigOps [] = Inr nSigOps"
| "p2sh_sigops_from inputs nSigOps (txin # ins) =
     rbind (GetOutputFor txin inputs) (\<lambda>out.
       p2sh_sigops_from inputs
         (if IsPayToScriptHash (scriptPubKey out)
          then nSigOps + GetSigOpCount_p2sh (scriptPubKey out) (scriptSig txin) else nSigOps) ins)"

definition GetP2SHSigOpCount :: "CTransaction \<Rightarrow> MapPrevTx \<Rightarrow> tx_error + nat" where
  "GetP2SHSigOpCount tx inputs =
     (if IsCoinBase tx then Inr 0 else p2sh_sigops_from inputs 0 (vin tx))"

section \<open>What the checks establish\<close>

definition output_ok :: "CTransaction \<Rightarrow> CTxOut \<Rightarrow> bool" where
  "output_ok tx out \<longleftrightarrow>
     MIN_TXOUT_AMOUNT \<le> nValue out \<or> (txout_IsEmpty out \<and> (IsCoinBase tx \<or> IsCoinStake tx))"

lemma output_ok_nonneg: "output_ok tx out \<Longrightarrow> 0 \<le> nValue out"
  by (auto simp: output_ok_def txout_IsEmpty_def amounts)

lemma output_total_nonneg: "\<forall>out \<in> set outs. output_ok tx out \<Longrightarrow> 0 \<le> sum_list (map nValue outs)"
  by (intro sum_list_nonneg) (auto intro: output_ok_nonneg)

lemma check_output_ok:
  assumes "0 \<le> v"
  shows "check_outputs tx v (out # outs) = Inr () \<longleftrightarrow>
    output_ok tx out \<and> v + nValue out \<le> MAX_MONEY \<and> check_outputs tx (v + nValue out) outs = Inr ()"
  using assms by (auto simp: output_ok_def txout_IsEmpty_def Let_def amounts)

lemma check_outputs_iff:
  "0 \<le> v \<Longrightarrow> v \<le> MAX_MONEY \<Longrightarrow> check_outputs tx v outs = Inr () \<longleftrightarrow>
     (\<forall>out \<in> set outs. output_ok tx out) \<and> v + sum_list (map nValue outs) \<le> MAX_MONEY"
proof (induction outs arbitrary: v)
  case Nil
  then show ?case by simp
next
  case (Cons out outs)
  note unfolded = check_output_ok [OF Cons.prems(1), of tx out outs]
  show ?case
  proof (cases "output_ok tx out \<and> v + nValue out \<le> MAX_MONEY")
    case True
    have "0 \<le> v + nValue out" using True output_ok_nonneg [of tx out] Cons.prems by auto
    with True Cons.IH [of "v + nValue out"] unfolded show ?thesis by (auto simp: add.assoc)
  next
    case False
    then show ?thesis
      using unfolded output_total_nonneg [of outs tx] by auto
  qed
qed

lemma check_duplicates_iff:
  "check_duplicates S ins = Inr () \<longleftrightarrow> distinct (map prevout ins) \<and> S \<inter> set (map prevout ins) = {}"
  by (induction S ins rule: check_duplicates.induct) auto

lemma value_out_total:
  "0 \<le> v \<Longrightarrow> v + sum_list (map nValue outs) \<le> MAX_MONEY \<Longrightarrow> \<forall>out \<in> set outs. 0 \<le> nValue out \<Longrightarrow>
     value_out_from v outs = Inr (v + sum_list (map nValue outs))"
proof (induction outs arbitrary: v)
  case Nil
  then show ?case by simp
next
  case (Cons out outs)
  have "0 \<le> sum_list (map nValue outs)" using Cons.prems(3) by (intro sum_list_nonneg) auto
  with Cons.prems Cons.IH [of "v + nValue out"] show ?case by (simp add: Let_def MoneyRange_def)
qed

lemma value_out_range:
  "value_out_from v outs = Inr w \<Longrightarrow> MoneyRange v \<Longrightarrow>
     MoneyRange w \<and> w = v + sum_list (map nValue outs) \<and> (\<forall>out \<in> set outs. MoneyRange (nValue out))"
  by (induction outs arbitrary: v) (fastforce simp: Let_def split: if_splits)+

lemma GetValueOut_Inr:
  "GetValueOut tx = Inr w \<Longrightarrow> MoneyRange w \<and> w = sum_list (map nValue (vout tx))"
  unfolding GetValueOut_def by (drule value_out_range) (simp_all add: amounts)

lemma unat_tx_size_u32: "tx_size tx \<le> MAX_BLOCK_SIZE \<Longrightarrow> unat (of_nat (tx_size tx) :: u32) = tx_size tx"
  by (rule unat_of_nat_small) (simp add: block_limits)

lemma CheckTransaction_cases:
  "CheckTransaction tx = Inr () \<longleftrightarrow>
     vin tx \<noteq> [] \<and> vout tx \<noteq> [] \<and> tx_size tx \<le> MAX_BLOCK_SIZE
     \<and> (\<forall>out \<in> set (vout tx). output_ok tx out) \<and> sum_list (map nValue (vout tx)) \<le> MAX_MONEY
     \<and> distinct (map prevout (vin tx))
     \<and> (if IsCoinBase tx then length (scriptSig (vin tx ! 0)) \<in> {2..100}
        else \<forall>txin \<in> set (vin tx). \<not> outpoint_IsNull (prevout txin))"
proof -
  have o: "check_outputs tx 0 (vout tx) = Inr () \<longleftrightarrow>
    (\<forall>out \<in> set (vout tx). output_ok tx out) \<and> sum_list (map nValue (vout tx)) \<le> MAX_MONEY"
    using check_outputs_iff [of 0 tx "vout tx"] by (simp add: amounts)
  have "rbind m (\<lambda>_. n) = Inr () \<longleftrightarrow> m = Inr () \<and> n = Inr ()" for m n :: check
    by (cases m) auto
  note split_rbind = this
  show ?thesis
    unfolding CheckTransaction_def
    by (auto simp: split_rbind o check_duplicates_iff list_ex_iff)
qed

section \<open>Fees\<close>
lemma MinFee_base:
  fixes n :: u32
  shows "1000 \<le> (1 + int (unat n) div 1000) * 1000" "(1 + int (unat n) div 1000) * 1000 \<le> MAX_MONEY"
proof -
  define k where "k = unat n"
  have k: "k < 4294967296" unfolding k_def by (rule unat_u32_lt)
  then have "int k div 1000 \<le> 4294967295 div 1000" by (intro zdiv_mono1) simp_all
  then have "int k div 1000 \<le> 4294967" by simp
  moreover have "0 \<le> int k div 1000" by simp
  moreover have "1000 \<le> (1 + q) * 1000 \<and> (1 + q) * 1000 \<le> MAX_MONEY" if "q \<le> 4294967" "0 \<le> q" for q :: int
    using that by (simp add: amounts)
  ultimately show "1000 \<le> (1 + int (unat n) div 1000) * 1000"
    "(1 + int (unat n) div 1000) * 1000 \<le> MAX_MONEY"
    unfolding k_def [symmetric] by blast+
qed

lemma GetMinFee_value:
  "GetMinFee tx nBlockSize fAllowFree mode nBytes0 =
    (let nBytes = if nBytes0 = 0 then of_nat (tx_size tx) else nBytes0;
         base = (1 + int (unat nBytes) div 1000) * 1000; new = unat (nBlockSize + nBytes)
     in if nBlockSize = 1 \<or> new < 125000 * 2 then base
        else if 500000 \<le> new then MAX_MONEY
        else min MAX_MONEY (base * int (500000 div (500000 - new))))"
proof -
  define nBytes where "nBytes = (if nBytes0 = 0 then of_nat (tx_size tx) else nBytes0)"
  define base where "base = (1 + int (unat nBytes) div 1000) * 1000"
  have b: "1000 \<le> base" "base \<le> MAX_MONEY"
    unfolding base_def by (rule MinFee_base)+
  have fee: "(if mode = GMF_RELAY then MIN_RELAY_TX_FEE else MIN_TX_FEE) = 1000"
    by (simp add: amounts)
  have gen: "(of_nat MAX_BLOCK_SIZE_GEN :: u32) = 500000" by (simp add: block_limits)
  have half: "(500000 :: u32) div 2 = 250000" by (simp add: word_eq_iff_unat unat_div)
  have le: "(250000 :: u32) \<le> nBlockSize + nBytes \<longleftrightarrow> \<not> unat (nBlockSize + nBytes) < 125000 * 2"
    "(500000 :: u32) \<le> nBlockSize + nBytes \<longleftrightarrow> 500000 \<le> unat (nBlockSize + nBytes)"
    by (simp_all add: word_le_nat_alt not_less)
  have q: "unat ((500000 :: u32) div (500000 - w)) = 500000 div (500000 - unat w)"
    if "\<not> 500000 \<le> w" for w :: u32
    using that by (subst unat_div, subst unat_sub) (simp_all add: word_le_nat_alt)
  have pos: "0 \<le> base * int (500000 div (500000 - unat (nBlockSize + nBytes)))" using b by simp
  show ?thesis
    unfolding GetMinFee_def fee gen half Let_def nBytes_def [symmetric] base_def [symmetric]
    using b q [of "nBlockSize + nBytes"] pos
    by (auto simp: le Let_def MoneyRange_def min_def)
qed

lemma GetMinFee_ge:
  "1000 \<le> GetMinFee tx nBlockSize fAllowFree mode nBytes"
  "GetMinFee tx nBlockSize fAllowFree mode nBytes \<le> MAX_MONEY"
proof -
  define n where "n = (if nBytes = 0 then of_nat (tx_size tx) else nBytes)"
  define base where "base = (1 + int (unat n) div 1000) * 1000"
  let ?new = "unat (nBlockSize + n)"
  have b: "1000 \<le> base" "base \<le> MAX_MONEY"
    unfolding base_def by (rule MinFee_base)+
  have "1000 \<le> min MAX_MONEY (base * int (500000 div (500000 - ?new)))" if "?new < 500000"
  proof -
    have "1 \<le> 500000 div (500000 - ?new)" using that by (simp add: Suc_le_eq div_greater_zero_iff)
    then have "1 \<le> int (500000 div (500000 - ?new))" by linarith
    then have "1000 * 1 \<le> base * int (500000 div (500000 - ?new))" using b by (intro mult_mono) auto
    then show ?thesis by (simp add: amounts)
  qed
  with b show "1000 \<le> GetMinFee tx nBlockSize fAllowFree mode nBytes"
    "GetMinFee tx nBlockSize fAllowFree mode nBytes \<le> MAX_MONEY"
    unfolding GetMinFee_value Let_def n_def [symmetric] base_def [symmetric] by (auto simp: amounts)
qed

section \<open>Signature operations\<close>
lemma DecodeOP_N_range: "OP_1 \<le> op \<Longrightarrow> op \<le> OP_16 \<Longrightarrow> 1 \<le> DecodeOP_N op \<and> DecodeOP_N op \<le> 16"
proof -
  assume "OP_1 \<le> op" "op \<le> OP_16"
  then have "81 \<le> unat op" "unat op \<le> 96" by (simp_all add: word_le_nat_alt)
  moreover from this have "op \<noteq> OP_0" by auto
  ultimately show ?thesis unfolding DecodeOP_N_def by (simp only: if_False) linarith
qed

lemma sigop_walk_bounds:
  "sigop_walk True l pc \<le> sigop_walk False l' pc \<and> sigop_walk False l' pc \<le> 20 * length pc"
proof (induction "length pc" arbitrary: pc l l' rule: less_induct)
  case less
  show ?case
  proof (cases "GetOp pc")
    case None
    then show ?thesis by (simp add: sigop_walk.simps)
  next
    case (Some t)
    then obtain op d r where t: "GetOp pc = Some (op, d, r)" by (cases t) auto
    note shorter = GetOp_shorter [OF t]
    note IH = less.hyps [OF shorter, of op op]
    have "nat (DecodeOP_N l) \<le> 20" if "OP_1 \<le> l" "l \<le> OP_16"
      using DecodeOP_N_range [OF that] by (simp only: nat_le_iff) linarith
    then show ?thesis
      unfolding sigop_walk.simps [of _ _ pc] using t IH shorter by auto
  qed
qed

lemma IsPayToScriptHash_iff:
  "IsPayToScriptHash s \<longleftrightarrow> (\<exists>h. length h = 20 \<and> s = [OP_HASH160, 0x14] @ h @ [OP_EQUAL])"
proof
  assume p: "IsPayToScriptHash s"
  then have len: "length s = 23" by (simp add: IsPayToScriptHash_def)
  have "s = take 2 s @ take 20 (drop 2 s) @ drop 22 s"
    using append_take_drop_id [of 2 s] append_take_drop_id [of 20 "drop 2 s"] by simp
  moreover have "take 2 s = [s ! 0, s ! 1]" using len by (intro take_two) simp
  moreover have "drop 22 s = [s ! 22]" using len by (subst Cons_nth_drop_Suc [symmetric]) simp_all
  ultimately have "s = [OP_HASH160, 0x14] @ take 20 (drop 2 s) @ [OP_EQUAL]"
    using p by (simp add: IsPayToScriptHash_def)
  then show "\<exists>h. length h = 20 \<and> s = [OP_HASH160, 0x14] @ h @ [OP_EQUAL]"
    using len by (intro exI [of _ "take 20 (drop 2 s)"]) simp
qed (auto simp: IsPayToScriptHash_def nth_append)

section \<open>Replacement order\<close>

text \<open>
  The pairs whose sequence numbers differ decide: the one with the lowest number is the
  older transaction's, or it is not newer.
\<close>

definition seq_pairs :: "CTransaction \<Rightarrow> CTransaction \<Rightarrow> (u32 \<times> u32) list" where
  "seq_pairs tx old =
     filter (\<lambda>(a, b). a \<noteq> b) (map (\<lambda>(i, j). (nSequence i, nSequence j)) (zip (vin tx) (vin old)))"

definition newer_inv :: "(u32 \<times> u32) set \<Rightarrow> bool \<times> u32 \<Rightarrow> bool" where
  "newer_inv P st \<longleftrightarrow>
     (\<forall>(a, b) \<in> P. snd st \<le> a \<and> snd st \<le> b)
     \<and> (if fst st then (\<exists>(a, b) \<in> P. b = snd st) \<and> (\<forall>(a, b) \<in> P. snd st < a)
        else P = {} \<and> snd st = - 1 \<or> (\<exists>(a, b) \<in> P. a = snd st))"

lemma newer_inv_step:
  assumes "newer_inv P st"
  shows "newer_inv (if nSequence i = nSequence j then P else insert (nSequence i, nSequence j) P)
           (newer_step (i, j) st)"
proof (cases "nSequence i = nSequence j")
  case True
  then show ?thesis using assms by (simp add: newer_step_def split: prod.split)
next
  case False
  obtain f l where st: "st = (f, l)" by fastforce
  have max: "x \<le> - 1" for x :: u32 by simp
  show ?thesis
    using False assms unfolding st newer_inv_def newer_step_def
    by (auto simp: Let_def not_le not_less intro: order.trans less_imp_le)
qed

lemma newer_inv_fold:
  "newer_inv P st \<Longrightarrow>
     newer_inv (P \<union> set (filter (\<lambda>(a, b). a \<noteq> b) (map (\<lambda>(i, j). (nSequence i, nSequence j)) ps)))
       (fold newer_step ps st)"
proof (induction ps arbitrary: P st)
  case Nil
  then show ?case by simp
next
  case (Cons p ps)
  obtain i j where p: "p = (i, j)" by fastforce
  show ?case
    using Cons.IH [OF newer_inv_step [OF Cons.prems, of i j]] by (auto simp: p)
qed

lemma newer_inv_result:
  assumes "newer_inv P st"
  shows "fst st \<longleftrightarrow> (\<exists>(a, b) \<in> P. \<forall>(a', b') \<in> P. b < a')"
proof (cases "fst st")
  case True
  then show ?thesis using assms by (auto simp: newer_inv_def)
next
  case False
  have low: "\<And>a' b'. (a', b') \<in> P \<Longrightarrow> snd st \<le> b'"
    using assms by (auto simp: newer_inv_def)
  have first: "P \<noteq> {} \<Longrightarrow> \<exists>b. (snd st, b) \<in> P"
    using assms False by (auto simp: newer_inv_def)
  have "\<not> (\<exists>(a, b) \<in> P. \<forall>(a', b') \<in> P. b < a')"
  proof
    assume "\<exists>(a, b) \<in> P. \<forall>(a', b') \<in> P. b < a'"
    then obtain a b where "(a, b) \<in> P" and least: "\<forall>(a', b') \<in> P. b < a'" by auto
    with first obtain d where "(snd st, d) \<in> P" by auto
    with least have "b < snd st" by auto
    with low [OF \<open>(a, b) \<in> P\<close>] show False by simp
  qed
  with False show ?thesis by simp
qed

section \<open>Properties\<close>

text \<open>C26: A transaction whose lists and scripts are within the length limits is read back as it
  was written, from the front of any stream; it takes the number of bytes \<open>GetSerializeSize\<close>
  announces; and no two transactions have the same bytes, so the hash of a transaction is the
  hash of one transaction.\<close>
theorem transaction_roundtrip:
  assumes "tx_ok tx"
  shows "unser_CTransaction (ser_CTransaction tx @ r) = Inr (tx, r)
    \<and> length (ser_CTransaction tx) = tx_size tx
    \<and> (\<forall>tx'. tx_ok tx' \<and> ser_CTransaction tx' = ser_CTransaction tx \<longrightarrow> tx' = tx)
    \<and> tx_GetHash L tx = Hash L (ser_CTransaction tx)"
  using transaction.unser_ser [OF assms] transaction.length_ser [OF assms]
    transaction.ser_inj [OF _ assms]
  by (auto simp: tx_GetHash_def SerializeHash_Hash)

theorem transaction_roundtrip_witness:
  "unser_CTransaction (ser_CTransaction
     \<lparr>tx_nVersion = 1, tx_nTime = 5, vin = [txin_new (COutPoint 7 1) [1, 2]],
      vout = [\<lparr>nValue = 1000, scriptPubKey = [0xac]\<rparr>], nLockTime = 0\<rparr> @ [9]) =
   Inr (\<lparr>tx_nVersion = 1, tx_nTime = 5, vin = [txin_new (COutPoint 7 1) [1, 2]],
      vout = [\<lparr>nValue = 1000, scriptPubKey = [0xac]\<rparr>], nLockTime = 0\<rparr>, [9])"
proof -
  let ?tx = "\<lparr>tx_nVersion = 1, tx_nTime = 5, vin = [txin_new (COutPoint 7 1) [1, 2]],
      vout = [\<lparr>nValue = 1000, scriptPubKey = [0xac]\<rparr>], nLockTime = 0\<rparr>"
  have "tx_ok ?tx"
    by (simp add: tx_ok_def txin_ok_def txout_ok_def bytes_ok_def i32_ok_def i64_ok_def txin_new_def)
  from transaction_roundtrip [OF this, of "[9]" ref_lib] show ?thesis by (simp only:)
qed

text \<open>C27: \<open>CheckTransaction\<close> accepts exactly the transactions with inputs and outputs, within the
  block size, each of whose outputs reaches the minimum or is the empty marker of a coinbase or
  coinstake, whose outputs together are within the money range, whose inputs are distinct, and
  which spend no null outpoint unless they are a coinbase with a script of 2 to 100 bytes. Such a
  transaction has a value: \<open>GetValueOut\<close> does not throw.\<close>
theorem CheckTransaction_accepts:
  "(CheckTransaction tx = Inr () \<longleftrightarrow>
     vin tx \<noteq> [] \<and> vout tx \<noteq> [] \<and> tx_size tx \<le> MAX_BLOCK_SIZE
     \<and> (\<forall>out \<in> set (vout tx). MIN_TXOUT_AMOUNT \<le> nValue out
          \<or> (nValue out = 0 \<and> scriptPubKey out = [] \<and> (IsCoinBase tx \<or> IsCoinStake tx)))
     \<and> sum_list (map nValue (vout tx)) \<le> MAX_MONEY
     \<and> distinct (map prevout (vin tx))
     \<and> (if IsCoinBase tx then length (scriptSig (vin tx ! 0)) \<in> {2..100}
        else \<forall>txin \<in> set (vin tx). prevout txin \<noteq> COutPoint 0 (- 1)))
   \<and> (CheckTransaction tx = Inr () \<longrightarrow> GetValueOut tx = Inr (sum_list (map nValue (vout tx))))"
proof (rule conjI [OF _ impI])
  assume "CheckTransaction tx = Inr ()"
  then have "\<forall>out \<in> set (vout tx). 0 \<le> nValue out" "sum_list (map nValue (vout tx)) \<le> MAX_MONEY"
    by (auto simp: CheckTransaction_cases dest: output_ok_nonneg)
  then show "GetValueOut tx = Inr (sum_list (map nValue (vout tx)))"
    using value_out_total [of 0 "vout tx"] by (simp add: GetValueOut_def)
qed (simp add: CheckTransaction_cases output_ok_def txout_IsEmpty_def outpoint_IsNull_iff outpoint_null_def)

theorem CheckTransaction_accepts_witness:
  "CheckTransaction \<lparr>tx_nVersion = 1, tx_nTime = 5, vin = [txin_new (COutPoint 7 1) [1, 2]],
      vout = [\<lparr>nValue = 1000, scriptPubKey = [0xac]\<rparr>], nLockTime = 0\<rparr> = Inr ()"
  by (subst CheckTransaction_accepts [THEN conjunct1])
    (simp add: txin_new_def IsCoinBase_def outpoint_IsNull_def amounts block_limits tx_size_def vector_size_def
      GetSizeOfCompactSize_def txin_size_def txout_size_def bytes_size_def)

text \<open>The minimum fee is the base fee for each started kilobyte, raised as the block fills
  up by the size of a block over the room left, and the whole money supply when nothing is left;
  it is never below the base fee. The rule on outputs below a cent and the request for a free
  transaction have no effect.\<close>
theorem GetMinFee_schedule:
  assumes "nBytes \<noteq> 0"
  shows "GetMinFee tx nBlockSize fAllowFree mode nBytes =
      (let base = (1 + int (unat nBytes) div 1000) * MIN_TX_FEE; new = unat (nBlockSize + nBytes)
       in if nBlockSize = 1 \<or> new < MAX_BLOCK_SIZE_GEN div 2 then base
          else if MAX_BLOCK_SIZE_GEN \<le> new then MAX_MONEY
          else min MAX_MONEY (base * int (MAX_BLOCK_SIZE_GEN div (MAX_BLOCK_SIZE_GEN - new))))
    \<and> MIN_RELAY_TX_FEE \<le> GetMinFee tx nBlockSize fAllowFree mode nBytes
    \<and> GetMinFee tx' nBlockSize fAllowFree' mode' nBytes = GetMinFee tx nBlockSize fAllowFree mode nBytes"
proof -
  have c: "MIN_TX_FEE = 1000" "MIN_RELAY_TX_FEE = 1000" "MAX_BLOCK_SIZE_GEN = 500000"
    "(500000 :: nat) div 2 = 125000 * 2"
    by (simp_all add: amounts block_limits)
  show ?thesis
    unfolding c GetMinFee_value if_not_P [OF assms] Let_def
    using GetMinFee_ge(1) [of tx nBlockSize fAllowFree mode nBytes]
    unfolding GetMinFee_value if_not_P [OF assms] Let_def by blast
qed

theorem GetMinFee_schedule_witness:
  "GetMinFee (tx_SetNull 0) 1000 False GMF_RELAY 2500 = 3000"
  using GetMinFee_schedule [of 2500 "tx_SetNull 0" 1000 False GMF_RELAY "tx_SetNull 0" False GMF_RELAY]
  by (simp add: Let_def amounts block_limits unat_word_ariths)

text \<open>The count of signature operations is at most 20 per byte, the accurate count at most
  the legacy one; and a script is treated as pay-to-script-hash exactly if it compares the hash
  of one element with 20 bytes, in which case the operations counted are those of the last
  element the input pushes.\<close>
theorem sigop_count_bounds:
  "GetSigOpCount True s \<le> GetSigOpCount False s
   \<and> GetSigOpCount False s \<le> 20 * length s
   \<and> (IsPayToScriptHash s \<longleftrightarrow> (\<exists>h. length h = 20 \<and> s = [OP_HASH160, 0x14] @ h @ [OP_EQUAL]))
   \<and> GetSigOpCount_p2sh s sig =
      (if \<exists>h. length h = 20 \<and> s = [OP_HASH160, 0x14] @ h @ [OP_EQUAL]
       then case last_push [] sig of None \<Rightarrow> 0 | Some subscript \<Rightarrow> GetSigOpCount True subscript
       else GetSigOpCount True s)"
  unfolding IsPayToScriptHash_iff [of s, symmetric] GetSigOpCount_p2sh_def
  using sigop_walk_bounds by (simp add: GetSigOpCount_def)

text \<open>One transaction is newer than another on the same inputs exactly if, among the inputs
  whose sequence numbers differ, some number of the other is below every number of the first.
  So of two transactions at most one is newer than the other.\<close>
theorem IsNewerThan_order:
  "(tx_IsNewerThan tx old \<longleftrightarrow> map prevout (vin tx) = map prevout (vin old)
      \<and> (\<exists>(a, b) \<in> set (seq_pairs tx old). \<forall>(a', b') \<in> set (seq_pairs tx old). b < a'))
   \<and> \<not> (tx_IsNewerThan tx old \<and> tx_IsNewerThan old tx)"
proof -
  have iff: "tx_IsNewerThan t u \<longleftrightarrow> map prevout (vin t) = map prevout (vin u)
      \<and> (\<exists>(a, b) \<in> set (seq_pairs t u). \<forall>(a', b') \<in> set (seq_pairs t u). b < a')" for t u
  proof -
    have "newer_inv {} (False, - 1)" by (simp add: newer_inv_def)
    from newer_inv_result [OF newer_inv_fold [OF this, of "zip (vin t) (vin u)"]]
    show ?thesis
      unfolding tx_IsNewerThan_def seq_pairs_def by (auto dest: map_eq_imp_length_eq)
  qed
  have swap: "(a, b) \<in> set (seq_pairs t u) \<Longrightarrow> (b, a) \<in> set (seq_pairs u t)" for a b t u
    by (force simp: seq_pairs_def set_zip)
  have "False" if newer: "tx_IsNewerThan tx old" "tx_IsNewerThan old tx"
  proof -
    obtain a b where ab: "(a, b) \<in> set (seq_pairs tx old)"
      "\<forall>(a', b') \<in> set (seq_pairs tx old). b < a'"
      using newer(1) by (auto simp: iff)
    obtain c d where cd: "(c, d) \<in> set (seq_pairs old tx)"
      "\<forall>(a', b') \<in> set (seq_pairs old tx). d < a'"
      using newer(2) by (auto simp: iff)
    from ab(2) swap [OF cd(1)] have "b < d" by blast
    moreover from cd(2) swap [OF ab(1)] have "d < b" by blast
    ultimately show False by simp
  qed
  with iff show ?thesis by blast
qed

theorem IsNewerThan_order_witness:
  "tx_IsNewerThan
     \<lparr>tx_nVersion = 1, tx_nTime = 0, vin = [\<lparr>prevout = COutPoint 7 1, scriptSig = [], nSequence = 4\<rparr>],
      vout = [], nLockTime = 0\<rparr>
     \<lparr>tx_nVersion = 1, tx_nTime = 0, vin = [\<lparr>prevout = COutPoint 7 1, scriptSig = [], nSequence = 3\<rparr>],
      vout = [], nLockTime = 0\<rparr>"
  by (subst IsNewerThan_order [THEN conjunct1]) (simp add: seq_pairs_def)

end
