(* ===== verification/Keys.thy ===== *)
theory Keys
  imports Script_Codec
begin

text \<open>
  \<open>CKey\<close> (\<open>key.h\<close>, \<open>key.cpp\<close>), the encryption of secrets (\<open>crypter.cpp\<close>) and the abstract
  class \<open>CKeyStore\<close> (\<open>keystore.h\<close>): its virtual functions are the fields of a record, so that
  the code that is given a key store calls through it, and its contract is the locale
  \<open>key_store\<close>. The curve and the cipher are OpenSSL's, fields of \<open>L\<close>.
\<close>

section \<open>Keys\<close>

text \<open>
  The \<open>EC_KEY\<close> is its private scalar, when it has one, and its public point as
  \<open>i2o_ECPublicKey\<close> writes it in the key's conversion form. A \<open>key_error\<close> is thrown where
  the code throws it.
\<close>

datatype key_error = KeyError

record CKey =
  k_secret :: "bytes option"
  k_pub :: "bytes option"
  k_fSet :: bool
  fCompressedPubKey :: bool

definition CKey_Reset :: CKey where
  "CKey_Reset = \<lparr>k_secret = None, k_pub = None, k_fSet = False, fCompressedPubKey = False\<rparr>"

text \<open>
  Neither copy carries the compression flag over: the constructor leaves it uninitialised
  (\<open>garbage\<close>), the assignment keeps the one of the target.
\<close>

definition CKey_copy :: "bool \<Rightarrow> CKey \<Rightarrow> CKey" where
  "CKey_copy garbage b =
     \<lparr>k_secret = k_secret b, k_pub = k_pub b, k_fSet = k_fSet b, fCompressedPubKey = garbage\<rparr>"

definition CKey_assign :: "CKey \<Rightarrow> CKey \<Rightarrow> CKey" where
  "CKey_assign a b = a\<lparr>k_secret := k_secret b, k_pub := k_pub b, k_fSet := k_fSet b\<rparr>"

definition CKey_IsNull :: "CKey \<Rightarrow> bool" where "CKey_IsNull k = (\<not> k_fSet k)"
definition CKey_IsCompressed :: "CKey \<Rightarrow> bool" where "CKey_IsCompressed k = fCompressedPubKey k"

definition CKey_MakeNewKey :: "extlib \<Rightarrow> bytes \<Rightarrow> bool \<Rightarrow> CKey \<Rightarrow> CKey" where
  "CKey_MakeNewKey L random fCompressed k =
     k\<lparr>k_secret := Some random, k_pub := Some (EC_pub_of_secret L random fCompressed), k_fSet := True,
       fCompressedPubKey := (if fCompressed then True else fCompressedPubKey k)\<rparr>"

definition CKey_SetSecret :: "extlib \<Rightarrow> bytes \<Rightarrow> bool \<Rightarrow> CKey \<Rightarrow> key_error + CKey" where
  "CKey_SetSecret L vchSecret fCompressed k =
     (if length vchSecret \<noteq> 32 then Inl KeyError
      else let c = fCompressed \<or> fCompressedPubKey k
           in Inr (k\<lparr>k_secret := Some vchSecret, k_pub := Some (EC_pub_of_secret L vchSecret c),
                     k_fSet := True, fCompressedPubKey := c\<rparr>))"

definition CKey_GetSecret :: "CKey \<Rightarrow> key_error + (bytes \<times> bool)" where
  "CKey_GetSecret k =
     (case k_secret k of
        None \<Rightarrow> Inl KeyError
      | Some secret \<Rightarrow> Inr (secret, fCompressedPubKey k))"

definition CKey_SetPubKey :: "extlib \<Rightarrow> CPubKey \<Rightarrow> CKey \<Rightarrow> bool \<times> CKey" where
  "CKey_SetPubKey L vchPubKey k =
     (if EC_o2i L (pk_vch vchPubKey)
      then (True, k\<lparr>k_pub := Some (pk_vch vchPubKey), k_fSet := True,
              fCompressedPubKey := (if length (pk_vch vchPubKey) = 33 then True else fCompressedPubKey k)\<rparr>)
      else (False, CKey_Reset))"

definition CKey_GetPubKey :: "CKey \<Rightarrow> key_error + CPubKey" where
  "CKey_GetPubKey k = (case k_pub k of None \<Rightarrow> Inl KeyError | Some b \<Rightarrow> Inr \<lparr>pk_vch = b\<rparr>)"

definition CKey_Sign :: "extlib \<Rightarrow> u256 \<Rightarrow> CKey \<Rightarrow> bytes option" where
  "CKey_Sign L hash k =
     (case k_secret k of
        None \<Rightarrow> None
      | Some secret \<Rightarrow> ECDSA_sign L secret (fCompressedPubKey k) hash)"

definition CKey_IsValid :: "extlib \<Rightarrow> (CKey \<Rightarrow> bool) \<Rightarrow> CKey \<Rightarrow> key_error + bool" where
  "CKey_IsValid L check_key k =
     (if \<not> k_fSet k then Inr False
      else if \<not> check_key k then Inr False
      else rbind (CKey_GetSecret k) (\<lambda>(secret, fCompr).
        rbind (CKey_SetSecret L secret fCompr CKey_Reset) (\<lambda>key2.
          rbind (CKey_GetPubKey k) (\<lambda>p. rbind (CKey_GetPubKey key2) (\<lambda>p2. Inr (p = p2))))))"

text \<open>\<open>SetSecret\<close> after \<open>GetSecret\<close> rebuilds the key, whatever the flag was.\<close>
lemma CKey_secret_roundtrip:
  assumes "CKey_SetSecret L s c CKey_Reset = Inr k"
  shows "CKey_GetSecret k = Inr (s, c)" and "CKey_SetSecret L s c CKey_Reset = Inr k"
    and "CKey_GetPubKey k = Inr \<lparr>pk_vch = EC_pub_of_secret L s c\<rparr>" and "length s = 32"
  using assms
  by (auto simp: CKey_SetSecret_def CKey_GetSecret_def CKey_GetPubKey_def CKey_Reset_def Let_def
      split: if_splits)

section \<open>Encrypting secrets\<close>

definition WALLET_CRYPTO_KEY_SIZE :: nat where "WALLET_CRYPTO_KEY_SIZE = 32"

record CCrypter =
  chKey :: bytes
  chIV :: bytes
  fKeySet :: bool

definition crypter_CleanKey :: CCrypter where
  "crypter_CleanKey = \<lparr>chKey = replicate WALLET_CRYPTO_KEY_SIZE 0,
     chIV = replicate WALLET_CRYPTO_KEY_SIZE 0, fKeySet = False\<rparr>"

text \<open>\<open>EVP_BytesToKey\<close> is the argument \<open>derive\<close>: the number of bytes, the key and the vector.\<close>

definition crypter_SetKeyFromPassphrase ::
  "(bytes \<Rightarrow> bytes \<Rightarrow> nat \<Rightarrow> nat \<times> bytes \<times> bytes) \<Rightarrow> bytes \<Rightarrow> bytes \<Rightarrow> u32 \<Rightarrow> u32 \<Rightarrow> CCrypter \<Rightarrow> bool \<times> CCrypter"
  where
  "crypter_SetKeyFromPassphrase derive strKeyData chSalt nRounds nDerivationMethod c =
     (if nRounds < 1 \<or> length chSalt \<noteq> 8 then (False, c)
      else let (i, k, iv) = (if nDerivationMethod = 0 then derive chSalt strKeyData (unat nRounds)
                             else (0, chKey c, chIV c))
           in if i \<noteq> WALLET_CRYPTO_KEY_SIZE
              then (False, c\<lparr>chKey := replicate WALLET_CRYPTO_KEY_SIZE 0,
                             chIV := replicate WALLET_CRYPTO_KEY_SIZE 0\<rparr>)
              else (True, \<lparr>chKey = k, chIV = iv, fKeySet = True\<rparr>))"

definition crypter_SetKey :: "bytes \<Rightarrow> bytes \<Rightarrow> CCrypter \<Rightarrow> bool \<times> CCrypter" where
  "crypter_SetKey chNewKey chNewIV c =
     (if length chNewKey \<noteq> WALLET_CRYPTO_KEY_SIZE \<or> length chNewIV \<noteq> WALLET_CRYPTO_KEY_SIZE then (False, c)
      else (True, \<lparr>chKey = chNewKey, chIV = chNewIV, fKeySet = True\<rparr>))"

definition crypter_Encrypt :: "extlib \<Rightarrow> CCrypter \<Rightarrow> bytes \<Rightarrow> bytes option" where
  "crypter_Encrypt L c plain = (if \<not> fKeySet c then None else AES_encrypt L (chKey c) (chIV c) plain)"

definition crypter_Decrypt :: "extlib \<Rightarrow> CCrypter \<Rightarrow> bytes \<Rightarrow> bytes option" where
  "crypter_Decrypt L c cipher = (if \<not> fKeySet c then None else AES_decrypt L (chKey c) (chIV c) cipher)"

definition EncryptSecret :: "extlib \<Rightarrow> bytes \<Rightarrow> bytes \<Rightarrow> u256 \<Rightarrow> bytes option" where
  "EncryptSecret L vMasterKey vchPlaintext nIV =
     (case crypter_SetKey vMasterKey (take WALLET_CRYPTO_KEY_SIZE (u256_bytes nIV)) crypter_CleanKey of
        (ok, c) \<Rightarrow> if \<not> ok then None else crypter_Encrypt L c vchPlaintext)"

definition DecryptSecret :: "extlib \<Rightarrow> bytes \<Rightarrow> bytes \<Rightarrow> u256 \<Rightarrow> bytes option" where
  "DecryptSecret L vMasterKey vchCiphertext nIV =
     (case crypter_SetKey vMasterKey (take WALLET_CRYPTO_KEY_SIZE (u256_bytes nIV)) crypter_CleanKey of
        (ok, c) \<Rightarrow> if \<not> ok then None else crypter_Decrypt L c vchCiphertext)"

lemma EncryptSecret_eq:
  "EncryptSecret L m p iv =
     (if length m = WALLET_CRYPTO_KEY_SIZE then AES_encrypt L m (u256_bytes iv) p else None)"
  "DecryptSecret L m p iv =
     (if length m = WALLET_CRYPTO_KEY_SIZE then AES_decrypt L m (u256_bytes iv) p else None)"
  by (simp_all add: EncryptSecret_def DecryptSecret_def crypter_SetKey_def crypter_Encrypt_def
      crypter_Decrypt_def WALLET_CRYPTO_KEY_SIZE_def)

lemma DecryptSecret_Encrypt:
  "aes_ok L \<Longrightarrow> EncryptSecret L m p iv = Some c \<Longrightarrow> DecryptSecret L m c iv = Some p"
  by (auto simp: EncryptSecret_eq aes_ok_def split: if_splits)

section \<open>The interface of a key store\<close>

text \<open>
  Every caller of \<open>GetKey\<close> and \<open>GetPubKey\<close> passes a fresh object, so they return one; the
  booleans are the options.
\<close>

record CKeyStore =
  HaveKey :: "u160 \<Rightarrow> bool"
  GetKey :: "u160 \<Rightarrow> key_error + CKey option"
  GetPubKey :: "u160 \<Rightarrow> key_error + CPubKey option"
  HaveCScript :: "u160 \<Rightarrow> bool"
  GetCScript :: "u160 \<Rightarrow> CScript option"

text \<open>The bodies the base class gives.\<close>

definition CKeyStore_GetPubKey :: "(u160 \<Rightarrow> key_error + CKey option) \<Rightarrow> u160 \<Rightarrow> key_error + CPubKey option" where
  "CKeyStore_GetPubKey getKey address =
     rbind (getKey address) (\<lambda>r.
       case r of
         None \<Rightarrow> Inr None
       | Some key \<Rightarrow> rbind (CKey_GetPubKey key) (\<lambda>p. Inr (Some p)))"

definition CKeyStore_GetSecret ::
  "(u160 \<Rightarrow> key_error + CKey option) \<Rightarrow> u160 \<Rightarrow> key_error + (bytes \<times> bool) option" where
  "CKeyStore_GetSecret getKey address =
     rbind (getKey address) (\<lambda>r.
       case r of
         None \<Rightarrow> Inr None
       | Some key \<Rightarrow> rbind (CKey_GetSecret key) (\<lambda>s. Inr (Some s)))"

text \<open>
  What signing code may rely on, for a provider whose states satisfy \<open>inv\<close>: a store never
  hands out a key under another key's identifier, hands out only keys it says it has, and
  holds a script exactly when it can return it, under the hash of the script.
\<close>

locale key_store =
  fixes L :: extlib and inv :: "'s \<Rightarrow> bool" and ks :: "'s \<Rightarrow> CKeyStore"
  assumes GetKey_total: "inv s \<Longrightarrow> \<exists>r. GetKey (ks s) a = Inr r"
    and GetKey_Some: "inv s \<Longrightarrow> GetKey (ks s) a = Inr (Some k) \<Longrightarrow>
      HaveKey (ks s) a \<and> (\<exists>p. CKey_GetPubKey k = Inr p \<and> CPubKey_GetID L p = a)"
    and GetPubKey_Some: "inv s \<Longrightarrow> GetPubKey (ks s) a = Inr (Some p) \<Longrightarrow>
      HaveKey (ks s) a \<and> CPubKey_GetID L p = a"
    and GetPubKey_of_key: "inv s \<Longrightarrow> GetKey (ks s) a = Inr (Some k) \<Longrightarrow>
      \<exists>p. GetPubKey (ks s) a = Inr (Some p)"
    and HaveCScript_iff: "inv s \<Longrightarrow> HaveCScript (ks s) h \<longleftrightarrow> GetCScript (ks s) h \<noteq> None"
    and GetCScript_ID: "inv s \<Longrightarrow> GetCScript (ks s) h = Some c \<Longrightarrow> CScript_GetID L c = h"
begin

lemma GetKey_cases:
  assumes "inv s"
  obtains "GetKey (ks s) a = Inr None"
  | k p where "GetKey (ks s) a = Inr (Some k)" "CKey_GetPubKey k = Inr p" "CPubKey_GetID L p = a"
      "HaveKey (ks s) a"
  using GetKey_total [OF assms, of a] GetKey_Some [OF assms, of a] by (metis not_None_eq)

lemma no_key_if_not_have: "inv s \<Longrightarrow> \<not> HaveKey (ks s) a \<Longrightarrow> GetKey (ks s) a = Inr None"
  by (rule GetKey_cases) auto

end

end
