(* ===== verification/Script_Solve.thy ===== *)
theory Script_Solve
  imports Script_Interp Transaction Keys
begin

text \<open>
  Recognising scripts (\<open>script.cpp\<close>): \<open>Solver\<close> and its templates, what it says about a
  script (standardness, destinations, whose keys it needs), and the scripts that pay to a
  destination or to several keys.
\<close>

section \<open>Templates\<close>

definition mTemplates :: "(txnouttype \<times> CScript) list" where
  "mTemplates =
    [(TX_PUBKEY, push_op OP_PUBKEY @ push_op OP_CHECKSIG),
     (TX_PUBKEYHASH, push_op OP_DUP @ push_op OP_HASH160 @ push_op OP_PUBKEYHASH
        @ push_op OP_EQUALVERIFY @ push_op OP_CHECKSIG),
     (TX_MULTISIG, push_op OP_SMALLINTEGER @ push_op OP_PUBKEYS @ push_op OP_SMALLINTEGER
        @ push_op OP_CHECKMULTISIG)]"

text \<open>
  The inner loop at \<open>OP_PUBKEYS\<close>: it takes every push of the size of a public key. It stops
  with the instruction it did not take; past the end that is \<open>OP_INVALIDOPCODE\<close> without data.
\<close>

function take_pubkeys ::
  "valtype list \<Rightarrow> opcodetype \<Rightarrow> valtype \<Rightarrow> bytes \<Rightarrow> valtype list \<times> opcodetype \<times> valtype \<times> bytes" where
  "take_pubkeys sols opcode1 vch1 pc1 =
     (if 33 \<le> length vch1 \<and> length vch1 \<le> 120
      then case GetOp pc1 of
             None \<Rightarrow> (sols @ [vch1], OP_INVALIDOPCODE, [], [])
           | Some (opcode1', vch1', pc1') \<Rightarrow> take_pubkeys (sols @ [vch1]) opcode1' vch1' pc1'
      else (sols, opcode1, vch1, pc1))"
  by pat_completeness auto
termination
  by (relation "measure (\<lambda>(s, o1, v1, pc). length pc)") (auto dest: GetOp_shorter)

declare take_pubkeys.simps [simp del]

text \<open>One comparison of the instructions read from the script and from the template.\<close>

definition match_op :: "opcodetype \<Rightarrow> valtype \<Rightarrow> opcodetype \<Rightarrow> valtype \<Rightarrow> valtype list \<Rightarrow> valtype list option" where
  "match_op opcode1 vch1 opcode2 vch2 sols =
     (if opcode2 = OP_PUBKEY
      then if length vch1 < 33 \<or> 120 < length vch1 then None else Some (sols @ [vch1])
      else if opcode2 = OP_PUBKEYHASH
      then if length vch1 \<noteq> 20 then None else Some (sols @ [vch1])
      else if opcode2 = OP_SMALLINTEGER
      then if opcode1 = OP_0 \<or> (OP_1 \<le> opcode1 \<and> opcode1 \<le> OP_16)
           then Some (sols @ [[of_int (DecodeOP_N opcode1)]]) else None
      else if opcode1 \<noteq> opcode2 \<or> vch1 \<noteq> vch2 then None
      else Some sols)"

function match_template :: "bytes \<Rightarrow> bytes \<Rightarrow> valtype list \<Rightarrow> valtype list option" where
  "match_template pc1 pc2 sols =
     (if pc1 = [] \<and> pc2 = [] then Some sols
      else case GetOp pc1 of
        None \<Rightarrow> None
      | Some (opcode1, vch1, pc1') \<Rightarrow>
          (case GetOp pc2 of
             None \<Rightarrow> None
           | Some (opcode2, vch2, pc2') \<Rightarrow>
               if opcode2 = OP_PUBKEYS
               then case take_pubkeys sols opcode1 vch1 pc1' of
                 (sols', opcode1', vch1', pc1'') \<Rightarrow>
                   (case GetOp pc2' of
                      None \<Rightarrow> None
                    | Some (opcode2', vch2', pc2'') \<Rightarrow>
                        (case match_op opcode1' vch1' opcode2' vch2' sols' of
                           None \<Rightarrow> None
                         | Some sols'' \<Rightarrow> match_template pc1'' pc2'' sols''))
               else case match_op opcode1 vch1 opcode2 vch2 sols of
                      None \<Rightarrow> None
                    | Some sols' \<Rightarrow> match_template pc1' pc2' sols'))"
  by pat_completeness auto
termination
  by (relation "measure (\<lambda>(pc1, pc2, s). length pc2)")
    (auto dest!: GetOp_shorter)

declare match_template.simps [simp del]

text \<open>The scan: the first template that matches decides, for good or ill.\<close>

definition multisig_valid :: "valtype list \<Rightarrow> bool" where
  "multisig_valid sols =
     (let m = hd (hd sols); n = hd (last sols)
      in \<not> (m < 1 \<or> n < 1 \<or> n < m \<or> length sols - 2 \<noteq> unat n))"

fun scan_templates :: "(txnouttype \<times> CScript) list \<Rightarrow> CScript \<Rightarrow> bool \<times> txnouttype \<times> valtype list" where
  "scan_templates [] script1 = (False, TX_NONSTANDARD, [])"
| "scan_templates ((typeRet, script2) # tplates) script1 =
     (case match_template script1 script2 [] of
        Some sols \<Rightarrow>
          if typeRet = TX_MULTISIG \<and> \<not> multisig_valid sols then (False, typeRet, sols)
          else (True, typeRet, sols)
      | None \<Rightarrow> scan_templates tplates script1)"

definition Solver :: "CScript \<Rightarrow> bool \<times> txnouttype \<times> valtype list" where
  "Solver spk =
     (if IsPayToScriptHash spk then (True, TX_SCRIPTHASH, [take 20 (drop 2 spk)])
      else scan_templates mTemplates spk)"

section \<open>What a script asks for\<close>

definition ScriptSigArgsExpected :: "txnouttype \<Rightarrow> valtype list \<Rightarrow> int" where
  "ScriptSigArgsExpected t sols =
     (case t of
        TX_NONSTANDARD \<Rightarrow> - 1
      | TX_NULL_DATA \<Rightarrow> - 1
      | TX_PUBKEY \<Rightarrow> 1
      | TX_PUBKEYHASH \<Rightarrow> 2
      | TX_MULTISIG \<Rightarrow>
          (if length sols < 1 \<or> length (sols ! 0) < 1 then - 1 else int (unat (sols ! 0 ! 0)) + 1)
      | TX_SCRIPTHASH \<Rightarrow> 1)"

definition IsStandard :: "CScript \<Rightarrow> bool \<times> txnouttype" where
  "IsStandard spk =
     (case Solver spk of (ok, whichType, sols) \<Rightarrow>
        if \<not> ok then (False, whichType)
        else if whichType = TX_MULTISIG
          \<and> (let m = hd (hd sols); n = hd (last sols) in n < 1 \<or> 3 < n \<or> m < 1 \<or> n < m)
        then (False, whichType)
        else (whichType \<noteq> TX_NONSTANDARD, whichType))"

definition u160_of_vch :: "valtype \<Rightarrow> u160" where
  "u160_of_vch vch = (if length vch = 20 then of_nat (le_val vch) else 0)"

definition ExtractDestination :: "extlib \<Rightarrow> CScript \<Rightarrow> CTxDestination option" where
  "ExtractDestination L spk =
     (case Solver spk of (ok, whichType, sols) \<Rightarrow>
        if \<not> ok then None
        else if whichType = TX_PUBKEY then Some (CKeyID (CPubKey_GetID L \<lparr>pk_vch = sols ! 0\<rparr>))
        else if whichType = TX_PUBKEYHASH then Some (CKeyID (u160_of_vch (sols ! 0)))
        else if whichType = TX_SCRIPTHASH then Some (CScriptID (u160_of_vch (sols ! 0)))
        else None)"

text \<open>The type, the destinations and \<open>nRequired\<close>; the type also when the call fails.\<close>

definition ExtractDestinations ::
  "extlib \<Rightarrow> CScript \<Rightarrow> txnouttype \<times> (CTxDestination list \<times> int) option" where
  "ExtractDestinations L spk =
     (case Solver spk of (ok, typeRet, sols) \<Rightarrow>
        if \<not> ok then (typeRet, None)
        else if typeRet = TX_MULTISIG
        then (typeRet, Some (map (\<lambda>vch. CKeyID (CPubKey_GetID L \<lparr>pk_vch = vch\<rparr>)) (butlast (tl sols)),
                int (unat (hd (hd sols)))))
        else case ExtractDestination L spk of
               None \<Rightarrow> (typeRet, None)
             | Some address \<Rightarrow> (typeRet, Some ([address], 1)))"

section \<open>Whose script it is\<close>

definition HaveKeys :: "extlib \<Rightarrow> valtype list \<Rightarrow> CKeyStore \<Rightarrow> nat" where
  "HaveKeys L pubkeys ks =
     length (filter (\<lambda>pubkey. HaveKey ks (CPubKey_GetID L \<lparr>pk_vch = pubkey\<rparr>)) pubkeys)"

fun IsMine_dest :: "CKeyStore \<Rightarrow> CTxDestination \<Rightarrow> bool" where
  "IsMine_dest ks CNoDestination = False"
| "IsMine_dest ks (CKeyID keyID) = HaveKey ks keyID"
| "IsMine_dest ks (CScriptID scriptID) = HaveCScript ks scriptID"

text \<open>
  The recursion goes through the scripts of the store; a store with a script that pays to
  its own hash would send it round for ever, so the value is \<open>None\<close> when it does not return.
\<close>

partial_function (option) IsMine :: "extlib \<Rightarrow> CKeyStore \<Rightarrow> CScript \<Rightarrow> bool option" where
  "IsMine L ks spk =
     (case Solver spk of (ok, whichType, sols) \<Rightarrow>
        if \<not> ok then Some False
        else if whichType = TX_PUBKEY then Some (HaveKey ks (CPubKey_GetID L \<lparr>pk_vch = sols ! 0\<rparr>))
        else if whichType = TX_PUBKEYHASH then Some (HaveKey ks (u160_of_vch (sols ! 0)))
        else if whichType = TX_SCRIPTHASH
        then (case GetCScript ks (u160_of_vch (sols ! 0)) of
                None \<Rightarrow> Some False
              | Some subscript \<Rightarrow> IsMine L ks subscript)
        else if whichType = TX_MULTISIG
        then (let keys = butlast (tl sols) in Some (HaveKeys L keys ks = length keys))
        else Some False)"

text \<open>
  \<open>CAffectedKeysVisitor\<close>: the destinations still to visit, those of a script before the
  ones that follow it.
\<close>

partial_function (option) visit_dests ::
  "extlib \<Rightarrow> CKeyStore \<Rightarrow> CTxDestination list \<Rightarrow> u160 list \<Rightarrow> u160 list option" where
  "visit_dests L ks dests vKeys =
     (case dests of
        [] \<Rightarrow> Some vKeys
      | dest # rest \<Rightarrow>
          (case dest of
             CNoDestination \<Rightarrow> visit_dests L ks rest vKeys
           | CKeyID keyId \<Rightarrow>
               visit_dests L ks rest (if HaveKey ks keyId then vKeys @ [keyId] else vKeys)
           | CScriptID scriptId \<Rightarrow>
               (case GetCScript ks scriptId of
                  None \<Rightarrow> visit_dests L ks rest vKeys
                | Some script \<Rightarrow>
                    (case ExtractDestinations L script of
                       (t, None) \<Rightarrow> visit_dests L ks rest vKeys
                     | (t, Some (vDest, nRequired)) \<Rightarrow> visit_dests L ks (vDest @ rest) vKeys))))"

definition ExtractAffectedKeys :: "extlib \<Rightarrow> CKeyStore \<Rightarrow> CScript \<Rightarrow> u160 list \<Rightarrow> u160 list option" where
  "ExtractAffectedKeys L ks spk vKeys =
     (case ExtractDestinations L spk of
        (t, None) \<Rightarrow> Some vKeys
      | (t, Some (vDest, nRequired)) \<Rightarrow> visit_dests L ks vDest vKeys)"

section \<open>Scripts that pay\<close>

fun SetDestination :: "CTxDestination \<Rightarrow> CScript" where
  "SetDestination CNoDestination = []"
| "SetDestination (CKeyID keyID) =
     push_op OP_DUP @ push_op OP_HASH160 @ push_uint160 keyID @ push_op OP_EQUALVERIFY @ push_op OP_CHECKSIG"
| "SetDestination (CScriptID scriptID) = push_op OP_HASH160 @ push_uint160 scriptID @ push_op OP_EQUAL"

definition SetMultisig :: "int \<Rightarrow> CPubKey list \<Rightarrow> CScript" where
  "SetMultisig nRequired keys =
     push_op (EncodeOP_N nRequired) @ concat (map push_pubkey keys)
     @ push_op (EncodeOP_N (int (length keys))) @ push_op OP_CHECKMULTISIG"

section \<open>Matching, one instruction of the template at a time\<close>
lemma match_Nil: "match_template s [] sols = (if s = [] then Some sols else None)"
  by (subst match_template.simps) (auto split: option.split)

lemma GetOp_nonpush [simp]: "OP_PUSHDATA4 < c \<Longrightarrow> GetOp (c # t) = Some (c, [], t)"
  by (simp add: not_le [symmetric])

lemma match_Cons:
  assumes "OP_PUSHDATA4 < c" and "c \<noteq> OP_PUBKEYS"
  shows "match_template s (c # t) sols =
    (case GetOp s of
       None \<Rightarrow> None
     | Some (o1, v1, s') \<Rightarrow>
         (case match_op o1 v1 c [] sols of None \<Rightarrow> None | Some sols' \<Rightarrow> match_template s' t sols'))"
  using assms by (subst match_template.simps) (simp del: GetOp.simps split: option.split)

lemma match_PUBKEYS:
  assumes "OP_PUSHDATA4 < c"
  shows "match_template s (OP_PUBKEYS # c # t) sols =
    (case GetOp s of
       None \<Rightarrow> None
     | Some (o1, v1, s1) \<Rightarrow>
         (case take_pubkeys sols o1 v1 s1 of
            (sols', o1', v1', s1') \<Rightarrow>
              (case match_op o1' v1' c [] sols' of
                 None \<Rightarrow> None
               | Some sols'' \<Rightarrow> match_template s1' t sols'')))"
  using assms by (subst match_template.simps) (simp del: GetOp.simps split: option.split prod.split)

lemmas match_simps = match_Nil match_Cons match_PUBKEYS push_op_def

abbreviation "pubkey_sized k \<equiv> 33 \<le> length k \<and> length k \<le> 120"

lemma take_pubkeys_sols:
  "take_pubkeys sols o1 v1 pc = (sols', o1', v1', pc') \<Longrightarrow>
     \<exists>keys. sols' = sols @ keys \<and> (\<forall>k \<in> set keys. pubkey_sized k)"
proof (induction sols o1 v1 pc rule: take_pubkeys.induct)
  case (1 sols o1 v1 pc)
  show ?case
  proof (cases "pubkey_sized v1")
    case False
    show ?thesis
      using "1.prems" unfolding take_pubkeys.simps [of sols o1 v1 pc] if_not_P [OF False] by simp
  next
    case True
    show ?thesis
    proof (cases "GetOp pc")
      case None
      then show ?thesis using True "1.prems" by (auto simp: take_pubkeys.simps [of sols])
    next
      case (Some t)
      then obtain o2 v2 pc2 where t: "t = (o2, v2, pc2)" by (cases t) auto
      have "take_pubkeys (sols @ [v1]) o2 v2 pc2 = (sols', o1', v1', pc')"
        using "1.prems" True Some t by (simp add: take_pubkeys.simps [of sols])
      then obtain keys where "sols' = (sols @ [v1]) @ keys" "\<forall>k \<in> set keys. pubkey_sized k"
        using "1.IH" [OF True Some t [symmetric] refl] by blast
      then show ?thesis using True by (intro exI [of _ "v1 # keys"]) simp
    qed
  qed
qed

text \<open>The solutions of each type: enough to justify every \<open>vSolutions[0]\<close> of the callers.\<close>

fun solutions_ok :: "txnouttype \<Rightarrow> valtype list \<Rightarrow> bool" where
  "solutions_ok TX_PUBKEY sols \<longleftrightarrow> (\<exists>k. sols = [k] \<and> pubkey_sized k)"
| "solutions_ok TX_PUBKEYHASH sols \<longleftrightarrow> (\<exists>h. sols = [h] \<and> length h = 20)"
| "solutions_ok TX_SCRIPTHASH sols \<longleftrightarrow> (\<exists>h. sols = [h] \<and> length h = 20)"
| "solutions_ok TX_MULTISIG sols \<longleftrightarrow>
     (\<exists>m keys. sols = [of_nat m] # keys @ [[of_nat (length keys)]]
       \<and> 1 \<le> m \<and> m \<le> length keys \<and> length keys \<le> 16 \<and> (\<forall>k \<in> set keys. pubkey_sized k))"
| "solutions_ok _ sols \<longleftrightarrow> False"

lemma match_op_simps:
  "match_op o1 v1 OP_PUBKEY v2 sols = (if pubkey_sized v1 then Some (sols @ [v1]) else None)"
  "match_op o1 v1 OP_PUBKEYHASH v2 sols = (if length v1 = 20 then Some (sols @ [v1]) else None)"
  "match_op o1 v1 OP_SMALLINTEGER v2 sols =
     (if o1 = OP_0 \<or> (OP_1 \<le> o1 \<and> o1 \<le> OP_16) then Some (sols @ [[of_int (DecodeOP_N o1)]]) else None)"
  "c < OP_SMALLINTEGER \<Longrightarrow> match_op o1 v1 c v2 sols = (if o1 = c \<and> v1 = v2 then Some sols else None)"
  by (auto simp: match_op_def)

lemma small_integer:
  assumes "o1 = OP_0 \<or> (OP_1 \<le> o1 \<and> o1 \<le> OP_16)"
  obtains n where "(of_int (DecodeOP_N o1) :: byte) = of_nat n" "n \<le> 16"
proof -
  have "0 \<le> DecodeOP_N o1 \<and> DecodeOP_N o1 \<le> 16"
    using assms DecodeOP_N_range [of o1] by (auto simp: DecodeOP_N_def)
  then show thesis by (intro that [of "nat (DecodeOP_N o1)"]) auto
qed

lemma match_multisig_shape:
  assumes "match_template s [OP_SMALLINTEGER, OP_PUBKEYS, OP_SMALLINTEGER, OP_CHECKMULTISIG] [] = Some sols"
    and "multisig_valid sols"
  shows "solutions_ok TX_MULTISIG sols"
proof -
  obtain o1 v1 s1 m where m: "GetOp s = Some (o1, v1, s1)" "(of_int (DecodeOP_N o1) :: byte) = of_nat m" "m \<le> 16"
    and rest: "match_template s1 [OP_PUBKEYS, OP_SMALLINTEGER, OP_CHECKMULTISIG] [[of_nat m]] = Some sols"
    using assms(1)
    by (auto simp: match_Cons match_op_simps split: option.splits if_splits elim!: small_integer)
  obtain o2 v2 s2 sols' o3 v3 s3 where t: "take_pubkeys [[of_nat m]] o2 v2 s2 = (sols', o3, v3, s3)"
    and e: "match_template s3 [OP_CHECKMULTISIG] (sols' @ [[of_int (DecodeOP_N o3)]]) = Some sols"
    and n: "o3 = OP_0 \<or> (OP_1 \<le> o3 \<and> o3 \<le> OP_16)"
    using rest by (auto simp: match_PUBKEYS match_op_simps split: option.splits if_splits prod.splits)
  obtain n where n: "(of_int (DecodeOP_N o3) :: byte) = of_nat n" "n \<le> 16"
    using small_integer [OF n] by blast
  obtain keys where keys: "sols' = [[of_nat m]] @ keys" "\<forall>k \<in> set keys. pubkey_sized k"
    using take_pubkeys_sols [OF t] by blast
  have sols: "sols = [of_nat m] # keys @ [[of_nat n]]"
    using e keys(1) n(1) by (auto simp: match_Cons match_Nil match_op_simps split: option.splits if_splits)
  have u: "unat (of_nat n :: byte) = n" "unat (of_nat m :: byte) = m"
    using m(3) n(2) by (simp_all add: unat_of_nat_byte)
  have "1 \<le> m" "m \<le> n" "length keys = n"
    using assms(2) u unfolding multisig_valid_def Let_def sols
    by (simp_all add: word_less_nat_alt not_less)
  with sols keys(2) n(2) show ?thesis by auto
qed

lemma Solver_solutions: "Solver s = (True, t, sols) \<Longrightarrow> solutions_ok t sols"
proof -
  assume s: "Solver s = (True, t, sols)"
  show ?thesis
  proof (cases "IsPayToScriptHash s")
    case True
    then show ?thesis using s by (auto simp: Solver_def IsPayToScriptHash_def)
  next
    case False
    consider "match_template s [OP_PUBKEY, OP_CHECKSIG] [] = Some sols" "t = TX_PUBKEY"
      | "match_template s [OP_DUP, OP_HASH160, OP_PUBKEYHASH, OP_EQUALVERIFY, OP_CHECKSIG] [] = Some sols"
        "t = TX_PUBKEYHASH"
      | "match_template s [OP_SMALLINTEGER, OP_PUBKEYS, OP_SMALLINTEGER, OP_CHECKMULTISIG] [] = Some sols"
        "t = TX_MULTISIG" "multisig_valid sols"
      using s False
      by (auto simp: Solver_def mTemplates_def push_op_def split: option.splits if_splits)
    then show ?thesis
    proof cases
      case 1
      then show ?thesis by (auto simp: match_Cons match_Nil match_op_simps split: option.splits if_splits)
    next
      case 2
      then show ?thesis by (auto simp: match_Cons match_Nil match_op_simps split: option.splits if_splits)
    next
      case 3
      then show ?thesis using match_multisig_shape by simp
    qed
  qed
qed

section \<open>Scripts that pay are recognised\<close>
lemma push_uint160_data: "push_uint160 h = push_data (u160_bytes h)"
  by (simp add: push_uint160_def push_data_def)

lemma u160_of_vch_bytes [simp]: "u160_of_vch (u160_bytes h) = h"
  using unat_lt_2p [of h] by (simp add: u160_of_vch_def u160_bytes_def le_val_le_bytes word_eq_iff_unat unat_of_nat_small)

lemma GetOp_push [simp]:
  "length b < 2 ^ 32 \<Longrightarrow> \<exists>op \<le> OP_PUSHDATA4. GetOp (push_data b @ r) = Some (op, b, r)"
  using GetOp_push_data by blast

lemma GetOp_push_cases:
  assumes "length b < 2 ^ 32"
  obtains op where "GetOp (push_data b @ r) = Some (op, b, r)" "op \<le> OP_PUSHDATA4"
  using GetOp_push_data [OF assms] by blast

lemma Solver_KeyID: "Solver (SetDestination (CKeyID h)) = (True, TX_PUBKEYHASH, [u160_bytes h])"
proof -
  let ?s = "SetDestination (CKeyID h)"
  have s: "?s = OP_DUP # OP_HASH160 # push_data (u160_bytes h) @ [OP_EQUALVERIFY, OP_CHECKSIG]"
    by (simp add: push_op_def push_uint160_data)
  have "\<not> IsPayToScriptHash ?s"
    unfolding s by (simp add: IsPayToScriptHash_def)
  moreover have "match_template ?s [OP_PUBKEY, OP_CHECKSIG] [] = None"
    unfolding s by (simp add: match_Cons match_op_simps)
  moreover obtain op where "GetOp (push_data (u160_bytes h) @ [OP_EQUALVERIFY, OP_CHECKSIG]) =
      Some (op, u160_bytes h, [OP_EQUALVERIFY, OP_CHECKSIG])"
    using GetOp_push_cases [of "u160_bytes h" "[OP_EQUALVERIFY, OP_CHECKSIG]"] by auto
  then have "match_template ?s [OP_DUP, OP_HASH160, OP_PUBKEYHASH, OP_EQUALVERIFY, OP_CHECKSIG] [] =
      Some [u160_bytes h]"
    unfolding s by (simp add: match_Cons match_Nil match_op_simps)
  ultimately show ?thesis by (simp add: Solver_def mTemplates_def push_op_def)
qed

lemma IsPayToScriptHash_dest: "IsPayToScriptHash (SetDestination (CScriptID h))"
  by (simp add: IsPayToScriptHash_iff push_op_def push_uint160_def)

lemma Solver_ScriptID: "Solver (SetDestination (CScriptID h)) = (True, TX_SCRIPTHASH, [u160_bytes h])"
  using IsPayToScriptHash_dest [of h]
  by (simp add: Solver_def) (simp add: push_op_def push_uint160_def)

lemma EncodeOP_N_small:
  assumes "n \<le> 16"
  shows "EncodeOP_N (int n) = OP_0 \<and> n = 0 \<or> OP_1 \<le> EncodeOP_N (int n) \<and> EncodeOP_N (int n) \<le> OP_16"
    and "DecodeOP_N (EncodeOP_N (int n)) = int n"
proof -
  have u: "unat (of_nat (80 + n) :: byte) = 80 + n"
    using assms by (intro unat_of_nat_small) simp
  have e: "EncodeOP_N (int n) = of_nat (80 + n)" if "n \<noteq> 0"
    using that by (simp add: EncodeOP_N_def algebra_simps)
  show "EncodeOP_N (int n) = OP_0 \<and> n = 0 \<or> OP_1 \<le> EncodeOP_N (int n) \<and> EncodeOP_N (int n) \<le> OP_16"
  proof (cases "n = 0")
    case False
    then show ?thesis unfolding e [OF False] word_le_nat_alt u using assms by simp
  qed (simp add: EncodeOP_N_def)
  show "DecodeOP_N (EncodeOP_N (int n)) = int n"
  proof (cases "n = 0")
    case False
    have "of_nat (80 + n) \<noteq> OP_0" using u by (metis add_is_0 unat_0 zero_neq_numeral)
    then show ?thesis unfolding e [OF False] DecodeOP_N_def by (simp only: u if_False)
  qed (simp add: EncodeOP_N_def DecodeOP_N_def)
qed

lemma take_pubkeys_push:
  assumes "\<forall>k \<in> set keys. pubkey_sized k" and "\<not> pubkey_sized v" and "GetOp r = Some (op, v, r')"
    and "pubkey_sized k0"
  shows "take_pubkeys sols op0 k0 (concat (map push_data keys) @ r) = (sols @ k0 # keys, op, v, r')"
  using assms(1,4)
proof (induction keys arbitrary: sols op0 k0)
  case Nil
  have "take_pubkeys s op v r' = (s, op, v, r')" for s
    unfolding take_pubkeys.simps [of s op v r'] if_not_P [OF assms(2)] by (rule refl)
  with Nil show ?case using assms(3) by (subst take_pubkeys.simps) simp
next
  case (Cons k keys)
  let ?r = "concat (map push_data keys) @ r"
  have k: "pubkey_sized k" "\<forall>k \<in> set keys. pubkey_sized k" using Cons.prems(1) by simp_all
  then have "length k < 2 ^ 32" by simp
  then obtain op1 where op1: "GetOp (push_data k @ ?r) = Some (op1, k, ?r)"
    by (rule GetOp_push_cases)
  have "take_pubkeys sols op0 k0 (push_data k @ ?r) = take_pubkeys (sols @ [k0]) op1 k ?r"
    unfolding take_pubkeys.simps [of sols] if_P [OF Cons.prems(2)] op1 by simp
  then show ?case using Cons.IH [OF k(2,1), of "sols @ [k0]" op1] by simp
qed

lemma Solver_multisig:
  assumes "1 \<le> m" and "m \<le> length keys" and "length keys \<le> 16"
    and "\<forall>k \<in> set keys. pubkey_sized (pk_vch k)"
  shows "Solver (SetMultisig (int m) keys) =
    (True, TX_MULTISIG, [of_nat m] # map pk_vch keys @ [[of_nat (length keys)]])"
proof -
  define M N where "M = EncodeOP_N (int m)" and "N = EncodeOP_N (int (length keys))"
  have m16: "m \<le> 16" using assms by simp
  note encM = EncodeOP_N_small [OF m16, folded M_def] and encN = EncodeOP_N_small [OF assms(3), folded N_def]
  have op: "OP_1 \<le> M \<and> M \<le> OP_16" "OP_1 \<le> N \<and> N \<le> OP_16"
    using encM(1) encN(1) assms(1,2) by auto
  have big: "OP_PUSHDATA4 < M" "OP_PUSHDATA4 < N" "M \<noteq> OP_HASH160" "M \<noteq> OP_DUP"
    using op by (auto simp: word_le_nat_alt word_less_nat_alt)
  let ?rest = "N # [OP_CHECKMULTISIG]"
  obtain k0 ks where ks: "keys = k0 # ks" using assms(1,2) by (cases keys) auto
  define tail where "tail = concat (map push_data (map pk_vch ks)) @ ?rest"
  have s: "SetMultisig (int m) keys = M # push_data (pk_vch k0) @ tail"
    by (simp add: SetMultisig_def push_op_def push_pubkey_def [abs_def] M_def N_def ks comp_def tail_def)
  have k0: "pubkey_sized (pk_vch k0)" and kss: "\<forall>k \<in> set (map pk_vch ks). pubkey_sized k"
    using assms(4) by (auto simp: ks)
  then have "length (pk_vch k0) < 2 ^ 32" by simp
  then obtain op0 where op0: "GetOp (push_data (pk_vch k0) @ tail) = Some (op0, pk_vch k0, tail)"
    by (rule GetOp_push_cases)
  have take: "take_pubkeys sols op0 (pk_vch k0) tail = (sols @ map pk_vch keys, N, [], [OP_CHECKMULTISIG])" for sols
    using take_pubkeys_push [OF kss _ _ k0, of "[]" ?rest N "[OP_CHECKMULTISIG]" sols op0] big(2)
    by (simp add: ks tail_def del: GetOp.simps)
  have notp2sh: "\<not> IsPayToScriptHash (SetMultisig (int m) keys)"
    unfolding IsPayToScriptHash_def s using big(3) by simp
  have first: "match_op M [] OP_SMALLINTEGER [] sols = Some (sols @ [[of_nat m]])"
    "match_op N [] OP_SMALLINTEGER [] sols = Some (sols @ [[of_nat (length keys)]])" for sols
    using op encM(2) encN(2) by (simp_all add: match_op_simps)
  have last_op: "match_op OP_CHECKMULTISIG [] OP_CHECKMULTISIG [] sols = Some sols" for sols
    by (simp add: match_op_simps)
  have "match_template (SetMultisig (int m) keys) [OP_PUBKEY, OP_CHECKSIG] [] = None"
    "match_template (SetMultisig (int m) keys)
       [OP_DUP, OP_HASH160, OP_PUBKEYHASH, OP_EQUALVERIFY, OP_CHECKSIG] [] = None"
    unfolding s using big by (simp_all add: match_Cons match_op_simps del: GetOp.simps)
  moreover have "match_template (SetMultisig (int m) keys)
       [OP_SMALLINTEGER, OP_PUBKEYS, OP_SMALLINTEGER, OP_CHECKMULTISIG] [] =
     Some ([of_nat m] # map pk_vch keys @ [[of_nat (length keys)]])"
    unfolding s
    using big by (simp add: match_Cons match_PUBKEYS match_Nil first last_op op0 take del: GetOp.simps)
  moreover have "multisig_valid ([of_nat m] # map pk_vch keys @ [[of_nat n]])"
    if "n = length keys" for n
    using assms(1-3) that by (cases "keys = []") (simp_all add: multisig_valid_def Let_def word_less_nat_alt unat_of_nat_byte)
  ultimately show ?thesis
    using notp2sh by (simp add: Solver_def mTemplates_def push_op_def)
qed

lemma ScriptSigArgs_ok: "solutions_ok t sols \<Longrightarrow> 1 \<le> ScriptSigArgsExpected t sols"
  by (cases t) (auto simp: ScriptSigArgsExpected_def)

lemma IsMine_multisig:
  assumes "Solver s = (True, TX_MULTISIG, [m] # keys @ [[n]])"
  shows "IsMine L ks s = Some (\<forall>k \<in> set keys. HaveKey ks (CPubKey_GetID L \<lparr>pk_vch = k\<rparr>))"
proof -
  have "length (filter P xs) = length xs \<longleftrightarrow> (\<forall>x \<in> set xs. P x)" for P and xs :: "valtype list"
    by (metis filter_True length_filter_less less_irrefl)
  then show ?thesis
    by (subst IsMine.simps) (simp add: assms HaveKeys_def Let_def butlast_append)
qed

section \<open>Properties\<close>

text \<open>C36: Whatever script \<open>Solver\<close> recognises, its solutions have the form of the type: one
  public key of 33 to 120 bytes, one 20-byte hash, or \<open>m\<close>, between one and 16 public keys and
  their number \<open>n\<close>, with \<open>m\<close> from 1 to \<open>n\<close>. So every access the callers make to the solutions is
  within bounds, and the number of arguments expected is positive.\<close>
theorem Solver_sound:
  assumes "Solver s = (True, t, sols)"
  shows "solutions_ok t sols \<and> 1 \<le> ScriptSigArgsExpected t sols \<and> t \<noteq> TX_NONSTANDARD \<and> t \<noteq> TX_NULL_DATA
    \<and> (t = TX_SCRIPTHASH \<longleftrightarrow> IsPayToScriptHash s)"
proof -
  have ok: "solutions_ok t sols" using Solver_solutions [OF assms] .
  have "t = TX_SCRIPTHASH \<longleftrightarrow> IsPayToScriptHash s"
    using assms
    by (auto simp: Solver_def mTemplates_def split: if_splits option.splits)
  with ok ScriptSigArgs_ok [OF ok] show ?thesis by auto
qed

theorem Solver_sound_witness:
  "Solver (SetDestination (CKeyID 5)) = (True, TX_PUBKEYHASH, [u160_bytes 5])
   \<and> solutions_ok TX_PUBKEYHASH [u160_bytes 5]"
  using Solver_sound [OF Solver_KeyID, of 5] Solver_KeyID [of 5] by blast

text \<open>The script made for a destination is recognised as standard and gives the
  destination back.\<close>
theorem destination_roundtrip:
  assumes "dest \<noteq> CNoDestination"
  shows "ExtractDestination L (SetDestination dest) = Some dest
    \<and> snd (ExtractDestinations L (SetDestination dest)) = Some ([dest], 1)
    \<and> fst (IsStandard (SetDestination dest))"
proof (cases dest)
  case (CKeyID h)
  show ?thesis
    unfolding CKeyID
    by (simp add: ExtractDestination_def ExtractDestinations_def IsStandard_def Solver_KeyID
        del: SetDestination.simps)
next
  case (CScriptID h)
  show ?thesis
    unfolding CScriptID
    by (simp add: ExtractDestination_def ExtractDestinations_def IsStandard_def Solver_ScriptID
        del: SetDestination.simps)
qed (use assms in simp)

theorem destination_roundtrip_witness:
  "ExtractDestination ref_lib (SetDestination (CScriptID 9)) = Some (CScriptID 9)"
  using destination_roundtrip [of "CScriptID 9" ref_lib] by blast

text \<open>The script for \<open>m\<close> of \<open>n\<close> keys, up to 16, is recognised with exactly these keys in this
  order; it is standard up to three keys, asks for \<open>m\<close> signatures and the dummy element, and
  belongs to a wallet exactly if it holds every key.\<close>
theorem multisig_recognised:
  assumes "1 \<le> m" and "m \<le> length keys" and "length keys \<le> 16"
    and "\<forall>k \<in> set keys. pubkey_sized (pk_vch k)"
  defines "s \<equiv> SetMultisig (int m) keys"
  shows "ExtractDestinations L s = (TX_MULTISIG, Some (map (\<lambda>k. CKeyID (CPubKey_GetID L k)) keys, int m))
    \<and> (fst (IsStandard s) \<longleftrightarrow> length keys \<le> 3)
    \<and> ScriptSigArgsExpected TX_MULTISIG (snd (snd (Solver s))) = int m + 1
    \<and> IsMine L ks s = Some (\<forall>k \<in> set keys. HaveKey ks (CPubKey_GetID L k))"
proof -
  have S: "Solver s = (True, TX_MULTISIG, [of_nat m] # map pk_vch keys @ [[of_nat (length keys)]])"
    unfolding s_def by (rule Solver_multisig [OF assms(1-4)])
  have u: "unat (of_nat m :: byte) = m" "unat (of_nat (length keys) :: byte) = length keys"
    using assms(1-3) by (simp_all add: unat_of_nat_byte)
  have ui: "uint (of_nat m :: byte) = int m"
  proof -
    have "uint (of_nat m :: byte) = int (unat (of_nat m :: byte))" by simp
    then show ?thesis by (simp only: u)
  qed
  have eta: "\<lparr>pk_vch = pk_vch k\<rparr> = k" for k :: CPubKey by simp
  show ?thesis
    using assms(1-3) IsMine_multisig [OF S, of L ks]
    by (auto simp: ExtractDestinations_def S IsStandard_def ScriptSigArgsExpected_def Let_def u
        butlast_append word_less_nat_alt not_less comp_def ui eta)
qed

theorem multisig_recognised_witness:
  "ExtractDestinations ref_lib (SetMultisig 1 [\<lparr>pk_vch = replicate 33 2\<rparr>]) =
   (TX_MULTISIG, Some ([CKeyID (CPubKey_GetID ref_lib \<lparr>pk_vch = replicate 33 2\<rparr>)], 1))"
  using multisig_recognised [of 1 "[\<lparr>pk_vch = replicate 33 2\<rparr>]" ref_lib] by simp

end
