(* ===== verification/Script_Verify.thy ===== *)
theory Script_Verify
  imports Script_Solve "HOL-Library.List_Lexorder" "HOL-Library.Product_Lexorder"
begin

text \<open>
  Signatures over transactions (\<open>script.cpp\<close>): what a signature hashes, the cache of valid
  signatures, \<open>CheckSig\<close>, \<open>VerifyScript\<close>, and signing; and the rules on standard transactions
  that look at scripts (\<open>main.cpp\<close>).
\<close>

section \<open>What is signed\<close>

definition blank_scripts :: "nat \<Rightarrow> CScript \<Rightarrow> CTxIn list \<Rightarrow> CTxIn list" where
  "blank_scripts nIn scriptCode ins =
     map (\<lambda>i. (ins ! i)\<lparr>scriptSig := if i = nIn then scriptCode else []\<rparr>) [0..<length ins]"

definition blank_sequences :: "nat \<Rightarrow> CTxIn list \<Rightarrow> CTxIn list" where
  "blank_sequences nIn ins =
     map (\<lambda>i. if i \<noteq> nIn then (ins ! i)\<lparr>nSequence := 0\<rparr> else ins ! i) [0..<length ins]"

text \<open>The copy of the transaction that is hashed, or \<open>None\<close> where the hash is the number one.\<close>

definition sighash_tx :: "CScript \<Rightarrow> CTransaction \<Rightarrow> nat \<Rightarrow> int \<Rightarrow> CTransaction option" where
  "sighash_tx scriptCode txTo nIn nHashType =
     (if length (vin txTo) \<le> nIn then None
      else let scriptCode = snd (FindAndDelete (push_op OP_CODESEPARATOR) scriptCode);
               txTmp = txTo\<lparr>vin := blank_scripts nIn scriptCode (vin txTo)\<rparr>;
               single = nHashType AND 0x1f = SIGHASH_SINGLE
           in if single \<and> length (vout txTmp) \<le> nIn then None
              else let txTmp =
                     (if nHashType AND 0x1f = SIGHASH_NONE
                      then txTmp\<lparr>vout := [], vin := blank_sequences nIn (vin txTmp)\<rparr>
                      else if single
                      then txTmp\<lparr>vout := replicate nIn txout_SetNull @ [vout txTmp ! nIn],
                                 vin := blank_sequences nIn (vin txTmp)\<rparr>
                      else txTmp)
                   in Some (if nHashType AND SIGHASH_ANYONECANPAY \<noteq> 0
                            then txTmp\<lparr>vin := [vin txTmp ! nIn]\<rparr> else txTmp))"

definition SignatureHash :: "extlib \<Rightarrow> CScript \<Rightarrow> CTransaction \<Rightarrow> nat \<Rightarrow> int \<Rightarrow> u256" where
  "SignatureHash L scriptCode txTo nIn nHashType =
     (case sighash_tx scriptCode txTo nIn nHashType of
        None \<Rightarrow> 1
      | Some txTmp \<Rightarrow> Hash L (ser_CTransaction txTmp @ ser_i32 nHashType))"

section \<open>The signature cache\<close>

text \<open>
  \<open>setValid\<close> is an ordered set: its elements in increasing order. \<open>GetRandHash()\<close> is the next
  number of a source; \<open>sc_drawn\<close> counts the numbers taken.
\<close>

type_synonym sigdata_type = "u256 \<times> bytes \<times> bytes"

record CSignatureCache =
  setValid :: "sigdata_type list"
  sc_random :: "nat \<Rightarrow> u256"
  sc_drawn :: nat

definition sigcache_Get :: "u256 \<Rightarrow> bytes \<Rightarrow> bytes \<Rightarrow> CSignatureCache \<Rightarrow> bool" where
  "sigcache_Get hash vchSig pubKey c = ((hash, vchSig, pubKey) \<in> set (setValid c))"

definition evict_victim :: "u256 \<Rightarrow> sigdata_type list \<Rightarrow> sigdata_type" where
  "evict_victim randomHash valid =
     (case find (\<lambda>e. (randomHash, [], []) \<le> e) valid of
        Some e \<Rightarrow> e
      | None \<Rightarrow> hd valid)"

lemma evict_victim_in: "valid \<noteq> [] \<Longrightarrow> evict_victim r valid \<in> set valid"
  by (auto simp: evict_victim_def find_Some_iff split: option.split)

function sigcache_evict :: "nat \<Rightarrow> CSignatureCache \<Rightarrow> CSignatureCache" where
  "sigcache_evict nMaxCacheSize c =
     (if nMaxCacheSize < length (setValid c)
      then sigcache_evict nMaxCacheSize
             (c\<lparr>setValid := remove1 (evict_victim (sc_random c (sc_drawn c)) (setValid c)) (setValid c),
                sc_drawn := sc_drawn c + 1\<rparr>)
      else c)"
  by pat_completeness auto
termination
proof (relation "measure (\<lambda>(n, c). length (setValid c))")
  fix n :: nat and c :: CSignatureCache
  assume "n < length (setValid c)"
  moreover from this have "evict_victim (sc_random c (sc_drawn c)) (setValid c) \<in> set (setValid c)"
    by (intro evict_victim_in) auto
  ultimately show "((n, c\<lparr>setValid := remove1 (evict_victim (sc_random c (sc_drawn c)) (setValid c)) (setValid c),
      sc_drawn := sc_drawn c + 1\<rparr>), n, c) \<in> measure (\<lambda>(n, c). length (setValid c))"
    by (auto simp: length_remove1)
qed simp

declare sigcache_evict.simps [simp del]

definition sigcache_Set :: "int \<Rightarrow> u256 \<Rightarrow> bytes \<Rightarrow> bytes \<Rightarrow> CSignatureCache \<Rightarrow> CSignatureCache" where
  "sigcache_Set nMaxCacheSize hash vchSig pubKey c =
     (if nMaxCacheSize \<le> 0 then c
      else let c = sigcache_evict (nat nMaxCacheSize) c
           in c\<lparr>setValid := set_insert (hash, vchSig, pubKey) (setValid c)\<rparr>)"

section \<open>Checking a signature\<close>

text \<open>The hash type and the signature without it, when the caller's hash type allows it.\<close>

definition split_sig :: "valtype \<Rightarrow> int \<Rightarrow> (int \<times> bytes) option" where
  "split_sig vchSig nHashType =
     (if vchSig = [] then None
      else if nHashType = 0 then Some (int (unat (last vchSig)), butlast vchSig)
      else if nHashType \<noteq> int (unat (last vchSig)) then None
      else Some (nHashType, butlast vchSig))"

definition CheckSig :: "extlib \<Rightarrow> int \<Rightarrow> CTransaction \<Rightarrow> nat \<Rightarrow> int \<Rightarrow> CSignatureCache sigcheck" where
  "CheckSig L nMaxCacheSize txTo nIn nHashType vchSig vchPubKey scriptCode cache =
     (case split_sig vchSig nHashType of
        None \<Rightarrow> (False, cache)
      | Some (nHashType, vchSig) \<Rightarrow>
          let sighash = SignatureHash L scriptCode txTo nIn nHashType
          in if sigcache_Get sighash vchSig vchPubKey cache then (True, cache)
             else case SetPubKey L \<lparr>pk_vch = vchPubKey\<rparr> of
                    None \<Rightarrow> (False, cache)
                  | Some (key, c) \<Rightarrow>
                      if \<not> Key_Verify L key sighash vchSig then (False, cache)
                      else (True, sigcache_Set nMaxCacheSize sighash vchSig vchPubKey cache))"

text \<open>The same without the cache: what the program means a signature check to be.\<close>

definition signature_valid :: "extlib \<Rightarrow> u256 \<Rightarrow> bytes \<Rightarrow> bytes \<Rightarrow> bool" where
  "signature_valid L sighash vchSig vchPubKey \<longleftrightarrow>
     EC_o2i L vchPubKey \<and> Key_Verify L \<lparr>pk_vch = vchPubKey\<rparr> sighash vchSig"

definition check_signature ::
  "extlib \<Rightarrow> CTransaction \<Rightarrow> nat \<Rightarrow> int \<Rightarrow> valtype \<Rightarrow> valtype \<Rightarrow> CScript \<Rightarrow> bool" where
  "check_signature L txTo nIn nHashType vchSig vchPubKey scriptCode =
     (case split_sig vchSig nHashType of
        None \<Rightarrow> False
      | Some (nHashType, vchSig) \<Rightarrow>
          signature_valid L (SignatureHash L scriptCode txTo nIn nHashType) vchSig vchPubKey)"

section \<open>Verifying an input\<close>

text \<open>
  \<open>VerifyScript\<close> with the signature check as an argument. The last element of \<open>stackCopy\<close>
  is taken without a test: a pay-to-script-hash script cannot succeed on an empty stack.
\<close>

definition verify_script ::
  "extlib \<Rightarrow> 's sigcheck \<Rightarrow> CScript \<Rightarrow> CScript \<Rightarrow> bool \<Rightarrow> 's \<Rightarrow> bool \<times> 's" where
  "verify_script L chk sig spk fValidatePayToScriptHash c =
     (case EvalScript L chk [] sig c of
        Inl c1 \<Rightarrow> (False, c1)
      | Inr (stackCopy, c1) \<Rightarrow>
          (case EvalScript L chk stackCopy spk c1 of
             Inl c2 \<Rightarrow> (False, c2)
           | Inr (st, c2) \<Rightarrow>
               if st = [] then (False, c2)
               else if \<not> CastToBool (hd st) then (False, c2)
               else if fValidatePayToScriptHash \<and> IsPayToScriptHash spk
               then if \<not> IsPushOnly sig then (False, c2)
                    else (case EvalScript L chk (tl stackCopy) (hd stackCopy) c2 of
                            Inl c3 \<Rightarrow> (False, c3)
                          | Inr (st3, c3) \<Rightarrow>
                              if st3 = [] then (False, c3) else (CastToBool (hd st3), c3))
               else (True, c2)))"

definition VerifyScript ::
  "extlib \<Rightarrow> int \<Rightarrow> CScript \<Rightarrow> CScript \<Rightarrow> CTransaction \<Rightarrow> nat \<Rightarrow> bool \<Rightarrow> int \<Rightarrow> CSignatureCache
     \<Rightarrow> bool \<times> CSignatureCache" where
  "VerifyScript L nMaxCacheSize sig spk txTo nIn fValidatePayToScriptHash nHashType cache =
     verify_script L (CheckSig L nMaxCacheSize txTo nIn nHashType) sig spk fValidatePayToScriptHash cache"

definition VerifySignature ::
  "extlib \<Rightarrow> int \<Rightarrow> CTransaction \<Rightarrow> CTransaction \<Rightarrow> nat \<Rightarrow> bool \<Rightarrow> int \<Rightarrow> CSignatureCache
     \<Rightarrow> bool \<times> CSignatureCache" where
  "VerifySignature L nMaxCacheSize txFrom txTo nIn fValidatePayToScriptHash nHashType cache =
     (let txin = vin txTo ! nIn; n = unat (out_n (prevout txin))
      in if length (vout txFrom) \<le> n then (False, cache)
         else if out_hash (prevout txin) \<noteq> tx_GetHash L txFrom then (False, cache)
         else VerifyScript L nMaxCacheSize (scriptSig txin) (scriptPubKey (vout txFrom ! n)) txTo nIn
                fValidatePayToScriptHash nHashType cache)"

section \<open>Signing\<close>

definition Sign1 ::
  "extlib \<Rightarrow> u160 \<Rightarrow> CKeyStore \<Rightarrow> u256 \<Rightarrow> int \<Rightarrow> CScript \<Rightarrow> key_error + (bool \<times> CScript)" where
  "Sign1 L address ks hash nHashType sigRet =
     rbind (GetKey ks address) (\<lambda>r.
       case r of
         None \<Rightarrow> Inr (False, sigRet)
       | Some key \<Rightarrow>
           (case CKey_Sign L hash key of
              None \<Rightarrow> Inr (False, sigRet)
            | Some vchSig \<Rightarrow> Inr (True, sigRet @ push_data (vchSig @ [of_int nHashType]))))"

fun sign_keys ::
  "extlib \<Rightarrow> CKeyStore \<Rightarrow> u256 \<Rightarrow> int \<Rightarrow> int \<Rightarrow> int \<Rightarrow> valtype list \<Rightarrow> CScript \<Rightarrow> key_error + (int \<times> CScript)"
  where
  "sign_keys L ks hash nHashType nRequired nSigned [] sigRet = Inr (nSigned, sigRet)"
| "sign_keys L ks hash nHashType nRequired nSigned (pubkey # pubkeys) sigRet =
     (if \<not> nSigned < nRequired then Inr (nSigned, sigRet)
      else rbind (Sign1 L (CPubKey_GetID L \<lparr>pk_vch = pubkey\<rparr>) ks hash nHashType sigRet) (\<lambda>(ok, sigRet).
        sign_keys L ks hash nHashType nRequired (if ok then nSigned + 1 else nSigned) pubkeys sigRet))"

definition SignN ::
  "extlib \<Rightarrow> valtype list \<Rightarrow> CKeyStore \<Rightarrow> u256 \<Rightarrow> int \<Rightarrow> CScript \<Rightarrow> key_error + (bool \<times> CScript)" where
  "SignN L multisigdata ks hash nHashType sigRet =
     (let nRequired = int (unat (hd (hd multisigdata)))
      in rbind (sign_keys L ks hash nHashType nRequired 0 (butlast (tl multisigdata)) sigRet)
           (\<lambda>(nSigned, sigRet). Inr (nSigned = nRequired, sigRet)))"

text \<open>The signing \<open>Solver\<close>: the answer, the type and \<open>scriptSigRet\<close>.\<close>

definition Solver_sign ::
  "extlib \<Rightarrow> CKeyStore \<Rightarrow> CScript \<Rightarrow> u256 \<Rightarrow> int \<Rightarrow> key_error + (bool \<times> txnouttype \<times> CScript)" where
  "Solver_sign L ks spk hash nHashType =
     (case Solver spk of (ok, whichType, sols) \<Rightarrow>
        if \<not> ok then Inr (False, whichType, [])
        else case whichType of
          TX_NONSTANDARD \<Rightarrow> Inr (False, whichType, [])
        | TX_NULL_DATA \<Rightarrow> Inr (False, whichType, [])
        | TX_PUBKEY \<Rightarrow>
            rbind (Sign1 L (CPubKey_GetID L \<lparr>pk_vch = sols ! 0\<rparr>) ks hash nHashType [])
              (\<lambda>(ok, ret). Inr (ok, whichType, ret))
        | TX_PUBKEYHASH \<Rightarrow>
            let keyID = u160_of_vch (sols ! 0)
            in rbind (Sign1 L keyID ks hash nHashType []) (\<lambda>(ok, ret).
                 if \<not> ok then Inr (False, whichType, ret)
                 else rbind (GetPubKey ks keyID) (\<lambda>r.
                   Inr (True, whichType, ret @ push_pubkey (case r of Some vch \<Rightarrow> vch | None \<Rightarrow> \<lparr>pk_vch = []\<rparr>))))
        | TX_SCRIPTHASH \<Rightarrow>
            (case GetCScript ks (u160_of_vch (sols ! 0)) of
               None \<Rightarrow> Inr (False, whichType, [])
             | Some script \<Rightarrow> Inr (True, whichType, script))
        | TX_MULTISIG \<Rightarrow>
            rbind (SignN L sols ks hash nHashType (push_op OP_0)) (\<lambda>(ok, ret). Inr (ok, whichType, ret)))"

definition set_scriptSig :: "nat \<Rightarrow> CScript \<Rightarrow> CTransaction \<Rightarrow> CTransaction" where
  "set_scriptSig nIn sig tx = tx\<lparr>vin := (vin tx)[nIn := (vin tx ! nIn)\<lparr>scriptSig := sig\<rparr>]\<rparr>"

text \<open>
  \<open>SignSignature\<close> writes the input's script as it goes: the hash for the redemption script
  is taken of the transaction that already holds it, which \<open>SignatureHash\<close> blanks.
\<close>

definition SignSignature ::
  "extlib \<Rightarrow> int \<Rightarrow> CKeyStore \<Rightarrow> CScript \<Rightarrow> CTransaction \<Rightarrow> nat \<Rightarrow> int \<Rightarrow> CSignatureCache
     \<Rightarrow> key_error + (bool \<times> CTransaction \<times> CSignatureCache)" where
  "SignSignature L nMaxCacheSize ks fromPubKey txTo nIn nHashType cache =
     rbind (Solver_sign L ks fromPubKey (SignatureHash L fromPubKey txTo nIn nHashType) nHashType)
       (\<lambda>(ok, whichType, sig).
         let txTo = set_scriptSig nIn sig txTo
         in if \<not> ok then Inr (False, txTo, cache)
            else if whichType = TX_SCRIPTHASH
            then let subscript = sig
                 in rbind (Solver_sign L ks subscript (SignatureHash L subscript txTo nIn nHashType) nHashType)
                      (\<lambda>(ok2, subType, sig2).
                        let fSolved = ok2 \<and> subType \<noteq> TX_SCRIPTHASH;
                            sig3 = sig2 @ push_data subscript;
                            txTo = set_scriptSig nIn sig3 txTo
                        in if \<not> fSolved then Inr (False, txTo, cache)
                           else case VerifyScript L nMaxCacheSize sig3 fromPubKey txTo nIn True 0 cache of
                                  (ok3, cache) \<Rightarrow> Inr (ok3, txTo, cache))
            else case VerifyScript L nMaxCacheSize sig fromPubKey txTo nIn True 0 cache of
                   (ok3, cache) \<Rightarrow> Inr (ok3, txTo, cache))"

section \<open>Combining partial signatures\<close>

text \<open>The stacks are vectors here: the bottom element first.\<close>

definition PushAll :: "valtype list \<Rightarrow> CScript" where
  "PushAll values = concat (map push_data values)"

fun assign_sig ::
  "'s sigcheck \<Rightarrow> CScript \<Rightarrow> valtype \<Rightarrow> valtype list \<Rightarrow> (valtype \<rightharpoonup> valtype) \<Rightarrow> 's \<Rightarrow> (valtype \<rightharpoonup> valtype) \<times> 's"
  where
  "assign_sig chk spk sig [] sigs c = (sigs, c)"
| "assign_sig chk spk sig (pubkey # pubkeys) sigs c =
     (if sigs pubkey \<noteq> None then assign_sig chk spk sig pubkeys sigs c
      else case chk sig pubkey spk c of
             (ok, c) \<Rightarrow> if ok then (sigs(pubkey \<mapsto> sig), c) else assign_sig chk spk sig pubkeys sigs c)"

fun assign_sigs ::
  "'s sigcheck \<Rightarrow> CScript \<Rightarrow> valtype list \<Rightarrow> valtype list \<Rightarrow> (valtype \<rightharpoonup> valtype) \<Rightarrow> 's \<Rightarrow> (valtype \<rightharpoonup> valtype) \<times> 's"
  where
  "assign_sigs chk spk [] pubkeys sigs c = (sigs, c)"
| "assign_sigs chk spk (sig # allsigs) pubkeys sigs c =
     (case assign_sig chk spk sig pubkeys sigs c of
        (sigs, c) \<Rightarrow> assign_sigs chk spk allsigs pubkeys sigs c)"

definition CombineMultisig ::
  "'s sigcheck \<Rightarrow> CScript \<Rightarrow> valtype list \<Rightarrow> valtype list \<Rightarrow> valtype list \<Rightarrow> 's \<Rightarrow> CScript \<times> 's" where
  "CombineMultisig chk spk sols sigs1 sigs2 c =
     (let allsigs = sort (remdups (filter (\<lambda>v. v \<noteq> []) (sigs1 @ sigs2)));
          nSigsRequired = unat (hd (hd sols));
          pubkeys = butlast (tl sols)
      in case assign_sigs chk spk allsigs pubkeys Map.empty c of
           (sigs, c) \<Rightarrow>
             let have = take nSigsRequired (filter (\<lambda>pubkey. sigs pubkey \<noteq> None) pubkeys)
             in (push_op OP_0 @ concat (map (\<lambda>pubkey. push_data (the (sigs pubkey))) have)
                 @ concat (replicate (nSigsRequired - length have) (push_op OP_0)), c))"

function CombineSignatures ::
  "'s sigcheck \<Rightarrow> CScript \<Rightarrow> txnouttype \<Rightarrow> valtype list \<Rightarrow> valtype list \<Rightarrow> valtype list \<Rightarrow> 's \<Rightarrow> CScript \<times> 's" where
  "CombineSignatures chk spk txType sols sigs1 sigs2 c =
     (case txType of
        TX_NONSTANDARD \<Rightarrow> (if length sigs2 \<le> length sigs1 then PushAll sigs1 else PushAll sigs2, c)
      | TX_NULL_DATA \<Rightarrow> (if length sigs2 \<le> length sigs1 then PushAll sigs1 else PushAll sigs2, c)
      | TX_PUBKEY \<Rightarrow> (if sigs1 = [] \<or> hd sigs1 = [] then PushAll sigs2 else PushAll sigs1, c)
      | TX_PUBKEYHASH \<Rightarrow> (if sigs1 = [] \<or> hd sigs1 = [] then PushAll sigs2 else PushAll sigs1, c)
      | TX_SCRIPTHASH \<Rightarrow>
          if sigs1 = [] \<or> last sigs1 = [] then (PushAll sigs2, c)
          else if sigs2 = [] \<or> last sigs2 = [] then (PushAll sigs1, c)
          else let pubKey2 = last sigs1
               in (case Solver pubKey2 of (ok, txType2, sols2) \<Rightarrow>
                     case CombineSignatures chk pubKey2 txType2 sols2 (butlast sigs1) (butlast sigs2) c of
                       (result, c) \<Rightarrow> (result @ push_data pubKey2, c))
      | TX_MULTISIG \<Rightarrow> CombineMultisig chk spk sols sigs1 sigs2 c)"
  by pat_completeness auto
termination
  by (relation "measure (\<lambda>(chk, spk, t, sols, s1, s2, c). length s1)") auto

declare CombineSignatures.simps [simp del]

section \<open>Standard transactions\<close>

text \<open>
  \<open>IsStandard\<close> means to bound the size, but \<open>::GetSerializeSize(SER_NETWORK, 1)\<close> selects the
  overload for an \<open>int\<close> and is \<open>sizeof(int)\<close>: the bound never applies.
\<close>

fun standard_outputs :: "CTxOut list \<Rightarrow> nat \<Rightarrow> nat option" where
  "standard_outputs [] nDataOut = Some nDataOut"
| "standard_outputs (txout # outs) nDataOut =
     (case IsStandard (scriptPubKey txout) of (ok, whichType) \<Rightarrow>
        if \<not> ok then None
        else if whichType = TX_NULL_DATA then standard_outputs outs (nDataOut + 1)
        else if txout_IsDust MIN_TX_FEE txout then None
        else standard_outputs outs nDataOut)"

definition tx_IsStandard :: "int \<Rightarrow> int \<Rightarrow> CTransaction \<Rightarrow> bool" where
  "tx_IsStandard bestHeight adjustedTime tx =
     (if 1 < tx_nVersion tx then False
      else if \<not> tx_IsFinal bestHeight adjustedTime tx 0 0 then False
      else if MAX_STANDARD_TX_SIZE \<le> 4 then False
      else if \<not> list_all (\<lambda>txin. length (scriptSig txin) \<le> 1650 \<and> IsPushOnly (scriptSig txin)
                           \<and> HasCanonicalPushes (scriptSig txin)) (vin tx) then False
      else case standard_outputs (vout tx) 0 of
             None \<Rightarrow> False
           | Some nDataOut \<Rightarrow> \<not> 1 < nDataOut)"

text \<open>
  One input of \<open>AreInputsStandard\<close>: the previous script, the script of the input. The
  signature check is an argument; a push-only script never calls it.
\<close>

definition input_standard :: "extlib \<Rightarrow> 's sigcheck \<Rightarrow> CScript \<Rightarrow> CScript \<Rightarrow> 's \<Rightarrow> bool \<times> 's" where
  "input_standard L chk prevScript sig c =
     (case Solver prevScript of (ok, whichType, sols) \<Rightarrow>
        if \<not> ok then (False, c)
        else let nArgsExpected = ScriptSigArgsExpected whichType sols
             in if nArgsExpected < 0 then (False, c)
                else case EvalScript L chk [] sig c of
                  Inl c \<Rightarrow> (False, c)
                | Inr (st, c) \<Rightarrow>
                    if whichType = TX_SCRIPTHASH
                    then if st = [] then (False, c)
                         else (case Solver (hd st) of (ok2, whichType2, sols2) \<Rightarrow>
                                 if \<not> ok2 then (False, c)
                                 else if whichType2 = TX_SCRIPTHASH then (False, c)
                                 else let tmpExpected = ScriptSigArgsExpected whichType2 sols2
                                      in if tmpExpected < 0 then (False, c)
                                         else (int (length st) = nArgsExpected + tmpExpected, c))
                    else (int (length st) = nArgsExpected, c))"

fun inputs_standard ::
  "extlib \<Rightarrow> (nat \<Rightarrow> 's sigcheck) \<Rightarrow> MapPrevTx \<Rightarrow> nat \<Rightarrow> CTxIn list \<Rightarrow> 's \<Rightarrow> tx_error + (bool \<times> 's)" where
  "inputs_standard L chk mapInputs i [] c = Inr (True, c)"
| "inputs_standard L chk mapInputs i (txin # ins) c =
     rbind (GetOutputFor txin mapInputs) (\<lambda>prev.
       case input_standard L (chk i) (scriptPubKey prev) (scriptSig txin) c of
         (ok, c) \<Rightarrow> if \<not> ok then Inr (False, c) else inputs_standard L chk mapInputs (i + 1) ins c)"

definition AreInputsStandard ::
  "extlib \<Rightarrow> int \<Rightarrow> CTransaction \<Rightarrow> MapPrevTx \<Rightarrow> CSignatureCache \<Rightarrow> tx_error + (bool \<times> CSignatureCache)" where
  "AreInputsStandard L nMaxCacheSize tx mapInputs cache =
     (if IsCoinBase tx then Inr (True, cache)
      else inputs_standard L (\<lambda>i. CheckSig L nMaxCacheSize tx i 0) mapInputs 0 (vin tx) cache)"

section \<open>The cache changes no answer\<close>

definition cache_inv :: "extlib \<Rightarrow> int \<Rightarrow> CSignatureCache \<Rightarrow> bool" where
  "cache_inv L nMaxCacheSize c \<longleftrightarrow>
     (\<forall>(h, sig, key) \<in> set (setValid c). signature_valid L h sig key)
     \<and> sorted_wrt (<) (setValid c) \<and> length (setValid c) \<le> nat nMaxCacheSize + 1"

lemma sigcache_evict_inv:
  assumes "cache_inv L n c"
  shows "cache_inv L n (sigcache_evict m c) \<and> length (setValid (sigcache_evict m c)) \<le> m"
  using assms
proof (induction m c rule: sigcache_evict.induct)
  case (1 m c)
  let ?v = "evict_victim (sc_random c (sc_drawn c)) (setValid c)"
  have sub: "set (remove1 ?v (setValid c)) \<subseteq> set (setValid c)" by (rule set_remove1_subset)
  have sorted: "sorted_wrt (<) (remove1 ?v (setValid c))"
    using "1.prems" by (auto simp: cache_inv_def strict_sorted_iff sorted_remove1 distinct_remove1)
  have len: "length (remove1 ?v (setValid c)) \<le> nat n + 1"
    using "1.prems" by (auto simp: cache_inv_def length_remove1)
  have "cache_inv L n (c\<lparr>setValid := remove1 ?v (setValid c), sc_drawn := sc_drawn c + 1\<rparr>)"
    using "1.prems" sub sorted len by (auto simp: cache_inv_def)
  with "1.IH" "1.prems" show ?case
    by (cases "m < length (setValid c)") (simp_all add: sigcache_evict.simps [of m c])
qed

lemma set_insert_set: "set (set_insert x xs) = insert x (set xs)"
  by (auto simp: set_insert_def set_insort_key)

lemma length_set_insert: "length (set_insert x xs) \<le> length xs + 1"
  by (simp add: set_insert_def)

lemma sigcache_Set_inv:
  assumes "cache_inv L n c" and "signature_valid L h sig key"
  shows "cache_inv L n (sigcache_Set n h sig key c)"
proof (cases "n \<le> 0")
  case True
  then show ?thesis using assms(1) by (simp add: sigcache_Set_def)
next
  case False
  let ?c = "sigcache_evict (nat n) c"
  have c: "cache_inv L n ?c" "length (setValid ?c) \<le> nat n"
    using sigcache_evict_inv [OF assms(1)] by blast+
  have "length (set_insert (h, sig, key) (setValid ?c)) \<le> nat n + 1"
    using length_set_insert [of "(h, sig, key)" "setValid ?c"] c(2) by linarith
  then show ?thesis
    using False c(1) assms(2)
    by (auto simp: sigcache_Set_def Let_def cache_inv_def set_insert_set set_insert_sorted)
qed

abbreviation pure_check :: "extlib \<Rightarrow> CTransaction \<Rightarrow> nat \<Rightarrow> int \<Rightarrow> unit sigcheck" where
  "pure_check L tx nIn nHashType \<equiv> \<lambda>sig key code u. (check_signature L tx nIn nHashType sig key code, u)"

lemma CheckSig_sim:
  "check_sim (\<lambda>c u. cache_inv L n c) (CheckSig L n tx nIn ht) (pure_check L tx nIn ht)"
  unfolding check_sim_def
proof (intro allI impI)
  fix sig key code c u
  assume c: "cache_inv L n c"
  show "fst (CheckSig L n tx nIn ht sig key code c) = fst (pure_check L tx nIn ht sig key code u)
    \<and> cache_inv L n (snd (CheckSig L n tx nIn ht sig key code c))"
  proof (cases "split_sig sig ht")
    case None
    then show ?thesis using c by (simp add: CheckSig_def check_signature_def)
  next
    case (Some p)
    then obtain t s where p: "split_sig sig ht = Some (t, s)" by (cases p) auto
    let ?h = "SignatureHash L code tx nIn t"
    show ?thesis
    proof (cases "sigcache_Get ?h s key c")
      case True
      then have "signature_valid L ?h s key" using c by (auto simp: cache_inv_def sigcache_Get_def)
      with True c p show ?thesis by (simp add: CheckSig_def check_signature_def Let_def)
    next
      case False
      show ?thesis
      proof (cases "signature_valid L ?h s key")
        case True
        with False c p sigcache_Set_inv [OF c True] show ?thesis
          by (simp add: CheckSig_def check_signature_def Let_def SetPubKey_def signature_valid_def)
      next
        case invalid: False
        with False c p show ?thesis
          by (auto simp: CheckSig_def check_signature_def Let_def SetPubKey_def signature_valid_def)
      qed
    qed
  qed
qed

lemma EvalScript_sim_cases:
  assumes "check_sim R chk chk'" and "R c c'"
  obtains d d' where "EvalScript L chk st script c = Inl d" "EvalScript L chk' st script c' = Inl d'" "R d d'"
  | st' d d' where "EvalScript L chk st script c = Inr (st', d)" "EvalScript L chk' st script c' = Inr (st', d')"
      "R d d'"
  using EvalScript_sim [OF assms, of L st script] by (auto elim!: rel_sum.cases)

lemma verify_script_sim:
  assumes sim: "check_sim R chk chk'" and "R c c'"
  shows "fst (verify_script L chk sig spk p c) = fst (verify_script L chk' sig spk p c')
    \<and> R (snd (verify_script L chk sig spk p c)) (snd (verify_script L chk' sig spk p c'))"
proof (rule EvalScript_sim_cases [OF assms, of L "[]" sig])
  fix d d' assume "EvalScript L chk [] sig c = Inl d" "EvalScript L chk' [] sig c' = Inl d'" "R d d'"
  then show ?thesis by (simp add: verify_script_def)
next
  fix st d d' assume 1: "EvalScript L chk [] sig c = Inr (st, d)" "EvalScript L chk' [] sig c' = Inr (st, d')" "R d d'"
  show ?thesis
  proof (rule EvalScript_sim_cases [OF sim 1(3), of L st spk])
    fix e e' assume "EvalScript L chk st spk d = Inl e" "EvalScript L chk' st spk d' = Inl e'" "R e e'"
    with 1 show ?thesis by (simp add: verify_script_def)
  next
    fix st2 e e' assume 2: "EvalScript L chk st spk d = Inr (st2, e)" "EvalScript L chk' st spk d' = Inr (st2, e')" "R e e'"
    show ?thesis
    proof (rule EvalScript_sim_cases [OF sim 2(3), of L "tl st" "hd st"])
      fix f f' assume "EvalScript L chk (tl st) (hd st) e = Inl f" "EvalScript L chk' (tl st) (hd st) e' = Inl f'" "R f f'"
      with 1 2 show ?thesis by (simp add: verify_script_def)
    next
      fix st3 f f' assume "EvalScript L chk (tl st) (hd st) e = Inr (st3, f)"
        "EvalScript L chk' (tl st) (hd st) e' = Inr (st3, f')" "R f f'"
      with 1 2 show ?thesis by (simp add: verify_script_def)
    qed
  qed
qed

section \<open>Evaluating pushes\<close>
lemma eval_step_push:
  assumes "length v \<le> 520" and "fExec e" and "length (stack e) + length (altstack e) < 1000"
  shows "eval_step L chk (push_data v @ r) e = Inr (r, e\<lparr>stack := v # stack e\<rparr>)"
proof -
  have "length v < 2 ^ 32" using assms(1) by simp
  then obtain op where op: "GetOp (push_data v @ r) = Some (op, v, r)" "op \<le> OP_PUSHDATA4"
    by (rule GetOp_push_cases)
  have "\<not> OP_16 < op" "\<not> disabled_op op"
    using op(2) by (auto simp: disabled_op_def word_le_nat_alt word_less_nat_alt)
  then show ?thesis
    using op assms by (simp add: eval_step_def count_op_def exec_op_def)
qed

lemma push_data_nonempty [simp]: "push_data v \<noteq> []"
  by (simp add: push_data_def)

lemma eval_loop_PushAll:
  assumes "\<forall>v \<in> set vs. length v \<le> 520" and "vfExec e = []"
    and "length (stack e) + length (altstack e) + length vs \<le> 1000"
  shows "eval_loop L chk (PushAll vs @ r) e = eval_loop L chk r (e\<lparr>stack := rev vs @ stack e\<rparr>)"
  using assms
proof (induction vs arbitrary: e)
  case Nil
  then show ?case by (simp add: PushAll_def)
next
  case (Cons v vs)
  have "eval_step L chk (push_data v @ PushAll vs @ r) e = Inr (PushAll vs @ r, e\<lparr>stack := v # stack e\<rparr>)"
    using Cons.prems by (intro eval_step_push) (auto simp: fExec_def)
  then have "eval_loop L chk (push_data v @ PushAll vs @ r) e =
      eval_loop L chk (PushAll vs @ r) (e\<lparr>stack := v # stack e\<rparr>)"
    by (rule eval_loop_Cons) simp
  also have "\<dots> = eval_loop L chk r (e\<lparr>stack := rev vs @ v # stack e\<rparr>)"
    using Cons.prems by (subst Cons.IH) auto
  finally show ?case by (simp add: PushAll_def)
qed

lemma length_push_data: "length (push_data b) \<le> length b + 5"
  by (auto simp: push_data_def)

lemma EvalScript_PushAll:
  assumes "\<forall>v \<in> set vs. length v \<le> 520" and "length st + length vs \<le> 1000"
    and "length (PushAll vs) \<le> 10000"
  shows "EvalScript L chk st (PushAll vs) c = Inr (rev vs @ st, c)"
  using eval_loop_PushAll [of vs "eval_init st (PushAll vs) c" L chk "[]"] assms
  by (simp add: EvalScript_def eval_init_def)

lemma IsPushOnly_PushAll:
  "\<forall>v \<in> set vs. length v < 2 ^ 32 \<Longrightarrow> IsPushOnly (PushAll vs)"
proof (induction vs)
  case Nil
  then show ?case by (simp add: PushAll_def IsPushOnly.simps)
next
  case (Cons v vs)
  then show ?case using IsPushOnly_push_data [of v "PushAll vs"] by (simp add: PushAll_def)
qed

section \<open>Pay to script hash, pay to public key hash\<close>
lemma CastToBool_vchBool [simp]: "CastToBool (vchBool b) = b"
proof (cases b)
  case True
  have "CastToBool (vchBool True)" by code_simp
  with True show ?thesis by simp
next
  case False
  have "\<not> CastToBool (vchBool False)" by code_simp
  with False show ?thesis by simp
qed

lemma p2sh_bytes: "SetDestination (CScriptID h) = [OP_HASH160, 0x14] @ u160_bytes h @ [OP_EQUAL]"
  by (simp add: push_op_def push_uint160_def)

lemma eval_p2sh:
  assumes "length st < 1000"
  shows "EvalScript L chk st (SetDestination (CScriptID h)) c =
    (case st of [] \<Rightarrow> Inl c | x # r \<Rightarrow> Inr (vchBool (Hash160 L x = h) # r, c))"
proof (cases st)
  case Nil
  then show ?thesis
    unfolding p2sh_bytes
    by (simp add: EvalScript_def eval_loop.simps eval_init_def step_simps op_hash_def)
next
  case (Cons x r)
  define e0 where "e0 = eval_init (x # r) (OP_HASH160 # 0x14 # u160_bytes h @ [OP_EQUAL]) c"
  let ?s = "OP_HASH160 # 0x14 # u160_bytes h @ [OP_EQUAL]"
  have 1: "eval_loop L chk ?s e0 =
    eval_loop L chk (0x14 # u160_bytes h @ [OP_EQUAL]) (e0\<lparr>nOpCount := 1, stack := u160_bytes (Hash160 L x) # r\<rparr>)"
    using assms by (intro eval_loop_Cons) (simp_all add: e0_def eval_init_def step_simps op_hash_def Cons)
  have 2: "eval_loop L chk (0x14 # u160_bytes h @ [OP_EQUAL])
      (e0\<lparr>nOpCount := 1, stack := u160_bytes (Hash160 L x) # r\<rparr>) =
    eval_loop L chk [OP_EQUAL] (e0\<lparr>nOpCount := 1, stack := u160_bytes h # u160_bytes (Hash160 L x) # r\<rparr>)"
    using assms by (intro eval_loop_Cons) (simp_all add: e0_def eval_init_def step_simps Cons)
  have 3: "eval_loop L chk [OP_EQUAL] (e0\<lparr>nOpCount := 1, stack := u160_bytes h # u160_bytes (Hash160 L x) # r\<rparr>) =
    eval_loop L chk [] (e0\<lparr>nOpCount := 2, stack := vchBool (Hash160 L x = h) # r\<rparr>)"
    using assms
    by (intro eval_loop_Cons) (simp_all add: e0_def eval_init_def step_simps op_equal_def Cons Let_def u160_bytes_inj)
  have "eval_loop L chk ?s e0 = Inr (e0\<lparr>nOpCount := 2, stack := vchBool (Hash160 L x = h) # r\<rparr>)"
    unfolding 1 2 3 by simp
  moreover have "vfExec e0 = []" "sigstate e0 = c" by (simp_all add: e0_def eval_init_def)
  ultimately show ?thesis
    unfolding p2sh_bytes by (simp add: EvalScript_def Cons flip: e0_def)
qed

text \<open>On a full stack the push of the hash exceeds the limit of 1000 elements.\<close>
lemma eval_p2sh_full:
  assumes "1000 \<le> length st"
  shows "EvalScript L chk st (SetDestination (CScriptID h)) c = Inl c"
proof -
  let ?s = "OP_HASH160 # 0x14 # u160_bytes h @ [OP_EQUAL]"
  obtain x r where st: "st = x # r" "999 \<le> length r" using assms by (cases st) auto
  define e0 where "e0 = eval_init st ?s c"
  define e1 where "e1 = e0\<lparr>nOpCount := 1, stack := u160_bytes (Hash160 L x) # r\<rparr>"
  have "eval_loop L chk ?s e0 = Inl c"
  proof (cases "length r = 999")
    case True
    have 1: "eval_loop L chk ?s e0 = eval_loop L chk (0x14 # u160_bytes h @ [OP_EQUAL]) e1"
      by (intro eval_loop_Cons) (simp_all add: e0_def e1_def eval_init_def step_simps op_hash_def st True)
    show ?thesis unfolding 1
      by (simp add: eval_loop.simps [of _ _ "0x14 # _"] e0_def e1_def eval_init_def step_simps st True)
  next
    case False
    then show ?thesis using st
      by (simp add: eval_loop.simps [of _ _ "OP_HASH160 # _"] e0_def eval_init_def step_simps op_hash_def)
  qed
  then show ?thesis unfolding p2sh_bytes by (simp add: EvalScript_def flip: e0_def)
qed

lemma IsPayToScriptHash_KeyID: "\<not> IsPayToScriptHash (SetDestination (CKeyID h))"
  by (simp add: IsPayToScriptHash_def push_op_def)

lemma verify_p2pkh:
  assumes "length sg \<le> 520" and "length pubkey \<le> 520"
  shows "verify_script L chk (PushAll [sg, pubkey]) (SetDestination (CKeyID h)) p c =
    (if Hash160 L pubkey = h
     then chk sg pubkey (snd (FindAndDelete (push_data sg) (SetDestination (CKeyID h)))) c
     else (False, c))"
proof -
  have spk: "SetDestination (CKeyID h) = p2pkh_script (u160_bytes h)"
    by (simp add: p2pkh_script_def push_op_def push_uint160_data)
  have "length (PushAll [sg, pubkey]) \<le> 10000"
    using assms length_push_data [of sg] length_push_data [of pubkey] by (simp add: PushAll_def)
  then have sig: "EvalScript L chk [] (PushAll [sg, pubkey]) c = Inr ([pubkey, sg], c)"
    using assms EvalScript_PushAll [of "[sg, pubkey]" "[]" L chk c] by simp
  show ?thesis
    using IsPayToScriptHash_KeyID [of h] sig
    by (simp add: verify_script_def spk eval_p2pkh u160_bytes_inj split: prod.split
        del: SetDestination.simps)
qed

lemma verify_p2sh:
  assumes "\<forall>v \<in> set (vs @ [redeem]). length v \<le> 520" and "length vs < 999"
    and "length (PushAll (vs @ [redeem])) \<le> 10000"
  shows "verify_script L chk (PushAll (vs @ [redeem])) (SetDestination (CScriptID h)) True c =
    (if Hash160 L redeem \<noteq> h then (False, c)
     else case EvalScript L chk (rev vs) redeem c of
            Inl c' \<Rightarrow> (False, c')
          | Inr (st, c') \<Rightarrow> (st \<noteq> [] \<and> CastToBool (hd st), c'))"
proof -
  have sig: "EvalScript L chk [] (PushAll (vs @ [redeem])) c = Inr (redeem # rev vs, c)"
    using EvalScript_PushAll [of "vs @ [redeem]" "[]" L chk c] assms by simp
  have spk: "EvalScript L chk (redeem # rev vs) (SetDestination (CScriptID h)) c =
      Inr (vchBool (Hash160 L redeem = h) # rev vs, c)"
    using assms(2) by (subst eval_p2sh) simp_all
  have push: "IsPushOnly (PushAll (vs @ [redeem]))"
    using assms(1) by (intro IsPushOnly_PushAll) auto
  show ?thesis
    unfolding verify_script_def sig sum.case prod.case spk
    using push IsPayToScriptHash_dest [of h] by (auto split: sum.split)
qed

lemma verify_p2sh_only:
  assumes "IsPayToScriptHash spk" and "fst (verify_script L chk sig spk True c)"
  obtains redeem st st' c1 c2 c3 where "IsPushOnly sig"
    and "EvalScript L chk [] sig c = Inr (redeem # st, c1)"
    and "EvalScript L chk st redeem c2 = Inr (st', c3)" and "st' \<noteq> []" and "CastToBool (hd st')"
    and "spk = SetDestination (CScriptID (Hash160 L redeem))"
proof -
  obtain st0 c1 where s1: "EvalScript L chk [] sig c = Inr (st0, c1)"
    using assms(2) by (auto simp: verify_script_def split: sum.splits)
  obtain st1 c2 where s2: "EvalScript L chk st0 spk c1 = Inr (st1, c2)" "st1 \<noteq> []" "CastToBool (hd st1)"
    using assms(2) s1 by (auto simp: verify_script_def split: sum.splits if_splits)
  have push: "IsPushOnly sig"
    using assms s1 s2 by (auto simp: verify_script_def split: if_splits)
  obtain st2 c3 where s3: "EvalScript L chk (tl st0) (hd st0) c2 = Inr (st2, c3)" "st2 \<noteq> []" "CastToBool (hd st2)"
    using assms s1 s2 push by (auto simp: verify_script_def split: sum.splits if_splits)
  obtain hb where hb: "length hb = 20" "spk = [OP_HASH160, 0x14] @ hb @ [OP_EQUAL]"
    using assms(1) by (auto simp: IsPayToScriptHash_iff)
  define h :: u160 where "h = of_nat (le_val hb)"
  have spk: "spk = SetDestination (CScriptID h)"
    unfolding hb(2) p2sh_bytes h_def by (simp add: u160_bytes_of_val hb(1))
  have "st0 \<noteq> []"
  proof
    assume "st0 = []"
    then show False using s2(1) eval_p2sh [of "[]" L chk h c1] by (simp add: spk del: SetDestination.simps)
  qed
  then obtain redeem st where st0: "st0 = redeem # st" by (cases st0) auto
  have "length st0 < 1000"
    using s2(1) eval_p2sh_full [of st0 L chk h c1] by (force simp: spk not_less simp del: SetDestination.simps)
  then have "EvalScript L chk st0 spk c1 = Inr (vchBool (Hash160 L redeem = h) # st, c1)"
    by (simp add: spk eval_p2sh st0 del: SetDestination.simps)
  then have "Hash160 L redeem = h" using s2 by auto
  with that push s1 s3 spk st0 show thesis by fastforce
qed

section \<open>What a signature covers\<close>

definition sighash_preimage :: "CScript \<Rightarrow> CTransaction \<Rightarrow> nat \<Rightarrow> int \<Rightarrow> bytes option" where
  "sighash_preimage code tx nIn ht =
     map_option (\<lambda>t. ser_CTransaction t @ ser_i32 ht) (sighash_tx code tx nIn ht)"

lemma SignatureHash_preimage:
  "SignatureHash L code tx nIn ht = (case sighash_preimage code tx nIn ht of None \<Rightarrow> 1 | Some b \<Rightarrow> Hash L b)"
  by (simp add: SignatureHash_def sighash_preimage_def split: option.split)

text \<open>A hash type that covers every input and every output.\<close>

definition covers_all :: "int \<Rightarrow> bool" where
  "covers_all ht \<longleftrightarrow> ht AND 0x1f \<noteq> SIGHASH_NONE \<and> ht AND 0x1f \<noteq> SIGHASH_SINGLE
     \<and> ht AND SIGHASH_ANYONECANPAY = 0"

lemma sighash_tx_all:
  assumes "covers_all ht"
  shows "sighash_tx code tx nIn ht =
    (if nIn < length (vin tx)
     then Some (tx\<lparr>vin := blank_scripts nIn (snd (FindAndDelete [OP_CODESEPARATOR] code)) (vin tx)\<rparr>)
     else None)"
  using assms by (simp add: sighash_tx_def covers_all_def Let_def push_op_def)

lemma blank_scripts_fields:
  "length (blank_scripts n code ins) = length ins"
  "map prevout (blank_scripts n code ins) = map prevout ins"
  "map nSequence (blank_scripts n code ins) = map nSequence ins"
  "i < length ins \<Longrightarrow> scriptSig (blank_scripts n code ins ! i) = (if i = n then code else [])"
  by (auto simp: blank_scripts_def intro: nth_equalityI)

lemma FindAndDelete_len: "length (snd (FindAndDelete b script)) \<le> length script"
  using FindAndDelete_count [of b script] by (simp add: FindAndDelete_def)

lemma blank_scripts_ok:
  "tx_ok tx \<Longrightarrow> bytes_ok code \<Longrightarrow> tx_ok (tx\<lparr>vin := blank_scripts n code (vin tx)\<rparr>)"
  by (auto simp: tx_ok_def list_all_iff txin_ok_def bytes_ok_def blank_scripts_def)

lemma blank_scripts_update:
  "blank_scripts n code (ins[k := (ins ! k)\<lparr>scriptSig := s\<rparr>]) = blank_scripts n code ins"
  unfolding blank_scripts_def
  by (cases "k < length ins") (auto simp: nth_list_update intro!: map_cong)

lemma SignatureHash_scripts:
  "SignatureHash L code (set_scriptSig k s tx) n ht = SignatureHash L code tx n ht"
proof -
  have "(set_scriptSig k s tx)\<lparr>vin := blank_scripts n c (vin (set_scriptSig k s tx))\<rparr> =
      tx\<lparr>vin := blank_scripts n c (vin tx)\<rparr>" for c
    by (simp add: set_scriptSig_def blank_scripts_update)
  then have "sighash_tx code (set_scriptSig k s tx) n ht = sighash_tx code tx n ht"
    by (simp add: sighash_tx_def set_scriptSig_def blank_scripts_update Let_def)
  then show ?thesis by (simp add: SignatureHash_def)
qed

lemma append_i32_eq:
  "xs @ ser_i32 a = ys @ ser_i32 b \<Longrightarrow> xs = ys \<and> ser_i32 a = ser_i32 b"
  by (metis append_eq_append_conv length_ser_basic(6))

section \<open>Signing and verifying\<close>
lemma strip_copies_other:
  "pc = [] \<or> hd b \<noteq> hd pc \<Longrightarrow> b \<noteq> [] \<Longrightarrow> strip_copies b pc = (0, pc)"
  by (subst strip_copies.simps) (cases b; cases pc; auto)

lemma hd_push_data: "hd (push_data b) \<le> OP_PUSHDATA4" "hd (push_data b) = 0x14 \<Longrightarrow> length b = 20"
proof -
  have u: "unat (of_nat (length b) :: byte) = length b" if "length b < 76"
    using that by (simp add: unat_of_nat_byte)
  show "hd (push_data b) \<le> OP_PUSHDATA4"
    using u by (auto simp: push_data_def word_le_nat_alt)
  assume "hd (push_data b) = 0x14"
  then show "length b = 20"
  proof (cases "length b < 76")
    case True
    with \<open>hd (push_data b) = 0x14\<close> have "(of_nat (length b) :: byte) = 0x14" by (simp add: push_data_def)
    then have "unat (of_nat (length b) :: byte) = 20" by simp
    with u [OF True] show ?thesis by simp
  qed (auto simp: push_data_def split: if_splits)
qed

lemma FindAndDelete_p2pkh:
  assumes "length b \<noteq> 20"
  shows "snd (FindAndDelete (push_data b) (SetDestination (CKeyID h))) = SetDestination (CKeyID h)"
proof -
  have no: "strip_copies (push_data b) (c # pc) = (0, c # pc)" if "c = 0x14 \<or> OP_PUSHDATA4 < c" for c pc
    using that assms hd_push_data [of b] by (intro strip_copies_other) auto
  have "strip_copies (push_data b) [] = (0, [])" by (rule strip_copies_other) simp_all
  then show ?thesis
    by (simp add: FindAndDelete_def push_op_def push_uint160_def FindAndDelete_from.simps no
        GetOp_operand_def)
qed

lemma split_sig_zero: "0 < ht \<Longrightarrow> ht < 256 \<Longrightarrow> split_sig (s @ [of_int ht]) 0 = Some (ht, s)"
  by (simp add: split_sig_def unsigned_of_int take_bit_eq_mod)

lemma CheckSig_result:
  assumes "cache_inv L m cache"
  shows "fst (CheckSig L m tx n ht sg key code cache) = check_signature L tx n ht sg key code"
    and "cache_inv L m (snd (CheckSig L m tx n ht sg key code cache))"
  using CheckSig_sim [of L m tx n ht] assms unfolding check_sim_def by fastforce+

section \<open>Properties\<close>

text \<open>C20: The signature cache changes no answer. Starting from a cache whose entries are valid
  signatures, verifying a script gives the answer it would give if every signature were checked
  afresh, and leaves such a cache, of at most one entry more than the limit.\<close>
theorem signature_cache_transparent:
  assumes "cache_inv L nMax cache"
  shows "fst (VerifyScript L nMax sig spk tx nIn p2sh ht cache) =
      fst (verify_script L (pure_check L tx nIn ht) sig spk p2sh ())
    \<and> cache_inv L nMax (snd (VerifyScript L nMax sig spk tx nIn p2sh ht cache))"
  using verify_script_sim [where L = L and sig = sig and spk = spk and p = p2sh and c' = "()",
      OF CheckSig_sim [of L nMax tx nIn ht] assms]
  by (simp add: VerifyScript_def)

theorem signature_cache_transparent_witness:
  "fst (VerifyScript ref_lib 10 [OP_1] [OP_DUP] (tx_SetNull 0) 0 False 0
      \<lparr>setValid = [], sc_random = (\<lambda>_. 0), sc_drawn = 0\<rparr>) =
   fst (verify_script ref_lib (pure_check ref_lib (tx_SetNull 0) 0 0) [OP_1] [OP_DUP] False ())"
proof -
  have "cache_inv ref_lib 10 \<lparr>setValid = [], sc_random = (\<lambda>_. 0), sc_drawn = 0\<rparr>"
    by (simp add: cache_inv_def)
  from signature_cache_transparent [OF this] show ?thesis by blast
qed

text \<open>C21: A signature of a type that covers everything commits to the whole transaction but the
  scripts: if two transactions give the same bytes to hash, they agree on version, time, lock
  time, every outpoint and sequence number and every output, and the script signed for stands at
  the same input. Scripts of inputs are not covered. With \<open>SIGHASH_SINGLE\<close> and no output at the
  index of the input the hash is the number one, whatever the transaction.\<close>
theorem sighash_commits:
  assumes "tx_ok tx" and "tx_ok tx'" and "bytes_ok code" and "bytes_ok code'"
    and "covers_all ht" and "covers_all ht'"
    and "sighash_preimage code tx n ht = Some b" and "sighash_preimage code' tx' n' ht' = Some b"
  shows "tx_nVersion tx = tx_nVersion tx' \<and> tx_nTime tx = tx_nTime tx' \<and> nLockTime tx = nLockTime tx'
    \<and> map prevout (vin tx) = map prevout (vin tx') \<and> map nSequence (vin tx) = map nSequence (vin tx')
    \<and> vout tx = vout tx'
    \<and> (snd (FindAndDelete [OP_CODESEPARATOR] code) \<noteq> [] \<longrightarrow> n = n')
    \<and> SignatureHash L code (set_scriptSig k s tx) n ht = SignatureHash L code tx n ht
    \<and> (length (vout tx) \<le> n \<longrightarrow> SignatureHash L code tx n SIGHASH_SINGLE = 1)"
proof -
  define c c' where "c = snd (FindAndDelete [OP_CODESEPARATOR] code)"
    and "c' = snd (FindAndDelete [OP_CODESEPARATOR] code')"
  let ?t = "tx\<lparr>vin := blank_scripts n c (vin tx)\<rparr>" and ?t' = "tx'\<lparr>vin := blank_scripts n' c' (vin tx')\<rparr>"
  have n: "n < length (vin tx)" "n' < length (vin tx')"
    and b: "b = ser_CTransaction ?t @ ser_i32 ht" "b = ser_CTransaction ?t' @ ser_i32 ht'"
    using assms(7,8) unfolding sighash_preimage_def sighash_tx_all [OF assms(5)] sighash_tx_all [OF assms(6)]
    by (auto simp: c_def c'_def split: if_splits)
  have "bytes_ok c" "bytes_ok c'"
    using assms(3,4) FindAndDelete_len [of "[OP_CODESEPARATOR]"] unfolding bytes_ok_def c_def c'_def
    by (meson order.trans)+
  then have ok: "tx_ok ?t" "tx_ok ?t'" using assms(1,2) blank_scripts_ok by blast+
  have "ser_CTransaction ?t = ser_CTransaction ?t'" using append_i32_eq b by metis
  then have eq: "?t = ?t'" using transaction.ser_inj ok by blast
  then have bs: "blank_scripts n c (vin tx) = blank_scripts n' c' (vin tx')"
    by (metis CTransaction.select_convs(3) CTransaction.surjective CTransaction.update_convs(3))
  have fields: "tx_nVersion tx = tx_nVersion tx'" "tx_nTime tx = tx_nTime tx'" "nLockTime tx = nLockTime tx'"
    "vout tx = vout tx'"
    using arg_cong [OF eq, of tx_nVersion] arg_cong [OF eq, of tx_nTime] arg_cong [OF eq, of nLockTime]
      arg_cong [OF eq, of vout] by simp_all
  have "n = n'" if "c \<noteq> []"
  proof (rule ccontr)
    assume "n \<noteq> n'"
    have "length (vin tx) = length (vin tx')" using bs blank_scripts_fields(1) by metis
    with n(1) have "scriptSig (blank_scripts n' c' (vin tx') ! n) = (if n = n' then c' else [])"
      by (intro blank_scripts_fields(4)) simp
    with n(1) bs \<open>n \<noteq> n'\<close> that show False
      using blank_scripts_fields(4) [of n "vin tx" n c] by simp
  qed
  moreover have "map prevout (vin tx) = map prevout (vin tx')" "map nSequence (vin tx) = map nSequence (vin tx')"
    using bs blank_scripts_fields(2,3) by metis+
  moreover have "SignatureHash L code tx n SIGHASH_SINGLE = 1" if "length (vout tx) \<le> n"
    using that by (simp add: SignatureHash_def sighash_tx_def Let_def)
  ultimately show ?thesis using fields SignatureHash_scripts unfolding c_def by blast
qed

theorem sighash_commits_witness:
  "\<exists>b. sighash_preimage [OP_CHECKSIG] (set_scriptSig 0 [9] \<lparr>tx_nVersion = 1, tx_nTime = 5, vin = [txin_new (COutPoint 7 1) []],
      vout = [\<lparr>nValue = 1000, scriptPubKey = [0xac]\<rparr>], nLockTime = 0\<rparr>) 0 SIGHASH_ALL = Some b
    \<and> SignatureHash ref_lib [OP_CHECKSIG] \<lparr>tx_nVersion = 1, tx_nTime = 5, vin = [txin_new (COutPoint 7 1) []],
      vout = [\<lparr>nValue = 1000, scriptPubKey = [0xac]\<rparr>], nLockTime = 0\<rparr> 0 SIGHASH_ALL = Hash ref_lib b"
proof -
  let ?tx = "\<lparr>tx_nVersion = 1, tx_nTime = 5, vin = [txin_new (COutPoint 7 1) []],
      vout = [\<lparr>nValue = 1000, scriptPubKey = [0xac]\<rparr>], nLockTime = 0\<rparr>"
  have ok: "tx_ok ?tx" "tx_ok (set_scriptSig 0 [9] ?tx)" "bytes_ok [OP_CHECKSIG]" "covers_all SIGHASH_ALL"
    by (simp_all add: tx_ok_def txin_ok_def txout_ok_def bytes_ok_def i32_ok_def i64_ok_def txin_new_def
        set_scriptSig_def covers_all_def)
  have "0 < length (vin ?tx)" "0 < length (vin (set_scriptSig 0 [9] ?tx))"
    by (simp_all add: set_scriptSig_def)
  then obtain b b' where b: "sighash_preimage [OP_CHECKSIG] ?tx 0 SIGHASH_ALL = Some b"
    "sighash_preimage [OP_CHECKSIG] (set_scriptSig 0 [9] ?tx) 0 SIGHASH_ALL = Some b'"
    unfolding sighash_preimage_def sighash_tx_all [OF ok(4)] by auto
  moreover have "b = b'"
    using b unfolding sighash_preimage_def sighash_tx_all [OF ok(4)]
    by (simp add: set_scriptSig_def blank_scripts_def)
  ultimately have "SignatureHash ref_lib [OP_CHECKSIG] (set_scriptSig 0 [9] ?tx) 0 SIGHASH_ALL =
      SignatureHash ref_lib [OP_CHECKSIG] ?tx 0 SIGHASH_ALL"
    using sighash_commits [OF ok(1,1,3,3,4,4) b(1) b(1), of ref_lib 0 "[9]"] by blast
  with b \<open>b = b'\<close> show ?thesis by (auto simp: SignatureHash_preimage)
qed



text \<open>C37: Whoever spends a pay-to-script-hash output has revealed a script: the input only pushes,
  its last push hashes to the 20 bytes of the output, and that script succeeds on the other
  pushes, whatever their number.\<close>
theorem p2sh_only_redeem_script:
  assumes "IsPayToScriptHash spk" and "fst (verify_script L chk sig spk True c)"
  shows "IsPushOnly sig
    \<and> (\<exists>redeem st c1 c2 st' c3. EvalScript L chk [] sig c = Inr (redeem # st, c1)
        \<and> spk = SetDestination (CScriptID (Hash160 L redeem))
        \<and> EvalScript L chk st redeem c2 = Inr (st', c3) \<and> st' \<noteq> [] \<and> CastToBool (hd st'))"
proof -
  obtain redeem st st' c1 c2 c3 where "IsPushOnly sig"
    "EvalScript L chk [] sig c = Inr (redeem # st, c1)" "EvalScript L chk st redeem c2 = Inr (st', c3)"
    "st' \<noteq> []" "CastToBool (hd st')" "spk = SetDestination (CScriptID (Hash160 L redeem))"
    by (rule verify_p2sh_only [OF assms])
  then show ?thesis by blast
qed

theorem p2sh_only_redeem_script_witness:
  "IsPushOnly (PushAll [[OP_1]])
   \<and> fst (verify_script ref_lib (pure_check ref_lib (tx_SetNull 0) 0 0) (PushAll [[OP_1]])
       (SetDestination (CScriptID (Hash160 ref_lib [OP_1]))) True ())"
proof -
  have e: "EvalScript ref_lib (pure_check ref_lib (tx_SetNull 0) 0 0) [] [OP_1] () = Inr ([getvch ref_lib (bn_of_int ref_lib 1)], ())"
    by (simp add: EvalScript_def eval_loop.simps eval_init_def step_simps op_push_number_def)
  have "CastToBool (getvch ref_lib (bn_of_int ref_lib 1))"
    using length_getvch(2) [OF bn_ok_ref, of 1]
    by (simp add: bn_simps [OF bn_ok_ref] sm_encode_def sm_len.simps)
  then have v: "fst (verify_script ref_lib (pure_check ref_lib (tx_SetNull 0) 0 0) (PushAll [[OP_1]])
       (SetDestination (CScriptID (Hash160 ref_lib [OP_1]))) True ())"
    using e verify_p2sh [of "[]" "[OP_1]" ref_lib "pure_check ref_lib (tx_SetNull 0) 0 0" "Hash160 ref_lib [OP_1]" "()"]
    by (simp add: PushAll_def push_data_def)
  with p2sh_only_redeem_script [OF IsPayToScriptHash_dest v] show ?thesis by blast
qed

text \<open>Signing an output that pays to the hash of a key the store holds succeeds whenever the
  library's signature is valid: the transaction returned differs only in the script of the input,
  which holds the signature and the key, and \<open>VerifyScript\<close> has accepted it.\<close>
theorem sign_p2pkh:
  assumes "cache_inv L nMax cache" and "nIn < length (vin tx)" and "0 < ht" and "ht < 256"
    and "GetKey ks h = Inr (Some key)" and "GetPubKey ks h = Inr (Some pub)" and "CPubKey_GetID L pub = h"
    and "CKey_Sign L (SignatureHash L (SetDestination (CKeyID h)) tx nIn ht) key = Some sg"
    and "signature_valid L (SignatureHash L (SetDestination (CKeyID h)) tx nIn ht) sg (pk_vch pub)"
    and "length sg < 520" and "length sg \<noteq> 19" and "length (pk_vch pub) \<le> 520"
  shows "\<exists>cache'. SignSignature L nMax ks (SetDestination (CKeyID h)) tx nIn ht cache =
      Inr (True, set_scriptSig nIn (PushAll [sg @ [of_int ht], pk_vch pub]) tx, cache') \<and> cache_inv L nMax cache'"
proof -
  let ?spk = "SetDestination (CKeyID h)" and ?sig = "PushAll [sg @ [of_int ht], pk_vch pub]"
  let ?tx = "set_scriptSig nIn ?sig tx"
  define r where "r = CheckSig L nMax ?tx nIn 0 (sg @ [of_int ht]) (pk_vch pub) ?spk cache"
  have sign: "Solver_sign L ks ?spk (SignatureHash L ?spk tx nIn ht) ht = Inr (True, TX_PUBKEYHASH, ?sig)"
    using assms(5-8)
    by (simp add: Solver_sign_def Solver_KeyID Sign1_def PushAll_def push_pubkey_def Let_def
        del: SetDestination.simps)
  have "check_signature L ?tx nIn 0 (sg @ [of_int ht]) (pk_vch pub) ?spk"
    unfolding check_signature_def split_sig_zero [OF assms(3,4)] SignatureHash_scripts
    using assms(9) by (simp del: SetDestination.simps)
  then have r: "fst r" "cache_inv L nMax (snd r)"
    using CheckSig_result [OF assms(1)] unfolding r_def by blast+
  have "length (sg @ [of_int ht :: byte]) \<noteq> 20" using assms(11) by simp
  then have "verify_script L (CheckSig L nMax ?tx nIn 0) ?sig ?spk True cache = r"
    using assms(7,10,12) verify_p2pkh [of "sg @ [of_int ht]" "pk_vch pub" L "CheckSig L nMax ?tx nIn 0" h True cache]
    by (simp add: FindAndDelete_p2pkh CPubKey_GetID_def r_def del: SetDestination.simps)
  then have "SignSignature L nMax ks ?spk tx nIn ht cache = Inr (True, ?tx, snd r)"
    using sign r(1)
    by (simp add: SignSignature_def VerifyScript_def Let_def split_beta del: SetDestination.simps)
  with r(2) show ?thesis by blast
qed

theorem sign_p2pkh_witness:
  "\<exists>tx' cache'. SignSignature ref_lib 10
     \<lparr>HaveKey = \<lambda>_. True,
      GetKey = \<lambda>_. Inr (Some \<lparr>k_secret = Some [1], k_pub = Some [1], k_fSet = True, fCompressedPubKey = False\<rparr>),
      GetPubKey = \<lambda>_. Inr (Some \<lparr>pk_vch = [1]\<rparr>), HaveCScript = \<lambda>_. False, GetCScript = \<lambda>_. None\<rparr>
     (SetDestination (CKeyID (Hash160 ref_lib [1])))
     \<lparr>tx_nVersion = 1, tx_nTime = 5, vin = [txin_new (COutPoint 7 1) []],
      vout = [\<lparr>nValue = 1000, scriptPubKey = [0xac]\<rparr>], nLockTime = 0\<rparr> 0 SIGHASH_ALL
     \<lparr>setValid = [], sc_random = (\<lambda>_. 0), sc_drawn = 0\<rparr> = Inr (True, tx', cache')"
proof -
  let ?ks = "\<lparr>HaveKey = \<lambda>_. True,
      GetKey = \<lambda>_. Inr (Some \<lparr>k_secret = Some [1], k_pub = Some [1], k_fSet = True, fCompressedPubKey = False\<rparr>),
      GetPubKey = \<lambda>_. Inr (Some \<lparr>pk_vch = [1]\<rparr>), HaveCScript = \<lambda>_. False, GetCScript = \<lambda>_. None\<rparr>"
  let ?k = "\<lparr>k_secret = Some [1], k_pub = Some [1], k_fSet = True, fCompressedPubKey = False\<rparr>"
  let ?tx = "\<lparr>tx_nVersion = 1, tx_nTime = 5, vin = [txin_new (COutPoint 7 1) []],
      vout = [\<lparr>nValue = 1000, scriptPubKey = [0xac]\<rparr>], nLockTime = 0\<rparr>"
  have c: "cache_inv ref_lib 10 \<lparr>setValid = [], sc_random = (\<lambda>_. 0), sc_drawn = 0\<rparr>"
    by (simp add: cache_inv_def)
  have "CKey_Sign ref_lib hash ?k = Some [1]" "signature_valid ref_lib hash [1] [1]" for hash
    by (simp_all add: CKey_Sign_def ref_lib_def signature_valid_def Key_Verify_def)
  then show ?thesis
    using sign_p2pkh [OF c, of 0 ?tx SIGHASH_ALL ?ks "Hash160 ref_lib [1]" ?k "\<lparr>pk_vch = [1]\<rparr>" "[1]"]
    by (simp add: CPubKey_GetID_def del: SetDestination.simps) blast
qed

end
