(* ===== verification/Std_Map.thy ===== *)
theory Std_Map
  imports Cbx_Prelude
begin

text \<open>
  \<open>std::map\<close> as the list of its entries in increasing order of the keys: the order matters
  where the code walks over a map or asks for a lower bound. Lookup is \<open>map_of\<close>, and the
  lemmas relate every operation to the function from keys to values.
\<close>

type_synonym ('k, 'v) smap = "('k \<times> 'v) list"

definition smap_ok :: "('k::linorder, 'v) smap \<Rightarrow> bool" where
  "smap_ok m \<longleftrightarrow> sorted_wrt (<) (map fst m)"

fun smap_put :: "'k::linorder \<Rightarrow> 'v \<Rightarrow> ('k, 'v) smap \<Rightarrow> ('k, 'v) smap" where
  "smap_put k v [] = [(k, v)]"
| "smap_put k v ((k', v') # m) =
     (if k < k' then (k, v) # (k', v') # m
      else if k = k' then (k, v) # m
      else (k', v') # smap_put k v m)"

definition smap_erase :: "'k \<Rightarrow> ('k, 'v) smap \<Rightarrow> ('k, 'v) smap" where
  "smap_erase k m = filter (\<lambda>p. fst p \<noteq> k) m"

definition smap_count :: "'k \<Rightarrow> ('k, 'v) smap \<Rightarrow> bool" where
  "smap_count k m = (map_of m k \<noteq> None)"

definition smap_lower_bound :: "'k::linorder \<Rightarrow> ('k, 'v) smap \<Rightarrow> ('k \<times> 'v) option" where
  "smap_lower_bound k m = find (\<lambda>p. k \<le> fst p) m"

named_theorems smap_simps \<open>the operations on maps as functions\<close>
lemma smap_ok_Nil [simp]: "smap_ok []"
  by (simp add: smap_ok_def)

lemma smap_ok_Cons: "smap_ok ((k, v) # m) \<longleftrightarrow> (\<forall>k' \<in> fst ` set m. k < k') \<and> smap_ok m"
  by (simp add: smap_ok_def)

lemma smap_ok_distinct: "smap_ok m \<Longrightarrow> distinct (map fst m)"
  by (simp add: smap_ok_def strict_sorted_iff)

lemma fst_smap_put: "fst ` set (smap_put k v m) = insert k (fst ` set m)"
  by (induction k v m rule: smap_put.induct) auto

lemma smap_ok_put [simp]: "smap_ok m \<Longrightarrow> smap_ok (smap_put k v m)"
  by (induction k v m rule: smap_put.induct) (auto simp: smap_ok_Cons fst_smap_put)

lemma smap_ok_erase [simp]: "smap_ok m \<Longrightarrow> smap_ok (smap_erase k m)"
  by (induction m) (auto simp: smap_erase_def smap_ok_Cons)

lemma map_of_None_less: "\<forall>k' \<in> fst ` set m. k < k' \<Longrightarrow> map_of m (k :: 'k::linorder) = None"
  by (auto simp: map_of_eq_None_iff)

lemma map_of_smap_put [smap_simps]: "smap_ok m \<Longrightarrow> map_of (smap_put k v m) = (map_of m)(k \<mapsto> v)"
proof (induction k v m rule: smap_put.induct)
  case (2 k v k' v' m)
  then show ?case using map_of_None_less [of m k'] by (auto simp: smap_ok_Cons fun_eq_iff)
qed simp

lemma map_of_smap_erase [smap_simps]: "map_of (smap_erase k m) = (map_of m)(k := None)"
  by (induction m) (auto simp: smap_erase_def fun_eq_iff)

lemma smap_erase_id: "map_of m k = None \<Longrightarrow> smap_erase k m = m"
  by (induction m) (auto simp: smap_erase_def split: if_splits)

lemma set_smap_erase: "set (smap_erase k m) = {p \<in> set m. fst p \<noteq> k}"
  by (auto simp: smap_erase_def)

lemma set_smap_put: "smap_ok m \<Longrightarrow> set (smap_put k v m) = insert (k, v) {p \<in> set m. fst p \<noteq> k}"
  by (induction k v m rule: smap_put.induct) (auto simp: smap_ok_Cons)

lemma smap_set_iff: "smap_ok m \<Longrightarrow> (k, v) \<in> set m \<longleftrightarrow> map_of m k = Some v"
  using map_of_eq_Some_iff [OF smap_ok_distinct] by metis

lemma length_smap_erase: "smap_count k m \<Longrightarrow> length (smap_erase k m) < length m"
  unfolding smap_count_def smap_erase_def
  by (metis (mono_tags, lifting) fst_conv length_filter_less map_of_SomeD not_None_eq)

lemma length_smap_erase_eq:
  assumes "smap_ok m" and "smap_count k m"
  shows "length (smap_erase k m) = length m - 1"
proof -
  obtain v where "map_of m k = Some v" using assms(2) by (auto simp: smap_count_def)
  with assms(1) show ?thesis
  proof (induction m)
    case (Cons p m)
    obtain k' v' where p: "p = (k', v')" by fastforce
    show ?case
    proof (cases "k' = k")
      case True
      have "map_of m k = None"
        using Cons.prems(1) True map_of_None_less [of m k] by (simp add: p smap_ok_Cons)
      then show ?thesis using True smap_erase_id [of m k] by (simp add: p smap_erase_def)
    next
      case False
      then have "length m \<noteq> 0" using Cons.prems(2) by (auto simp: p)
      with False Cons show ?thesis by (simp add: p smap_erase_def smap_ok_Cons)
    qed
  qed simp
qed

lemma smap_lower_bound_in: "smap_lower_bound k m = Some p \<Longrightarrow> p \<in> set m \<and> k \<le> fst p"
  by (auto simp: smap_lower_bound_def find_Some_iff)

lemma smap_count_iff: "smap_count k m \<longleftrightarrow> k \<in> fst ` set m"
  unfolding smap_count_def by (metis map_of_eq_None_iff)

end
