(* ===== verification/Keystore.thy ===== *)
theory Keystore
  imports Script_Solve Std_Map
begin

text \<open>
  The key stores (\<open>keystore.h\<close>, \<open>keystore.cpp\<close>): \<open>CBasicKeyStore\<close> with its keys in the clear
  and \<open>CCryptoKeyStore\<close>, which encrypts them under a master key. Both meet the contract
  \<open>key_store\<close> of signing code, under the invariants the comments of the class state.
\<close>

section \<open>The basic store\<close>

record CBasicKeyStore =
  mapKeys :: "(u160, bytes \<times> bool) smap"
  mapScripts :: "(u160, CScript) smap"
  setWatchOnly :: "CScript set"

definition basic_HaveKey :: "'x CBasicKeyStore_scheme \<Rightarrow> u160 \<Rightarrow> bool" where
  "basic_HaveKey st address = smap_count address (mapKeys st)"

definition basic_GetKeys :: "'x CBasicKeyStore_scheme \<Rightarrow> u160 set" where
  "basic_GetKeys st = set (map fst (mapKeys st))"

definition basic_GetKey :: "extlib \<Rightarrow> 'x CBasicKeyStore_scheme \<Rightarrow> u160 \<Rightarrow> key_error + CKey option" where
  "basic_GetKey L st address =
     (case map_of (mapKeys st) address of
        Some (secret, fCompressed) \<Rightarrow>
          rbind (CKey_SetSecret L secret fCompressed CKey_Reset) (\<lambda>key. Inr (Some key))
      | None \<Rightarrow> Inr None)"

definition basic_AddKey ::
  "extlib \<Rightarrow> CKey \<Rightarrow> 'x CBasicKeyStore_scheme \<Rightarrow> key_error + (bool \<times> 'x CBasicKeyStore_scheme)" where
  "basic_AddKey L key st =
     rbind (CKey_GetSecret key) (\<lambda>(secret, fCompressed).
       rbind (CKey_GetPubKey key) (\<lambda>pub.
         Inr (True, st\<lparr>mapKeys := smap_put (CPubKey_GetID L pub) (secret, fCompressed) (mapKeys st)\<rparr>)))"

definition basic_AddCScript ::
  "extlib \<Rightarrow> CScript \<Rightarrow> 'x CBasicKeyStore_scheme \<Rightarrow> bool \<times> 'x CBasicKeyStore_scheme" where
  "basic_AddCScript L redeemScript st =
     (True, st\<lparr>mapScripts := smap_put (CScript_GetID L redeemScript) redeemScript (mapScripts st)\<rparr>)"

definition basic_HaveCScript :: "'x CBasicKeyStore_scheme \<Rightarrow> u160 \<Rightarrow> bool" where
  "basic_HaveCScript st hash = smap_count hash (mapScripts st)"

definition basic_GetCScript :: "'x CBasicKeyStore_scheme \<Rightarrow> u160 \<Rightarrow> CScript option" where
  "basic_GetCScript st hash = map_of (mapScripts st) hash"

text \<open>
  \<open>AddWatchOnly\<close> calls the virtual \<open>HaveKey\<close>, an argument here; a destination that is no key
  leaves the identifier at zero.
\<close>

definition basic_AddWatchOnly ::
  "extlib \<Rightarrow> (u160 \<Rightarrow> bool) \<Rightarrow> CScript \<Rightarrow> 'x CBasicKeyStore_scheme \<Rightarrow> bool \<times> 'x CBasicKeyStore_scheme" where
  "basic_AddWatchOnly L haveKey dest st =
     (let keyID = (\<lambda>address. case address of CKeyID k \<Rightarrow> k | _ \<Rightarrow> 0)
      in case ExtractDestination L dest of
           Some address \<Rightarrow>
             if haveKey (keyID address) then (False, st)
             else (True, st\<lparr>setWatchOnly := insert dest (setWatchOnly st)\<rparr>)
         | None \<Rightarrow> (True, st\<lparr>setWatchOnly := insert dest (setWatchOnly st)\<rparr>))"

definition basic_HaveWatchOnly :: "'x CBasicKeyStore_scheme \<Rightarrow> CScript \<Rightarrow> bool" where
  "basic_HaveWatchOnly st dest = (dest \<in> setWatchOnly st)"

definition basic_store :: "extlib \<Rightarrow> 'x CBasicKeyStore_scheme \<Rightarrow> CKeyStore" where
  "basic_store L st =
     \<lparr>HaveKey = basic_HaveKey st, GetKey = basic_GetKey L st,
      GetPubKey = CKeyStore_GetPubKey (basic_GetKey L st),
      HaveCScript = basic_HaveCScript st, GetCScript = basic_GetCScript st\<rparr>"

section \<open>The encrypting store\<close>

record CCryptoKeyStore = CBasicKeyStore +
  mapCryptedKeys :: "(u160, CPubKey \<times> bytes) smap"
  vMasterKey :: bytes
  fUseCrypto :: bool

definition crypto_new :: CCryptoKeyStore where
  "crypto_new = \<lparr>mapKeys = [], mapScripts = [], setWatchOnly = {}, mapCryptedKeys = [],
     vMasterKey = [], fUseCrypto = False\<rparr>"

definition IsCrypted :: "CCryptoKeyStore \<Rightarrow> bool" where "IsCrypted st = fUseCrypto st"

definition IsLocked :: "CCryptoKeyStore \<Rightarrow> bool" where
  "IsLocked st = (if \<not> IsCrypted st then False else vMasterKey st = [])"

definition SetCrypted :: "CCryptoKeyStore \<Rightarrow> bool \<times> CCryptoKeyStore" where
  "SetCrypted st =
     (if fUseCrypto st then (True, st)
      else if mapKeys st \<noteq> [] then (False, st)
      else (True, st\<lparr>fUseCrypto := True\<rparr>))"

definition crypto_Lock :: "CCryptoKeyStore \<Rightarrow> bool \<times> CCryptoKeyStore" where
  "crypto_Lock st =
     (case SetCrypted st of (ok, st) \<Rightarrow> if \<not> ok then (False, st) else (True, st\<lparr>vMasterKey := []\<rparr>))"

text \<open>
  \<open>Unlock\<close> tries the master key on the first encrypted key only: the loop leaves with
  \<open>break\<close> or \<open>return\<close> in its first round.
\<close>

definition unlock_check :: "extlib \<Rightarrow> bytes \<Rightarrow> (u160, CPubKey \<times> bytes) smap \<Rightarrow> key_error + bool" where
  "unlock_check L vMasterKeyIn crypted =
     (case crypted of
        [] \<Rightarrow> Inr True
      | (address, vchPubKey, vchCryptedSecret) # rest \<Rightarrow>
          (case DecryptSecret L vMasterKeyIn vchCryptedSecret (CPubKey_GetHash L vchPubKey) of
             None \<Rightarrow> Inr False
           | Some vchSecret \<Rightarrow>
               if length vchSecret \<noteq> 32 then Inr False
               else rbind (CKey_SetSecret L vchSecret False (snd (CKey_SetPubKey L vchPubKey CKey_Reset)))
                 (\<lambda>key. rbind (CKey_GetPubKey key) (\<lambda>pub. Inr (pub = vchPubKey)))))"

definition crypto_Unlock :: "extlib \<Rightarrow> bytes \<Rightarrow> CCryptoKeyStore \<Rightarrow> key_error + (bool \<times> CCryptoKeyStore)" where
  "crypto_Unlock L vMasterKeyIn st =
     (case SetCrypted st of
        (ok, st) \<Rightarrow>
          if \<not> ok then Inr (False, st)
          else rbind (unlock_check L vMasterKeyIn (mapCryptedKeys st)) (\<lambda>ok.
                 if \<not> ok then Inr (False, st) else Inr (True, st\<lparr>vMasterKey := vMasterKeyIn\<rparr>)))"

definition AddCryptedKey :: "extlib \<Rightarrow> CPubKey \<Rightarrow> bytes \<Rightarrow> CCryptoKeyStore \<Rightarrow> bool \<times> CCryptoKeyStore" where
  "AddCryptedKey L vchPubKey vchCryptedSecret st =
     (case SetCrypted st of
        (ok, st) \<Rightarrow>
          if \<not> ok then (False, st)
          else (True, st\<lparr>mapCryptedKeys :=
                  smap_put (CPubKey_GetID L vchPubKey) (vchPubKey, vchCryptedSecret) (mapCryptedKeys st)\<rparr>))"

definition crypto_AddKey :: "extlib \<Rightarrow> CKey \<Rightarrow> CCryptoKeyStore \<Rightarrow> key_error + (bool \<times> CCryptoKeyStore)" where
  "crypto_AddKey L key st =
     (if \<not> IsCrypted st then basic_AddKey L key st
      else if IsLocked st then Inr (False, st)
      else rbind (CKey_GetPubKey key) (\<lambda>vchPubKey.
        rbind (CKey_GetSecret key) (\<lambda>(secret, fCompressed).
          case EncryptSecret L (vMasterKey st) secret (CPubKey_GetHash L vchPubKey) of
            None \<Rightarrow> Inr (False, st)
          | Some vchCryptedSecret \<Rightarrow> Inr (AddCryptedKey L vchPubKey vchCryptedSecret st))))"

definition crypto_HaveKey :: "CCryptoKeyStore \<Rightarrow> u160 \<Rightarrow> bool" where
  "crypto_HaveKey st address =
     (if \<not> IsCrypted st then basic_HaveKey st address else smap_count address (mapCryptedKeys st))"

definition crypto_GetKeys :: "CCryptoKeyStore \<Rightarrow> u160 set" where
  "crypto_GetKeys st =
     (if \<not> IsCrypted st then basic_GetKeys st else set (map fst (mapCryptedKeys st)))"

definition crypto_GetKey :: "extlib \<Rightarrow> CCryptoKeyStore \<Rightarrow> u160 \<Rightarrow> key_error + CKey option" where
  "crypto_GetKey L st address =
     (if \<not> IsCrypted st then basic_GetKey L st address
      else case map_of (mapCryptedKeys st) address of
             None \<Rightarrow> Inr None
           | Some (vchPubKey, vchCryptedSecret) \<Rightarrow>
               (case DecryptSecret L (vMasterKey st) vchCryptedSecret (CPubKey_GetHash L vchPubKey) of
                  None \<Rightarrow> Inr None
                | Some vchSecret \<Rightarrow>
                    if length vchSecret \<noteq> 32 then Inr None
                    else rbind (CKey_SetSecret L vchSecret False (snd (CKey_SetPubKey L vchPubKey CKey_Reset)))
                      (\<lambda>key. Inr (Some key))))"

definition crypto_GetPubKey :: "extlib \<Rightarrow> CCryptoKeyStore \<Rightarrow> u160 \<Rightarrow> key_error + CPubKey option" where
  "crypto_GetPubKey L st address =
     (if \<not> IsCrypted st then CKeyStore_GetPubKey (crypto_GetKey L st) address
      else case map_of (mapCryptedKeys st) address of
             None \<Rightarrow> Inr None
           | Some (vchPubKey, vchCryptedSecret) \<Rightarrow> Inr (Some vchPubKey))"

text \<open>On a failure \<open>EncryptKeys\<close> leaves both maps filled; the wallet then stops the program.\<close>

fun encrypt_loop ::
  "extlib \<Rightarrow> bytes \<Rightarrow> (u160, bytes \<times> bool) smap \<Rightarrow> CCryptoKeyStore \<Rightarrow> key_error + (bool \<times> CCryptoKeyStore)"
  where
  "encrypt_loop L vMasterKeyIn [] st = Inr (True, st)"
| "encrypt_loop L vMasterKeyIn ((address, secret, fCompr) # keys) st =
     rbind (CKey_SetSecret L secret fCompr CKey_Reset) (\<lambda>key.
       rbind (CKey_GetPubKey key) (\<lambda>vchPubKey.
         rbind (CKey_GetSecret key) (\<lambda>(secret, fCompressed).
           case EncryptSecret L vMasterKeyIn secret (CPubKey_GetHash L vchPubKey) of
             None \<Rightarrow> Inr (False, st)
           | Some vchCryptedSecret \<Rightarrow>
               (case AddCryptedKey L vchPubKey vchCryptedSecret st of
                  (ok, st) \<Rightarrow> if \<not> ok then Inr (False, st) else encrypt_loop L vMasterKeyIn keys st))))"

definition EncryptKeys :: "extlib \<Rightarrow> bytes \<Rightarrow> CCryptoKeyStore \<Rightarrow> key_error + (bool \<times> CCryptoKeyStore)" where
  "EncryptKeys L vMasterKeyIn st =
     (if mapCryptedKeys st \<noteq> [] \<or> IsCrypted st then Inr (False, st)
      else rbind (encrypt_loop L vMasterKeyIn (mapKeys st) (st\<lparr>fUseCrypto := True\<rparr>)) (\<lambda>(ok, st).
             if \<not> ok then Inr (False, st) else Inr (True, st\<lparr>mapKeys := []\<rparr>)))"

definition crypto_store :: "extlib \<Rightarrow> CCryptoKeyStore \<Rightarrow> CKeyStore" where
  "crypto_store L st =
     \<lparr>HaveKey = crypto_HaveKey st, GetKey = crypto_GetKey L st, GetPubKey = crypto_GetPubKey L st,
      HaveCScript = basic_HaveCScript st, GetCScript = basic_GetCScript st\<rparr>"

section \<open>Invariants\<close>

definition scripts_ok :: "extlib \<Rightarrow> (u160, CScript) smap \<Rightarrow> bool" where
  "scripts_ok L m \<longleftrightarrow> smap_ok m \<and> (\<forall>(h, s) \<in> set m. CScript_GetID L s = h)"

definition key_entry_ok :: "extlib \<Rightarrow> u160 \<Rightarrow> bytes \<times> bool \<Rightarrow> bool" where
  "key_entry_ok L a e \<longleftrightarrow> length (fst e) = 32
     \<and> CPubKey_GetID L \<lparr>pk_vch = EC_pub_of_secret L (fst e) (snd e)\<rparr> = a"

definition basic_ok :: "extlib \<Rightarrow> 'x CBasicKeyStore_scheme \<Rightarrow> bool" where
  "basic_ok L st \<longleftrightarrow> smap_ok (mapKeys st) \<and> (\<forall>(a, e) \<in> set (mapKeys st). key_entry_ok L a e)
     \<and> scripts_ok L (mapScripts st)"

text \<open>Every encrypted key opens, under the master key \<open>m\<close>, to the secret of its public key.\<close>

definition opens :: "extlib \<Rightarrow> bytes \<Rightarrow> CPubKey \<times> bytes \<Rightarrow> bool" where
  "opens L m e \<longleftrightarrow> EC_o2i L (pk_vch (fst e))
     \<and> (\<exists>s. DecryptSecret L m (snd e) (CPubKey_GetHash L (fst e)) = Some s \<and> length s = 32
         \<and> EC_pub_of_secret L s (length (pk_vch (fst e)) = 33) = pk_vch (fst e))"

definition sealed :: "extlib \<Rightarrow> bytes \<Rightarrow> CCryptoKeyStore \<Rightarrow> bool" where
  "sealed L m st \<longleftrightarrow> (\<forall>(a, e) \<in> set (mapCryptedKeys st). opens L m e)"

text \<open>
  \<open>if fUseCrypto is true, mapKeys must be empty; if fUseCrypto is false, vMasterKey must be
  empty\<close>, and what the operations make of the encrypted keys.
\<close>

definition crypto_ok :: "extlib \<Rightarrow> CCryptoKeyStore \<Rightarrow> bool" where
  "crypto_ok L st \<longleftrightarrow> basic_ok L st
     \<and> (if fUseCrypto st then mapKeys st = [] else vMasterKey st = [] \<and> mapCryptedKeys st = [])
     \<and> smap_ok (mapCryptedKeys st)
     \<and> (\<forall>(a, e) \<in> set (mapCryptedKeys st). CPubKey_GetID L (fst e) = a)
     \<and> (vMasterKey st \<noteq> [] \<longrightarrow> sealed L (vMasterKey st) st)"

section \<open>The basic store meets the contract\<close>
lemma basic_GetKey_entry:
  assumes "map_of (mapKeys st) a = Some (s, c)" and "length s = 32"
  shows "basic_GetKey L st a = Inr (Some \<lparr>k_secret = Some s, k_pub = Some (EC_pub_of_secret L s c),
    k_fSet = True, fCompressedPubKey = c\<rparr>)"
  using assms by (simp add: basic_GetKey_def CKey_SetSecret_def CKey_Reset_def Let_def)

lemma basic_GetKey_none: "map_of (mapKeys st) a = None \<Longrightarrow> basic_GetKey L st a = Inr None"
  by (simp add: basic_GetKey_def)

lemma basic_ok_entry:
  "basic_ok L st \<Longrightarrow> map_of (mapKeys st) a = Some e \<Longrightarrow> key_entry_ok L a e"
  by (auto simp: basic_ok_def dest!: map_of_SomeD)

lemma basic_GetKey_cases:
  assumes "basic_ok L st"
  obtains "map_of (mapKeys st) a = None" "basic_GetKey L st a = Inr None"
  | s c where "map_of (mapKeys st) a = Some (s, c)" "key_entry_ok L a (s, c)"
      "basic_GetKey L st a = Inr (Some \<lparr>k_secret = Some s, k_pub = Some (EC_pub_of_secret L s c),
        k_fSet = True, fCompressedPubKey = c\<rparr>)"
proof (cases "map_of (mapKeys st) a")
  case None
  then show ?thesis using that(1) basic_GetKey_none by blast
next
  case (Some e)
  obtain s c where e: "e = (s, c)" by (cases e)
  have "key_entry_ok L a (s, c)" using basic_ok_entry [OF assms Some] e by simp
  then show ?thesis
    using that(2) Some e basic_GetKey_entry [of st a s c L] by (simp add: key_entry_ok_def)
qed

lemma scripts_ok_get: "scripts_ok L m \<Longrightarrow> map_of m h = Some s \<Longrightarrow> CScript_GetID L s = h"
  by (auto simp: scripts_ok_def dest!: map_of_SomeD)

interpretation basic: key_store L "basic_ok L" "basic_store L :: CBasicKeyStore \<Rightarrow> CKeyStore" for L
proof unfold_locales
  fix s :: CBasicKeyStore and a
  assume ok: "basic_ok L s"
  show "\<exists>r. GetKey (basic_store L s) a = Inr r"
    by (rule basic_GetKey_cases [OF ok, of a]) (simp_all add: basic_store_def)
  show "HaveKey (basic_store L s) a \<and> (\<exists>p. CKey_GetPubKey k = Inr p \<and> CPubKey_GetID L p = a)"
    if "GetKey (basic_store L s) a = Inr (Some k)" for k
    using that
    by (rule_tac basic_GetKey_cases [OF ok, of a])
      (auto simp: basic_store_def CKey_GetPubKey_def key_entry_ok_def basic_HaveKey_def smap_count_def)
  show "HaveKey (basic_store L s) a \<and> CPubKey_GetID L p = a"
    if "GetPubKey (basic_store L s) a = Inr (Some p)" for p
    using that
    by (rule_tac basic_GetKey_cases [OF ok, of a])
      (auto simp: basic_store_def CKey_GetPubKey_def CKeyStore_GetPubKey_def key_entry_ok_def
        basic_HaveKey_def smap_count_def)
  show "\<exists>p. GetPubKey (basic_store L s) a = Inr (Some p)"
    if "GetKey (basic_store L s) a = Inr (Some k)" for k
    using that
    by (rule_tac basic_GetKey_cases [OF ok, of a])
      (auto simp: basic_store_def CKey_GetPubKey_def CKeyStore_GetPubKey_def)
  fix h
  show "HaveCScript (basic_store L s) h = (GetCScript (basic_store L s) h \<noteq> None)"
    by (simp add: basic_store_def basic_HaveCScript_def basic_GetCScript_def smap_count_def)
  show "CScript_GetID L c = h" if "GetCScript (basic_store L s) h = Some c" for c
    using that ok scripts_ok_get [of L "mapScripts s" h c]
    by (simp add: basic_store_def basic_GetCScript_def basic_ok_def)
qed

section \<open>The encrypting store meets it too\<close>
lemma opens_key:
  assumes "opens L m (pub, cs)"
  obtains s where "DecryptSecret L m cs (CPubKey_GetHash L pub) = Some s" "length s = 32"
    "CKey_SetSecret L s False (snd (CKey_SetPubKey L pub CKey_Reset)) =
       Inr \<lparr>k_secret = Some s, k_pub = Some (pk_vch pub), k_fSet = True,
             fCompressedPubKey = (length (pk_vch pub) = 33)\<rparr>"
proof -
  obtain s where s: "DecryptSecret L m cs (CPubKey_GetHash L pub) = Some s" "length s = 32"
    "EC_pub_of_secret L s (length (pk_vch pub) = 33) = pk_vch pub" "EC_o2i L (pk_vch pub)"
    using assms by (auto simp: opens_def)
  then show thesis
    by (intro that [of s]; cases "length (pk_vch pub) = 33")
      (simp_all add: CKey_SetSecret_def CKey_SetPubKey_def CKey_Reset_def Let_def)
qed

lemma DecryptSecret_locked: "DecryptSecret L [] c iv = None"
  by (simp add: EncryptSecret_eq WALLET_CRYPTO_KEY_SIZE_def)

lemma crypto_GetKey_cases:
  assumes "crypto_ok L st" and "fUseCrypto st"
  obtains "crypto_GetKey L st a = Inr None" "map_of (mapCryptedKeys st) a = None \<or> vMasterKey st = []"
  | pub cs s where "map_of (mapCryptedKeys st) a = Some (pub, cs)" "CPubKey_GetID L pub = a"
      "DecryptSecret L (vMasterKey st) cs (CPubKey_GetHash L pub) = Some s"
      "crypto_GetKey L st a = Inr (Some \<lparr>k_secret = Some s, k_pub = Some (pk_vch pub), k_fSet = True,
             fCompressedPubKey = (length (pk_vch pub) = 33)\<rparr>)"
proof (cases "map_of (mapCryptedKeys st) a")
  case None
  then show ?thesis using that(1) assms(2) by (simp add: crypto_GetKey_def IsCrypted_def)
next
  case (Some e)
  obtain pub cs where e: "e = (pub, cs)" by fastforce
  have id: "CPubKey_GetID L pub = a"
    using assms(1) Some e by (auto simp: crypto_ok_def dest!: map_of_SomeD)
  show ?thesis
  proof (cases "vMasterKey st = []")
    case True
    then show ?thesis
      using that(1) assms(2) Some e by (simp add: crypto_GetKey_def IsCrypted_def DecryptSecret_locked)
  next
    case False
    then have "opens L (vMasterKey st) (pub, cs)"
      using assms(1) Some e by (auto simp: crypto_ok_def sealed_def dest!: map_of_SomeD)
    then show ?thesis
    proof (rule opens_key)
      fix s
      assume "DecryptSecret L (vMasterKey st) cs (CPubKey_GetHash L pub) = Some s" "length s = 32"
        "CKey_SetSecret L s False (snd (CKey_SetPubKey L pub CKey_Reset)) =
          Inr \<lparr>k_secret = Some s, k_pub = Some (pk_vch pub), k_fSet = True,
             fCompressedPubKey = (length (pk_vch pub) = 33)\<rparr>"
      then show ?thesis
        using that(2) [of pub cs s] assms(2) Some e id by (simp add: crypto_GetKey_def IsCrypted_def)
    qed
  qed
qed

lemma crypto_store_clear:
  "\<not> fUseCrypto st \<Longrightarrow> crypto_HaveKey st = basic_HaveKey st \<and> crypto_GetKey L st = basic_GetKey L st
     \<and> crypto_GetPubKey L st = CKeyStore_GetPubKey (basic_GetKey L st)"
  by (auto simp: crypto_HaveKey_def crypto_GetKey_def crypto_GetPubKey_def IsCrypted_def fun_eq_iff
      CKeyStore_GetPubKey_def)

interpretation crypto: key_store L "crypto_ok L" "crypto_store L" for L
proof unfold_locales
  fix s :: CCryptoKeyStore and a
  assume ok: "crypto_ok L s"
  then have basic: "basic_ok L s" by (simp add: crypto_ok_def)
  note clear = crypto_store_clear [of s L]
  show "\<exists>r. GetKey (crypto_store L s) a = Inr r"
  proof (cases "fUseCrypto s")
    case True
    show ?thesis by (rule crypto_GetKey_cases [OF ok True, of a]) (simp_all add: crypto_store_def)
  next
    case False
    show ?thesis
      by (rule basic_GetKey_cases [OF basic, of a]) (use clear False in \<open>simp_all add: crypto_store_def\<close>)
  qed
  show "HaveKey (crypto_store L s) a \<and> (\<exists>p. CKey_GetPubKey k = Inr p \<and> CPubKey_GetID L p = a)"
    if k: "GetKey (crypto_store L s) a = Inr (Some k)" for k
  proof (cases "fUseCrypto s")
    case True
    show ?thesis
      by (rule crypto_GetKey_cases [OF ok True, of a])
        (use k True in \<open>auto simp: crypto_store_def CKey_GetPubKey_def crypto_HaveKey_def IsCrypted_def smap_count_def CPubKey_GetID_def\<close>)
  next
    case False
    show ?thesis
      by (rule basic_GetKey_cases [OF basic, of a])
        (use k clear False in \<open>auto simp: crypto_store_def CKey_GetPubKey_def key_entry_ok_def basic_HaveKey_def smap_count_def\<close>)
  qed
  show "HaveKey (crypto_store L s) a \<and> CPubKey_GetID L p = a"
    if p: "GetPubKey (crypto_store L s) a = Inr (Some p)" for p
  proof (cases "fUseCrypto s")
    case True
    then show ?thesis
      using p ok by (auto simp: crypto_store_def crypto_GetPubKey_def crypto_HaveKey_def IsCrypted_def
          smap_count_def crypto_ok_def dest!: map_of_SomeD split: option.splits)
  next
    case False
    show ?thesis
      by (rule basic_GetKey_cases [OF basic, of a])
        (use p clear False in \<open>auto simp: crypto_store_def CKey_GetPubKey_def CKeyStore_GetPubKey_def
          key_entry_ok_def basic_HaveKey_def smap_count_def\<close>)
  qed
  show "\<exists>p. GetPubKey (crypto_store L s) a = Inr (Some p)"
    if k: "GetKey (crypto_store L s) a = Inr (Some k)" for k
  proof (cases "fUseCrypto s")
    case True
    show ?thesis
      by (rule crypto_GetKey_cases [OF ok True, of a])
        (use k True in \<open>auto simp: crypto_store_def crypto_GetPubKey_def IsCrypted_def\<close>)
  next
    case False
    show ?thesis
      by (rule basic_GetKey_cases [OF basic, of a])
        (use k clear False in \<open>auto simp: crypto_store_def CKey_GetPubKey_def CKeyStore_GetPubKey_def\<close>)
  qed
  fix h
  show "HaveCScript (crypto_store L s) h = (GetCScript (crypto_store L s) h \<noteq> None)"
    by (simp add: crypto_store_def basic_HaveCScript_def basic_GetCScript_def smap_count_def)
  show "CScript_GetID L c = h" if "GetCScript (crypto_store L s) h = Some c" for c
    using that basic scripts_ok_get [of L "mapScripts s" h c]
    by (simp add: crypto_store_def basic_GetCScript_def basic_ok_def)
qed

section \<open>The operations keep the invariants\<close>

text \<open>A key as the program makes them, from a secret and a flag.\<close>

definition key_ok :: "extlib \<Rightarrow> CKey \<Rightarrow> bool" where
  "key_ok L k \<longleftrightarrow> (\<exists>s. length s = 32 \<and> k_secret k = Some s
     \<and> k_pub k = Some (EC_pub_of_secret L s (fCompressedPubKey k)))"

lemma key_ok_get:
  assumes "key_ok L k"
  obtains s where "length s = 32" "CKey_GetSecret k = Inr (s, fCompressedPubKey k)"
    "CKey_GetPubKey k = Inr \<lparr>pk_vch = EC_pub_of_secret L s (fCompressedPubKey k)\<rparr>"
  using assms by (auto simp: key_ok_def CKey_GetSecret_def CKey_GetPubKey_def)

lemma basic_AddKey_ok:
  assumes "basic_ok L st" and "key_ok L k"
  shows "\<exists>st'. basic_AddKey L k st = Inr (True, st') \<and> basic_ok L st'"
  using assms(2)
proof (rule key_ok_get)
  fix s
  assume "length s = 32" "CKey_GetSecret k = Inr (s, fCompressedPubKey k)"
    "CKey_GetPubKey k = Inr \<lparr>pk_vch = EC_pub_of_secret L s (fCompressedPubKey k)\<rparr>"
  then show ?thesis
    using assms(1) by (auto simp: basic_AddKey_def basic_ok_def set_smap_put key_entry_ok_def)
qed

lemma basic_AddCScript_ok: "basic_ok L st \<Longrightarrow> basic_ok L (snd (basic_AddCScript L s st))"
  by (auto simp: basic_AddCScript_def basic_ok_def scripts_ok_def set_smap_put)

lemma basic_AddWatchOnly_ok: "basic_ok L st \<Longrightarrow> basic_ok L (snd (basic_AddWatchOnly L h s st))"
  by (auto simp: basic_AddWatchOnly_def basic_ok_def Let_def split: option.split)

lemma SetCrypted_ok:
  assumes "crypto_ok L st" and "SetCrypted st = (ok, st')"
  shows "crypto_ok L st'" and "ok \<longleftrightarrow> fUseCrypto st'" and "mapCryptedKeys st' = mapCryptedKeys st"
    and "vMasterKey st' = vMasterKey st" and "mapKeys st' = mapKeys st"
  using assms by (auto simp: SetCrypted_def crypto_ok_def basic_ok_def sealed_def split: if_splits)

lemma crypto_Lock_ok: "crypto_ok L st \<Longrightarrow> crypto_ok L (snd (crypto_Lock st))"
proof -
  assume ok: "crypto_ok L st"
  obtain c st1 where s: "SetCrypted st = (c, st1)" by fastforce
  note f = SetCrypted_ok [OF ok s]
  show ?thesis using f(1,2) by (simp add: crypto_Lock_def s crypto_ok_def basic_ok_def)
qed

lemma crypto_Unlock_ok:
  assumes "crypto_ok L st" and "sealed L m st" and "crypto_Unlock L m st = Inr (ok, st')"
  shows "crypto_ok L st'"
proof -
  obtain c st1 where s: "SetCrypted st = (c, st1)" by fastforce
  note f = SetCrypted_ok [OF assms(1) s]
  consider "st' = st1" | "c" "st' = st1\<lparr>vMasterKey := m\<rparr>"
    using assms(3) s by (auto simp: crypto_Unlock_def rbind_eq_Inr split: if_splits)
  then show ?thesis
  proof cases
    case 1
    then show ?thesis using f(1) by simp
  next
    case 2
    then show ?thesis using f assms(2) by (auto simp: crypto_ok_def basic_ok_def sealed_def)
  qed
qed

lemma AddCryptedKey_ok:
  assumes "crypto_ok L st" and "vMasterKey st \<noteq> [] \<longrightarrow> opens L (vMasterKey st) (pub, cs)"
  shows "crypto_ok L (snd (AddCryptedKey L pub cs st))"
proof -
  obtain c st1 where s: "SetCrypted st = (c, st1)" by fastforce
  note f = SetCrypted_ok [OF assms(1) s]
  show ?thesis
    using f assms(2) unfolding AddCryptedKey_def s
    by (auto simp: crypto_ok_def basic_ok_def sealed_def set_smap_put)
qed

lemma crypto_AddKey_ok:
  assumes "crypto_ok L st" and "key_ok L k" and "aes_ok L" and "ec_ok L"
    and "crypto_AddKey L k st = Inr (ok, st')"
  shows "crypto_ok L st'"
proof (cases "fUseCrypto st")
  case False
  then have "basic_AddKey L k st = Inr (ok, st')" using assms(5) by (simp add: crypto_AddKey_def IsCrypted_def)
  moreover from this have "fUseCrypto st' = fUseCrypto st \<and> vMasterKey st' = vMasterKey st
      \<and> mapCryptedKeys st' = mapCryptedKeys st"
    by (auto simp: basic_AddKey_def rbind_eq_Inr)
  ultimately show ?thesis
    using basic_AddKey_ok [of L st k] assms(1,2) False by (auto simp: crypto_ok_def sealed_def)
next
  case True
  obtain s where s: "length s = 32" "CKey_GetSecret k = Inr (s, fCompressedPubKey k)"
    "CKey_GetPubKey k = Inr \<lparr>pk_vch = EC_pub_of_secret L s (fCompressedPubKey k)\<rparr>"
    using key_ok_get [OF assms(2)] by blast
  let ?pub = "\<lparr>pk_vch = EC_pub_of_secret L s (fCompressedPubKey k)\<rparr>"
  show ?thesis
  proof (cases "st' = st")
    case False
    then obtain cs where cs: "EncryptSecret L (vMasterKey st) s (CPubKey_GetHash L ?pub) = Some cs"
      and st': "st' = snd (AddCryptedKey L ?pub cs st)"
      using assms(5) True s by (auto simp: crypto_AddKey_def IsCrypted_def split: if_splits option.splits)
    have "DecryptSecret L (vMasterKey st) cs (CPubKey_GetHash L ?pub) = Some s"
      using DecryptSecret_Encrypt [OF assms(3) cs] .
    then have "opens L (vMasterKey st) (?pub, cs)"
      using s(1) assms(4) by (auto simp: opens_def ec_ok_def)
    then show ?thesis unfolding st' by (intro AddCryptedKey_ok assms(1)) simp
  qed (use assms(1) in simp)
qed

section \<open>Encrypting a wallet\<close>

abbreviation "pub_of L s c \<equiv> \<lparr>pk_vch = EC_pub_of_secret L s c\<rparr>"

lemma AddCryptedKey_crypted:
  "fUseCrypto st \<Longrightarrow> AddCryptedKey L pub cs st =
     (True, st\<lparr>mapCryptedKeys := smap_put (CPubKey_GetID L pub) (pub, cs) (mapCryptedKeys st)\<rparr>)"
  by (simp add: AddCryptedKey_def SetCrypted_def)

text \<open>The entries the loop adds, and that it adds nothing else.\<close>
lemma encrypt_loop_result:
  assumes "\<forall>(a, e) \<in> set keys. key_entry_ok L a e" and "distinct (map fst keys)"
    and "fUseCrypto st" and "smap_ok (mapCryptedKeys st)" and "encrypt_loop L m keys st = Inr (True, st')"
  shows "\<exists>crypted. st' = st\<lparr>mapCryptedKeys := crypted\<rparr> \<and> smap_ok crypted
    \<and> (\<forall>a. case map_of keys a of
          None \<Rightarrow> map_of crypted a = map_of (mapCryptedKeys st) a
        | Some (s, c) \<Rightarrow> \<exists>cs. EncryptSecret L m s (CPubKey_GetHash L (pub_of L s c)) = Some cs
            \<and> map_of crypted a = Some (pub_of L s c, cs))"
  using assms
proof (induction keys arbitrary: st)
  case Nil
  then show ?case by (auto intro!: exI [of _ "mapCryptedKeys st"])
next
  case (Cons p keys)
  obtain a s c where p: "p = (a, s, c)" by (cases p) auto
  have e: "length s = 32" "CPubKey_GetID L (pub_of L s c) = a"
    using Cons.prems(1) by (auto simp: p key_entry_ok_def)
  obtain cs where cs: "EncryptSecret L m s (CPubKey_GetHash L (pub_of L s c)) = Some cs"
    using Cons.prems(5) e
    by (auto simp: p CKey_SetSecret_def CKey_GetPubKey_def CKey_GetSecret_def CKey_Reset_def Let_def
        split: option.splits)
  let ?st = "st\<lparr>mapCryptedKeys := smap_put a (pub_of L s c, cs) (mapCryptedKeys st)\<rparr>"
  have "encrypt_loop L m keys ?st = Inr (True, st')"
    using Cons.prems(5) e cs AddCryptedKey_crypted [OF Cons.prems(3)]
    by (auto simp: p CKey_SetSecret_def CKey_GetPubKey_def CKey_GetSecret_def CKey_Reset_def Let_def)
  moreover have "fUseCrypto ?st" "smap_ok (mapCryptedKeys ?st)" using Cons.prems(3,4) by simp_all
  ultimately obtain crypted where crypted: "st' = ?st\<lparr>mapCryptedKeys := crypted\<rparr>" "smap_ok crypted"
    and entries: "\<And>b. case map_of keys b of
          None \<Rightarrow> map_of crypted b = map_of (mapCryptedKeys ?st) b
        | Some (s, c) \<Rightarrow> \<exists>cs. EncryptSecret L m s (CPubKey_GetHash L (pub_of L s c)) = Some cs
            \<and> map_of crypted b = Some (pub_of L s c, cs)"
    using Cons.IH [of ?st] Cons.prems(1,2) by auto
  have new: "map_of keys a = None" using Cons.prems(2) by (simp add: p map_of_eq_None_iff)
  have "case map_of (p # keys) b of
          None \<Rightarrow> map_of crypted b = map_of (mapCryptedKeys st) b
        | Some (s, c) \<Rightarrow> \<exists>cs. EncryptSecret L m s (CPubKey_GetHash L (pub_of L s c)) = Some cs
            \<and> map_of crypted b = Some (pub_of L s c, cs)" for b
    using entries [of b] new cs Cons.prems(4)
    by (cases "b = a") (auto simp: p map_of_smap_put split: option.splits)
  with crypted show ?case by (intro exI [of _ crypted]) simp
qed

lemma EncryptKeys_result:
  assumes "crypto_ok L st" and "\<not> fUseCrypto st" and "EncryptKeys L m st = Inr (True, st')"
  obtains crypted where "st' = st\<lparr>fUseCrypto := True, mapCryptedKeys := crypted, mapKeys := []\<rparr>" "smap_ok crypted"
    "\<And>a. case map_of (mapKeys st) a of
          None \<Rightarrow> map_of crypted a = None
        | Some (s, c) \<Rightarrow> \<exists>cs. EncryptSecret L m s (CPubKey_GetHash L (pub_of L s c)) = Some cs
            \<and> map_of crypted a = Some (pub_of L s c, cs)"
proof -
  have none: "mapCryptedKeys st = []" and basic: "basic_ok L st"
    using assms(1,2) by (simp_all add: crypto_ok_def)
  obtain st1 where loop: "encrypt_loop L m (mapKeys st) (st\<lparr>fUseCrypto := True\<rparr>) = Inr (True, st1)"
    and st': "st' = st1\<lparr>mapKeys := []\<rparr>"
    using assms(2,3) none by (auto simp: EncryptKeys_def IsCrypted_def rbind_eq_Inr split: if_splits)
  have "\<forall>(a, e) \<in> set (mapKeys st). key_entry_ok L a e" "distinct (map fst (mapKeys st))"
    using basic by (simp_all add: basic_ok_def smap_ok_distinct)
  from encrypt_loop_result [OF this _ _ loop] none
  obtain crypted where c: "st1 = st\<lparr>fUseCrypto := True, mapCryptedKeys := crypted\<rparr>" "smap_ok crypted"
    and e0: "\<And>a. case map_of (mapKeys st) a of
          None \<Rightarrow> map_of crypted a = map_of (mapCryptedKeys (st\<lparr>fUseCrypto := True\<rparr>)) a
        | Some (s, c) \<Rightarrow> \<exists>cs. EncryptSecret L m s (CPubKey_GetHash L (pub_of L s c)) = Some cs
            \<and> map_of crypted a = Some (pub_of L s c, cs)"
    by auto
  have e: "case map_of (mapKeys st) a of
          None \<Rightarrow> map_of crypted a = None
        | Some (s, c) \<Rightarrow> \<exists>cs. EncryptSecret L m s (CPubKey_GetHash L (pub_of L s c)) = Some cs
            \<and> map_of crypted a = Some (pub_of L s c, cs)" for a
    using e0 [of a] none by (auto split: option.splits)
  show thesis using that [OF _ c(2) e] c(1) st' by simp
qed

lemma EncryptKeys_opens:
  assumes "crypto_ok L st" and "\<not> fUseCrypto st" and "aes_ok L" and "ec_ok L"
    and "EncryptKeys L m st = Inr (True, st')"
  shows "crypto_ok L st'" and "sealed L m st'"
proof -
  obtain crypted where c: "st' = st\<lparr>fUseCrypto := True, mapCryptedKeys := crypted, mapKeys := []\<rparr>" "smap_ok crypted"
    and e: "\<And>a. case map_of (mapKeys st) a of
          None \<Rightarrow> map_of crypted a = None
        | Some (s, c) \<Rightarrow> \<exists>cs. EncryptSecret L m s (CPubKey_GetHash L (pub_of L s c)) = Some cs
            \<and> map_of crypted a = Some (pub_of L s c, cs)"
    using EncryptKeys_result [OF assms(1,2,5)] by blast
  have entry: "opens L m x \<and> CPubKey_GetID L (fst x) = a" if "(a, x) \<in> set crypted" for a x
  proof -
    have x: "map_of crypted a = Some x" using that c(2) by (simp add: smap_set_iff)
    then obtain s k where k: "map_of (mapKeys st) a = Some (s, k)"
      using e [of a] by (cases "map_of (mapKeys st) a") auto
    with e [of a] x obtain cs where cs: "EncryptSecret L m s (CPubKey_GetHash L (pub_of L s k)) = Some cs"
      "x = (pub_of L s k, cs)" by auto
    have "key_entry_ok L a (s, k)" using k assms(1) basic_ok_entry [of L st a "(s, k)"] by (auto simp: crypto_ok_def)
    then show ?thesis
      using DecryptSecret_Encrypt [OF assms(3) cs(1)] cs(2) assms(4)
      by (auto simp: opens_def key_entry_ok_def ec_ok_def)
  qed
  have "vMasterKey st = []" "basic_ok L st" using assms(1,2) by (simp_all add: crypto_ok_def)
  with entry c show "crypto_ok L st'" "sealed L m st'"
    by (auto simp: crypto_ok_def basic_ok_def sealed_def)
qed

lemma crypto_GetKey_locked: "fUseCrypto st \<Longrightarrow> vMasterKey st = [] \<Longrightarrow> crypto_GetKey L st a = Inr None"
  by (auto simp: crypto_GetKey_def IsCrypted_def DecryptSecret_locked split: option.split)

lemma unlock_check_sealed:
  assumes "\<forall>(a, e) \<in> set crypted. opens L m e"
  shows "unlock_check L m crypted = Inr True"
proof (cases crypted)
  case (Cons p rest)
  obtain a pub cs where p: "p = (a, pub, cs)" by (cases p) auto
  have "opens L m (pub, cs)" using assms by (simp add: Cons p)
  then show ?thesis by (rule opens_key) (simp add: unlock_check_def Cons p CKey_GetPubKey_def)
qed (simp add: unlock_check_def)

section \<open>Histories of a store\<close>

text \<open>
  What every history of a store keeps. \<open>failed\<close> says that \<open>EncryptKeys\<close> has stopped half way,
  which leaves both maps filled; the wallet then ends the program.
\<close>

definition crypto_inv :: "extlib \<Rightarrow> bool \<Rightarrow> CCryptoKeyStore \<Rightarrow> bool" where
  "crypto_inv L failed st \<longleftrightarrow> basic_ok L st
     \<and> (fUseCrypto st \<and> \<not> failed \<longrightarrow> mapKeys st = [])
     \<and> (\<not> fUseCrypto st \<longrightarrow> vMasterKey st = [] \<and> mapCryptedKeys st = [])
     \<and> smap_ok (mapCryptedKeys st)
     \<and> (\<forall>(a, e) \<in> set (mapCryptedKeys st). CPubKey_GetID L (fst e) = a)"

lemma crypto_inv_ok:
  "crypto_inv L failed st \<Longrightarrow> \<not> fUseCrypto st \<Longrightarrow> crypto_ok L st"
  by (simp add: crypto_inv_def crypto_ok_def)

lemma crypto_inv_failed: "crypto_inv L failed st \<Longrightarrow> crypto_inv L (failed \<or> f) st"
  by (auto simp: crypto_inv_def)

lemma SetCrypted_inv:
  assumes "crypto_inv L failed st" and "SetCrypted st = (ok, st')"
  shows "crypto_inv L failed st'" and "ok \<longleftrightarrow> fUseCrypto st'" and "mapCryptedKeys st' = mapCryptedKeys st"
  using assms by (auto simp: SetCrypted_def crypto_inv_def basic_ok_def split: if_splits)

lemma crypto_Lock_inv: "crypto_inv L failed st \<Longrightarrow> crypto_inv L failed (snd (crypto_Lock st))"
proof -
  assume inv: "crypto_inv L failed st"
  obtain c st1 where s: "SetCrypted st = (c, st1)" by fastforce
  show ?thesis using SetCrypted_inv(1) [OF inv s] by (simp add: crypto_Lock_def s crypto_inv_def basic_ok_def)
qed

lemma crypto_Unlock_inv:
  assumes "crypto_inv L failed st" and "crypto_Unlock L m st = Inr (ok, st')"
  shows "crypto_inv L failed st'"
proof -
  obtain c st1 where s: "SetCrypted st = (c, st1)" by fastforce
  note f = SetCrypted_inv [OF assms(1) s]
  have "st' = st1 \<or> c \<and> st' = st1\<lparr>vMasterKey := m\<rparr>"
    using assms(2) s by (auto simp: crypto_Unlock_def rbind_eq_Inr split: if_splits)
  then show ?thesis using f(1,2) by (elim disjE conjE) (simp_all add: crypto_inv_def basic_ok_def)
qed

lemma AddCryptedKey_inv:
  assumes "crypto_inv L failed st"
  shows "crypto_inv L failed (snd (AddCryptedKey L pub cs st))"
proof -
  obtain c st1 where s: "SetCrypted st = (c, st1)" by fastforce
  note f = SetCrypted_inv [OF assms s]
  show ?thesis using f unfolding AddCryptedKey_def s by (auto simp: crypto_inv_def basic_ok_def set_smap_put)
qed

lemma crypto_AddKey_inv:
  assumes "crypto_inv L failed st" and "key_ok L k" and "crypto_AddKey L k st = Inr (ok, st')"
  shows "crypto_inv L failed st'"
proof (cases "fUseCrypto st")
  case False
  then have "basic_AddKey L k st = Inr (ok, st')" using assms(3) by (simp add: crypto_AddKey_def IsCrypted_def)
  moreover from this have "fUseCrypto st' = fUseCrypto st \<and> vMasterKey st' = vMasterKey st
      \<and> mapCryptedKeys st' = mapCryptedKeys st"
    by (auto simp: basic_AddKey_def rbind_eq_Inr)
  ultimately show ?thesis
    using basic_AddKey_ok [of L st k] assms(1,2) False by (auto simp: crypto_inv_def)
next
  case True
  have "st' = st \<or> (\<exists>pub cs. st' = snd (AddCryptedKey L pub cs st))"
    using assms(3) True
    by (auto simp: crypto_AddKey_def IsCrypted_def rbind_eq_Inr split: if_splits option.splits prod.splits)
      (metis snd_conv)+
  then show ?thesis using assms(1) AddCryptedKey_inv by blast
qed

lemma encrypt_loop_inv:
  "crypto_inv L True st \<Longrightarrow> fUseCrypto st \<Longrightarrow> encrypt_loop L m keys st = Inr (ok, st') \<Longrightarrow>
     crypto_inv L True st' \<and> fUseCrypto st'"
proof (induction keys arbitrary: st)
  case (Cons p keys)
  obtain a s c where p: "p = (a, s, c)" by (cases p) auto
  have step: "crypto_inv L True (snd (AddCryptedKey L pub cs st))" "fUseCrypto (snd (AddCryptedKey L pub cs st))"
    "fst (AddCryptedKey L pub cs st)" for pub cs
    using AddCryptedKey_inv [OF Cons.prems(1)] AddCryptedKey_crypted [OF Cons.prems(2)] Cons.prems(2) by simp_all
  have "st' = st \<or> (\<exists>pub cs. encrypt_loop L m keys (snd (AddCryptedKey L pub cs st)) = Inr (ok, st'))"
    using Cons.prems(3) step(3)
    by (auto simp: p rbind_eq_Inr split_beta split: option.splits if_splits)
  then show ?case using Cons.IH step Cons.prems(1,2) by blast
qed simp

lemma EncryptKeys_inv:
  assumes "crypto_inv L failed st" and "EncryptKeys L m st = Inr (ok, st')"
  shows "crypto_inv L (failed \<or> \<not> ok \<and> \<not> fUseCrypto st) st'"
proof (cases "mapCryptedKeys st \<noteq> [] \<or> IsCrypted st")
  case True
  then show ?thesis using assms by (auto simp: EncryptKeys_def crypto_inv_def)
next
  case False
  then obtain ok1 st1 where l: "encrypt_loop L m (mapKeys st) (st\<lparr>fUseCrypto := True\<rparr>) = Inr (ok1, st1)"
      "ok = ok1" "st' = (if ok1 then st1\<lparr>mapKeys := []\<rparr> else st1)"
    using assms(2) by (auto simp: EncryptKeys_def rbind_eq_Inr split: if_splits)
  have "crypto_inv L True (st\<lparr>fUseCrypto := True\<rparr>)" using assms(1) False by (simp add: crypto_inv_def basic_ok_def IsCrypted_def)
  from encrypt_loop_inv [OF this _ l(1)] have "crypto_inv L True st1" "fUseCrypto st1" by simp_all
  then show ?thesis using l(2,3) False by (auto simp: crypto_inv_def basic_ok_def smap_ok_def IsCrypted_def)
qed

text \<open>
  The histories of a store: keys the program made, encrypted keys of any origin, any key tried
  for unlocking and any outcome of an encryption.
\<close>

inductive store_reachable :: "extlib \<Rightarrow> bool \<Rightarrow> CCryptoKeyStore \<Rightarrow> bool" for L where
  new: "store_reachable L False crypto_new"
| add_key: "store_reachable L failed st \<Longrightarrow> key_ok L k \<Longrightarrow> crypto_AddKey L k st = Inr (ok, st') \<Longrightarrow>
    store_reachable L failed st'"
| add_crypted: "store_reachable L failed st \<Longrightarrow> store_reachable L failed (snd (AddCryptedKey L pub cs st))"
| add_script: "store_reachable L failed st \<Longrightarrow> store_reachable L failed (snd (basic_AddCScript L s st))"
| add_watch: "store_reachable L failed st \<Longrightarrow>
    store_reachable L failed (snd (basic_AddWatchOnly L (crypto_HaveKey st) s st))"
| lock: "store_reachable L failed st \<Longrightarrow> store_reachable L failed (snd (crypto_Lock st))"
| unlock: "store_reachable L failed st \<Longrightarrow> crypto_Unlock L m st = Inr (ok, st') \<Longrightarrow> store_reachable L failed st'"
| encrypt: "store_reachable L failed st \<Longrightarrow> EncryptKeys L m st = Inr (ok, st') \<Longrightarrow>
    store_reachable L (failed \<or> \<not> ok \<and> \<not> fUseCrypto st) st'"

lemma store_reachable_inv: "store_reachable L failed st \<Longrightarrow> crypto_inv L failed st"
proof (induction rule: store_reachable.induct)
  case new
  then show ?case by (simp add: crypto_new_def crypto_inv_def basic_ok_def scripts_ok_def)
next
  case (add_script failed st s)
  then show ?case using basic_AddCScript_ok [of L st s] by (auto simp: crypto_inv_def basic_AddCScript_def)
next
  case (add_watch failed st s)
  then show ?case using basic_AddWatchOnly_ok [of L st "crypto_HaveKey st" s]
    by (auto simp: crypto_inv_def basic_AddWatchOnly_def Let_def split: option.splits)
qed (blast intro: crypto_AddKey_inv AddCryptedKey_inv crypto_Lock_inv crypto_Unlock_inv EncryptKeys_inv)+

text \<open>What a check that succeeds has seen of the first encrypted key.\<close>
lemma unlock_check_opens:
  assumes "ec_ok L" and "unlock_check L m ((a, pub, cs) # rest) = Inr True"
  shows "opens L m (pub, cs)"
proof -
  obtain s where s: "DecryptSecret L m cs (CPubKey_GetHash L pub) = Some s" "length s = 32"
    using assms(2) by (auto simp: unlock_check_def split: option.splits if_splits)
  have "\<exists>c. pub_of L s c = pub"
    using assms(2) s by (auto simp: unlock_check_def CKey_SetSecret_def CKey_GetPubKey_def Let_def rbind_eq_Inr split: if_splits)
  then obtain c where c: "EC_pub_of_secret L s c = pk_vch pub" by fastforce
  then have "EC_o2i L (pk_vch pub)" "c \<longleftrightarrow> length (pk_vch pub) = 33"
    using assms(1) s(2) unfolding ec_ok_def by (metis, metis (no_types, opaque_lifting) numeral_eq_iff semiring_norm(85,87,88,89,90))
  then show ?thesis using s c by (auto simp: opens_def)
qed

lemma crypto_GetKey_sealed:
  assumes "fUseCrypto st" and "sealed L (vMasterKey st) st" and "crypto_GetKey L st a = Inr (Some k)"
  shows "\<exists>p. CKey_GetPubKey k = Inr p \<and> crypto_GetPubKey L st a = Inr (Some p)"
proof -
  obtain pub cs where e: "map_of (mapCryptedKeys st) a = Some (pub, cs)"
    using assms(1,3) by (auto simp: crypto_GetKey_def IsCrypted_def split: option.splits)
  then have "opens L (vMasterKey st) (pub, cs)" using assms(2) by (auto simp: sealed_def dest!: map_of_SomeD)
  then show ?thesis
    by (rule opens_key) (use e assms(1,3) in \<open>auto simp: crypto_GetKey_def crypto_GetPubKey_def IsCrypted_def CKey_GetPubKey_def\<close>)
qed

lemma crypto_HaveKey_pub:
  assumes "crypto_inv L failed st"
  shows "crypto_HaveKey st a \<longleftrightarrow> (\<exists>p. crypto_GetPubKey L st a = Inr (Some p) \<and> CPubKey_GetID L p = a)"
proof (cases "fUseCrypto st")
  case True
  then show ?thesis using assms
    by (auto simp: crypto_HaveKey_def crypto_GetPubKey_def crypto_inv_def IsCrypted_def smap_count_def
        dest!: map_of_SomeD split: option.splits)
next
  case False
  have "basic_ok L st" using assms by (simp add: crypto_inv_def)
  then show ?thesis using crypto_store_clear [OF False, of L]
    by (rule_tac basic_GetKey_cases [of L st a])
      (auto simp: CKeyStore_GetPubKey_def CKey_GetPubKey_def key_entry_ok_def basic_HaveKey_def smap_count_def)
qed

section \<open>Properties\<close>

text \<open>C24: Whatever the wallet has done with a store - any key tried for unlocking, any
  encrypted key added - it holds keys in the clear or encrypted, never both (but for an
  encryption that failed half way); it names the public key of exactly the keys it has, locked or
  not; while it is locked it hands out no secret; a key it hands out is one it has, and the key of
  that public key provided the master key opens every entry; \<open>Unlock\<close> accepts only a key that
  opens the first entry; and a script is returned only for its hash.\<close>
theorem key_store_invariant:
  assumes "store_reachable L failed st" and "ec_ok L"
  shows "(fUseCrypto st \<and> \<not> failed \<longrightarrow> mapKeys st = []) \<and> (\<not> fUseCrypto st \<longrightarrow> vMasterKey st = [] \<and> mapCryptedKeys st = [])
    \<and> (\<forall>a. HaveKey (crypto_store L st) a \<longleftrightarrow> (\<exists>p. GetPubKey (crypto_store L st) a = Inr (Some p) \<and> CPubKey_GetID L p = a))
    \<and> (IsLocked st \<longrightarrow> (\<forall>a. GetKey (crypto_store L st) a = Inr None))
    \<and> (\<forall>a k. GetKey (crypto_store L st) a = Inr (Some k) \<longrightarrow> HaveKey (crypto_store L st) a
          \<and> (sealed L (vMasterKey st) st \<longrightarrow> (\<exists>p. CKey_GetPubKey k = Inr p \<and> GetPubKey (crypto_store L st) a = Inr (Some p))))
    \<and> (\<forall>m st'. crypto_Unlock L m st = Inr (True, st') \<longrightarrow> vMasterKey st' = m
          \<and> (mapCryptedKeys st = [] \<or> opens L m (snd (hd (mapCryptedKeys st)))))
    \<and> (\<forall>h s. GetCScript (crypto_store L st) h = Some s \<longrightarrow> CScript_GetID L s = h)"
proof (intro conjI allI impI)
  note inv = store_reachable_inv [OF assms(1)]
  show "mapKeys st = []" if "fUseCrypto st \<and> \<not> failed" using inv that by (auto simp: crypto_inv_def)
  show "vMasterKey st = []" "mapCryptedKeys st = []" if "\<not> fUseCrypto st" using inv that by (simp_all add: crypto_inv_def)
  show have_pub: "HaveKey (crypto_store L st) a \<longleftrightarrow> (\<exists>p. GetPubKey (crypto_store L st) a = Inr (Some p) \<and> CPubKey_GetID L p = a)" for a
    using crypto_HaveKey_pub [OF inv] by (simp add: crypto_store_def)
  show "GetKey (crypto_store L st) a = Inr None" if "IsLocked st" for a
    using that crypto_GetKey_locked [of st L a] by (auto simp: IsLocked_def IsCrypted_def crypto_store_def split: if_splits)
  fix a k assume k: "GetKey (crypto_store L st) a = Inr (Some k)"
  show "HaveKey (crypto_store L st) a"
  proof (cases "fUseCrypto st")
    case True
    then show ?thesis using k by (auto simp: crypto_store_def crypto_GetKey_def crypto_HaveKey_def IsCrypted_def smap_count_def split: option.splits)
  qed (use k crypto.GetKey_Some [OF crypto_inv_ok [OF inv]] in blast)
  show "\<exists>p. CKey_GetPubKey k = Inr p \<and> GetPubKey (crypto_store L st) a = Inr (Some p)" if "sealed L (vMasterKey st) st"
  proof (cases "fUseCrypto st")
    case True
    then show ?thesis using k crypto_GetKey_sealed [OF True that, of a k] by (simp add: crypto_store_def)
  next
    case False
    then have c: "crypto_GetKey L st a = Inr (Some k)" "crypto_GetPubKey L st a = CKeyStore_GetPubKey (crypto_GetKey L st) a"
      using k by (simp_all add: crypto_store_def crypto_GetPubKey_def IsCrypted_def)
    obtain p where "CKey_GetPubKey k = Inr p" using crypto.GetKey_Some [OF crypto_inv_ok [OF inv False] k] by blast
    then show ?thesis using c by (simp add: crypto_store_def CKeyStore_GetPubKey_def)
  qed
next
  fix m st' assume u: "crypto_Unlock L m st = Inr (True, st')"
  obtain c st1 where s: "SetCrypted st = (c, st1)" by fastforce
  note f = SetCrypted_inv(3) [OF store_reachable_inv [OF assms(1)] s]
  have c: "unlock_check L m (mapCryptedKeys st) = Inr True" "st' = st1\<lparr>vMasterKey := m\<rparr>"
    using u s f by (auto simp: crypto_Unlock_def rbind_eq_Inr split: if_splits)
  show "vMasterKey st' = m" using c(2) by simp
  show "mapCryptedKeys st = [] \<or> opens L m (snd (hd (mapCryptedKeys st)))"
    using c(1) unlock_check_opens [OF assms(2)] by (cases "mapCryptedKeys st") auto
next
  fix h s assume "GetCScript (crypto_store L st) h = Some s"
  then show "CScript_GetID L s = h"
    using store_reachable_inv [OF assms(1)] scripts_ok_get [of L "mapScripts st" h s]
    by (simp add: crypto_store_def basic_GetCScript_def basic_ok_def crypto_inv_def)
qed

theorem key_store_invariant_witness:
  "\<exists>st. store_reachable ref_lib False st \<and> IsLocked st
    \<and> GetKey (crypto_store ref_lib st) (CPubKey_GetID ref_lib (pub_of ref_lib (replicate 32 7) True)) = Inr None
    \<and> (\<exists>p. GetPubKey (crypto_store ref_lib st) (CPubKey_GetID ref_lib (pub_of ref_lib (replicate 32 7) True)) = Inr (Some p)
         \<and> CPubKey_GetID ref_lib p = CPubKey_GetID ref_lib (pub_of ref_lib (replicate 32 7) True))"
proof -
  let ?pub = "pub_of ref_lib (replicate 32 7) True"
  define a where "a = CPubKey_GetID ref_lib ?pub"
  let ?k = "\<lparr>k_secret = Some (replicate 32 7), k_pub = Some (EC_pub_of_secret ref_lib (replicate 32 7) True),
     k_fSet = True, fCompressedPubKey = True\<rparr>"
  let ?st = "crypto_new\<lparr>mapKeys := [(a, replicate 32 7, True)]\<rparr>"
  have "crypto_AddKey ref_lib ?k crypto_new = Inr (True, ?st)"
    by (simp add: crypto_AddKey_def IsCrypted_def crypto_new_def basic_AddKey_def CKey_GetSecret_def CKey_GetPubKey_def
        a_def)
  then have 1: "store_reachable ref_lib False ?st"
    by (rule store_reachable.add_key [OF store_reachable.new, rotated]) (simp add: key_ok_def)
  have aes: "AES_encrypt ref_lib k iv b = Some (b @ k)" for k iv b by (simp add: ref_lib_def)
  obtain cs where e: "EncryptKeys ref_lib (replicate 32 9) ?st
      = Inr (True, crypto_new\<lparr>fUseCrypto := True, mapCryptedKeys := [(a, ?pub, cs)]\<rparr>)"
    by (simp add: EncryptKeys_def crypto_new_def IsCrypted_def CKey_SetSecret_def CKey_GetPubKey_def
        CKey_GetSecret_def CKey_Reset_def Let_def EncryptSecret_eq WALLET_CRYPTO_KEY_SIZE_def aes
        AddCryptedKey_crypted a_def)
  let ?st' = "crypto_new\<lparr>fUseCrypto := True, mapCryptedKeys := [(a, ?pub, cs)]\<rparr>"
  have r: "store_reachable ref_lib False ?st'" using store_reachable.encrypt [OF 1 e] by simp
  have "IsLocked ?st'" "HaveKey (crypto_store ref_lib ?st') a"
    by (simp_all add: IsLocked_def IsCrypted_def crypto_new_def crypto_store_def crypto_HaveKey_def smap_count_def)
  then show ?thesis using key_store_invariant [OF r ec_ok_ref] r unfolding a_def by blast
qed

text \<open>C25: Encrypting a wallet loses no key. After \<open>EncryptKeys\<close> succeeds the store knows the same
  keys and hands out none; unlocking it with the same master key succeeds, and then it hands out
  for every address exactly the key it did before.\<close>
theorem encrypt_unlock:
  assumes "crypto_ok L st" and "\<not> fUseCrypto st" and "aes_ok L" and "ec_ok L"
    and "EncryptKeys L m st = Inr (True, st')"
  shows "crypto_HaveKey st' = crypto_HaveKey st \<and> crypto_GetKey L st' a = Inr None
    \<and> (\<exists>st''. crypto_Unlock L m st' = Inr (True, st'') \<and> crypto_ok L st''
          \<and> crypto_GetKey L st'' a = crypto_GetKey L st a)"
proof -
  obtain crypted where c: "st' = st\<lparr>fUseCrypto := True, mapCryptedKeys := crypted, mapKeys := []\<rparr>" "smap_ok crypted"
    and e: "\<And>a. case map_of (mapKeys st) a of
          None \<Rightarrow> map_of crypted a = None
        | Some (s, c) \<Rightarrow> \<exists>cs. EncryptSecret L m s (CPubKey_GetHash L (pub_of L s c)) = Some cs
            \<and> map_of crypted a = Some (pub_of L s c, cs)"
    using EncryptKeys_result [OF assms(1,2,5)] by blast
  note ok' = EncryptKeys_opens [OF assms]
  have clear: "vMasterKey st = []" "basic_ok L st" using assms(1,2) by (simp_all add: crypto_ok_def)
  have same_keys: "crypto_HaveKey st' b = crypto_HaveKey st b" for b
    using e [of b] assms(2)
    by (auto simp: crypto_HaveKey_def basic_HaveKey_def IsCrypted_def c(1) smap_count_def split: option.splits)
  have locked: "crypto_GetKey L st' a = Inr None" by (rule crypto_GetKey_locked) (simp_all add: c(1) clear)
  let ?st = "st'\<lparr>vMasterKey := m\<rparr>"
  have unlock: "crypto_Unlock L m st' = Inr (True, ?st)"
    using ok'(2) unlock_check_sealed [of crypted L m]
    by (simp add: crypto_Unlock_def SetCrypted_def c(1) sealed_def)
  have ok: "crypto_ok L ?st" using crypto_Unlock_ok [OF ok' unlock] .
  have "crypto_GetKey L ?st a = basic_GetKey L st a"
  proof (rule basic_GetKey_cases [OF clear(2), of a])
    assume "map_of (mapKeys st) a = None" "basic_GetKey L st a = Inr None"
    then show ?thesis using e [of a] by (simp add: crypto_GetKey_def IsCrypted_def c(1))
  next
    fix s k
    assume k: "map_of (mapKeys st) a = Some (s, k)" "key_entry_ok L a (s, k)"
      and g: "basic_GetKey L st a = Inr (Some \<lparr>k_secret = Some s, k_pub = Some (EC_pub_of_secret L s k),
        k_fSet = True, fCompressedPubKey = k\<rparr>)"
    obtain cs where cs: "EncryptSecret L m s (CPubKey_GetHash L (pub_of L s k)) = Some cs"
      "map_of crypted a = Some (pub_of L s k, cs)"
      using e [of a] k(1) by auto
    have "length s = 32" using k(2) by (simp add: key_entry_ok_def)
    with assms(4) show ?thesis
      using DecryptSecret_Encrypt [OF assms(3) cs(1)] cs(2) g
      by (auto simp: crypto_GetKey_def IsCrypted_def c(1) CKey_SetSecret_def CKey_SetPubKey_def
          CKey_Reset_def ec_ok_def Let_def)
  qed
  with unlock ok have locked_then_same: "\<exists>st''. crypto_Unlock L m st' = Inr (True, st'') \<and> crypto_ok L st''
      \<and> crypto_GetKey L st'' a = crypto_GetKey L st a"
    using crypto_store_clear [OF assms(2), of L] by auto
  from same_keys locked locked_then_same show ?thesis by blast
qed

theorem encrypt_unlock_witness:
  "\<exists>st' st''. EncryptKeys ref_lib (replicate 32 9)
      (crypto_new\<lparr>mapKeys := [(CPubKey_GetID ref_lib (pub_of ref_lib (replicate 32 7) True), replicate 32 7, True)]\<rparr>)
      = Inr (True, st')
    \<and> crypto_Unlock ref_lib (replicate 32 9) st' = Inr (True, st'')
    \<and> crypto_GetKey ref_lib st'' (CPubKey_GetID ref_lib (pub_of ref_lib (replicate 32 7) True)) \<noteq> Inr None"
proof -
  define a where "a = CPubKey_GetID ref_lib (pub_of ref_lib (replicate 32 7) True)"
  let ?st = "crypto_new\<lparr>mapKeys := [(a, replicate 32 7, True)]\<rparr>"
  have ok: "crypto_ok ref_lib ?st" "\<not> fUseCrypto ?st"
    by (simp_all add: crypto_ok_def basic_ok_def crypto_new_def key_entry_ok_def a_def scripts_ok_def smap_ok_def)
  have aes: "AES_encrypt ref_lib k iv b = Some (b @ k)" for k iv b by (simp add: ref_lib_def)
  have "\<exists>st'. EncryptKeys ref_lib (replicate 32 9) ?st = Inr (True, st')"
    by (simp add: EncryptKeys_def crypto_new_def IsCrypted_def CKey_SetSecret_def CKey_GetPubKey_def
        CKey_GetSecret_def CKey_Reset_def Let_def EncryptSecret_eq WALLET_CRYPTO_KEY_SIZE_def aes
        AddCryptedKey_crypted)
  then obtain st' where st': "EncryptKeys ref_lib (replicate 32 9) ?st = Inr (True, st')" by blast
  have "crypto_GetKey ref_lib ?st a \<noteq> Inr None"
    by (simp add: crypto_GetKey_def IsCrypted_def crypto_new_def basic_GetKey_def CKey_SetSecret_def Let_def)
  then show ?thesis
    using st' encrypt_unlock [OF ok aes_ok_ref ec_ok_ref st', of a] unfolding a_def by metis
qed

end
