(* ===== verification/Scrypt.thy ===== *)
theory Scrypt
  imports Extern
begin

text \<open>
  The hash of a block header: HMAC-SHA256 and PBKDF2 (\<open>pbkdf2.cpp\<close>), the Salsa20/8 mixing
  of \<open>scrypt-generic.cpp\<close> and the composition \<open>scrypt\<close> of \<open>scrypt_mine.cpp\<close>. SHA-256 and
  the assembly version of \<open>scrypt_core\<close> are fields of the library \<open>L\<close>: it is the assembly that
  the makefiles link; none of them builds the portable core, which stands here as its reference.
\<close>

section \<open>HMAC and PBKDF2\<close>

definition be32dec :: "bytes \<Rightarrow> u32" where
  "be32dec p = ucast (p ! 3) + push_bit 8 (ucast (p ! 2)) + push_bit 16 (ucast (p ! 1))
     + push_bit 24 (ucast (p ! 0))"

definition be32enc :: "u32 \<Rightarrow> bytes" where
  "be32enc x = [ucast (drop_bit 24 x AND 255), ucast (drop_bit 16 x AND 255),
     ucast (drop_bit 8 x AND 255), ucast (x AND 255)]"

text \<open>A SHA-256 context is what has been fed to it.\<close>

record HMAC_SHA256_CTX =
  ictx :: bytes
  octx :: bytes

definition hmac_pad :: "byte \<Rightarrow> bytes \<Rightarrow> bytes" where
  "hmac_pad c K = map (\<lambda>i. if i < length K then c XOR K ! i else c) [0..<64]"

definition HMAC_SHA256_Init :: "extlib \<Rightarrow> bytes \<Rightarrow> HMAC_SHA256_CTX" where
  "HMAC_SHA256_Init L K0 =
     (let K = if 64 < length K0 then SHA256 L K0 else K0
      in \<lparr>ictx = hmac_pad 0x36 K, octx = hmac_pad 0x5c K\<rparr>)"

definition HMAC_SHA256_Update :: "bytes \<Rightarrow> HMAC_SHA256_CTX \<Rightarrow> HMAC_SHA256_CTX" where
  "HMAC_SHA256_Update b ctx = ctx\<lparr>ictx := ictx ctx @ b\<rparr>"

definition HMAC_SHA256_Final :: "extlib \<Rightarrow> HMAC_SHA256_CTX \<Rightarrow> bytes" where
  "HMAC_SHA256_Final L ctx = SHA256 L (octx ctx @ SHA256 L (ictx ctx))"

text \<open>
  \<open>pbkdf2_rounds\<close> is the loop \<open>for (j = 2; j <= c; j++)\<close>; its count is the number of
  rounds left. \<open>pbkdf2_blocks\<close> is the outer loop, with \<open>i * 32\<close> bytes already written.
\<close>

fun pbkdf2_rounds :: "extlib \<Rightarrow> bytes \<Rightarrow> nat \<Rightarrow> bytes \<Rightarrow> bytes \<Rightarrow> bytes" where
  "pbkdf2_rounds L passwd 0 U T = T"
| "pbkdf2_rounds L passwd (Suc n) U T =
     (let U' = HMAC_SHA256_Final L (HMAC_SHA256_Update U (HMAC_SHA256_Init L passwd))
      in pbkdf2_rounds L passwd n U' (map2 (XOR) T U'))"

function pbkdf2_blocks :: "extlib \<Rightarrow> bytes \<Rightarrow> HMAC_SHA256_CTX \<Rightarrow> nat \<Rightarrow> nat \<Rightarrow> nat \<Rightarrow> bytes" where
  "pbkdf2_blocks L passwd PShctx c dkLen i =
     (if i * 32 < dkLen then
        let U = HMAC_SHA256_Final L (HMAC_SHA256_Update (be32enc (of_nat (i + 1))) PShctx);
            T = pbkdf2_rounds L passwd (c - 1) U U;
            clen = min (dkLen - i * 32) 32
        in take clen T @ pbkdf2_blocks L passwd PShctx c dkLen (i + 1)
      else [])"
  by pat_completeness auto
termination by (relation "measure (\<lambda>(L, p, s, c, n, i). n - i * 32)") auto

declare pbkdf2_blocks.simps [simp del]

definition PBKDF2_SHA256 :: "extlib \<Rightarrow> bytes \<Rightarrow> bytes \<Rightarrow> nat \<Rightarrow> nat \<Rightarrow> bytes" where
  "PBKDF2_SHA256 L passwd salt c dkLen =
     pbkdf2_blocks L passwd (HMAC_SHA256_Update salt (HMAC_SHA256_Init L passwd)) c dkLen 0"

section \<open>Salsa20/8\<close>

text \<open>
  The macro \<open>R\<close> and one assignment \<open>x_d ^= R(x_a + x_b, n)\<close> over the sixteen locals,
  held as a list. \<open>salsa_columns\<close> and \<open>salsa_rows\<close> list the assignments in the order of
  the loop body.
\<close>

definition salsa_R :: "u32 \<Rightarrow> nat \<Rightarrow> u32" where
  "salsa_R a b = push_bit b a OR drop_bit (32 - b) a"

fun salsa_op :: "nat \<times> nat \<times> nat \<times> nat \<Rightarrow> u32 list \<Rightarrow> u32 list" where
  "salsa_op (d, a, b, n) x = x[d := x ! d XOR salsa_R (x ! a + x ! b) n]"

definition salsa_columns :: "(nat \<times> nat \<times> nat \<times> nat) list" where
  "salsa_columns =
     [(4, 0, 12, 7), (9, 5, 1, 7), (14, 10, 6, 7), (3, 15, 11, 7),
      (8, 4, 0, 9), (13, 9, 5, 9), (2, 14, 10, 9), (7, 3, 15, 9),
      (12, 8, 4, 13), (1, 13, 9, 13), (6, 2, 14, 13), (11, 7, 3, 13),
      (0, 12, 8, 18), (5, 1, 13, 18), (10, 6, 2, 18), (15, 11, 7, 18)]"

definition salsa_rows :: "(nat \<times> nat \<times> nat \<times> nat) list" where
  "salsa_rows =
     [(1, 0, 3, 7), (6, 5, 4, 7), (11, 10, 9, 7), (12, 15, 14, 7),
      (2, 1, 0, 9), (7, 6, 5, 9), (8, 11, 10, 9), (13, 12, 15, 9),
      (3, 2, 1, 13), (4, 7, 6, 13), (9, 8, 11, 13), (14, 13, 12, 13),
      (0, 3, 2, 18), (5, 4, 7, 18), (10, 9, 8, 18), (15, 14, 13, 18)]"

definition xor_salsa8 :: "u32 list \<Rightarrow> u32 list \<Rightarrow> u32 list" where
  "xor_salsa8 B Bx =
     (let B' = map2 (XOR) B Bx;
          x = (fold salsa_op (salsa_columns @ salsa_rows) ^^ 4) B'
      in map2 (+) B' x)"

section \<open>The scrypt core and the block hash\<close>

text \<open>
  \<open>X\<close> is 32 words, \<open>V\<close> the scratchpad as a list of the blocks written to it, the first
  first. \<open>salsa_pair\<close> is the two calls both loops end with.
\<close>

definition salsa_pair :: "u32 list \<Rightarrow> u32 list" where
  "salsa_pair X =
     (let a = xor_salsa8 (take 16 X) (drop 16 X); b = xor_salsa8 (drop 16 X) a in a @ b)"

fun scrypt_fill :: "nat \<Rightarrow> u32 list \<Rightarrow> u32 list list \<Rightarrow> u32 list \<times> u32 list list" where
  "scrypt_fill 0 X V = (X, V)"
| "scrypt_fill (Suc n) X V = scrypt_fill n (salsa_pair X) (V @ [X])"

fun scrypt_mix :: "nat \<Rightarrow> u32 list \<Rightarrow> u32 list list \<Rightarrow> u32 list" where
  "scrypt_mix 0 X V = X"
| "scrypt_mix (Suc n) X V =
     scrypt_mix n (salsa_pair (map2 (XOR) X (V ! unat ((X ! 16) AND 1023)))) V"

definition scrypt_core :: "u32 list \<Rightarrow> u32 list" where
  "scrypt_core X = (case scrypt_fill 1024 X [] of (X', V) \<Rightarrow> scrypt_mix 1024 X' V)"

text \<open>A buffer of bytes read and written as words of the (little-endian) machine.\<close>

definition words_of_bytes :: "bytes \<Rightarrow> u32 list" where
  "words_of_bytes b = map (\<lambda>i. of_nat (le_val (take 4 (drop (4 * i) b)))) [0..<length b div 4]"

definition bytes_of_words :: "u32 list \<Rightarrow> bytes" where
  "bytes_of_words ws = concat (map (\<lambda>w. le_bytes 4 (unat w)) ws)"

text \<open>
  \<open>scrypt_blockhash\<close> of \<open>scrypt-generic.cpp\<close> calls OpenSSL's PBKDF2, the argument
  \<open>kdf passwd salt iterations length\<close>; \<open>scrypt_hash\<close> the program's own. The salt of the
  latter's first call is the first \<open>sizeof(block_header) = 80\<close> bytes of the input.
\<close>

definition scrypt_blockhash :: "(bytes \<Rightarrow> bytes \<Rightarrow> nat \<Rightarrow> nat \<Rightarrow> bytes) \<Rightarrow> bytes \<Rightarrow> u256" where
  "scrypt_blockhash kdf input =
     (let X = words_of_bytes (kdf (take 80 input) (take 80 input) 1 128)
      in of_nat (le_val (kdf (take 80 input) (bytes_of_words (scrypt_core X)) 1 32)))"

definition scrypt :: "extlib \<Rightarrow> bytes \<Rightarrow> bytes" where
  "scrypt L input =
     (let X = words_of_bytes (PBKDF2_SHA256 L input (take 80 input) 1 128)
      in PBKDF2_SHA256 L input (bytes_of_words (scrypt_asm L X)) 1 32)"

definition scrypt_hash :: "extlib \<Rightarrow> bytes \<Rightarrow> u256" where
  "scrypt_hash L input = of_nat (le_val (scrypt L input))"

section \<open>The reference: RFC 7914\<close>

text \<open>
  HMAC, PBKDF2, Salsa20/8, scryptBlockMix and scryptROMix for \<open>r = 1\<close>, \<open>p = 1\<close>, as the
  RFCs 2104, 2898 and 7914 define them.
\<close>

definition rfc_hmac :: "extlib \<Rightarrow> bytes \<Rightarrow> bytes \<Rightarrow> bytes" where
  "rfc_hmac L K text =
     (let K0 = if 64 < length K then SHA256 L K else K;
          K1 = K0 @ replicate (64 - length K0) 0
      in SHA256 L (map ((XOR) 0x5c) K1 @ SHA256 L (map ((XOR) 0x36) K1 @ text)))"

fun rfc_U :: "extlib \<Rightarrow> bytes \<Rightarrow> bytes \<Rightarrow> nat \<Rightarrow> nat \<Rightarrow> bytes" where
  "rfc_U L P S i 0 = rfc_hmac L P (S @ be32enc (of_nat i))"
| "rfc_U L P S i (Suc k) = rfc_hmac L P (rfc_U L P S i k)"

fun rfc_F :: "extlib \<Rightarrow> bytes \<Rightarrow> bytes \<Rightarrow> nat \<Rightarrow> nat \<Rightarrow> bytes" where
  "rfc_F L P S i 0 = rfc_U L P S i 0"
| "rfc_F L P S i (Suc k) = map2 (XOR) (rfc_F L P S i k) (rfc_U L P S i (Suc k))"

definition rfc_pbkdf2 :: "extlib \<Rightarrow> bytes \<Rightarrow> bytes \<Rightarrow> nat \<Rightarrow> nat \<Rightarrow> bytes" where
  "rfc_pbkdf2 L P S c dkLen =
     take dkLen (concat (map (\<lambda>i. rfc_F L P S i (c - 1)) [1..<(dkLen + 31) div 32 + 1]))"

fun quarterround :: "u32 \<times> u32 \<times> u32 \<times> u32 \<Rightarrow> u32 \<times> u32 \<times> u32 \<times> u32" where
  "quarterround (y0, y1, y2, y3) =
     (let z1 = y1 XOR word_rotl 7 (y0 + y3);
          z2 = y2 XOR word_rotl 9 (z1 + y0);
          z3 = y3 XOR word_rotl 13 (z2 + z1);
          z0 = y0 XOR word_rotl 18 (z3 + z2)
      in (z0, z1, z2, z3))"

definition columnround :: "u32 list \<Rightarrow> u32 list" where
  "columnround x =
     (let (y0, y4, y8, y12) = quarterround (x ! 0, x ! 4, x ! 8, x ! 12);
          (y5, y9, y13, y1) = quarterround (x ! 5, x ! 9, x ! 13, x ! 1);
          (y10, y14, y2, y6) = quarterround (x ! 10, x ! 14, x ! 2, x ! 6);
          (y15, y3, y7, y11) = quarterround (x ! 15, x ! 3, x ! 7, x ! 11)
      in [y0, y1, y2, y3, y4, y5, y6, y7, y8, y9, y10, y11, y12, y13, y14, y15])"

definition rowround :: "u32 list \<Rightarrow> u32 list" where
  "rowround y =
     (let (z0, z1, z2, z3) = quarterround (y ! 0, y ! 1, y ! 2, y ! 3);
          (z5, z6, z7, z4) = quarterround (y ! 5, y ! 6, y ! 7, y ! 4);
          (z10, z11, z8, z9) = quarterround (y ! 10, y ! 11, y ! 8, y ! 9);
          (z15, z12, z13, z14) = quarterround (y ! 15, y ! 12, y ! 13, y ! 14)
      in [z0, z1, z2, z3, z4, z5, z6, z7, z8, z9, z10, z11, z12, z13, z14, z15])"

definition salsa20_8 :: "u32 list \<Rightarrow> u32 list" where
  "salsa20_8 x = map2 (+) x (((\<lambda>y. rowround (columnround y)) ^^ 4) x)"

definition rfc_block_mix :: "u32 list \<Rightarrow> u32 list" where
  "rfc_block_mix B =
     (let B0 = take 16 B; B1 = drop 16 B;
          Y0 = salsa20_8 (map2 (XOR) B1 B0); Y1 = salsa20_8 (map2 (XOR) Y0 B1)
      in Y0 @ Y1)"

definition rfc_integerify :: "u32 list \<Rightarrow> nat" where
  "rfc_integerify B = le_val (bytes_of_words (drop 16 B))"

definition rfc_romix :: "nat \<Rightarrow> u32 list \<Rightarrow> u32 list" where
  "rfc_romix N B =
     (let V = (\<lambda>i. (rfc_block_mix ^^ i) B)
      in ((\<lambda>X. rfc_block_mix (map2 (XOR) X (V (rfc_integerify X mod N)))) ^^ N) (V N))"

definition rfc_scrypt :: "extlib \<Rightarrow> bytes \<Rightarrow> bytes" where
  "rfc_scrypt L h =
     rfc_pbkdf2 L h (bytes_of_words (rfc_romix 1024 (words_of_bytes (rfc_pbkdf2 L h h 1 128)))) 1 32"

section \<open>Salsa20/8 is Salsa20/8\<close>
lemma salsa_R_is_rotl:
  assumes "0 < n" "n < 32"
  shows "salsa_R x n = word_rotl n x"
proof (rule bit_word_eqI)
  fix m :: nat
  assume m: "m < LENGTH(32)"
  have "bit (word_rotl n x) m \<longleftrightarrow> bit x ((m + (32 - n)) mod 32)"
    using assms m by (simp add: bit_word_rotl_iff)
  also have "(m + (32 - n)) mod 32 = (if n \<le> m then m - n else m + (32 - n))"
    using assms m by (auto simp: mod_if)
  finally have r: "bit (word_rotl n x) m \<longleftrightarrow> bit x (if n \<le> m then m - n else m + (32 - n))" .
  have "bit (salsa_R x n) m \<longleftrightarrow> n \<le> m \<and> bit x (m - n) \<or> bit x (32 - n + m)"
    using m by (auto simp: salsa_R_def bit_or_iff bit_push_bit_iff bit_drop_bit_eq)
  moreover have "\<not> bit x (32 - n + m)" if "n \<le> m"
    using that assms bit_imp_le_length [of x "32 - n + m"] by auto
  ultimately show "bit (salsa_R x n) m = bit (word_rotl n x) m"
    using r by (auto simp: add.commute)
qed

lemma salsa_R_rotl:
  "salsa_R x 7 = word_rotl 7 x" "salsa_R x 9 = word_rotl 9 x"
  "salsa_R x 13 = word_rotl 13 x" "salsa_R x 18 = word_rotl 18 x"
  by (simp_all add: salsa_R_is_rotl)

lemma length_16_cases:
  assumes "length (xs :: 'a list) = 16"
  obtains a b c d e f g h i j k l m n p q
    where "xs = [a, b, c, d, e, f, g, h, i, j, k, l, m, n, p, q]"
  using assms by (auto simp: numeral_eq_Suc length_Suc_conv)

lemma salsa_columns_round: "length x = 16 \<Longrightarrow> fold salsa_op salsa_columns x = columnround x"
  by (erule length_16_cases) (simp add: salsa_columns_def columnround_def salsa_R_rotl Let_def ac_simps)

lemma salsa_rows_round: "length x = 16 \<Longrightarrow> fold salsa_op salsa_rows x = rowround x"
  by (erule length_16_cases) (simp add: salsa_rows_def rowround_def salsa_R_rotl Let_def ac_simps)

lemma length_rounds [simp]: "length (columnround x) = 16" "length (rowround x) = 16"
  by (simp_all add: columnround_def rowround_def Let_def)

lemma salsa_loop:
  "length x = 16 \<Longrightarrow>
     (fold salsa_op (salsa_columns @ salsa_rows) ^^ n) x = ((\<lambda>y. rowround (columnround y)) ^^ n) x
     \<and> length (((\<lambda>y. rowround (columnround y)) ^^ n) x) = 16"
  by (induction n) (simp_all add: salsa_columns_round salsa_rows_round)

lemma xor_salsa8_salsa:
  assumes "length B = 16" "length Bx = 16"
  shows "xor_salsa8 B Bx = salsa20_8 (map2 (XOR) B Bx)"
  using assms salsa_loop [of "map2 (XOR) B Bx" 4]
  by (simp add: xor_salsa8_def salsa20_8_def Let_def)

lemma length_salsa20_8 [simp]: "length x = 16 \<Longrightarrow> length (salsa20_8 x) = 16"
  using salsa_loop [of x 4] by (simp add: salsa20_8_def)

lemma map2_xor_commute: "map2 (XOR) xs ys = map2 (XOR) ys (xs :: 'a::len word list)"
  by (rule nth_equalityI) (auto simp: xor.commute)

lemma salsa_pair_block_mix:
  assumes "length X = 32"
  shows "salsa_pair X = rfc_block_mix X" and "length (salsa_pair X) = 32"
  using assms
  by (simp_all add: salsa_pair_def rfc_block_mix_def Let_def xor_salsa8_salsa map2_xor_commute)

section \<open>The core is ROMix\<close>
lemma scrypt_fill_iterates:
  "scrypt_fill n X V = ((salsa_pair ^^ n) X, V @ map (\<lambda>i. (salsa_pair ^^ i) X) [0..<n])"
proof (induction n arbitrary: X V)
  case 0
  then show ?case by simp
next
  case (Suc n)
  have "map (\<lambda>i. (salsa_pair ^^ i) X) [0..<Suc n]
    = X # map (\<lambda>i. (salsa_pair ^^ i) (salsa_pair X)) [0..<n]"
    by (simp only: map_upt_Suc funpow_0 funpow_Suc_right o_apply)
  with Suc.IH show ?case by (simp add: funpow_swap1)
qed

lemma length_pair_iter: "length X = 32 \<Longrightarrow> length ((salsa_pair ^^ n) X) = 32"
  by (induction n) (simp_all add: salsa_pair_block_mix(2))

lemma block_mix_iter:
  "length X = 32 \<Longrightarrow> (rfc_block_mix ^^ n) X = (salsa_pair ^^ n) X"
  by (induction n) (simp_all add: salsa_pair_block_mix(1) [OF length_pair_iter])

text \<open>The index the code reads, the low ten bits of one word, is the number the RFC reduces.\<close>
lemma le_val_bytes_of_words_Cons:
  "le_val (bytes_of_words (w # ws)) = unat w + 4294967296 * le_val (bytes_of_words ws)"
proof -
  have "le_val (le_bytes 4 (unat w)) = unat w"
    by (simp add: le_val_le_bytes)
  then show ?thesis by (simp add: bytes_of_words_def le_val_append)
qed

lemma integerify:
  assumes "length X = 32"
  shows "rfc_integerify X mod 1024 = unat (X ! 16 AND 1023)"
proof -
  have "16 < length X" using assms by simp
  then have d: "drop 16 X = X ! 16 # drop (Suc 16) X" by (rule Cons_nth_drop_Suc [symmetric])
  define w where "w = X ! 16"
  have "unat (w AND 1023) = unat w AND 1023"
    by (simp add: unsigned_and_eq)
  also have "\<dots> = take_bit 10 (unat w)"
    by (simp add: take_bit_eq_mask mask_numeral)
  also have "\<dots> = unat w mod 1024"
    by (simp add: take_bit_eq_mod)
  finally have a: "unat (w AND 1023) = unat w mod 1024" .
  moreover have "(unat w + 4294967296 * k) mod 1024 = unat w mod 1024" for k
  proof -
    have "unat w + 4294967296 * k = unat w + 1024 * (4194304 * k)" by simp
    then show ?thesis by (simp only: mod_mult_self2)
  qed
  ultimately show ?thesis
    using a by (simp only: rfc_integerify_def d le_val_bytes_of_words_Cons w_def)
qed

lemma scrypt_mix_iterates:
  assumes "length X = 32" and "\<And>i. length (W i) = 32"
  shows "scrypt_mix n X (map W [0..<1024])
    = ((\<lambda>X. rfc_block_mix (map2 (XOR) X (W (rfc_integerify X mod 1024)))) ^^ n) X"
  using assms(1)
proof (induction n arbitrary: X)
  case 0
  then show ?case by simp
next
  case (Suc n)
  let ?j = "unat (X ! 16 AND 1023)"
  have j: "rfc_integerify X mod 1024 = ?j" using Suc.prems by (rule integerify)
  then have "?j < 1024" by (metis mod_less_divisor zero_less_numeral)
  then have w: "map W [0..<1024] ! ?j = W ?j" by simp
  have l: "length (map2 (XOR) X (W ?j)) = 32" using Suc.prems assms(2) by simp
  show ?case
    using Suc.IH [OF salsa_pair_block_mix(2) [OF l]]
    by (simp only: scrypt_mix.simps w j funpow_Suc_right o_apply salsa_pair_block_mix(1) [OF l])
qed

lemma scrypt_core_romix:
  assumes "length X = 32"
  shows "scrypt_core X = rfc_romix 1024 X"
  using scrypt_mix_iterates [OF length_pair_iter [OF assms] length_pair_iter [OF assms], of 1024 1024]
  by (simp only: scrypt_core_def scrypt_fill_iterates rfc_romix_def Let_def block_mix_iter [OF assms]
      case_prod_conv append_Nil)

section \<open>The key derivation\<close>
lemma hmac_pad_map:
  "length K \<le> 64 \<Longrightarrow> hmac_pad c K = map ((XOR) c) (K @ replicate (64 - length K) 0)"
  by (rule nth_equalityI) (auto simp: hmac_pad_def nth_append)

lemma HMAC_is_rfc:
  assumes "hash_ok L"
  shows "HMAC_SHA256_Final L (HMAC_SHA256_Update t (HMAC_SHA256_Init L K)) = rfc_hmac L K t"
proof -
  have "length (SHA256 L K) \<le> 64" using assms by (simp add: hash_ok_def)
  then show ?thesis
    by (simp add: HMAC_SHA256_Final_def HMAC_SHA256_Update_def HMAC_SHA256_Init_def rfc_hmac_def
        hmac_pad_map Let_def)
qed

lemma HMAC_Update_Update:
  "HMAC_SHA256_Update b (HMAC_SHA256_Update a ctx) = HMAC_SHA256_Update (a @ b) ctx"
  by (simp add: HMAC_SHA256_Update_def)

lemma pbkdf2_rounds_F:
  assumes "hash_ok L"
  shows "pbkdf2_rounds L P n (rfc_U L P S i k) (rfc_F L P S i k) = rfc_F L P S i (k + n)"
proof (induction n arbitrary: k)
  case 0
  then show ?case by simp
next
  case (Suc n)
  from Suc.IH [of "Suc k"] show ?case by (simp add: HMAC_is_rfc [OF assms])
qed

lemma length_rfc_hmac [simp]: "hash_ok L \<Longrightarrow> length (rfc_hmac L K t) = 32"
  by (simp add: rfc_hmac_def Let_def hash_ok_def)

lemma length_rfc_U [simp]: "hash_ok L \<Longrightarrow> length (rfc_U L P S i k) = 32"
  by (cases k) auto

lemma length_rfc_F [simp]: "hash_ok L \<Longrightarrow> length (rfc_F L P S i k) = 32"
  by (induction k) (auto simp del: rfc_U.simps)

lemma pbkdf2_blocks_rfc:
  assumes h: "hash_ok L"
  shows "pbkdf2_blocks L P (HMAC_SHA256_Update S (HMAC_SHA256_Init L P)) c n i
    = take (n - i * 32) (concat (map (\<lambda>i. rfc_F L P S i (c - 1)) [i + 1..<(n + 31) div 32 + 1]))"
proof (induction "n - i * 32" arbitrary: i rule: less_induct)
  case less
  show ?case
  proof (cases "i * 32 < n")
    case True
    then have "Suc i < Suc ((n + 31) div 32)" by simp
    then have r: "[Suc i..<Suc ((n + 31) div 32)] = Suc i # [Suc (Suc i)..<Suc ((n + 31) div 32)]"
      by (rule upt_conv_Cons)
    have F: "pbkdf2_rounds L P (c - 1) (rfc_U L P S (i + 1) 0) (rfc_U L P S (i + 1) 0) = rfc_F L P S (i + 1) (c - 1)"
      using pbkdf2_rounds_F [OF h, of P "c - 1" S "i + 1" 0] by simp
    have d: "n - (i + 1) * 32 < n - i * 32" using True by simp
    from F True less [OF d] show ?thesis
      by (subst pbkdf2_blocks.simps)
        (simp add: r HMAC_Update_Update HMAC_is_rfc h Let_def min_def add.commute [of 32] del: upt_Suc)
  next
    case False
    then show ?thesis by (subst pbkdf2_blocks.simps) simp
  qed
qed

lemma PBKDF2_is_rfc: "hash_ok L \<Longrightarrow> PBKDF2_SHA256 L P S c n = rfc_pbkdf2 L P S c n"
  using pbkdf2_blocks_rfc [of L P S c n 0] by (simp add: PBKDF2_SHA256_def rfc_pbkdf2_def)

lemma length_rfc_pbkdf2:
  assumes "hash_ok L"
  shows "length (rfc_pbkdf2 L P S c n) = n"
proof -
  have "length (concat (map (\<lambda>i. rfc_F L P S i (c - 1)) [1..<(n + 31) div 32 + 1]))
    = (n + 31) div 32 * 32"
    using assms by (simp add: length_concat comp_def sum_list_triv)
  then show ?thesis unfolding rfc_pbkdf2_def by simp
qed

section \<open>The block hash\<close>

definition scrypt_ok :: "extlib \<Rightarrow> bool" where
  "scrypt_ok L \<longleftrightarrow> (\<forall>X. length X = 32 \<longrightarrow> scrypt_asm L X = scrypt_core X)"

lemma scrypt_ok_ref: "scrypt_ok (ref_lib\<lparr>scrypt_asm := scrypt_core\<rparr>)"
  by (simp add: scrypt_ok_def)

text \<open>C38: the block hash is scrypt of RFC 7914. On an 80-byte header, when the assembly
  routine agrees with the portable C++ of \<open>scrypt-generic.cpp\<close>, the program's own PBKDF2,
  HMAC, in-place Salsa20/8 rounds and two scratchpad loops compute
  \<open>scrypt(header, header, N = 1024, r = 1, p = 1, 32)\<close> as the RFC defines it from SHA-256,
  and \<open>scrypt_blockhash\<close> computes the same with a conforming PBKDF2.\<close>
theorem scrypt_is_rfc7914:
  assumes "hash_ok L" "scrypt_ok L" "length h = 80"
  shows "scrypt L h = rfc_scrypt L h \<and> length (scrypt L h) = 32
    \<and> scrypt_blockhash (rfc_pbkdf2 L) h = scrypt_hash L h"
proof -
  let ?X = "words_of_bytes (rfc_pbkdf2 L h h 1 128)"
  have X: "length ?X = 32"
    by (simp add: words_of_bytes_def length_rfc_pbkdf2 assms)
  then have c: "scrypt_asm L ?X = scrypt_core ?X" using assms(2) by (simp add: scrypt_ok_def)
  have 1: "scrypt L h = rfc_scrypt L h"
    using assms c scrypt_core_romix [OF X]
    by (simp add: scrypt_def rfc_scrypt_def PBKDF2_is_rfc Let_def)
  then have 2: "length (scrypt L h) = 32" by (simp add: rfc_scrypt_def length_rfc_pbkdf2 assms)
  have "scrypt_blockhash (rfc_pbkdf2 L) h = scrypt_hash L h"
    using assms scrypt_core_romix [OF X] 1
    by (simp add: scrypt_blockhash_def scrypt_hash_def rfc_scrypt_def Let_def)
  with 1 2 show ?thesis by simp
qed

theorem scrypt_is_rfc7914_witness:
  "length (scrypt (ref_lib\<lparr>scrypt_asm := scrypt_core\<rparr>) (replicate 80 7)) = 32
   \<and> scrypt (ref_lib\<lparr>scrypt_asm := scrypt_core\<rparr>) (replicate 80 7)
     = rfc_scrypt (ref_lib\<lparr>scrypt_asm := scrypt_core\<rparr>) (replicate 80 7)"
proof -
  have h: "hash_ok (ref_lib\<lparr>scrypt_asm := scrypt_core\<rparr>)"
    using hash_ok_ref by (simp add: hash_ok_def)
  have "length (replicate 80 7 :: bytes) = 80" by simp
  from scrypt_is_rfc7914 [OF h scrypt_ok_ref this] show ?thesis by blast
qed

end
