(* ===== verification/Block.thy ===== *)
theory Block
  imports Transaction Scrypt
begin

text \<open>
  The block (\<open>class CBlock\<close> of \<open>main.h\<close>): its wire format, its hash, the accessors that
  tell proof-of-stake from proof-of-work, and the Merkle tree over its transactions.
\<close>

section \<open>The block\<close>

text \<open>
  \<open>vMerkleTree\<close> is the memory-only cache of the class; \<open>nDoS\<close> is the \<open>Inl n\<close> of the
  checks. Versions are \<open>int\<close>.
\<close>

record CBlock =
  nVersion :: int
  hashPrevBlock :: u256
  hashMerkleRoot :: u256
  nTime :: u32
  nBits :: u32
  nNonce :: u32
  vtx :: "CTransaction list"
  vchBlockSig :: bytes
  vMerkleTree :: "u256 list"

definition block_SetNull :: CBlock where
  "block_SetNull = \<lparr>nVersion = 4, hashPrevBlock = 0, hashMerkleRoot = 0, nTime = 0, nBits = 0,
     nNonce = 0, vtx = [], vchBlockSig = [], vMerkleTree = []\<rparr>"

definition block_IsNull :: "CBlock \<Rightarrow> bool" where
  "block_IsNull b = (nBits b = 0)"

text \<open>
  The header is both the first part of the serialised block and the 80 bytes of memory from
  \<open>nVersion\<close> on that \<open>GetHash\<close> reads. A block is read over an object whose other fields
  stay as they are; \<open>ReadFromDisk\<close> and the network code read over a fresh one.
\<close>

definition ser_block_header :: "CBlock \<Rightarrow> bytes" where
  "ser_block_header b =
     ser_i32 (nVersion b) @ ser_u256 (hashPrevBlock b) @ ser_u256 (hashMerkleRoot b)
     @ ser_u32 (nTime b) @ ser_u32 (nBits b) @ ser_u32 (nNonce b)"

definition ser_CBlock :: "bool \<Rightarrow> CBlock \<Rightarrow> bytes" where
  "ser_CBlock headerOnly b =
     ser_block_header b
     @ (if headerOnly then [] else ser_vector ser_CTransaction (vtx b) @ ser_bytes (vchBlockSig b))"

definition unser_block_header :: "CBlock \<Rightarrow> CBlock reader" where
  "unser_block_header b s =
     rbind (unser_i32 s) (\<lambda>(v, s1). rbind (unser_u256 s1) (\<lambda>(prev, s2).
       rbind (unser_u256 s2) (\<lambda>(root, s3). rbind (unser_u32 s3) (\<lambda>(t, s4).
         rbind (unser_u32 s4) (\<lambda>(bits, s5). rbind (unser_u32 s5) (\<lambda>(nonce, r).
           Inr (b\<lparr>nVersion := v, hashPrevBlock := prev, hashMerkleRoot := root, nTime := t,
             nBits := bits, nNonce := nonce\<rparr>, r)))))))"

definition unser_CBlock :: "bool \<Rightarrow> CBlock \<Rightarrow> CBlock reader" where
  "unser_CBlock headerOnly b s =
     rbind (unser_block_header b s) (\<lambda>(b, s1).
       if headerOnly then Inr (b\<lparr>vtx := [], vchBlockSig := []\<rparr>, s1)
       else rbind (unser_vector (5000000 div 64) unser_CTransaction s1) (\<lambda>(txs, s2).
         rbind (unser_bytes s2) (\<lambda>(sig, r). Inr (b\<lparr>vtx := txs, vchBlockSig := sig\<rparr>, r))))"

definition block_size :: "CBlock \<Rightarrow> nat" where
  "block_size b = 80 + vector_size tx_size (vtx b) + bytes_size (vchBlockSig b)"

definition block_GetHash :: "extlib \<Rightarrow> CBlock \<Rightarrow> u256" where
  "block_GetHash L b = scrypt_hash L (ser_block_header b)"

definition block_GetBlockTime :: "CBlock \<Rightarrow> int" where
  "block_GetBlockTime b = int (unat (nTime b))"

definition block_UpdateTime :: "int \<Rightarrow> CBlock \<Rightarrow> CBlock" where
  "block_UpdateTime adjustedTime b = b\<lparr>nTime := word_of_int (max (block_GetBlockTime b) adjustedTime)\<rparr>"

definition block_GetStakeEntropyBit :: "extlib \<Rightarrow> bool \<Rightarrow> CBlock \<Rightarrow> u32 \<Rightarrow> u32" where
  "block_GetStakeEntropyBit L testnet b nHeight =
     (if 9689 \<le> nHeight \<or> testnet then ucast ((ucast (block_GetHash L b) :: u64) AND 1)
      else ucast (ucast (drop_bit 159 (Hash160 L (vchBlockSig b))) :: u64))"

definition block_IsProofOfStake :: "CBlock \<Rightarrow> bool" where
  "block_IsProofOfStake b = (1 < length (vtx b) \<and> IsCoinStake (vtx b ! 1))"

definition block_IsProofOfWork :: "CBlock \<Rightarrow> bool" where
  "block_IsProofOfWork b = (\<not> block_IsProofOfStake b)"

definition block_GetProofOfStake :: "CBlock \<Rightarrow> COutPoint \<times> u32" where
  "block_GetProofOfStake b =
     (if block_IsProofOfStake b then (prevout (vin (vtx b ! 1) ! 0), tx_nTime (vtx b ! 1))
      else (outpoint_null, 0))"

definition block_GetMaxTransactionTime :: "CBlock \<Rightarrow> int" where
  "block_GetMaxTransactionTime b = fold (\<lambda>tx t. max t (int (unat (tx_nTime tx)))) (vtx b) 0"

section \<open>The Merkle tree\<close>

text \<open>
  \<open>merkle_rows\<close> is the outer loop of \<open>BuildMerkleTree\<close>: row after row is appended to the
  tree, \<open>j\<close> the offset of the current row and \<open>nSize\<close> its length; \<open>merkle_row\<close> is the inner
  loop, whose last node is paired with itself when the row is odd.
\<close>

definition merkle_hash :: "extlib \<Rightarrow> u256 \<Rightarrow> u256 \<Rightarrow> u256" where
  "merkle_hash L a b = Hash2 L (u256_bytes a) (u256_bytes b)"

definition merkle_row :: "extlib \<Rightarrow> u256 list \<Rightarrow> nat \<Rightarrow> nat \<Rightarrow> u256 list" where
  "merkle_row L tree j nSize =
     map (\<lambda>k. let i = 2 * k; i2 = min (i + 1) (nSize - 1)
              in merkle_hash L (tree ! (j + i)) (tree ! (j + i2))) [0..<(nSize + 1) div 2]"

function merkle_rows :: "extlib \<Rightarrow> u256 list \<Rightarrow> nat \<Rightarrow> nat \<Rightarrow> u256 list" where
  "merkle_rows L tree j nSize =
     (if 1 < nSize
      then merkle_rows L (tree @ merkle_row L tree j nSize) (j + nSize) ((nSize + 1) div 2)
      else tree)"
  by pat_completeness auto
termination by (relation "measure (\<lambda>(L, tree, j, n). n)") auto

declare merkle_rows.simps [simp del]

definition BuildMerkleTree :: "extlib \<Rightarrow> CBlock \<Rightarrow> u256 \<times> CBlock" where
  "BuildMerkleTree L b =
     (let tree = merkle_rows L (map (tx_GetHash L) (vtx b)) 0 (length (vtx b))
      in (if tree = [] then 0 else last tree, b\<lparr>vMerkleTree := tree\<rparr>))"

function branch_from :: "u256 list \<Rightarrow> nat \<Rightarrow> nat \<Rightarrow> nat \<Rightarrow> u256 list" where
  "branch_from tree nIndex j nSize =
     (if 1 < nSize
      then tree ! (j + min (nIndex XOR 1) (nSize - 1))
        # branch_from tree (drop_bit 1 nIndex) (j + nSize) ((nSize + 1) div 2)
      else [])"
  by pat_completeness auto
termination by (relation "measure (\<lambda>(tree, i, j, n). n)") auto

declare branch_from.simps [simp del]

definition GetMerkleBranch :: "extlib \<Rightarrow> CBlock \<Rightarrow> nat \<Rightarrow> u256 list \<times> CBlock" where
  "GetMerkleBranch L b nIndex =
     (let b = if vMerkleTree b = [] then snd (BuildMerkleTree L b) else b
      in (branch_from (vMerkleTree b) nIndex 0 (length (vtx b)), b))"

fun fold_branch :: "extlib \<Rightarrow> u256 \<Rightarrow> u256 list \<Rightarrow> int \<Rightarrow> u256" where
  "fold_branch L hash [] nIndex = hash"
| "fold_branch L hash (otherside # branch) nIndex =
     fold_branch L (if nIndex AND 1 \<noteq> 0 then merkle_hash L otherside hash
                    else merkle_hash L hash otherside) branch (drop_bit 1 nIndex)"

definition CheckMerkleBranch :: "extlib \<Rightarrow> u256 \<Rightarrow> u256 list \<Rightarrow> int \<Rightarrow> u256" where
  "CheckMerkleBranch L hash branch nIndex =
     (if nIndex = - 1 then 0 else fold_branch L hash branch nIndex)"

section \<open>The tree as a fold over levels\<close>

text \<open>
  The reference: the next level pairs neighbours and an odd last node with itself; the root
  is the last level. \<open>merkle_nodes\<close> lists the levels one after the other and
  \<open>merkle_path\<close> the sibling of each node from a leaf up.
\<close>

fun merkle_level :: "extlib \<Rightarrow> u256 list \<Rightarrow> u256 list" where
  "merkle_level L [] = []"
| "merkle_level L [a] = [merkle_hash L a a]"
| "merkle_level L (a # b # hs) = merkle_hash L a b # merkle_level L hs"

lemma length_merkle_level [simp]: "length (merkle_level L hs) = (length hs + 1) div 2"
  by (induction L hs rule: merkle_level.induct) auto

function merkle_nodes :: "extlib \<Rightarrow> u256 list \<Rightarrow> u256 list" where
  "merkle_nodes L hs = (if 1 < length hs then hs @ merkle_nodes L (merkle_level L hs) else hs)"
  by pat_completeness auto
termination by (relation "measure (\<lambda>(L, hs). length hs)") auto

function merkle_top :: "extlib \<Rightarrow> u256 list \<Rightarrow> u256" where
  "merkle_top L hs =
     (if 1 < length hs then merkle_top L (merkle_level L hs) else if hs = [] then 0 else hd hs)"
  by pat_completeness auto
termination by (relation "measure (\<lambda>(L, hs). length hs)") auto

function merkle_path :: "extlib \<Rightarrow> u256 list \<Rightarrow> nat \<Rightarrow> u256 list" where
  "merkle_path L hs i =
     (if 1 < length hs
      then hs ! min (i XOR 1) (length hs - 1) # merkle_path L (merkle_level L hs) (i div 2) else [])"
  by pat_completeness auto
termination by (relation "measure (\<lambda>(L, hs, i). length hs)") auto

declare merkle_nodes.simps [simp del] merkle_top.simps [simp del] merkle_path.simps [simp del]

lemma merkle_level_nth:
  "k < (length hs + 1) div 2 \<Longrightarrow>
     merkle_level L hs ! k = merkle_hash L (hs ! (2 * k)) (hs ! min (2 * k + 1) (length hs - 1))"
proof (induction L hs arbitrary: k rule: merkle_level.induct)
  case (3 L a b hs)
  show ?case
  proof (cases k)
    case (Suc m)
    then have m: "m < (length hs + 1) div 2" using 3 by simp
    then have "hs \<noteq> []" by auto
    then have "min (2 * k + 1) (length (a # b # hs) - 1) = Suc (Suc (min (2 * m + 1) (length hs - 1)))"
      using Suc by (cases hs) auto
    then show ?thesis using 3(1) [OF m] Suc by simp
  qed simp
qed auto

lemma merkle_row_level:
  "merkle_row L (pre @ hs) (length pre) (length hs) = merkle_level L hs"
  by (rule nth_equalityI) (auto simp: merkle_row_def merkle_level_nth Let_def nth_append min_def)

lemma merkle_rows_nodes:
  "merkle_rows L (pre @ hs) (length pre) (length hs) = pre @ merkle_nodes L hs"
proof (induction hs arbitrary: pre rule: length_induct)
  case (1 hs)
  show ?case
  proof (cases "1 < length hs")
    case True
    then have l: "length (merkle_level L hs) < length hs" by simp
    from True 1 [rule_format, OF l, of "pre @ hs"] show ?thesis
      by (simp add: merkle_rows.simps [of L _ "length pre"] merkle_nodes.simps [of L hs] merkle_row_level)
  next
    case False
    then show ?thesis
      by (simp add: merkle_rows.simps [of L _ "length pre"] merkle_nodes.simps [of L hs])
  qed
qed

lemma merkle_nodes_Nil_iff: "merkle_nodes L hs = [] \<longleftrightarrow> hs = []"
  by (subst merkle_nodes.simps) auto

lemma last_merkle_nodes: "hs \<noteq> [] \<Longrightarrow> last (merkle_nodes L hs) = merkle_top L hs"
proof (induction hs rule: length_induct)
  case (1 hs)
  show ?case
  proof (cases "1 < length hs")
    case True
    then have l: "length (merkle_level L hs) < length hs" by simp
    have n: "merkle_level L hs \<noteq> []" using True by (metis length_merkle_level length_0_conv
          div_greater_zero_iff less_numeral_extra(3) add_le_mono1 one_add_one less_imp_le_nat zero_less_numeral)
    from True n 1(1) [rule_format, OF l n] show ?thesis
      by (simp add: merkle_nodes.simps [of L hs] merkle_top.simps [of L hs] merkle_nodes_Nil_iff)
  next
    case False
    with 1(2) show ?thesis
      by (cases hs) (simp_all add: merkle_nodes.simps [of L "[x]" for x] merkle_top.simps [of L "[x]" for x])
  qed
qed

lemma BuildMerkleTree_top:
  "BuildMerkleTree L b = (merkle_top L (map (tx_GetHash L) (vtx b)),
     b\<lparr>vMerkleTree := merkle_nodes L (map (tx_GetHash L) (vtx b))\<rparr>)"
proof -
  let ?hs = "map (tx_GetHash L) (vtx b)"
  have "merkle_rows L ?hs 0 (length (vtx b)) = merkle_nodes L ?hs"
    using merkle_rows_nodes [of L "[]" ?hs] by simp
  then show ?thesis
    using last_merkle_nodes [of ?hs L]
    by (auto simp: BuildMerkleTree_def Let_def merkle_nodes_Nil_iff merkle_top.simps)
qed

lemma branch_from_path:
  "branch_from (pre @ merkle_nodes L hs) i (length pre) (length hs) = merkle_path L hs i"
proof (induction hs arbitrary: pre i rule: length_induct)
  case (1 hs)
  show ?case
  proof (cases "1 < length hs")
    case True
    then have l: "length (merkle_level L hs) < length hs" by simp
    have m: "min (i XOR 1) (length hs - 1) < length hs" using True by auto
    from True 1 [rule_format, OF l, of "pre @ hs" "i div 2"] m show ?thesis
      by (simp add: branch_from.simps [of _ i] merkle_nodes.simps [of L hs] merkle_path.simps [of L hs]
          nth_append drop_bit_Suc)
  next
    case False
    then show ?thesis
      by (simp add: branch_from.simps [of _ i] merkle_path.simps [of L hs])
  qed
qed

lemma merkle_path_top:
  "i < length hs \<Longrightarrow> fold_branch L (hs ! i) (merkle_path L hs i) (int i) = merkle_top L hs"
proof (induction hs arbitrary: i rule: length_induct)
  case (1 hs)
  show ?case
  proof (cases "1 < length hs")
    case True
    then have l: "length (merkle_level L hs) < length hs" by simp
    have k: "i div 2 < (length hs + 1) div 2" using 1(2) by simp
    then have k': "i div 2 < length (merkle_level L hs)" by simp
    have x: "i XOR 1 = (if even i then i + 1 else i - 1)"
      using xor_one_eq [of i] by (auto simp del: One_nat_def)
    have "(if int i AND 1 \<noteq> 0
           then merkle_hash L (hs ! min (i XOR 1) (length hs - 1)) (hs ! i)
           else merkle_hash L (hs ! i) (hs ! min (i XOR 1) (length hs - 1)))
          = merkle_level L hs ! (i div 2)"
    proof (cases "even i")
      case e: True
      then have "2 * (i div 2) = i" by simp
      then show ?thesis using e merkle_level_nth [OF k, of L] x by (simp add: and_one_eq)
    next
      case o: False
      then have h: "2 * (i div 2) = i - 1" "2 * (i div 2) + 1 = i" by presburger+
      have "min i (length hs - 1) = i" "min (i - 1) (length hs - 1) = i - 1" using 1(2) by auto
      moreover have "int i mod 2 \<noteq> 0" using o by presburger
      ultimately show ?thesis using o merkle_level_nth [OF k, of L] x
        by (simp only: h) (simp add: and_one_eq odd_iff_mod_2_eq_one)
    qed
    moreover have "drop_bit 1 (int i) = int (i div 2)"
      by (simp add: drop_bit_eq_div zdiv_int)
    ultimately show ?thesis
      using 1(1) [rule_format, OF l k'] True
      by (simp only: merkle_path.simps [of L hs] merkle_top.simps [of L hs] fold_branch.simps if_True)
  next
    case False
    with 1(2) show ?thesis
      by (cases hs) (auto simp: merkle_path.simps merkle_top.simps)
  qed
qed

text \<open>
  What a root commits to: \<open>merkle_pairs\<close> are the pairs hashed on the way up. As long as
  the hash does not collide on them, two lists of the same length with the same root are equal.
\<close>

fun level_pairs :: "u256 list \<Rightarrow> (u256 \<times> u256) set" where
  "level_pairs [] = {}"
| "level_pairs [a] = {(a, a)}"
| "level_pairs (a # b # hs) = insert (a, b) (level_pairs hs)"

function merkle_pairs :: "extlib \<Rightarrow> u256 list \<Rightarrow> (u256 \<times> u256) set" where
  "merkle_pairs L hs =
     (if 1 < length hs then level_pairs hs \<union> merkle_pairs L (merkle_level L hs) else {})"
  by pat_completeness auto
termination by (relation "measure (\<lambda>(L, hs). length hs)") auto

declare merkle_pairs.simps [simp del]

lemma merkle_level_inj:
  assumes "inj_on (\<lambda>(a, b). merkle_hash L a b) (level_pairs xs \<union> level_pairs ys)"
    and "length xs = length ys" and "merkle_level L xs = merkle_level L ys"
  shows "xs = ys"
  using assms
proof (induction L xs arbitrary: ys rule: merkle_level.induct)
  case (1 L)
  then show ?case by simp
next
  case (2 L a)
  then obtain b where y: "ys = [b]" by (metis length_0_conv length_Suc_conv)
  with 2(3) have "(\<lambda>(a, b). merkle_hash L a b) (a, a) = (\<lambda>(a, b). merkle_hash L a b) (b, b)" by simp
  with 2(1) y show ?case by (auto dest: inj_onD)
next
  case (3 L a b xs)
  then obtain c d zs where y: "ys = c # d # zs" by (metis length_Suc_conv list.size(4))
  with 3(4) have h: "(\<lambda>(a, b). merkle_hash L a b) (a, b) = (\<lambda>(a, b). merkle_hash L a b) (c, d)"
    and l: "merkle_level L xs = merkle_level L zs" by simp_all
  from 3(2) y have i: "inj_on (\<lambda>(a, b). merkle_hash L a b) (level_pairs xs \<union> level_pairs zs)"
    by (auto intro: inj_on_subset)
  from 3(3) y have n: "length xs = length zs" by simp
  have "(a, b) = (c, d)" by (rule inj_onD [OF 3(2) h]) (simp_all add: y)
  with 3(1) [OF i n l] y show ?case by simp
qed

lemma merkle_top_inj:
  assumes "inj_on (\<lambda>(a, b). merkle_hash L a b) (merkle_pairs L xs \<union> merkle_pairs L ys)"
    and "length xs = length ys" and "merkle_top L xs = merkle_top L ys"
  shows "xs = ys"
  using assms
proof (induction xs arbitrary: ys rule: length_induct)
  case (1 xs)
  show ?case
  proof (cases "1 < length xs")
    case True
    with 1(3) have y: "1 < length ys" by simp
    from True 1(3) have l: "length (merkle_level L xs) < length xs"
      and n: "length (merkle_level L xs) = length (merkle_level L ys)" by simp_all
    from 1(2) True y have i: "inj_on (\<lambda>(a, b). merkle_hash L a b)
        (merkle_pairs L (merkle_level L xs) \<union> merkle_pairs L (merkle_level L ys))"
      and j: "inj_on (\<lambda>(a, b). merkle_hash L a b) (level_pairs xs \<union> level_pairs ys)"
      by (auto simp: merkle_pairs.simps [of L xs] merkle_pairs.simps [of L ys] intro: inj_on_subset)
    from 1(4) True y have "merkle_top L (merkle_level L xs) = merkle_top L (merkle_level L ys)"
      by (simp add: merkle_top.simps [of L xs] merkle_top.simps [of L ys])
    from 1(1) [rule_format, OF l i n this] show ?thesis
      using merkle_level_inj [OF j 1(3)] by simp
  next
    case False
    with 1(3,4) show ?thesis
      by (cases xs; cases ys) (auto simp: merkle_top.simps [of L "[x]" for x])
  qed
qed

text \<open>An odd list and the list with its last element repeated have the same next level.\<close>
lemma merkle_level_repeat:
  "odd (length hs) \<Longrightarrow> merkle_level L (hs @ [last hs]) = merkle_level L hs"
  by (induction L hs rule: merkle_level.induct) auto

lemma merkle_top_repeat:
  assumes "odd (length hs)" "1 < length hs"
  shows "merkle_top L (hs @ [last hs]) = merkle_top L hs"
  using assms merkle_level_repeat [OF assms(1), of L]
  by (cases "hs = []") (simp_all add: merkle_top.simps [of L hs] merkle_top.simps [of L "hs @ [last hs]"])

section \<open>The wire format of a block\<close>

definition block_ok :: "CBlock \<Rightarrow> bool" where
  "block_ok b \<longleftrightarrow> i32_ok (nVersion b) \<and> list_all tx_ok (vtx b) \<and> length (vtx b) \<le> 0x02000000
     \<and> bytes_ok (vchBlockSig b)"

interpretation transactions: codec "\<lambda>xs. list_all tx_ok xs \<and> length xs \<le> 0x02000000"
  "ser_vector ser_CTransaction" "unser_vector (5000000 div 64) unser_CTransaction" "vector_size tx_size"
  by (rule vector_codec [OF transaction.codec_axioms]) simp

lemma unser_header:
  "i32_ok (nVersion b) \<Longrightarrow> unser_block_header b0 (ser_block_header b @ r)
     = Inr (b0\<lparr>nVersion := nVersion b, hashPrevBlock := hashPrevBlock b,
         hashMerkleRoot := hashMerkleRoot b, nTime := nTime b, nBits := nBits b,
         nNonce := nNonce b\<rparr>, r)"
  by (simp add: unser_block_header_def ser_block_header_def codec_simps)

lemma length_block_header [simp]: "length (ser_block_header b) = 80"
  by (simp add: ser_block_header_def)

text \<open>C33: a block survives its wire format, and its hash is the hash of its header. Reading
  what was written gives the block back with nothing of the object read over but the
  memory-only Merkle cache; reading the header alone consumes 80 bytes and leaves
  the block with the same hash and no transactions; the size the limits are checked
  against is the number of bytes written.\<close>
theorem block_roundtrip:
  assumes "block_ok b"
  shows "unser_CBlock False b0 (ser_CBlock False b @ r) = Inr (b\<lparr>vMerkleTree := vMerkleTree b0\<rparr>, r)
    \<and> (\<exists>h. unser_CBlock True b0 (ser_CBlock False b @ r) = Inr (h, drop 80 (ser_CBlock False b) @ r)
      \<and> block_GetHash L h = block_GetHash L b \<and> vtx h = [] \<and> vchBlockSig h = [])
    \<and> length (ser_CBlock False b) = block_size b"
proof (intro conjI)
  have v: "i32_ok (nVersion b)" and t: "list_all tx_ok (vtx b) \<and> length (vtx b) \<le> 0x02000000"
    and s: "bytes_ok (vchBlockSig b)"
    using assms by (simp_all add: block_ok_def)
  show "unser_CBlock False b0 (ser_CBlock False b @ r) = Inr (b\<lparr>vMerkleTree := vMerkleTree b0\<rparr>, r)"
    using transactions.unser_ser [OF t] byte_vector.unser_ser [OF s]
    by (simp add: unser_CBlock_def ser_CBlock_def unser_header v)
  show "\<exists>h. unser_CBlock True b0 (ser_CBlock False b @ r) = Inr (h, drop 80 (ser_CBlock False b) @ r)
      \<and> block_GetHash L h = block_GetHash L b \<and> vtx h = [] \<and> vchBlockSig h = []"
    by (simp add: unser_CBlock_def ser_CBlock_def unser_header v block_GetHash_def)
      (simp add: ser_block_header_def)
  show "length (ser_CBlock False b) = block_size b"
    using transactions.length_ser [OF t] byte_vector.length_ser [OF s]
    by (simp add: ser_CBlock_def block_size_def)
qed

definition sample_tx :: CTransaction where
  "sample_tx = \<lparr>tx_nVersion = 1, tx_nTime = 1400000000,
     vin = [\<lparr>prevout = outpoint_null, scriptSig = [1, 2, 3], nSequence = - 1\<rparr>],
     vout = [\<lparr>nValue = 20000, scriptPubKey = [0x51]\<rparr>], nLockTime = 0\<rparr>"

definition sample_block :: CBlock where
  "sample_block = block_SetNull\<lparr>nTime := 1400000001, nBits := 0x1e0fffff,
     vtx := [sample_tx, sample_tx\<lparr>tx_nTime := 7\<rparr>, sample_tx\<lparr>tx_nTime := 8\<rparr>], vchBlockSig := [48, 6]\<rparr>"

lemma sample_block_ok: "block_ok sample_block"
  by (simp add: sample_block_def sample_tx_def block_SetNull_def block_ok_def tx_ok_def txin_ok_def
      txout_ok_def bytes_ok_def i32_ok_def i64_ok_def)

theorem block_roundtrip_witness:
  "unser_CBlock False block_SetNull (ser_CBlock False sample_block @ [9]) = Inr (sample_block, [9])"
  using block_roundtrip [OF sample_block_ok, of block_SetNull "[9]"]
  by (simp add: sample_block_def block_SetNull_def)

text \<open>C32: every transaction of a block can be proved to be in it. For any index in range the
  branch \<open>GetMerkleBranch\<close> returns, whether it builds the tree or uses the cached one,
  leads \<open>CheckMerkleBranch\<close> from the transaction's hash to the root \<open>BuildMerkleTree\<close>
  returns.\<close>
theorem merkle_branch_verifies:
  assumes "i < length (vtx b)" "vMerkleTree b \<in> {[], vMerkleTree (snd (BuildMerkleTree L b))}"
  shows "CheckMerkleBranch L (tx_GetHash L (vtx b ! i)) (fst (GetMerkleBranch L b i)) (int i)
    = fst (BuildMerkleTree L b)"
proof -
  let ?hs = "map (tx_GetHash L) (vtx b)"
  have "?hs \<noteq> []" using assms(1) by auto
  then have "fst (GetMerkleBranch L b i) = branch_from (merkle_nodes L ?hs) i 0 (length ?hs)"
    using assms(2) by (auto simp: GetMerkleBranch_def BuildMerkleTree_top merkle_nodes_Nil_iff Let_def)
  also have "\<dots> = merkle_path L ?hs i"
    using branch_from_path [of "[]" L ?hs i] by simp
  finally show ?thesis
    using merkle_path_top [of i ?hs L] assms(1)
    by (simp add: CheckMerkleBranch_def BuildMerkleTree_top)
qed

theorem merkle_branch_verifies_witness:
  "CheckMerkleBranch ref_lib (tx_GetHash ref_lib (vtx sample_block ! 2))
     (fst (GetMerkleBranch ref_lib sample_block 2)) 2 = fst (BuildMerkleTree ref_lib sample_block)"
proof -
  have "2 < length (vtx sample_block)" "vMerkleTree sample_block = []"
    by (simp_all add: sample_block_def block_SetNull_def)
  then show ?thesis using merkle_branch_verifies [of 2 sample_block ref_lib] by simp
qed

text \<open>C31: the root in the header commits to the transactions of the block, up to the known
  ambiguity. Two blocks with the same number of transactions and the same root have the
  same transaction identifiers, unless the hash collides on two of the pairs hashed on
  the way up; and for an odd number of transactions, three at least, the block that repeats
  the last one has the same root, so the number has to be part of the hypothesis.\<close>
theorem merkle_root_commits:
  assumes "inj_on (\<lambda>(a, b). merkle_hash L a b)
      (merkle_pairs L (map (tx_GetHash L) (vtx b1)) \<union> merkle_pairs L (map (tx_GetHash L) (vtx b2)))"
  shows "(length (vtx b1) = length (vtx b2) \<and> fst (BuildMerkleTree L b1) = fst (BuildMerkleTree L b2)
      \<longrightarrow> map (tx_GetHash L) (vtx b1) = map (tx_GetHash L) (vtx b2))
    \<and> (odd (length (vtx b1)) \<and> 1 < length (vtx b1) \<and> vtx b2 = vtx b1 @ [last (vtx b1)]
      \<longrightarrow> fst (BuildMerkleTree L b1) = fst (BuildMerkleTree L b2))"
proof (intro conjI impI; elim conjE)
  show "map (tx_GetHash L) (vtx b1) = map (tx_GetHash L) (vtx b2)"
    if "length (vtx b1) = length (vtx b2)" "fst (BuildMerkleTree L b1) = fst (BuildMerkleTree L b2)"
    using merkle_top_inj [OF assms] that by (simp add: BuildMerkleTree_top)
  show "fst (BuildMerkleTree L b1) = fst (BuildMerkleTree L b2)"
    if "odd (length (vtx b1))" "1 < length (vtx b1)" "vtx b2 = vtx b1 @ [last (vtx b1)]"
  proof -
    have "map (tx_GetHash L) (vtx b2)
      = map (tx_GetHash L) (vtx b1) @ [last (map (tx_GetHash L) (vtx b1))]"
      using that by (cases "vtx b1") (simp_all add: last_map)
    with that merkle_top_repeat [of "map (tx_GetHash L) (vtx b1)" L] show ?thesis
      by (simp add: BuildMerkleTree_top)
  qed
qed

lemma merkle_hash_ref: "merkle_hash ref_lib a b = a"
proof -
  have "pad_digest 32 (u256_bytes a @ u256_bytes b) = u256_bytes a" "pad_digest 32 (u256_bytes a) = u256_bytes a"
    by (simp_all add: pad_digest_def)
  moreover have "le_val (u256_bytes a) = unat a"
    using unat_lt_2p [of a] by (simp add: u256_bytes_def le_val_le_bytes)
  ultimately show ?thesis by (simp add: merkle_hash_def Hash2_def ref_lib_def)
qed

theorem merkle_root_commits_witness:
  "fst (BuildMerkleTree ref_lib (sample_block\<lparr>vtx := [sample_tx, sample_tx, sample_tx]\<rparr>))
    = fst (BuildMerkleTree ref_lib (sample_block\<lparr>vtx := [sample_tx, sample_tx, sample_tx, sample_tx]\<rparr>))"
proof -
  have "inj_on (\<lambda>(a, b). merkle_hash ref_lib a b)
      (merkle_pairs ref_lib [h, h, h] \<union> merkle_pairs ref_lib [h, h, h, h])" for h
    by (simp add: merkle_pairs.simps inj_on_def merkle_hash_ref)
  then show ?thesis
    using merkle_root_commits [of ref_lib "sample_block\<lparr>vtx := [sample_tx, sample_tx, sample_tx]\<rparr>"
        "sample_block\<lparr>vtx := [sample_tx, sample_tx, sample_tx, sample_tx]\<rparr>"]
    by simp
qed

end
