(* ===== verification/Block_Index.thy ===== *)
theory Block_Index
  imports Block Std_Map
begin

text \<open>
  The block index (\<open>CBlockIndex\<close>, \<open>CDiskBlockIndex\<close>, \<open>CBlockLocator\<close> of \<open>main.h\<close>). A
  \<open>CBlockIndex*\<close> is the key its target has in \<open>mapBlockIndex\<close>, \<open>None\<close> for NULL. Code that
  only follows \<open>pprev\<close> from a block is written on the chain of its ancestors: the list of the
  index entries from the block back to the genesis block, \<open>[]\<close> for NULL, with \<open>tl\<close> for
  \<open>pprev\<close>; \<open>ancestors\<close> reads that list off the map.
\<close>

section \<open>Index entries\<close>

text \<open>\<open>phashBlock\<close> is the hash it points to, 0 when it is NULL.\<close>

record CBlockIndex =
  phashBlock :: u256
  pprev :: "u256 option"
  pnext :: "u256 option"
  bi_nFile :: u32
  bi_nBlockPos :: u32
  bnChainTrust :: int
  nHeight :: int
  nMint :: int
  nMoneySupply :: int
  nFlags :: u32
  nStakeModifier :: u64
  nStakeModifierChecksum :: u32
  prevoutStake :: COutPoint
  nStakeTime :: u32
  hashProofOfStake :: u256
  bi_nVersion :: int
  bi_hashMerkleRoot :: u256
  bi_nTime :: u32
  bi_nBits :: u32
  bi_nNonce :: u32

definition BLOCK_PROOF_OF_STAKE :: u32 where "BLOCK_PROOF_OF_STAKE = 1"
definition BLOCK_STAKE_ENTROPY :: u32 where "BLOCK_STAKE_ENTROPY = 2"
definition BLOCK_STAKE_MODIFIER :: u32 where "BLOCK_STAKE_MODIFIER = 4"

definition index_empty :: CBlockIndex where
  "index_empty = \<lparr>phashBlock = 0, pprev = None, pnext = None, bi_nFile = 0, bi_nBlockPos = 0,
     bnChainTrust = 0, nHeight = 0, nMint = 0, nMoneySupply = 0, nFlags = 0, nStakeModifier = 0,
     nStakeModifierChecksum = 0, prevoutStake = outpoint_null, nStakeTime = 0,
     hashProofOfStake = 0, bi_nVersion = 0, bi_hashMerkleRoot = 0, bi_nTime = 0, bi_nBits = 0,
     bi_nNonce = 0\<rparr>"

definition index_IsProofOfStake :: "'x CBlockIndex_scheme \<Rightarrow> bool" where
  "index_IsProofOfStake p = (nFlags p AND BLOCK_PROOF_OF_STAKE \<noteq> 0)"

definition index_IsProofOfWork :: "'x CBlockIndex_scheme \<Rightarrow> bool" where
  "index_IsProofOfWork p = (nFlags p AND BLOCK_PROOF_OF_STAKE = 0)"

definition SetProofOfStake :: "'x CBlockIndex_scheme \<Rightarrow> 'x CBlockIndex_scheme" where
  "SetProofOfStake p = p\<lparr>nFlags := nFlags p OR BLOCK_PROOF_OF_STAKE\<rparr>"

definition index_GetStakeEntropyBit :: "'x CBlockIndex_scheme \<Rightarrow> u32" where
  "index_GetStakeEntropyBit p = drop_bit 1 (nFlags p AND BLOCK_STAKE_ENTROPY)"

definition SetStakeEntropyBit :: "u32 \<Rightarrow> 'x CBlockIndex_scheme \<Rightarrow> bool \<times> 'x CBlockIndex_scheme" where
  "SetStakeEntropyBit nEntropyBit p =
     (if 1 < nEntropyBit then (False, p)
      else (True, p\<lparr>nFlags := nFlags p OR (if nEntropyBit \<noteq> 0 then BLOCK_STAKE_ENTROPY else 0)\<rparr>))"

definition GeneratedStakeModifier :: "'x CBlockIndex_scheme \<Rightarrow> bool" where
  "GeneratedStakeModifier p = (nFlags p AND BLOCK_STAKE_MODIFIER \<noteq> 0)"

definition SetStakeModifier :: "u64 \<Rightarrow> bool \<Rightarrow> 'x CBlockIndex_scheme \<Rightarrow> 'x CBlockIndex_scheme" where
  "SetStakeModifier nModifier fGenerated p =
     (let p = p\<lparr>nStakeModifier := nModifier\<rparr>
      in if fGenerated then p\<lparr>nFlags := nFlags p OR BLOCK_STAKE_MODIFIER\<rparr> else p)"

definition index_of_block :: "u32 \<Rightarrow> u32 \<Rightarrow> CBlock \<Rightarrow> CBlockIndex" where
  "index_of_block nFileIn nBlockPosIn block =
     (let p = index_empty\<lparr>bi_nFile := nFileIn, bi_nBlockPos := nBlockPosIn\<rparr>;
          p = (if block_IsProofOfStake block
               then (SetProofOfStake p)
                 \<lparr>prevoutStake := prevout (vin (vtx block ! 1) ! 0), nStakeTime := tx_nTime (vtx block ! 1)\<rparr>
               else p\<lparr>prevoutStake := outpoint_null, nStakeTime := 0\<rparr>)
      in p\<lparr>bi_nVersion := nVersion block, bi_hashMerkleRoot := hashMerkleRoot block,
           bi_nTime := nTime block, bi_nBits := nBits block, bi_nNonce := nNonce block\<rparr>)"

definition GetBlockHeader :: "'x CBlockIndex_scheme \<Rightarrow> CBlock" where
  "GetBlockHeader p =
     (let block = block_SetNull\<lparr>nVersion := bi_nVersion p\<rparr>;
          block = (case pprev p of Some h \<Rightarrow> block\<lparr>hashPrevBlock := h\<rparr> | None \<Rightarrow> block)
      in block\<lparr>hashMerkleRoot := bi_hashMerkleRoot p, nTime := bi_nTime p, nBits := bi_nBits p,
           nNonce := bi_nNonce p\<rparr>)"

definition index_GetBlockTime :: "'x CBlockIndex_scheme \<Rightarrow> int" where
  "index_GetBlockTime p = int (unat (bi_nTime p))"

definition GetBlockTrust :: "extlib \<Rightarrow> 'x CBlockIndex_scheme \<Rightarrow> int option" where
  "GetBlockTrust L p =
     (let bnTarget = SetCompact L (bi_nBits p)
      in if bn_le L bnTarget (bn_of_int L 0) then Some (bn_of_int L 0)
         else if index_IsProofOfStake p
         then bn_div L (BN_lshift L (bn_of_int L 1) 256) (BN_add L bnTarget (bn_of_int L 1))
         else Some (bn_of_int L 1))"

section \<open>Walks over the ancestors\<close>

type_synonym chain = "CBlockIndex list"

text \<open>The median of the times of the last \<open>nMedianTimeSpan = 11\<close> blocks, fewer near the genesis block.\<close>

definition GetMedianTimePast :: "chain \<Rightarrow> int" where
  "GetMedianTimePast ch = (let ts = sort (map index_GetBlockTime (take 11 ch)) in ts ! (length ts div 2))"

text \<open>\<open>IsSuperMajority(minVersion, pstart, nRequired, nToCheck)\<close>; \<open>i\<close> counts from 0.\<close>

fun supermajority_from :: "int \<Rightarrow> nat \<Rightarrow> nat \<Rightarrow> nat \<Rightarrow> chain \<Rightarrow> bool" where
  "supermajority_from minVersion nRequired 0 nFound ch = (nRequired \<le> nFound)"
| "supermajority_from minVersion nRequired (Suc n) nFound [] = (nRequired \<le> nFound)"
| "supermajority_from minVersion nRequired (Suc n) nFound (p # ch) =
     (if nFound < nRequired
      then supermajority_from minVersion nRequired n (if minVersion \<le> bi_nVersion p then nFound + 1 else nFound) ch
      else nRequired \<le> nFound)"

definition IsSuperMajority :: "int \<Rightarrow> chain \<Rightarrow> u32 \<Rightarrow> u32 \<Rightarrow> bool" where
  "IsSuperMajority minVersion pstart nRequired nToCheck =
     supermajority_from minVersion (unat nRequired) (unat nToCheck) 0 pstart"

text \<open>\<open>GetLastBlockIndex\<close> stops at the genesis block whatever its kind.\<close>

fun GetLastBlockIndex :: "chain \<Rightarrow> bool \<Rightarrow> chain" where
  "GetLastBlockIndex [] fProofOfStake = []"
| "GetLastBlockIndex [p] fProofOfStake = [p]"
| "GetLastBlockIndex (p # q # ch) fProofOfStake =
     (if index_IsProofOfStake p \<noteq> fProofOfStake then GetLastBlockIndex (q # ch) fProofOfStake
      else p # q # ch)"

section \<open>The map of blocks\<close>

type_synonym block_map = "u256 \<rightharpoonup> CBlockIndex"

text \<open>
  \<open>ancestors n M p\<close> follows \<open>pprev\<close> at most \<open>n\<close> times; one more than the height of the
  block is enough (lemma \<open>ancestors_enough\<close>), and \<open>chain_at\<close> uses that.
\<close>

fun ancestors :: "nat \<Rightarrow> block_map \<Rightarrow> u256 option \<Rightarrow> chain" where
  "ancestors 0 M p = []"
| "ancestors (Suc n) M None = []"
| "ancestors (Suc n) M (Some h) = (case M h of None \<Rightarrow> [] | Some i \<Rightarrow> i # ancestors n M (pprev i))"

definition chain_at :: "block_map \<Rightarrow> u256 option \<Rightarrow> chain" where
  "chain_at M p =
     (case p of None \<Rightarrow> []
      | Some h \<Rightarrow> (case M h of None \<Rightarrow> [] | Some i \<Rightarrow> ancestors (nat (nHeight i) + 1) M p))"

text \<open>
  Well-formed: every entry points to its own key, the pointers lead to entries, and a block
  is one higher than its predecessor, 0 when it has none.
\<close>

definition entry_ok :: "block_map \<Rightarrow> u256 \<Rightarrow> CBlockIndex \<Rightarrow> bool" where
  "entry_ok M h i \<longleftrightarrow> phashBlock i = h
     \<and> (case pprev i of None \<Rightarrow> nHeight i = 0
        | Some q \<Rightarrow> (\<exists>j. M q = Some j \<and> nHeight i = nHeight j + 1 \<and> 0 \<le> nHeight j))
     \<and> (case pnext i of None \<Rightarrow> True | Some q \<Rightarrow> M q \<noteq> None)"

definition map_ok :: "block_map \<Rightarrow> bool" where
  "map_ok M \<longleftrightarrow> (\<forall>h i. M h = Some i \<longrightarrow> entry_ok M h i)"

definition IsInMainChain :: "u256 option \<Rightarrow> CBlockIndex \<Rightarrow> bool" where
  "IsInMainChain pindexBest p = (pnext p \<noteq> None \<or> Some (phashBlock p) = pindexBest)"

text \<open>\<open>GetMedianTime\<close> follows \<open>pnext\<close> five times.\<close>

fun median_forward :: "nat \<Rightarrow> block_map \<Rightarrow> CBlockIndex \<Rightarrow> CBlockIndex option" where
  "median_forward 0 M p = Some p"
| "median_forward (Suc n) M p =
     (case pnext p of None \<Rightarrow> None
      | Some h \<Rightarrow> (case M h of None \<Rightarrow> None | Some q \<Rightarrow> median_forward n M q))"

definition GetMedianTime :: "block_map \<Rightarrow> CBlockIndex \<Rightarrow> int" where
  "GetMedianTime M p =
     (case median_forward 5 M p of None \<Rightarrow> index_GetBlockTime p
      | Some q \<Rightarrow> GetMedianTimePast (chain_at M (Some (phashBlock q))))"

section \<open>Index entries on disk\<close>

text \<open>
  \<open>CDiskBlockIndex\<close> writes hashes for pointers. The first integer is the version of the
  stream (dropped by reading), and \<open>blockHash\<close> is written since version
  \<open>DB_MINVER_INCHASH\<close>. Reading goes over an object, whose other fields stay.
\<close>

definition CLIENT_VERSION :: int where "CLIENT_VERSION = 2040400"
definition DB_MINVER_INCHASH :: u32 where "DB_MINVER_INCHASH = 70300"

record CDiskBlockIndex = CBlockIndex +
  blockHash :: u256
  hashPrev :: u256
  hashNext :: u256
  fileVersion :: u32

definition diskindex_new :: "u32 \<Rightarrow> CDiskBlockIndex" where
  "diskindex_new version =
     CBlockIndex.extend index_empty \<lparr>blockHash = 0, hashPrev = 0, hashNext = 0, fileVersion = version\<rparr>"

definition diskindex_of :: "CBlockIndex \<Rightarrow> CDiskBlockIndex" where
  "diskindex_of p =
     CBlockIndex.extend p
       \<lparr>blockHash = 0, hashPrev = (case pprev p of Some h \<Rightarrow> h | None \<Rightarrow> 0),
        hashNext = (case pnext p of Some h \<Rightarrow> h | None \<Rightarrow> 0), fileVersion = of_int CLIENT_VERSION\<rparr>"

definition ser_CDiskBlockIndex :: "bool \<Rightarrow> int \<Rightarrow> CDiskBlockIndex \<Rightarrow> bytes" where
  "ser_CDiskBlockIndex forHash streamVersion d =
     (if forHash then [] else ser_i32 streamVersion)
     @ ser_u256 (hashNext d) @ ser_u32 (bi_nFile d) @ ser_u32 (bi_nBlockPos d) @ ser_i32 (nHeight d)
     @ ser_i64 (nMint d) @ ser_i64 (nMoneySupply d) @ ser_u32 (nFlags d) @ ser_u64 (nStakeModifier d)
     @ (if index_IsProofOfStake d
        then ser_COutPoint (prevoutStake d) @ ser_u32 (nStakeTime d) @ ser_u256 (hashProofOfStake d)
        else [])
     @ ser_i32 (bi_nVersion d) @ ser_u256 (hashPrev d) @ ser_u256 (bi_hashMerkleRoot d)
     @ ser_u32 (bi_nTime d) @ ser_u32 (bi_nBits d) @ ser_u32 (bi_nNonce d)
     @ (if DB_MINVER_INCHASH \<le> fileVersion d then ser_u256 (blockHash d) else [])"

definition unser_stake_fields :: "CDiskBlockIndex \<Rightarrow> CDiskBlockIndex reader" where
  "unser_stake_fields d s =
     (if index_IsProofOfStake d
      then rbind (unser_COutPoint s) (\<lambda>(po, s). rbind (unser_u32 s) (\<lambda>(st, s).
        rbind (unser_u256 s) (\<lambda>(hp, s).
          Inr (d\<lparr>prevoutStake := po, nStakeTime := st, hashProofOfStake := hp\<rparr>, s))))
      else Inr (d\<lparr>prevoutStake := outpoint_null, nStakeTime := 0, hashProofOfStake := 0\<rparr>, s))"

definition unser_index_header :: "CDiskBlockIndex \<Rightarrow> CDiskBlockIndex reader" where
  "unser_index_header d s =
     rbind (unser_i32 s) (\<lambda>(v, s). rbind (unser_u256 s) (\<lambda>(hp, s). rbind (unser_u256 s) (\<lambda>(mr, s).
       rbind (unser_u32 s) (\<lambda>(t, s). rbind (unser_u32 s) (\<lambda>(b, s). rbind (unser_u32 s) (\<lambda>(n, s).
         Inr (d\<lparr>bi_nVersion := v, hashPrev := hp, bi_hashMerkleRoot := mr, bi_nTime := t,
           bi_nBits := b, bi_nNonce := n\<rparr>, s)))))))"

definition unser_CDiskBlockIndex :: "bool \<Rightarrow> CDiskBlockIndex \<Rightarrow> CDiskBlockIndex reader" where
  "unser_CDiskBlockIndex forHash d s =
     rbind (if forHash then Inr (0, s) else unser_i32 s) (\<lambda>(v, s).
     rbind (unser_u256 s) (\<lambda>(hn, s). rbind (unser_u32 s) (\<lambda>(f, s). rbind (unser_u32 s) (\<lambda>(bp, s).
     rbind (unser_i32 s) (\<lambda>(h, s). rbind (unser_i64 s) (\<lambda>(m, s). rbind (unser_i64 s) (\<lambda>(ms, s).
     rbind (unser_u32 s) (\<lambda>(fl, s). rbind (unser_u64 s) (\<lambda>(sm, s).
     rbind (unser_stake_fields (d\<lparr>hashNext := hn, bi_nFile := f, bi_nBlockPos := bp, nHeight := h,
         nMint := m, nMoneySupply := ms, nFlags := fl, nStakeModifier := sm\<rparr>) s) (\<lambda>(d, s).
     rbind (unser_index_header d s) (\<lambda>(d, s).
       if DB_MINVER_INCHASH \<le> fileVersion d
       then rbind (unser_u256 s) (\<lambda>(bh, s). Inr (d\<lparr>blockHash := bh\<rparr>, s))
       else Inr (d, s))))))))))))"

definition diskindex_header :: "CDiskBlockIndex \<Rightarrow> CBlock" where
  "diskindex_header d =
     block_SetNull\<lparr>nVersion := bi_nVersion d, hashPrevBlock := hashPrev d,
       hashMerkleRoot := bi_hashMerkleRoot d, nTime := bi_nTime d, nBits := bi_nBits d,
       nNonce := bi_nNonce d\<rparr>"

definition diskindex_GetBlockHash ::
  "extlib \<Rightarrow> bool \<Rightarrow> int \<Rightarrow> CDiskBlockIndex \<Rightarrow> u256 \<times> CDiskBlockIndex" where
  "diskindex_GetBlockHash L fUseFastIndex adjustedTime d =
     (if fUseFastIndex \<and> int (unat (bi_nTime d)) < adjustedTime - 24 * 60 * 60 \<and> blockHash d \<noteq> 0
      then (blockHash d, d)
      else let h = block_GetHash L (diskindex_header d) in (h, d\<lparr>blockHash := h\<rparr>))"

section \<open>Locators\<close>

text \<open>
  The loop of \<open>Set\<close>: \<open>n\<close> is the size of \<open>vHave\<close> before the push, and the step doubles after
  each push beyond the tenth. A step is at least 1, so the walk ends.
\<close>

type_synonym CBlockLocator = "u256 list"

function locator_walk :: "nat \<Rightarrow> nat \<Rightarrow> chain \<Rightarrow> u256 list" where
  "locator_walk n nStep ch =
     (case ch of [] \<Rightarrow> []
      | p # _ \<Rightarrow> phashBlock p
          # (if nStep = 0 then []
             else locator_walk (Suc n) (if 10 < Suc n then 2 * nStep else nStep) (drop nStep ch)))"
  by pat_completeness auto
termination by (relation "measure (\<lambda>(n, k, ch). length ch)") auto

declare locator_walk.simps [simp del]

definition locator_Set :: "u256 \<Rightarrow> chain \<Rightarrow> CBlockLocator" where
  "locator_Set hashGenesisBlock pindex = locator_walk 0 1 pindex @ [hashGenesisBlock]"

definition locator_of_hash :: "u256 \<Rightarrow> block_map \<Rightarrow> u256 \<Rightarrow> CBlockLocator" where
  "locator_of_hash hashGenesisBlock M hashBlock =
     (case M hashBlock of None \<Rightarrow> []
      | Some i \<Rightarrow> locator_Set hashGenesisBlock (chain_at M (Some hashBlock)))"

definition ser_CBlockLocator :: "bool \<Rightarrow> int \<Rightarrow> CBlockLocator \<Rightarrow> bytes" where
  "ser_CBlockLocator forHash streamVersion loc =
     (if forHash then [] else ser_i32 streamVersion) @ ser_vector ser_u256 loc"

definition unser_CBlockLocator :: "bool \<Rightarrow> CBlockLocator reader" where
  "unser_CBlockLocator forHash s =
     rbind (if forHash then Inr (0, s) else unser_i32 s) (\<lambda>(v, s). unser_vector (5000000 div 32) unser_u256 s)"

definition locator_IsNull :: "CBlockLocator \<Rightarrow> bool" where
  "locator_IsNull loc = (loc = [])"

fun distance_from :: "block_map \<Rightarrow> u256 option \<Rightarrow> int \<Rightarrow> int \<Rightarrow> CBlockLocator \<Rightarrow> int" where
  "distance_from M pindexBest nDistance nStep [] = nDistance"
| "distance_from M pindexBest nDistance nStep (hash # loc) =
     (let next = (let nDistance = nDistance + nStep;
                      nStep = (if 10 < nDistance then nStep * 2 else nStep)
                  in distance_from M pindexBest nDistance nStep loc)
      in case M hash of
           Some p \<Rightarrow> if IsInMainChain pindexBest p then nDistance else next
         | None \<Rightarrow> next)"

definition locator_GetDistanceBack :: "block_map \<Rightarrow> u256 option \<Rightarrow> CBlockLocator \<Rightarrow> int" where
  "locator_GetDistanceBack M pindexBest loc = distance_from M pindexBest 0 1 loc"

text \<open>\<open>GetBlockIndex\<close> and \<open>GetBlockHash\<close>: the first block of the locator that is in the main chain.\<close>

fun locator_find :: "block_map \<Rightarrow> u256 option \<Rightarrow> CBlockLocator \<Rightarrow> u256 option" where
  "locator_find M pindexBest [] = None"
| "locator_find M pindexBest (hash # loc) =
     (case M hash of
        Some p \<Rightarrow> if IsInMainChain pindexBest p then Some hash else locator_find M pindexBest loc
      | None \<Rightarrow> locator_find M pindexBest loc)"

definition locator_GetBlockIndex :: "block_map \<Rightarrow> u256 option \<Rightarrow> u256 option \<Rightarrow> CBlockLocator \<Rightarrow> u256 option" where
  "locator_GetBlockIndex M pindexBest pindexGenesisBlock loc =
     (case locator_find M pindexBest loc of Some h \<Rightarrow> Some h | None \<Rightarrow> pindexGenesisBlock)"

definition locator_GetBlockHash :: "block_map \<Rightarrow> u256 option \<Rightarrow> u256 \<Rightarrow> CBlockLocator \<Rightarrow> u256" where
  "locator_GetBlockHash M pindexBest hashGenesisBlock loc =
     (case locator_find M pindexBest loc of Some h \<Rightarrow> h | None \<Rightarrow> hashGenesisBlock)"

definition locator_GetHeight :: "block_map \<Rightarrow> u256 option \<Rightarrow> u256 option \<Rightarrow> CBlockLocator \<Rightarrow> int" where
  "locator_GetHeight M pindexBest pindexGenesisBlock loc =
     (case locator_GetBlockIndex M pindexBest pindexGenesisBlock loc of None \<Rightarrow> 0
      | Some h \<Rightarrow> (case M h of None \<Rightarrow> 0 | Some p \<Rightarrow> nHeight p))"

section \<open>The ancestors of a block\<close>
lemma map_okD: "map_ok M \<Longrightarrow> M h = Some i \<Longrightarrow> entry_ok M h i"
  by (simp add: map_ok_def)

lemma entry_height: "entry_ok M h i \<Longrightarrow> 0 \<le> nHeight i"
  by (auto simp: entry_ok_def split: option.splits)

lemma ancestors_enough:
  assumes "map_ok M" "M h = Some i" "nat (nHeight i) < n"
  shows "ancestors n M (Some h) = ancestors (nat (nHeight i) + 1) M (Some h)
    \<and> length (ancestors n M (Some h)) = nat (nHeight i) + 1"
  using assms
proof (induction n arbitrary: h i)
  case (Suc n)
  from map_okD [OF Suc.prems(1,2)] have e: "entry_ok M h i" .
  show ?case
  proof (cases "pprev i")
    case None
    with e Suc.prems show ?thesis by (cases n) (auto simp: entry_ok_def)
  next
    case (Some q)
    then obtain j where j: "M q = Some j" "nHeight i = nHeight j + 1" "0 \<le> nHeight j"
      using e by (auto simp: entry_ok_def)
    with Suc.prems(3) have "nat (nHeight j) < n" by simp
    from Suc.IH [OF Suc.prems(1) j(1) this] j Some Suc.prems(2) show ?thesis
      by (auto simp: nat_add_distrib)
  qed
qed simp

lemma chain_at_NULL [simp]: "chain_at M None = []"
  by (simp add: chain_at_def)

lemma chain_at_unfold:
  assumes "map_ok M" "M h = Some i"
  shows "chain_at M (Some h) = i # chain_at M (pprev i)"
proof -
  have e: "entry_ok M h i" using map_okD [OF assms] .
  show ?thesis
  proof (cases "pprev i")
    case None
    with assms(2) show ?thesis by (cases "nat (nHeight i)") (simp_all add: chain_at_def)
  next
    case (Some q)
    then obtain j where j: "M q = Some j" "nHeight i = nHeight j + 1" "0 \<le> nHeight j"
      using e by (auto simp: entry_ok_def)
    with Some assms(2) show ?thesis by (simp add: chain_at_def nat_add_distrib)
  qed
qed

lemma length_chain_at:
  "map_ok M \<Longrightarrow> M h = Some i \<Longrightarrow> length (chain_at M (Some h)) = nat (nHeight i) + 1"
  using ancestors_enough [of M h i "nat (nHeight i) + 1"] by (simp add: chain_at_def)

lemma chain_at_entries:
  assumes "map_ok M" "M h = Some i"
  shows "list_all (\<lambda>p. M (phashBlock p) = Some p) (chain_at M (Some h))"
  using assms
proof (induction "nat (nHeight i)" arbitrary: h i rule: less_induct)
  case less
  have e: "entry_ok M h i" using map_okD less.prems .
  show ?case
  proof (cases "pprev i")
    case None
    with less.prems e show ?thesis by (simp add: chain_at_unfold entry_ok_def)
  next
    case (Some q)
    then obtain j where j: "M q = Some j" "nHeight i = nHeight j + 1" "0 \<le> nHeight j"
      using e by (auto simp: entry_ok_def)
    then have "nat (nHeight j) < nat (nHeight i)" by simp
    from less.hyps [OF this less.prems(1) j(1)] Some less.prems e show ?thesis
      by (simp add: chain_at_unfold entry_ok_def)
  qed
qed

lemma drop_chain_at:
  assumes "map_ok M" "M h = Some i" "k < length (chain_at M (Some h))"
  shows "drop k (chain_at M (Some h)) = chain_at M (Some (phashBlock (chain_at M (Some h) ! k)))"
  using assms
proof (induction k arbitrary: h i)
  case 0
  then show ?case using map_okD [OF 0(1,2)] by (simp add: chain_at_unfold entry_ok_def)
next
  case (Suc k)
  note u = chain_at_unfold [OF Suc.prems(1,2)]
  from Suc.prems(3) u obtain q j where q: "pprev i = Some q" "M q = Some j"
    by (cases "pprev i") (auto simp: chain_at_def split: option.splits)
  with Suc.prems(3) u have "k < length (chain_at M (Some q))" by simp
  from Suc.IH [OF Suc.prems(1) q(2) this] u q show ?case by simp
qed

section \<open>Median times\<close>
lemma sorted_count_below:
  assumes "sorted (xs :: int list)" "length (filter (\<lambda>t. t < m) xs) \<le> k" "k < length xs"
  shows "m \<le> xs ! k"
proof (rule ccontr)
  assume n: "\<not> m \<le> xs ! k"
  have "xs ! i < m" if "i < Suc k" for i
    using n sorted_nth_mono [OF assms(1), of i k] assms(3) that by simp
  then have "\<forall>t \<in> set (take (Suc k) xs). t < m"
    by (auto simp: in_set_conv_nth)
  then have "filter (\<lambda>t. t < m) (take (Suc k) xs) = take (Suc k) xs" by simp
  then have "Suc k \<le> length (filter (\<lambda>t. t < m) xs)"
    using assms(3) by (metis append_take_drop_id filter_append le_add1 length_append length_take
        min.absorb2 Suc_leI)
  with assms(2) show False by simp
qed

lemma sorted_nth_count:
  assumes "sorted (xs :: int list)" "k < length xs"
  shows "length (filter (\<lambda>t. t < xs ! k) xs) \<le> k"
proof -
  have "\<forall>t \<in> set (drop k xs). \<not> t < xs ! k"
    using assms by (auto simp: in_set_conv_nth not_less intro!: sorted_nth_mono)
  then have "filter (\<lambda>t. t < xs ! k) (drop k xs) = []" by (simp add: filter_empty_conv)
  then have "filter (\<lambda>t. t < xs ! k) xs = filter (\<lambda>t. t < xs ! k) (take k xs)"
    by (metis append_Nil2 append_take_drop_id filter_append)
  then show ?thesis using length_filter_le [of "\<lambda>t. t < xs ! k" "take k xs"] assms(2) by simp
qed

lemma length_filter_sort: "length (filter P (sort xs)) = length (filter P (xs :: int list))"
  by (simp add: filter_sort)

lemma median_step:
  assumes "ch \<noteq> []" "GetMedianTimePast ch < index_GetBlockTime p"
  shows "GetMedianTimePast ch \<le> GetMedianTimePast (p # ch)"
proof -
  define f where "f = map (index_GetBlockTime :: CBlockIndex \<Rightarrow> int)"
  define old where "old = f (take 11 ch)"
  define new where "new = f (take 11 (p # ch))"
  define m where "m = GetMedianTimePast ch"
  have n: "new = index_GetBlockTime p # take 10 old"
    by (simp add: new_def old_def f_def take_map numeral_eq_Suc)
  have "0 < length old" using assms(1) by (simp add: old_def f_def)
  then have k: "length old div 2 < length old" by simp
  have m: "m = sort old ! (length old div 2)"
    by (simp add: m_def GetMedianTimePast_def old_def f_def Let_def)
  have "length (filter (\<lambda>t. t < m) old) \<le> length old div 2"
    using sorted_nth_count [of "sort old" "length old div 2"] k by (simp add: length_filter_sort m)
  moreover have "length (filter (\<lambda>t. t < m) (take 10 old)) \<le> length (filter (\<lambda>t. t < m) old)"
    by (metis append_take_drop_id filter_append le_add1 length_append)
  moreover have "\<not> index_GetBlockTime p < m" using assms(2) by (simp add: m_def)
  ultimately have c: "length (filter (\<lambda>t. t < m) (sort new)) \<le> length old div 2"
    unfolding length_filter_sort by (simp add: n)
  have l: "length old div 2 \<le> length new div 2" "length new div 2 < length new"
    using assms(1) by (auto simp: n old_def f_def)
  have "m \<le> sort new ! (length new div 2)"
    using c l by (intro sorted_count_below) auto
  then show ?thesis
    by (simp add: m_def GetMedianTimePast_def new_def f_def Let_def)
qed

text \<open>\<open>m\<close> is a middle one of the times \<open>ts\<close>: at most half are earlier, fewer than half later.\<close>

definition middle_of :: "int list \<Rightarrow> int \<Rightarrow> bool" where
  "middle_of ts m \<longleftrightarrow> m \<in> set ts \<and> length (filter (\<lambda>t. t < m) ts) \<le> length ts div 2
     \<and> length (filter (\<lambda>t. m < t) ts) \<le> (length ts - 1) div 2"

lemma sorted_nth_count_above:
  assumes "sorted xs" and "k < length xs"
  shows "length (filter (\<lambda>t. xs ! k < t) (xs :: int list)) \<le> length xs - 1 - k"
proof -
  have "filter (\<lambda>t. xs ! k < t) (take (Suc k) xs) = []"
    using assms by (auto simp: filter_empty_conv in_set_conv_nth not_less intro!: sorted_nth_mono)
  then have "filter (\<lambda>t. xs ! k < t) xs = filter (\<lambda>t. xs ! k < t) (drop (Suc k) xs)"
    by (metis append_Nil append_take_drop_id filter_append)
  then show ?thesis using length_filter_le [of "\<lambda>t. xs ! k < t" "drop (Suc k) xs"] by simp
qed

lemma median_middle:
  assumes "ch \<noteq> []"
  shows "middle_of (map index_GetBlockTime (take 11 ch)) (GetMedianTimePast ch)"
proof -
  define ts where "ts = map index_GetBlockTime (take 11 ch)"
  have "0 < length ts" using assms by (simp add: ts_def)
  then have k: "length ts div 2 < length (sort ts)" by simp
  have m: "GetMedianTimePast ch = sort ts ! (length ts div 2)" by (simp add: GetMedianTimePast_def ts_def Let_def)
  have "length (filter (\<lambda>t. GetMedianTimePast ch < t) ts) \<le> length ts - 1 - length ts div 2"
    using sorted_nth_count_above [OF sorted_sort k] by (simp add: length_filter_sort m)
  also have "\<dots> \<le> (length ts - 1) div 2" by linarith
  finally show ?thesis
    unfolding ts_def [symmetric] middle_of_def
    using sorted_nth_count [OF sorted_sort k] nth_mem [OF k] by (simp add: length_filter_sort m)
qed

text \<open>C34: the rule of \<open>AcceptBlock\<close> that a block be later than the median time of the blocks
  before it makes the median of a chain grow. \<open>GetMedianTimePast\<close> is a middle one of the times of
  the last eleven blocks; in a chain that keeps the rule the median at a block is at least the
  median at each of its ancestors, and every block is later than the median at every ancestor.\<close>
theorem median_time_monotone:
  assumes "\<forall>k. k + 1 < length ch \<longrightarrow> GetMedianTimePast (drop (k + 1) ch) < index_GetBlockTime (ch ! k)"
    and "i < j" and "j < length ch"
  shows "middle_of (map index_GetBlockTime (take 11 (drop i ch))) (GetMedianTimePast (drop i ch))
    \<and> GetMedianTimePast (drop j ch) \<le> GetMedianTimePast (drop i ch)
    \<and> GetMedianTimePast (drop j ch) < index_GetBlockTime (ch ! i)"
proof -
  have step: "GetMedianTimePast (drop (k + 1) ch) \<le> GetMedianTimePast (drop k ch)" if "k + 1 < length ch" for k
  proof -
    have "GetMedianTimePast (drop (k + 1) ch) \<le> GetMedianTimePast (ch ! k # drop (k + 1) ch)"
      by (rule median_step) (use assms(1) that in auto)
    then show ?thesis using that by (simp add: Cons_nth_drop_Suc)
  qed
  have mono: "GetMedianTimePast (drop b ch) \<le> GetMedianTimePast (drop a ch)" if "a \<le> b" "b < length ch" for a b
    using that
  proof (induction b rule: dec_induct)
    case (step n)
    then show ?case using \<open>\<And>k. k + 1 < length ch \<Longrightarrow> GetMedianTimePast (drop (k + 1) ch) \<le> GetMedianTimePast (drop k ch)\<close> [of n]
      by simp
  qed simp
  have "GetMedianTimePast (drop j ch) \<le> GetMedianTimePast (drop (i + 1) ch)" using mono assms(2,3) by simp
  also have "\<dots> < index_GetBlockTime (ch ! i)" using assms by simp
  finally show ?thesis using median_middle [of "drop i ch"] mono [of i j] assms(2,3) by simp
qed

theorem median_time_monotone_witness:
  "GetMedianTimePast (map (\<lambda>t. index_empty\<lparr>bi_nTime := t\<rparr>) [20, 10, 9, 5]) < 11 \<and>
   GetMedianTimePast (map (\<lambda>t. index_empty\<lparr>bi_nTime := t\<rparr>) [10, 9, 5])
     \<le> GetMedianTimePast (map (\<lambda>t. index_empty\<lparr>bi_nTime := t\<rparr>) [11, 20, 10, 9, 5])"
proof -
  define ch where "ch = map (\<lambda>t. index_empty\<lparr>bi_nTime := t\<rparr>) [11, 20, 10, 9, 5]"
  have d: "drop 2 ch = map (\<lambda>t. index_empty\<lparr>bi_nTime := t\<rparr>) [10, 9, 5]"
    "drop 1 ch = map (\<lambda>t. index_empty\<lparr>bi_nTime := t\<rparr>) [20, 10, 9, 5]" "index_GetBlockTime (ch ! 0) = 11" "length ch = 5"
    by (simp_all add: ch_def index_GetBlockTime_def)
  have r: "\<forall>k. k + 1 < length ch \<longrightarrow> GetMedianTimePast (drop (k + 1) ch) < index_GetBlockTime (ch ! k)"
  proof (intro allI impI)
    fix k assume "k + 1 < length ch"
    then have "k = 0 \<or> k = 1 \<or> k = 2 \<or> k = 3" by (simp add: d(4)) linarith
    then show "GetMedianTimePast (drop (k + 1) ch) < index_GetBlockTime (ch ! k)"
      by (elim disjE) (simp_all add: ch_def GetMedianTimePast_def index_GetBlockTime_def)
  qed
  show ?thesis
    using median_time_monotone [OF r, of 0 1] median_time_monotone [OF r, of 0 2] d by (simp add: ch_def)
qed

section \<open>Locators\<close>

text \<open>
  A walk at position \<open>q\<close> with \<open>n\<close> hashes pushed: the step is 1 or at most \<open>q\<close>, so the
  position at most doubles from one hash to the next.
\<close>
lemma locator_find_walk:
  assumes "list_all (\<lambda>p. M (phashBlock p) = Some p) ch"
    and "d < length ch" "\<And>j. j < length ch \<Longrightarrow> IsInMainChain best (ch ! j) \<longleftrightarrow> d \<le> j"
    and "n \<le> q" "0 < st" "st = 1 \<or> st \<le> q" "q \<le> max d (2 * d)"
  shows "(\<exists>j. d \<le> j \<and> j \<le> 2 * d \<and> j < length ch
        \<and> locator_find M best (locator_walk n st (drop q ch) @ loc) = Some (phashBlock (ch ! j)))
    \<or> locator_find M best (locator_walk n st (drop q ch) @ loc) = locator_find M best loc"
  using assms(4-)
proof (induction "length ch - q" arbitrary: q n st rule: less_induct)
  case less
  show ?case
  proof (cases "q < length ch")
    case True
    then have dr: "drop q ch = ch ! q # drop (Suc q) ch" by (simp add: Cons_nth_drop_Suc)
    have M: "M (phashBlock (ch ! q)) = Some (ch ! q)" using assms(1) True by (simp add: list_all_length)
    have e: "drop st (ch ! q # drop (Suc q) ch) = drop (q + st) ch"
      by (metis dr drop_drop add.commute)
    define st' where "st' = (if 10 < Suc n then 2 * st else st)"
    have w: "locator_walk n st (drop q ch) = phashBlock (ch ! q) # locator_walk (Suc n) st' (drop (q + st) ch)"
      using less.prems(2) by (subst locator_walk.simps) (simp add: dr st'_def e)
    show ?thesis
    proof (cases "d \<le> q")
      case d: True
      then show ?thesis using M w assms(3) [OF True] less.prems(4) True by auto
    next
      case d: False
      have a: "length ch - (q + st) < length ch - q" using True less.prems(2) by simp
      have b: "Suc n \<le> q + st" "0 < st'" "st' = 1 \<or> st' \<le> q + st" "q + st \<le> max d (2 * d)"
        using less.prems d by (auto simp: st'_def)
      from less.hyps [OF a b] show ?thesis using w M assms(3) [OF True] d by simp
    qed
  next
    case False
    then show ?thesis by (subst (1 2) locator_walk.simps) simp
  qed
qed

text \<open>a locator finds the fork. Let \<open>ch\<close> be the ancestors of a block, of which exactly
  those from depth \<open>d\<close> on are in the main chain. The locator \<open>Set\<close> builds for the block
  leads \<open>GetBlockIndex\<close> to an ancestor in the main chain, at depth at least \<open>d\<close> and at most
  \<open>2 d\<close>, or to the genesis block when the walk stepped over it: the blocks that have to be
  sent again are at most as many as the fork has.\<close>
theorem locator_finds_fork:
  assumes "map_ok M" "M h = Some i" "ch = chain_at M (Some h)"
    and "d < length ch" "\<And>j. j < length ch \<Longrightarrow> IsInMainChain best (ch ! j) \<longleftrightarrow> d \<le> j"
  shows "\<exists>j. d \<le> j \<and> j < length ch \<and> (j \<le> 2 * d \<or> j = length ch - 1)
    \<and> locator_GetBlockIndex M best gen (locator_Set (phashBlock (last ch)) ch) = Some (phashBlock (ch ! j))"
proof -
  have a: "list_all (\<lambda>p. M (phashBlock p) = Some p) ch"
    using chain_at_entries [OF assms(1,2)] assms(3) by simp
  have ne: "ch \<noteq> []" using assms(4) by auto
  then have l: "last ch = ch ! (length ch - 1)" by (simp add: last_conv_nth)
  have g: "locator_find M best [phashBlock (last ch)] = Some (phashBlock (last ch))"
    using a assms(4) assms(5) [of "length ch - 1"] by (simp add: l list_all_length)
  from locator_find_walk [OF a assms(4,5), of 0 0 1 "[phashBlock (last ch)]"] g
  consider (walk) j where "d \<le> j" "j \<le> 2 * d" "j < length ch"
      "locator_find M best (locator_Set (phashBlock (last ch)) ch) = Some (phashBlock (ch ! j))"
    | (root) "locator_find M best (locator_Set (phashBlock (last ch)) ch) = Some (phashBlock (last ch))"
    by (auto simp: locator_Set_def simp del: locator_find.simps)
  then show ?thesis
  proof cases
    case walk
    then show ?thesis by (auto simp: locator_GetBlockIndex_def)
  next
    case root
    with l assms(4) show ?thesis
      by (intro exI [of _ "length ch - 1"]) (auto simp: locator_GetBlockIndex_def)
  qed
qed

definition sample_index :: "u256 \<Rightarrow> u256 option \<Rightarrow> u256 option \<Rightarrow> int \<Rightarrow> CBlockIndex" where
  "sample_index h prev nxt height =
     index_empty\<lparr>phashBlock := h, pprev := prev, pnext := nxt, nHeight := height\<rparr>"

definition sample_map :: block_map where
  "sample_map = [1 \<mapsto> sample_index 1 None (Some 2) 0, 2 \<mapsto> sample_index 2 (Some 1) None 1,
     3 \<mapsto> sample_index 3 (Some 1) None 1]"

lemma sample_map_ok: "map_ok sample_map"
  by (auto simp: map_ok_def sample_map_def entry_ok_def sample_index_def index_empty_def split: if_splits)

lemma sample_chain:
  "chain_at sample_map (Some 3) = [sample_index 3 (Some 1) None 1, sample_index 1 None (Some 2) 0]"
  by (simp add: chain_at_def sample_map_def sample_index_def index_empty_def numeral_eq_Suc)

theorem locator_finds_fork_witness:
  "locator_GetBlockIndex sample_map (Some 2) (Some 1)
     (locator_Set 1 (chain_at sample_map (Some 3))) = Some 1"
proof -
  let ?ch = "chain_at sample_map (Some 3)"
  have M: "sample_map 3 = Some (sample_index 3 (Some 1) None 1)" by (simp add: sample_map_def)
  have main: "IsInMainChain (Some 2) (?ch ! j) \<longleftrightarrow> 1 \<le> j" if "j < length ?ch" for j
    using that by (auto simp: sample_chain less_Suc_eq IsInMainChain_def sample_index_def index_empty_def)
  have "1 < length ?ch" by (simp add: sample_chain)
  from locator_finds_fork [OF sample_map_ok M refl this main, where gen = "Some 1"]
  show ?thesis by (auto simp: sample_chain less_Suc_eq sample_index_def index_empty_def)
qed

section \<open>The index on disk\<close>

definition diskindex_ok :: "CDiskBlockIndex \<Rightarrow> bool" where
  "diskindex_ok d \<longleftrightarrow> i32_ok (nHeight d) \<and> i64_ok (nMint d) \<and> i64_ok (nMoneySupply d)
     \<and> i32_ok (bi_nVersion d)
     \<and> (index_IsProofOfStake d
        \<or> prevoutStake d = outpoint_null \<and> nStakeTime d = 0 \<and> hashProofOfStake d = 0)"

text \<open>the block index survives its disk record. Reading what \<open>CDiskBlockIndex\<close> wrote for an
  entry gives back every stored field, with the proof-of-stake fields cleared for a
  proof-of-work block; the pointers, the trust and the checksum, which are not stored,
  stay those of the object read over. The header the record rebuilds is the entry's, so
  the recomputed hash is the hash of its block.\<close>
theorem disk_index_roundtrip:
  assumes "diskindex_ok d" "i32_ok v" "fileVersion d = fileVersion d0"
  shows "unser_CDiskBlockIndex fh d0 (ser_CDiskBlockIndex fh v d @ r)
      = Inr (d\<lparr>phashBlock := phashBlock d0, pprev := pprev d0, pnext := pnext d0,
          bnChainTrust := bnChainTrust d0, nStakeModifierChecksum := nStakeModifierChecksum d0,
          blockHash := (if DB_MINVER_INCHASH \<le> fileVersion d then blockHash d else blockHash d0)\<rparr>, r)
    \<and> diskindex_header (diskindex_of p) = GetBlockHeader p
    \<and> fst (diskindex_GetBlockHash L False now (diskindex_of p)) = block_GetHash L (GetBlockHeader p)"
proof (intro conjI)
  show h: "diskindex_header (diskindex_of p) = GetBlockHeader p"
    by (simp add: diskindex_header_def diskindex_of_def GetBlockHeader_def block_SetNull_def
        CBlockIndex.defs split: option.splits)
  show "fst (diskindex_GetBlockHash L False now (diskindex_of p)) = block_GetHash L (GetBlockHeader p)"
    by (simp add: diskindex_GetBlockHash_def h Let_def)
  show "unser_CDiskBlockIndex fh d0 (ser_CDiskBlockIndex fh v d @ r)
      = Inr (d\<lparr>phashBlock := phashBlock d0, pprev := pprev d0, pnext := pnext d0,
          bnChainTrust := bnChainTrust d0, nStakeModifierChecksum := nStakeModifierChecksum d0,
          blockHash := (if DB_MINVER_INCHASH \<le> fileVersion d then blockHash d else blockHash d0)\<rparr>, r)"
  proof (cases "index_IsProofOfStake d")
    case True
    then show ?thesis
      using assms by (cases fh)
        (simp_all add: unser_CDiskBlockIndex_def ser_CDiskBlockIndex_def unser_stake_fields_def
          unser_index_header_def diskindex_ok_def codec_simps outpoint.unser_ser index_IsProofOfStake_def)
  next
    case False
    then show ?thesis
      using assms by (cases fh)
        (simp_all add: unser_CDiskBlockIndex_def ser_CDiskBlockIndex_def unser_stake_fields_def
          unser_index_header_def diskindex_ok_def codec_simps index_IsProofOfStake_def)
  qed
qed

theorem disk_index_roundtrip_witness:
  "unser_CDiskBlockIndex False (diskindex_new 70300)
     (ser_CDiskBlockIndex False 1 (diskindex_new 70300\<lparr>nHeight := 5, hashNext := 7, blockHash := 9\<rparr>) @ [1])
   = Inr (diskindex_new 70300\<lparr>nHeight := 5, hashNext := 7, blockHash := 9\<rparr>, [1])"
proof -
  let ?d = "diskindex_new 70300\<lparr>nHeight := 5, hashNext := 7, blockHash := 9\<rparr>"
  have "diskindex_ok ?d"
    by (simp add: diskindex_ok_def diskindex_new_def index_empty_def CBlockIndex.defs i32_ok_def
        i64_ok_def index_IsProofOfStake_def)
  moreover have "i32_ok 1" "fileVersion ?d = fileVersion (diskindex_new 70300)"
    by (simp_all add: i32_ok_def diskindex_new_def CBlockIndex.defs)
  ultimately show ?thesis
    using disk_index_roundtrip [of ?d 1 "diskindex_new 70300" False "[1]"]
    by (simp add: diskindex_new_def CBlockIndex.defs DB_MINVER_INCHASH_def)
qed

section \<open>Trust and flags\<close>
lemma GetBlockTrust_value:
  assumes "bn_ok L"
  shows "GetBlockTrust L p = Some
    (if SetCompact L (bi_nBits p) \<le> 0 then 0
     else if index_IsProofOfStake p then 2 ^ 256 div (SetCompact L (bi_nBits p) + 1) else 1)"
proof -
  have "bn_div L (2 ^ 256) (SetCompact L (bi_nBits p) + 1) = Some (2 ^ 256 div (SetCompact L (bi_nBits p) + 1))"
    if "0 < SetCompact L (bi_nBits p)"
    using that by (intro bn_div_nonneg(1) [OF assms]) auto
  then show ?thesis
    by (simp add: GetBlockTrust_def bn_simps [OF assms] Let_def bn_of_int_value [OF assms])
qed

lemma GetBlockTrust_nonneg:
  assumes "bn_ok L" "GetBlockTrust L p = Some t"
  shows "0 \<le> t"
  using assms GetBlockTrust_value [OF assms(1), of p]
  by (auto simp: pos_imp_zdiv_nonneg_iff split: if_splits)

lemmas flag_defs = BLOCK_PROOF_OF_STAKE_def BLOCK_STAKE_ENTROPY_def BLOCK_STAKE_MODIFIER_def

lemma flags_independent:
  "index_IsProofOfStake (SetProofOfStake p)"
  "index_GetStakeEntropyBit (SetProofOfStake p) = index_GetStakeEntropyBit p"
  "GeneratedStakeModifier (SetProofOfStake p) = GeneratedStakeModifier p"
  "index_IsProofOfStake (SetStakeModifier m g p) = index_IsProofOfStake p"
  "index_GetStakeEntropyBit (SetStakeModifier m g p) = index_GetStakeEntropyBit p"
  "GeneratedStakeModifier (SetStakeModifier m g p) = (g \<or> GeneratedStakeModifier p)"
  by (simp_all add: index_IsProofOfStake_def SetProofOfStake_def index_GetStakeEntropyBit_def
      GeneratedStakeModifier_def SetStakeModifier_def flag_defs Let_def bit.conj_disj_distrib2)

end
