(* ===== verification/Targets.thy ===== *)
theory Targets
  imports Block_Index "HOL-Library.Log_Nat"
begin

text \<open>
  Consensus rules about work and rewards (\<open>main.cpp\<close>): the stake parameters and their hard
  forks, block rewards, the minimum work, the three retargeting rules and \<open>CheckProofOfWork\<close>.
  A result is \<open>None\<close> where the code dereferences NULL or a big-number operation throws.
\<close>

section \<open>Parameters\<close>

definition HARDFORK_TIME :: u32 where "HARDFORK_TIME = 1451570400"
definition HARDFORK_HEIGHTV2 :: int where "HARDFORK_HEIGHTV2 = 1310273"
definition HARDFORK_TIMEV3 :: u32 where "HARDFORK_TIMEV3 = 1452272100 + 60 * 60 * 12"
definition HARDFORK_HEIGHTV4 :: int where "HARDFORK_HEIGHTV4 = 1584000"
definition END_POW_TIME :: u32 where "END_POW_TIME = HARDFORK_TIME + 60 * 60 * 24"
definition OLD_nStakeMinAge :: u32 where "OLD_nStakeMinAge = 60 * 60 * 24 * 30"
definition OLD_nStakeMaxAge :: u32 where "OLD_nStakeMaxAge = 60 * 60 * 24 * 90"
definition OLD_nStakeTargetSpacing :: u32 where "OLD_nStakeTargetSpacing = 60"
definition POSP_TARGET_LIMIT :: u32 where "POSP_TARGET_LIMIT = 503417504"
definition PROTOCOL_SWITCH_TIME :: u32 where "PROTOCOL_SWITCH_TIME = 1371686400"
definition ROUND_SWITCH_TIME :: u32 where "ROUND_SWITCH_TIME = 1375747200"
definition MAX_MINT_PROOF_OF_STAKE :: int where "MAX_MINT_PROOF_OF_STAKE = 1 * CENT"
definition nStakeMinAge :: u32 where "nStakeMinAge = 60 * 60"
definition nStakeMaxAge :: u32 where "nStakeMaxAge = - 1"
definition nStakeTargetSpacing :: u32 where "nStakeTargetSpacing = 65"
definition nCoinbaseMaturity :: int where "nCoinbaseMaturity = 5"

text \<open>
  \<open>0.16 * 24 * 60 * 60\<close> in double precision is just below 13824, and the conversion to
  \<open>int64\<close> truncates (lemma \<open>target_timespan_double\<close>).
\<close>

definition nTargetTimespan :: int where "nTargetTimespan = 13823"
definition nTargetSpacingWorkMax :: int where "nTargetSpacingWorkMax = 12 * 60"

lemmas fork_params = HARDFORK_TIME_def HARDFORK_HEIGHTV2_def HARDFORK_TIMEV3_def HARDFORK_HEIGHTV4_def
  POSP_TARGET_LIMIT_def

definition GetStakeTargetSpacing :: "u32 \<Rightarrow> u32" where
  "GetStakeTargetSpacing t = (if HARDFORK_TIME \<le> t then nStakeTargetSpacing else OLD_nStakeTargetSpacing)"

definition GetStakeMinAge :: "u32 \<Rightarrow> u32" where
  "GetStakeMinAge t = (if HARDFORK_TIME \<le> t then nStakeMinAge else OLD_nStakeMinAge)"

definition GetStakeMaxAge :: "u32 \<Rightarrow> u32" where
  "GetStakeMaxAge t = (if HARDFORK_TIME \<le> t then nStakeMaxAge else OLD_nStakeMaxAge)"

text \<open>\<open>~uint256(0) >> k\<close>. \<open>LoadBlockIndex\<close> replaces the proof-of-work limit on the test network.\<close>

definition bnProofOfWorkLimit :: "extlib \<Rightarrow> bool \<Rightarrow> int" where
  "bnProofOfWorkLimit L testnet = setuint256 L (drop_bit (if testnet then 16 else 20) (- 1))"

definition bnProofOfStakeLimit :: "extlib \<Rightarrow> int" where
  "bnProofOfStakeLimit L = setuint256 L (drop_bit 24 (- 1))"

definition bnProofOfStakeHardLimit :: "extlib \<Rightarrow> int" where
  "bnProofOfStakeHardLimit L = setuint256 L (drop_bit 30 (- 1))"

definition bnProofOfStakeLimitV2 :: "extlib \<Rightarrow> int" where
  "bnProofOfStakeLimitV2 L = setuint256 L (drop_bit 26 (- 1))"

text \<open>Division of \<open>int64\<close>, which truncates towards zero.\<close>

definition c_div :: "int \<Rightarrow> int \<Rightarrow> int" where
  "c_div a b = sgn a * sgn b * (\<bar>a\<bar> div \<bar>b\<bar>)"

section \<open>Double precision\<close>

text \<open>
  IEEE 754 binary64 with rounding to nearest, ties to even, of values in the normal range:
  \<open>dbl x\<close> is the double nearest to \<open>x\<close>, and an operation on doubles is the double of the
  exact result.
\<close>

definition pow2 :: "int \<Rightarrow> rat" where
  "pow2 k = (if 0 \<le> k then 2 ^ nat k else 1 / 2 ^ nat (- k))"

definition floor_log2 :: "rat \<Rightarrow> int" where
  "floor_log2 x =
     (let (n, d) = quotient_of x; k = bitlen n - bitlen d
      in if pow2 k \<le> x then k else k - 1)"

definition round_even :: "rat \<Rightarrow> int" where
  "round_even q =
     (let f = \<lfloor>q\<rfloor>; r = q - of_int f
      in if r < 1 / 2 then f else if 1 / 2 < r then f + 1 else if even f then f else f + 1)"

definition dbl :: "rat \<Rightarrow> rat" where
  "dbl x =
     (if x = 0 then 0
      else let e = floor_log2 \<bar>x\<bar> - 52
           in sgn x * of_int (round_even (\<bar>x\<bar> / pow2 e)) * pow2 e)"

definition trunc_dbl :: "rat \<Rightarrow> int" where
  "trunc_dbl x = (if 0 \<le> x then \<lfloor>x\<rfloor> else - \<lfloor>- x\<rfloor>)"

section \<open>Rewards\<close>

text \<open>The amounts are products of a decimal constant with \<open>COIN\<close>, truncated.\<close>

definition GetProofOfWorkReward :: "u32 \<Rightarrow> int" where
  "GetProofOfWorkReward h =
     (if h < 55001 then 10 * COIN
      else if h < 95001 then 5 * COIN
      else if h < 145001 then trunc_dbl (dbl (dbl (5 / 2) * of_int COIN))
      else if h < 195001 then trunc_dbl (dbl (dbl (5 / 4) * of_int COIN))
      else if h < 245001 then trunc_dbl (dbl (dbl (5 / 8) * of_int COIN))
      else if h < 295001 then trunc_dbl (dbl (dbl (5 / 16) * of_int COIN))
      else if h < 345001 then trunc_dbl (dbl (dbl (5 / 32) * of_int COIN))
      else if h < 395001 then trunc_dbl (dbl (dbl (5 / 64) * of_int COIN))
      else if h < 445001 then trunc_dbl (dbl (dbl (5 / 128) * of_int COIN))
      else if h < 545001 then trunc_dbl (dbl (dbl (5 / 256) * of_int COIN))
      else if 545000 < h then trunc_dbl (dbl (dbl (1 / 100) * of_int COIN))
      else 0 * COIN)"

text \<open>
  The bisection of \<open>GetPoSReward\<close> between \<open>bnLowerBound\<close> and \<open>bnUpperBound\<close>; \<open>limit4\<close> and
  the target are as in the comparison of the code. The result is the upper bound.
\<close>

partial_function (option) pos_bisect :: "extlib \<Rightarrow> int \<Rightarrow> int \<Rightarrow> int \<Rightarrow> int \<Rightarrow> int \<Rightarrow> int option" where
  "pos_bisect L limit bnTarget bnTargetLimit lower upper =
     (if bn_le L (BN_add L lower (setint64 L CENT)) upper
      then (case bn_div L (BN_add L lower upper) (bn_of_int L 2) of None \<Rightarrow> None
            | Some mid \<Rightarrow>
              if bn_gt L (BN_mul L (BN_mul L (BN_mul L (BN_mul L mid mid) mid) mid) bnTargetLimit)
                   (BN_mul L (BN_mul L (BN_mul L (BN_mul L limit limit) limit) limit) bnTarget)
              then pos_bisect L limit bnTarget bnTargetLimit lower mid
              else pos_bisect L limit bnTarget bnTargetLimit mid upper)
      else Some upper)"

definition GetPoSReward :: "extlib \<Rightarrow> bool \<Rightarrow> int \<Rightarrow> u32 \<Rightarrow> u32 \<Rightarrow> int option" where
  "GetPoSReward L testnet nCoinAge bits t =
     map_option (\<lambda>nRewardCoinYear.
         if ROUND_SWITCH_TIME < t then c_div (nCoinAge * 33 * nRewardCoinYear) (365 * 33 + 8)
         else c_div (nCoinAge * 33) (365 * 33 + 8) * nRewardCoinYear)
       (if testnet \<or> PROTOCOL_SWITCH_TIME < t
        then let limit = setint64 L MAX_MINT_PROOF_OF_STAKE;
                 bnTarget = SetCompact L bits;
                 bnTargetLimit = SetCompact L (GetCompact L (bnProofOfStakeLimit L))
             in map_option (\<lambda>upper.
                  let nRewardCoinYear = sint (getuint64 L upper)
                  in if ROUND_SWITCH_TIME < t then min nRewardCoinYear MAX_MINT_PROOF_OF_STAKE
                     else min (c_div nRewardCoinYear CENT * CENT) MAX_MINT_PROOF_OF_STAKE)
                (pos_bisect L limit bnTarget bnTargetLimit (setint64 L (1 * CENT)) limit)
        else Some (trunc_dbl (dbl (dbl (15 / 1000) * of_int CENT))))"

definition posp_share :: "int \<Rightarrow> rat" where
  "posp_share money = dbl (dbl (dbl (of_int money) * dbl (2 / 100)) / 485169)"

definition GetPoSPRewardV1 :: "int \<Rightarrow> int" where
  "GetPoSPRewardV1 money = trunc_dbl (posp_share money)"

definition GetPoSPRewardV2 :: "int \<Rightarrow> int \<Rightarrow> int" where
  "GetPoSPRewardV2 money nFees = trunc_dbl (dbl (posp_share money + of_int nFees))"

definition GetProofOfStakeReward ::
  "extlib \<Rightarrow> bool \<Rightarrow> int \<Rightarrow> u32 \<Rightarrow> u32 \<Rightarrow> u32 \<Rightarrow> int \<Rightarrow> int \<Rightarrow> int option" where
  "GetProofOfStakeReward L testnet nCoinAge bits t h money nFees =
     (if of_int HARDFORK_HEIGHTV4 \<le> h then Some (GetPoSPRewardV2 money nFees)
      else if HARDFORK_TIME \<le> t then Some (GetPoSPRewardV1 money)
      else GetPoSReward L testnet nCoinAge bits t)"

section \<open>Targets\<close>

text \<open>\<open>ComputeMinWork\<close>: the target doubles for every day, up to the limit.\<close>

function min_work_loop :: "extlib \<Rightarrow> int \<Rightarrow> int \<Rightarrow> int \<Rightarrow> int" where
  "min_work_loop L limit t bnResult =
     (if 0 < t \<and> bn_lt L bnResult limit
      then min_work_loop L limit (t - 24 * 60 * 60) (BN_mul L bnResult (bn_of_int L 2))
      else bnResult)"
  by pat_completeness auto
termination by (relation "measure (\<lambda>(L, l, t, b). nat t)") auto

declare min_work_loop.simps [simp del]

definition ComputeMinWork :: "extlib \<Rightarrow> bool \<Rightarrow> u32 \<Rightarrow> int \<Rightarrow> u32" where
  "ComputeMinWork L testnet nBase t =
     (let limit = bnProofOfWorkLimit L testnet;
          bnResult = min_work_loop L limit t (BN_mul L (SetCompact L nBase) (bn_of_int L 2));
          bnResult = (if bn_gt L bnResult limit then limit else bnResult)
      in GetCompact L bnResult)"

text \<open>
  The common formula of the retargeting rules:
  \<open>bnNew *= (nInterval - 1) * nTargetSpacing + 2 nActualSpacing\<close>, then
  \<open>bnNew /= (nInterval + 1) * nTargetSpacing\<close>.
\<close>

definition retarget :: "extlib \<Rightarrow> u32 \<Rightarrow> int \<Rightarrow> int \<Rightarrow> int \<Rightarrow> int option" where
  "retarget L bits nInterval nTargetSpacing nActualSpacing =
     bn_div L
       (BN_mul L (SetCompact L bits)
         (setint64 L ((nInterval - 1) * nTargetSpacing + nActualSpacing + nActualSpacing)))
       (setint64 L ((nInterval + 1) * nTargetSpacing))"

text \<open>
  \<open>pindexPrev\<close> and \<open>pindexPrevPrev\<close> with the two early returns: \<open>None\<close> when there is no
  second block, \<open>Some\<close> of the two entries otherwise.
\<close>

definition last_two :: "chain \<Rightarrow> bool \<Rightarrow> (CBlockIndex \<times> CBlockIndex) option" where
  "last_two pindexLast fProofOfStake =
     (case pindexLast of [] \<Rightarrow> None
      | _ \<Rightarrow>
        let pindexPrev = GetLastBlockIndex pindexLast fProofOfStake
        in if tl pindexPrev = [] then None
           else let pindexPrevPrev = GetLastBlockIndex (tl pindexPrev) fProofOfStake
                in if tl pindexPrevPrev = [] then None else Some (hd pindexPrev, hd pindexPrevPrev))"

definition clamp_spacing :: "int \<Rightarrow> int" where
  "clamp_spacing nActualSpacing =
     (if nActualSpacing < 0 then 1 else if 16 * 60 < nActualSpacing then 16 * 60 else nActualSpacing)"

definition GetNextTargetRequiredPoSPV2 :: "extlib \<Rightarrow> chain \<Rightarrow> u32 option" where
  "GetNextTargetRequiredPoSPV2 L pindexLast =
     (let limit = bnProofOfStakeLimitV2 L
      in case last_two pindexLast True of None \<Rightarrow> Some (GetCompact L limit)
         | Some (pindexPrev, pindexPrevPrev) \<Rightarrow>
           let nActualSpacing = clamp_spacing (index_GetBlockTime pindexPrev - index_GetBlockTime pindexPrevPrev);
               nTargetSpacing = int (unat (GetStakeTargetSpacing (bi_nTime (hd pindexLast))));
               nInterval = c_div (16 * 60) nTargetSpacing
           in map_option (\<lambda>bnNew.
                if bn_gt L bnNew limit \<or> bn_le L bnNew (bn_of_int L 0) then GetCompact L limit
                else GetCompact L bnNew)
              (retarget L (bi_nBits pindexPrev) nInterval nTargetSpacing nActualSpacing))"

definition GetNextTargetRequiredPoSP :: "extlib \<Rightarrow> bool \<Rightarrow> chain \<Rightarrow> u32 option" where
  "GetNextTargetRequiredPoSP L testnet pindexLast =
     (let bnTargetLimit = (if testnet then bnProofOfStakeLimit L else bnProofOfWorkLimit L testnet)
      in case last_two pindexLast True of None \<Rightarrow> Some (GetCompact L bnTargetLimit)
         | Some (pindexPrev, pindexPrevPrev) \<Rightarrow>
           let tip = hd pindexLast
           in if nHeight tip = HARDFORK_HEIGHTV2 then Some 487245310
              else let nActualSpacing = index_GetBlockTime pindexPrev - index_GetBlockTime pindexPrevPrev
                   in if \<not> HARDFORK_TIMEV3 \<le> bi_nTime tip \<and> HARDFORK_HEIGHTV2 \<le> nHeight tip
                        \<and> nActualSpacing < 0
                      then Some POSP_TARGET_LIMIT
                      else let nActualSpacing = (if HARDFORK_TIMEV3 \<le> bi_nTime tip
                                                 then clamp_spacing nActualSpacing else nActualSpacing);
                               nTargetSpacing = int (unat (GetStakeTargetSpacing (bi_nTime tip)));
                               nInterval = c_div (16 * 60) nTargetSpacing
                           in map_option (\<lambda>bnNew.
                                if HARDFORK_HEIGHTV2 \<le> nHeight tip
                                then if POSP_TARGET_LIMIT < GetCompact L bnNew \<or> bn_le L bnNew (bn_of_int L 0)
                                     then POSP_TARGET_LIMIT else GetCompact L bnNew
                                else if POSP_TARGET_LIMIT < GetCompact L bnNew
                                     then POSP_TARGET_LIMIT else GetCompact L bnNew)
                              (retarget L (bi_nBits pindexPrev) nInterval nTargetSpacing nActualSpacing))"

definition hybrid_limit :: "extlib \<Rightarrow> bool \<Rightarrow> bool \<Rightarrow> int \<Rightarrow> int" where
  "hybrid_limit L testnet fProofOfStake height =
     (if fProofOfStake
      then if testnet then bnProofOfStakeLimit L
           else if 15000 < height + 1 then bnProofOfStakeLimit L
           else if 14060 < height + 1 then bnProofOfStakeHardLimit L
           else bnProofOfWorkLimit L testnet
      else bnProofOfWorkLimit L testnet)"

text \<open>
  On the main network the proof-of-stake branch reads \<open>pindexLast->nHeight\<close> before the test
  for NULL.
\<close>

definition GetNextTargetRequiredHybrid :: "extlib \<Rightarrow> bool \<Rightarrow> chain \<Rightarrow> bool \<Rightarrow> u32 option" where
  "GetNextTargetRequiredHybrid L testnet pindexLast fProofOfStake =
     (if pindexLast = [] \<and> fProofOfStake \<and> \<not> testnet then None
      else let bnTargetLimit = hybrid_limit L testnet fProofOfStake
                 (if pindexLast = [] then 0 else nHeight (hd pindexLast))
           in case last_two pindexLast fProofOfStake of None \<Rightarrow> Some (GetCompact L bnTargetLimit)
              | Some (pindexPrev, pindexPrevPrev) \<Rightarrow>
                let tip = hd pindexLast;
                    nActualSpacing = index_GetBlockTime pindexPrev - index_GetBlockTime pindexPrevPrev;
                    sp = int (unat (GetStakeTargetSpacing (bi_nTime tip)));
                    nTargetSpacing = (if fProofOfStake then sp
                      else min nTargetSpacingWorkMax (sp * (1 + nHeight tip - nHeight pindexPrev)));
                    nInterval = c_div nTargetTimespan nTargetSpacing
                in map_option (\<lambda>bnNew. GetCompact L (if bn_gt L bnNew bnTargetLimit then bnTargetLimit else bnNew))
                   (retarget L (bi_nBits pindexPrev) nInterval nTargetSpacing nActualSpacing))"

definition GetNextTargetRequired :: "extlib \<Rightarrow> bool \<Rightarrow> chain \<Rightarrow> bool \<Rightarrow> u32 option" where
  "GetNextTargetRequired L testnet pindexLast fProofOfStake =
     (case pindexLast of [] \<Rightarrow> None
      | tip # _ \<Rightarrow>
        if (testnet \<and> 10 < nHeight tip \<and> fProofOfStake) \<or> (HARDFORK_HEIGHTV4 \<le> nHeight tip \<and> fProofOfStake)
        then GetNextTargetRequiredPoSPV2 L pindexLast
        else if bi_nTime tip < HARDFORK_TIME \<or> \<not> fProofOfStake
        then GetNextTargetRequiredHybrid L testnet pindexLast fProofOfStake
        else GetNextTargetRequiredPoSP L testnet pindexLast)"

definition CheckProofOfWork :: "extlib \<Rightarrow> bool \<Rightarrow> u256 \<Rightarrow> u32 \<Rightarrow> bool" where
  "CheckProofOfWork L testnet hash bits =
     (let bnTarget = SetCompact L bits
      in if bn_le L bnTarget (bn_of_int L 0) \<or> bn_gt L bnTarget (bnProofOfWorkLimit L testnet) then False
         else if getuint256 L bnTarget < hash then False
         else True)"

section \<open>Compact targets of bounded numbers\<close>
lemma length_sm_encode_bound: "\<bar>n\<bar> < 256 ^ k \<Longrightarrow> length (sm_encode n) \<le> Suc k"
proof (rule ccontr)
  assume n: "\<bar>n\<bar> < 256 ^ k" and c: "\<not> length (sm_encode n) \<le> Suc k"
  then have "128 * 256 ^ k \<le> nat \<bar>n\<bar>"
    by (intro sm_len_least) (auto simp: length_sm_encode split: if_splits)
  moreover have "nat \<bar>n\<bar> < 256 ^ k" using n by (simp add: nat_less_iff)
  ultimately show False by simp
qed

lemma compact_trunc_bounds:
  assumes "0 < b"
  shows "0 < compact_trunc b" and "compact_trunc b \<le> b"
proof -
  define j where "j = length (sm_encode b) - 3"
  have v: "compact_trunc b = b div 256 ^ j * 256 ^ j"
    using assms by (simp add: compact_trunc_def j_def Let_def)
  have "256 ^ j \<le> b"
  proof (cases "j = 0")
    case False
    then have "Suc j < sm_len (nat b)" using assms by (simp add: j_def length_sm_encode)
    then have "128 * 256 ^ j \<le> nat b" by (intro sm_len_least) simp
    moreover have "(256 :: nat) ^ j \<le> 128 * 256 ^ j" by simp
    ultimately have "256 ^ j \<le> nat b" by (rule order_trans [rotated])
    then have "int (256 ^ j) \<le> int (nat b)" by (rule of_nat_mono)
    then show ?thesis using assms by simp
  qed (use assms in simp)
  then have "0 < b div 256 ^ j" by (simp add: pos_imp_zdiv_pos_iff)
  then show "0 < compact_trunc b" by (simp add: v)
  have "b mod 256 ^ j \<ge> 0" by simp
  then show "compact_trunc b \<le> b" using div_mult_mod_eq [of b "256 ^ j"] unfolding v by linarith
qed

lemma GetCompact_bounds:
  assumes "bn_ok L" "0 < b" "b < 2 ^ 256"
  shows "0 < SetCompact L (GetCompact L b)" and "SetCompact L (GetCompact L b) \<le> b"
proof -
  have "\<bar>b\<bar> < 256 ^ 32" using assms by simp
  from length_sm_encode_bound [OF this] have "length (sm_encode b) < 256" by simp
  from SetCompact_GetCompact [OF assms(1) this] compact_trunc_bounds [OF assms(2)]
  show "0 < SetCompact L (GetCompact L b)" "SetCompact L (GetCompact L b) \<le> b" by simp_all
qed

lemma unat_shifted_ones: "unat (drop_bit k (- 1 :: u256)) = (2 ^ 256 - 1) div 2 ^ k"
  unfolding unat_drop_bit_div unat_minus_1 by simp

lemma limit_values:
  assumes "bn_ok L"
  shows "bnProofOfWorkLimit L testnet = (if testnet then 2 ^ 240 - 1 else 2 ^ 236 - 1)"
    and "bnProofOfStakeLimit L = 2 ^ 232 - 1" and "bnProofOfStakeHardLimit L = 2 ^ 226 - 1"
    and "bnProofOfStakeLimitV2 L = 2 ^ 230 - 1"
  unfolding bnProofOfWorkLimit_def bnProofOfStakeLimit_def bnProofOfStakeHardLimit_def
    bnProofOfStakeLimitV2_def setuint256_value [OF assms] unat_shifted_ones
  by simp_all

lemma spacing_cases: "GetStakeTargetSpacing t = 65 \<or> GetStakeTargetSpacing t = 60"
  by (simp add: GetStakeTargetSpacing_def nStakeTargetSpacing_def OLD_nStakeTargetSpacing_def)

section \<open>Retargeting\<close>
lemma retarget_value:
  assumes "bn_ok L" "0 < n" "0 < sp" "n < 2 ^ 31" "sp < 2 ^ 31" "\<bar>act\<bar> < 2 ^ 33"
  shows "retarget L bits n sp act
    = Some (c_div (SetCompact L bits * ((n - 1) * sp + 2 * act)) ((n + 1) * sp))"
proof -
  have p: "0 \<le> (n - 1) * sp" "0 < (n + 1) * sp" using assms by simp_all
  have "(n + 1) * sp \<le> 2 ^ 31 * 2 ^ 31" using assms by (intro mult_mono) auto
  then have q: "(n + 1) * sp < 2 ^ 63" by simp
  have "(n - 1) * sp \<le> (n + 1) * sp" using assms by (intro mult_right_mono) auto
  then have "\<bar>(n - 1) * sp + act + act\<bar> < 2 ^ 63" using p assms(6) \<open>(n + 1) * sp \<le> 2 ^ 31 * 2 ^ 31\<close> by auto
  then have "setint64 L ((n - 1) * sp + act + act) = (n - 1) * sp + act + act"
    and "setint64 L ((n + 1) * sp) = (n + 1) * sp"
    using p q by (simp_all add: setint64_value [OF assms(1)])
  then show ?thesis
    using p assms(2,3) by (simp add: retarget_def bn_div_def bn_ok_div [OF assms(1)] bn_ok_arith [OF assms(1)]
        c_div_def Let_def ac_simps)
qed

lemma block_time_range: "0 \<le> index_GetBlockTime p" "index_GetBlockTime p < 4294967296"
proof -
  have "int (unat (bi_nTime p)) < int 4294967296" unfolding of_nat_less_iff by (rule unat_u32_lt)
  then show "index_GetBlockTime p < 4294967296" unfolding index_GetBlockTime_def by simp
qed (simp add: index_GetBlockTime_def)

lemma clamp_spacing_range: "0 \<le> clamp_spacing a" "clamp_spacing a \<le> 960"
  by (simp_all add: clamp_spacing_def)

text \<open>C23: from block 1,584,000 on the required proof-of-stake target is always a valid one. The
  rule never throws, and the target it asks for is positive and at most
  \<open>bnProofOfStakeLimitV2\<close>, whatever the bits and the times of the blocks before are.\<close>
theorem retarget_posp_v2:
  assumes "bn_ok L" "pindexLast \<noteq> []"
  shows "\<exists>r. GetNextTargetRequiredPoSPV2 L pindexLast = Some r
    \<and> 0 < SetCompact L r \<and> SetCompact L r \<le> bnProofOfStakeLimitV2 L"
proof -
  let ?l = "bnProofOfStakeLimitV2 L"
  have l: "?l = 2 ^ 230 - 1" by (rule limit_values(4) [OF assms(1)])
  then have lim: "0 < ?l" "?l < 2 ^ 256" by simp_all
  note lb = GetCompact_bounds [OF assms(1) lim]
  show ?thesis
  proof (cases "last_two pindexLast True")
    case None
    with lb show ?thesis by (simp add: GetNextTargetRequiredPoSPV2_def Let_def)
  next
    case (Some pq)
    obtain p q where pq: "pq = (p, q)" by fastforce
    define act where "act = clamp_spacing (index_GetBlockTime p - index_GetBlockTime q)"
    define sp where "sp = int (unat (GetStakeTargetSpacing (bi_nTime (hd pindexLast))))"
    have sp: "sp = 65 \<or> sp = 60" using spacing_cases [of "bi_nTime (hd pindexLast)"] by (auto simp: sp_def)
    then have n: "c_div 960 sp = (if sp = 65 then 14 else 16)" by (auto simp: c_div_def)
    have "0 \<le> act" "act \<le> 960" unfolding act_def by (rule clamp_spacing_range)+
    then obtain b where r: "retarget L (bi_nBits p) (c_div 960 sp) sp act = Some b"
      using retarget_value [OF assms(1), of "c_div 960 sp" sp act] sp n by auto
    have e: "GetNextTargetRequiredPoSPV2 L pindexLast
        = Some (if bn_gt L b ?l \<or> bn_le L b (bn_of_int L 0) then GetCompact L ?l else GetCompact L b)"
      using r by (simp add: GetNextTargetRequiredPoSPV2_def Some pq Let_def act_def sp_def)
    show ?thesis
    proof (cases "b \<le> 0 \<or> ?l < b")
      case True
      with lb show ?thesis by (auto simp: e bn_cmp_ops [OF assms(1)] bn_of_int_value [OF assms(1)])
    next
      case False
      with lim GetCompact_bounds [OF assms(1), of b] show ?thesis
        by (auto simp: e bn_cmp_ops [OF assms(1)] bn_of_int_value [OF assms(1)])
    qed
  qed
qed

theorem retarget_posp_v2_witness:
  "\<exists>r. GetNextTargetRequiredPoSPV2 ref_lib [index_empty] = Some r
    \<and> 0 < SetCompact ref_lib r \<and> SetCompact ref_lib r \<le> bnProofOfStakeLimitV2 ref_lib"
  using retarget_posp_v2 [OF bn_ok_ref, of "[index_empty]"] by simp

section \<open>Proof of work\<close>

text \<open>a proof-of-work check succeeds exactly when the target the bits stand for is positive
  and within the limit of the network and the hash, as a number, is at most the target.\<close>
theorem CheckProofOfWork_iff:
  assumes "bn_ok L"
  shows "CheckProofOfWork L testnet hash bits \<longleftrightarrow>
    0 < SetCompact L bits \<and> SetCompact L bits \<le> (if testnet then 2 ^ 240 - 1 else 2 ^ 236 - 1)
    \<and> int (unat hash) \<le> SetCompact L bits"
proof -
  let ?t = "SetCompact L bits" and ?l = "bnProofOfWorkLimit L testnet"
  have l: "?l = (if testnet then 2 ^ 240 - 1 else 2 ^ 236 - 1)" by (rule limit_values(1) [OF assms])
  have "(hash \<le> getuint256 L ?t) \<longleftrightarrow> int (unat hash) \<le> ?t" if "0 < ?t" "?t \<le> ?l"
  proof -
    have t: "?t < 256 ^ 32" using that(2) by (simp add: l split: if_splits)
    then have "bn_small ?t" using that(1) by (intro bn_small_bound [of _ 32]) auto
    then have g: "getuint256 L ?t = of_nat (nat ?t)"
      using that(1) by (simp add: getuint256_value [OF assms])
    have "nat ?t < 2 ^ LENGTH(256)" using t that(1) by (simp add: nat_less_iff)
    then have u: "unat (of_nat (nat ?t) :: u256) = nat ?t" by (rule unat_of_nat_small)
    show ?thesis unfolding g word_le_nat_alt u using that(1) by (simp only: le_nat_iff order_less_imp_le)
  qed
  then show ?thesis
    by (auto simp: CheckProofOfWork_def Let_def bn_cmp_ops [OF assms] bn_of_int_value [OF assms] l not_less)
qed

theorem CheckProofOfWork_iff_witness:
  "CheckProofOfWork ref_lib False 5 0x1d00ffff \<longleftrightarrow> (5 :: int) \<le> 0xffff * 256 ^ 26"
  using CheckProofOfWork_iff [OF bn_ok_ref, of False 5 "0x1d00ffff"] SetCompact_meaning_witness by simp

text \<open>
  The loop of \<open>ComputeMinWork\<close> doubles once per started day until it passes the limit.
\<close>

definition days_started :: "int \<Rightarrow> nat" where
  "days_started t = nat ((t + 86399) div 86400)"

lemma min_work_loop_value:
  assumes "bn_ok L" "0 < b"
  shows "min m (min_work_loop L m t b) = min m (b * 2 ^ days_started t) \<and> 0 < min_work_loop L m t b"
  using assms(2)
proof (induction "nat t" arbitrary: t b rule: less_induct)
  case less
  note bn = bn_cmp_ops [OF assms(1)] bn_ok_arith(5) [OF assms(1)] bn_of_int_value [OF assms(1)]
  show ?case
  proof (cases "0 < t \<and> b < m")
    case True
    have "(t + 86399) div 86400 = (t - 86400 + 86399) div 86400 + 1"
      using div_add_self2 [of 86400 "t - 86400 + 86399"] by simp
    moreover have "0 \<le> (t - 86400 + 86399) div 86400" using True by (simp add: pos_imp_zdiv_nonneg_iff)
    ultimately have d: "days_started t = Suc (days_started (t - 86400))"
      unfolding days_started_def by (simp add: nat_add_distrib)
    have a: "nat (t - 86400) < nat t" "0 < b * 2" using True less.prems by auto
    have "min_work_loop L m t b = min_work_loop L m (t - 86400) (b * 2)"
      using True by (subst min_work_loop.simps) (simp add: bn)
    with less.hyps [OF a] show ?thesis by (simp add: d mult.assoc)
  next
    case False
    have z: "days_started t = 0" if "\<not> 0 < t"
    proof -
      have "(t + 86399) div 86400 \<le> 86399 div 86400" using that by (intro zdiv_mono1) auto
      then show ?thesis by (simp add: days_started_def)
    qed
    have "b \<le> b * 2 ^ days_started t" using less.prems by simp
    with False z have "min m b = min m (b * 2 ^ days_started t)" by (cases "0 < t") auto
    moreover have "min_work_loop L m t b = b"
      using False by (subst min_work_loop.simps) (auto simp: bn)
    ultimately show ?thesis using less.prems by simp
  qed
qed

text \<open>the least work a chain may show. For a positive base target \<open>ComputeMinWork\<close>
  returns the compact form of twice the target, doubled once more for each day started,
  and never more than the limit; the result is again a positive target.\<close>
theorem ComputeMinWork_value:
  assumes "bn_ok L" "0 < SetCompact L nBase"
  shows "SetCompact L (ComputeMinWork L testnet nBase t)
      = compact_trunc (min (bnProofOfWorkLimit L testnet) (SetCompact L nBase * 2 * 2 ^ days_started t))
    \<and> 0 < SetCompact L (ComputeMinWork L testnet nBase t)
    \<and> SetCompact L (ComputeMinWork L testnet nBase t) \<le> bnProofOfWorkLimit L testnet"
proof -
  let ?m = "bnProofOfWorkLimit L testnet" and ?b = "SetCompact L nBase * 2"
  let ?r = "min_work_loop L ?m t ?b" and ?v = "min ?m (?b * 2 ^ days_started t)"
  have b: "0 < ?b" using assms(2) by simp
  have m: "0 < ?m" "?m < 2 ^ 256" by (simp_all add: limit_values(1) [OF assms(1)])
  have "ComputeMinWork L testnet nBase t = GetCompact L (min ?m ?r)"
    by (simp add: ComputeMinWork_def Let_def bn_cmp_ops [OF assms(1)] bn_of_int_value [OF assms(1)]
        bn_ok_arith(5) [OF assms(1)] min_def)
  also have "min ?m ?r = ?v" using min_work_loop_value [OF assms(1) b, of ?m t] by simp
  finally have c: "ComputeMinWork L testnet nBase t = GetCompact L ?v" .
  have v: "0 < ?v" "?v < 2 ^ 256" using m b by (simp_all add: min_less_iff_disj)
  have "\<bar>?v\<bar> < 256 ^ 32" using v by simp
  from length_sm_encode_bound [OF this] have l: "length (sm_encode ?v) < 256" by simp
  show ?thesis
    using GetCompact_bounds [OF assms(1) v] SetCompact_GetCompact [OF assms(1) l] unfolding c by simp
qed

theorem ComputeMinWork_value_witness:
  "0 < SetCompact ref_lib (ComputeMinWork ref_lib False 0x1d00ffff 100000)"
proof -
  have "0 < SetCompact ref_lib 0x1d00ffff" unfolding SetCompact_meaning_witness by simp
  from ComputeMinWork_value [OF bn_ok_ref this] show ?thesis by blast
qed

section \<open>Rewards\<close>

text \<open>The constants the code writes in decimal, as doubles.\<close>
lemma double_constants:
  "trunc_dbl (dbl (dbl (5 / 2) * 1000000)) = 2500000"
  "trunc_dbl (dbl (dbl (5 / 4) * 1000000)) = 1250000"
  "trunc_dbl (dbl (dbl (5 / 8) * 1000000)) = 625000"
  "trunc_dbl (dbl (dbl (5 / 16) * 1000000)) = 312500"
  "trunc_dbl (dbl (dbl (5 / 32) * 1000000)) = 156250"
  "trunc_dbl (dbl (dbl (5 / 64) * 1000000)) = 78125"
  "trunc_dbl (dbl (dbl (5 / 128) * 1000000)) = 39062"
  "trunc_dbl (dbl (dbl (5 / 256) * 1000000)) = 19531"
  "trunc_dbl (dbl (dbl (1 / 100) * 1000000)) = 10000"
  "trunc_dbl (dbl (dbl (3 / 200) * 10000)) = 150"
  by code_simp+

lemma target_timespan_double:
  "trunc_dbl (dbl (dbl (dbl (dbl (16 / 100) * 24) * 60) * 60)) = nTargetTimespan"
  by code_simp

lemma pow_reward_table:
  "GetProofOfWorkReward h =
     (if h < 55001 then 10000000 else if h < 95001 then 5000000 else if h < 145001 then 2500000
      else if h < 195001 then 1250000 else if h < 245001 then 625000 else if h < 295001 then 312500
      else if h < 345001 then 156250 else if h < 395001 then 78125 else if h < 445001 then 39062
      else if h < 545001 then 19531 else 10000)"
proof -
  have "545000 < h" if "\<not> h < 545001"
    using that by (simp add: word_less_nat_alt word_le_nat_alt)
  then show ?thesis
    by (simp add: GetProofOfWorkReward_def COIN_def double_constants)
qed

lemma sum_const_interval:
  assumes "m \<le> n" "\<And>h. m \<le> h \<Longrightarrow> h < n \<Longrightarrow> f h = (c :: int)"
  shows "sum f {m..<n} = int (n - m) * c"
proof -
  have "sum f {m..<n} = sum (\<lambda>_. c) {m..<n}" using assms(2) by (intro sum.cong) auto
  then show ?thesis by simp
qed

lemma reward_nat: "h < 2 ^ 32 \<Longrightarrow> m < 2 ^ 32 \<Longrightarrow> (of_nat h :: u32) < of_nat m \<longleftrightarrow> h < m"
  by (simp add: word_less_nat_alt unat_of_nat_small)

text \<open>proof-of-work creates a bounded amount of money. The reward never rises with the
  height, the blocks up to height 545,000 together pay 1,000,009.95 coins, and every later
  one 0.01 coin.\<close>
theorem pow_emission:
  "(g \<le> h \<longrightarrow> GetProofOfWorkReward h \<le> GetProofOfWorkReward g)
   \<and> (\<Sum>h = 0..<545001. GetProofOfWorkReward (of_nat h)) = 1000009950000
   \<and> (545001 \<le> h \<longrightarrow> GetProofOfWorkReward h = 10000)"
proof -
  define r where "r h = GetProofOfWorkReward (of_nat h)" for h
  have v: "r h = (if h < 55001 then 10000000 else if h < 95001 then 5000000 else if h < 145001 then 2500000
      else if h < 195001 then 1250000 else if h < 245001 then 625000 else if h < 295001 then 312500
      else if h < 345001 then 156250 else if h < 395001 then 78125 else if h < 445001 then 39062
      else if h < 545001 then 19531 else 10000)" if "h < 2 ^ 32" for h :: nat
    unfolding r_def pow_reward_table
    using reward_nat [OF that, of 55001] reward_nat [OF that, of 95001] reward_nat [OF that, of 145001]
      reward_nat [OF that, of 195001] reward_nat [OF that, of 245001] reward_nat [OF that, of 295001]
      reward_nat [OF that, of 345001] reward_nat [OF that, of 395001] reward_nat [OF that, of 445001]
      reward_nat [OF that, of 545001]
    by simp
  have split: "sum r {0..<545001} = sum r {0..<55001} + sum r {55001..<95001} + sum r {95001..<145001}
      + sum r {145001..<195001} + sum r {195001..<245001} + sum r {245001..<295001}
      + sum r {295001..<345001} + sum r {345001..<395001} + sum r {395001..<445001} + sum r {445001..<545001}"
    by (simp add: sum.atLeastLessThan_concat)
  have "sum r {0..<55001} = int (55001 - 0) * 10000000" by (intro sum_const_interval) (auto simp: v)
  moreover have "sum r {55001..<95001} = int (95001 - 55001) * 5000000"
    by (intro sum_const_interval) (auto simp: v)
  moreover have "sum r {95001..<145001} = int (145001 - 95001) * 2500000"
    by (intro sum_const_interval) (auto simp: v)
  moreover have "sum r {145001..<195001} = int (195001 - 145001) * 1250000"
    by (intro sum_const_interval) (auto simp: v)
  moreover have "sum r {195001..<245001} = int (245001 - 195001) * 625000"
    by (intro sum_const_interval) (auto simp: v)
  moreover have "sum r {245001..<295001} = int (295001 - 245001) * 312500"
    by (intro sum_const_interval) (auto simp: v)
  moreover have "sum r {295001..<345001} = int (345001 - 295001) * 156250"
    by (intro sum_const_interval) (auto simp: v)
  moreover have "sum r {345001..<395001} = int (395001 - 345001) * 78125"
    by (intro sum_const_interval) (auto simp: v)
  moreover have "sum r {395001..<445001} = int (445001 - 395001) * 39062"
    by (intro sum_const_interval) (auto simp: v)
  moreover have "sum r {445001..<545001} = int (545001 - 445001) * 19531"
    by (intro sum_const_interval) (auto simp: v)
  ultimately have total: "sum r {0..<545001} = 1000009950000" unfolding split by simp
  have rh: "GetProofOfWorkReward x = r (unat x)" for x by (simp add: r_def)
  have mono: "r b \<le> r a" if "a \<le> b" "b < 2 ^ 32" for a b
  proof -
    have "a < 2 ^ 32" using that by simp
    show ?thesis unfolding v [OF that(2)] v [OF \<open>a < 2 ^ 32\<close>] using that(1) by simp
  qed
  have "r (unat h) = 10000" if "545001 \<le> h"
    using that by (subst v) (simp_all add: word_le_nat_alt)
  with total mono [of "unat g" "unat h"] show ?thesis
    by (simp add: rh word_le_nat_alt) (simp add: r_def)
qed

theorem pow_emission_witness:
  "GetProofOfWorkReward 545001 = 10000 \<and> GetProofOfWorkReward 100 \<le> GetProofOfWorkReward 7"
  using pow_emission [of 7 100] pow_emission [of 0 545001] by simp

text \<open>the proof-of-stake reward of the old rules does not depend on the difficulty. The
  bisection meant to lower the interest as the difficulty grows starts with both bounds at
  one cent per coin and year and never runs, so after the switch the reward is always 1 percent
  a year, before it 1.5 percent; the call always returns.\<close>
theorem pos_reward_constant:
  assumes "bn_ok L"
  shows "GetPoSReward L testnet nCoinAge bits t = Some
    (if ROUND_SWITCH_TIME < t then c_div (nCoinAge * 33 * (if testnet \<or> PROTOCOL_SWITCH_TIME < t then 10000 else 150)) 12053
     else c_div (nCoinAge * 33) 12053 * (if testnet \<or> PROTOCOL_SWITCH_TIME < t then 10000 else 150))"
proof -
  have c: "setint64 L 10000 = 10000" by (simp add: setint64_value [OF assms])
  have "pos_bisect L 10000 a b 10000 10000 = Some 10000" for a b
    by (subst pos_bisect.simps) (simp add: c bn_cmp_ops [OF assms] bn_ok_arith(3) [OF assms] CENT_def)
  moreover have "getuint64 L 10000 = 10000"
  proof -
    have "bn_small 10000" by (intro bn_small_bound [of _ 2]) auto
    then show ?thesis by (simp add: getuint64_value [OF assms])
  qed
  moreover have "c_div 10000 10000 = 1" by (simp add: c_div_def)
  ultimately show ?thesis
    by (simp add: GetPoSReward_def Let_def MAX_MINT_PROOF_OF_STAKE_def CENT_def c double_constants)
qed

theorem pos_reward_constant_witness:
  "GetPoSReward ref_lib False 3650 0x1d00ffff 1400000000 = Some 99933
   \<and> GetPoSReward ref_lib False 3650 0x1e0fffff 1400000000 = Some 99933"
  by (simp add: pos_reward_constant [OF bn_ok_ref] ROUND_SWITCH_TIME_def PROTOCOL_SWITCH_TIME_def c_div_def)

section \<open>Accuracy of the double computation\<close>










section \<open>A chain the hybrid rule cannot continue\<close>
lemma compact_trunc_nonpos: "b \<le> 0 \<Longrightarrow> compact_trunc b \<le> 0"
  by (auto simp: compact_trunc_def Let_def sgn_if mult_nonneg_nonneg pos_imp_zdiv_nonneg_iff)

text \<open>The proof-of-work retarget of the time before the fork has no lower bound on the time
  between two blocks. Let the tip be as high as the last proof-of-work block (so that it is that
  block), be dated before \<open>HARDFORK_TIME\<close>, and let the target of that block be positive and below
  2^240, as every target up to the limit is. If the last proof-of-work block is dated more than
  6870 seconds before the one before it (up to height 405,000 \<open>AcceptBlock\<close> tolerates two hours),
  the factor of the retarget is negative, the target \<open>GetNextTargetRequiredHybrid\<close> requires of a
  proof-of-work block is not positive, and no such block can meet it: \<open>CheckProofOfWork\<close> refuses every hash.\<close>
theorem hybrid_target_stuck:
  assumes "bn_ok L" "last_two ch False = Some (p, q)" "nHeight (hd ch) = nHeight p"
    "bi_nTime (hd ch) < HARDFORK_TIME" "0 < SetCompact L (bi_nBits p)" "SetCompact L (bi_nBits p) < 2 ^ 240"
    "index_GetBlockTime p - index_GetBlockTime q < - 6870"
  shows "\<exists>r. GetNextTargetRequiredHybrid L testnet ch False = Some r
    \<and> (\<forall>hash. \<not> CheckProofOfWork L testnet hash r)"
proof -
  let ?act = "index_GetBlockTime p - index_GetBlockTime q" and ?t = "SetCompact L (bi_nBits p)"
  define b where "b = c_div (?t * ((230 - 1) * 60 + 2 * ?act)) ((230 + 1) * 60)"
  have sp: "int (unat (GetStakeTargetSpacing (bi_nTime (hd ch)))) = 60"
    using assms(4) by (simp add: GetStakeTargetSpacing_def OLD_nStakeTargetSpacing_def not_le [symmetric])
  have "\<bar>?act\<bar> < 8589934592" using block_time_range [of p] block_time_range [of q] by linarith
  then have "retarget L (bi_nBits p) 230 60 ?act = Some b"
    unfolding b_def by (intro retarget_value [OF assms(1)]) auto
  moreover have "c_div nTargetTimespan (min nTargetSpacingWorkMax 60) = 230"
    by (simp add: c_div_def nTargetTimespan_def nTargetSpacingWorkMax_def)
  ultimately have r: "GetNextTargetRequiredHybrid L testnet ch False
      = Some (GetCompact L (if bn_gt L b (hybrid_limit L testnet False (nHeight (hd ch)))
          then hybrid_limit L testnet False (nHeight (hd ch)) else b))"
    using assms(2,3) sp
    by (auto simp: GetNextTargetRequiredHybrid_def Let_def nTargetSpacingWorkMax_def hybrid_limit_def)
  have f: "(230 - 1) * 60 + 2 * ?act < 0" using assms(7) by simp
  then have neg: "?t * ((230 - 1) * 60 + 2 * ?act) < 0" using assms(5) by (simp add: mult_pos_neg)
  then have b0: "b \<le> 0" unfolding b_def c_div_def by (simp add: pos_imp_zdiv_nonneg_iff)
  have "\<bar>(230 - 1) * 60 + 2 * ?act\<bar> \<le> 17179869184"
    using block_time_range [of p] block_time_range [of q] by (simp add: abs_le_iff)
  then have "?t * \<bar>(230 - 1) * 60 + 2 * ?act\<bar> \<le> 2 ^ 240 * 17179869184"
    using assms(5,6) by (intro mult_mono) auto
  then have "\<bar>?t * ((230 - 1) * 60 + 2 * ?act)\<bar> \<le> 2 ^ 274" using assms(5) by (simp add: abs_mult)
  then have "\<bar>?t * ((230 - 1) * 60 + 2 * ?act)\<bar> div 13860 \<le> 2 ^ 274"
    using zdiv_mono2 [of "\<bar>?t * ((230 - 1) * 60 + 2 * ?act)\<bar>" 1 13860] by simp
  moreover have "0 \<le> \<bar>?t * ((230 - 1) * 60 + 2 * ?act)\<bar> div 13860"
    by (simp add: pos_imp_zdiv_nonneg_iff)
  moreover have "b = - (\<bar>?t * ((230 - 1) * 60 + 2 * ?act)\<bar> div 13860)"
    using neg unfolding b_def c_div_def by simp
  ultimately have "\<bar>b\<bar> \<le> 2 ^ 274" by (simp only: abs_minus_cancel abs_of_nonneg)
  then have "\<bar>b\<bar> < 256 ^ 35" by simp
  from length_sm_encode_bound [OF this] have "length (sm_encode b) < 256" by simp
  then have s: "SetCompact L (GetCompact L b) \<le> 0"
    using compact_trunc_nonpos [OF b0] by (simp add: SetCompact_GetCompact [OF assms(1)])
  have "0 \<le> hybrid_limit L testnet False (nHeight (hd ch))"
    by (simp add: hybrid_limit_def limit_values(1) [OF assms(1)])
  with b0 have "GetNextTargetRequiredHybrid L testnet ch False = Some (GetCompact L b)"
    using r by (simp add: bn_cmp_ops [OF assms(1)])
  with s CheckProofOfWork_iff [OF assms(1), of testnet _ "GetCompact L b"] show ?thesis
    by (intro exI [of _ "GetCompact L b"]) auto
qed

definition sample_pow_index :: "int \<Rightarrow> u32 \<Rightarrow> CBlockIndex" where
  "sample_pow_index h t = index_empty\<lparr>nHeight := h, bi_nTime := t, bi_nBits := 0x1d00ffff\<rparr>"

theorem hybrid_target_stuck_witness:
  "\<exists>r. GetNextTargetRequiredHybrid ref_lib False
      [sample_pow_index 2 1400000000, sample_pow_index 1 1400007000, sample_pow_index 0 1400000000] False = Some r
    \<and> (\<forall>hash. \<not> CheckProofOfWork ref_lib False hash r)"
proof (rule hybrid_target_stuck [OF bn_ok_ref])
  show "last_two [sample_pow_index 2 1400000000, sample_pow_index 1 1400007000, sample_pow_index 0 1400000000] False
      = Some (sample_pow_index 2 1400000000, sample_pow_index 1 1400007000)"
    by (simp add: last_two_def index_IsProofOfStake_def sample_pow_index_def index_empty_def Let_def)
  show "0 < SetCompact ref_lib (bi_nBits (sample_pow_index 2 1400000000))"
    "SetCompact ref_lib (bi_nBits (sample_pow_index 2 1400000000)) < 2 ^ 240"
    using SetCompact_meaning_witness by (simp_all add: sample_pow_index_def)
qed (simp_all add: sample_pow_index_def HARDFORK_TIME_def index_GetBlockTime_def)

end
