(* ===== verification/Effects.thy ===== *)
theory Effects
  imports Cbx_Prelude
begin

text \<open>
  Operations with a state: they return a value or a failure, and the state they leave in both
  cases, since callers go on after a failed step with what it has already changed. A C++
  \<open>return false\<close> is \<open>Refused\<close> with the misbehaviour score given to the sender (0 for none); a
  failed assertion or an exception nobody catches is \<open>Crashed\<close>.
\<close>

datatype failure = Refused int | Crashed

type_synonym ('s, 'a) action = "'s \<Rightarrow> (failure + 'a) \<times> 's"

definition act_return :: "'a \<Rightarrow> ('s, 'a) action" where
  "act_return x s = (Inr x, s)"

definition act_fail :: "failure \<Rightarrow> ('s, 'a) action" where
  "act_fail e s = (Inl e, s)"

definition act_bind :: "('s, 'a) action \<Rightarrow> ('a \<Rightarrow> ('s, 'b) action) \<Rightarrow> ('s, 'b) action" where
  "act_bind m f s = (case m s of (Inl e, s') \<Rightarrow> (Inl e, s') | (Inr x, s') \<Rightarrow> f x s')"

definition act_then :: "('s, 'a) action \<Rightarrow> ('s, 'b) action \<Rightarrow> ('s, 'b) action" where
  "act_then m k = act_bind m (\<lambda>_. k)"

definition act_check :: "bool \<Rightarrow> failure \<Rightarrow> ('s, unit) action" where
  "act_check b e s = (if b then Inr () else Inl e, s)"

definition act_get :: "('s, 's) action" where
  "act_get s = (Inr s, s)"

definition act_modify :: "('s \<Rightarrow> 's) \<Rightarrow> ('s, unit) action" where
  "act_modify f s = (Inr (), f s)"

text \<open>A result computed without the state, and a call whose result is thrown away.\<close>

definition act_lift :: "failure + 'a \<Rightarrow> ('s, 'a) action" where
  "act_lift r s = (r, s)"

definition act_try :: "('s, 'a) action \<Rightarrow> ('s, bool) action" where
  "act_try m s = (case m s of (Inl (Refused n), s') \<Rightarrow> (Inr False, s')
     | (Inl Crashed, s') \<Rightarrow> (Inl Crashed, s') | (Inr x, s') \<Rightarrow> (Inr True, s'))"

text \<open>An operation on a part of a larger state.\<close>

definition act_on :: "('s \<Rightarrow> 'p) \<Rightarrow> ('p \<Rightarrow> 's \<Rightarrow> 's) \<Rightarrow> ('p, 'a) action \<Rightarrow> ('s, 'a) action" where
  "act_on get put m s = (case m (get s) of (r, p) \<Rightarrow> (r, put p s))"

fun act_each :: "('i \<Rightarrow> ('s, unit) action) \<Rightarrow> 'i list \<Rightarrow> ('s, unit) action" where
  "act_each f [] = act_return ()"
| "act_each f (x # xs) = act_then (f x) (act_each f xs)"

named_theorems act_simps \<open>running an operation on a state\<close>

lemmas act_defs = act_return_def act_fail_def act_bind_def act_then_def act_check_def act_get_def
  act_modify_def act_lift_def act_try_def act_on_def

declare act_return_def [act_simps] act_fail_def [act_simps] act_check_def [act_simps]
  act_get_def [act_simps] act_modify_def [act_simps] act_lift_def [act_simps]

lemma act_bind_simps [act_simps]:
  "m s = (Inr x, s') \<Longrightarrow> act_bind m f s = f x s'"
  "m s = (Inl e, s') \<Longrightarrow> act_bind m f s = (Inl e, s')"
  "m s = (Inr x, s') \<Longrightarrow> act_then m k s = k s'"
  "m s = (Inl e, s') \<Longrightarrow> act_then m k s = (Inl e, s')"
  by (simp_all add: act_bind_def act_then_def)

lemma act_bind_Inr:
  "act_bind m f s = (Inr y, t) \<longleftrightarrow> (\<exists>x s'. m s = (Inr x, s') \<and> f x s' = (Inr y, t))"
  by (auto simp: act_bind_def split: prod.splits sum.splits)

lemma act_then_Inr:
  "act_then m k s = (Inr y, t) \<longleftrightarrow> (\<exists>x s'. m s = (Inr x, s') \<and> k s' = (Inr y, t))"
  by (simp add: act_then_def act_bind_Inr)

lemma act_check_Inr [simp]: "act_check b e s = (Inr u, t) \<longleftrightarrow> b \<and> t = s"
  by (auto simp: act_check_def)

lemma act_each_append: "act_each f (xs @ ys) = act_then (act_each f xs) (act_each f ys)"
  by (induction xs) (auto simp: act_defs fun_eq_iff split: prod.splits sum.splits)

text \<open>What holds through a loop: a relation kept by every step, whether it succeeds or not.\<close>
lemma act_each_inv:
  assumes "\<And>x s r t. x \<in> set xs \<Longrightarrow> P s \<Longrightarrow> f x s = (r, t) \<Longrightarrow> P t"
  shows "P s \<Longrightarrow> act_each f xs s = (r, t) \<Longrightarrow> P t"
  using assms
proof (induction xs arbitrary: s)
  case (Cons x xs)
  show ?case
  proof (cases "f x s")
    case (Pair r' s')
    have P: "P s'" using Cons.prems(1,3) Pair by fastforce
    show ?thesis
    proof (cases r')
      case (Inl e)
      then show ?thesis using Cons.prems(2) Pair P by (simp add: act_simps)
    next
      case (Inr u)
      then have "act_each f xs s' = (r, t)" using Cons.prems(2) Pair by (simp add: act_simps)
      then show ?thesis using Cons.IH [OF P] Cons.prems(3) by (meson list.set_intros(2))
    qed
  qed
qed (simp add: act_return_def)

lemma act_each_Inr_Cons:
  "act_each f (x # xs) s = (Inr (), t) \<longleftrightarrow> (\<exists>s'. f x s = (Inr (), s') \<and> act_each f xs s' = (Inr (), t))"
  by (simp add: act_then_Inr)

section \<open>What an operation leaves alone\<close>

text \<open>\<open>f\<close> reads a part of the state; the operation keeps it whatever its outcome.\<close>

definition act_keeps :: "('s \<Rightarrow> 'p) \<Rightarrow> ('s, 'a) action \<Rightarrow> bool" where
  "act_keeps f m \<longleftrightarrow> (\<forall>s. f (snd (m s)) = f s)"

named_theorems keep_rules \<open>operations that leave a part of the state alone\<close>
lemma act_keepsD: "act_keeps f m \<Longrightarrow> m s = (r, s') \<Longrightarrow> f s' = f s"
  by (metis act_keeps_def snd_conv)

lemma keep_bind [keep_rules]: "act_keeps f m \<Longrightarrow> (\<And>x. act_keeps f (k x)) \<Longrightarrow> act_keeps f (act_bind m k)"
  by (auto simp: act_keeps_def act_bind_def split: prod.splits sum.splits) (metis snd_conv)+

lemma keep_then [keep_rules]: "act_keeps f m \<Longrightarrow> act_keeps f k \<Longrightarrow> act_keeps f (act_then m k)"
  by (simp add: act_then_def keep_bind)

lemma keep_try [keep_rules]: "act_keeps f m \<Longrightarrow> act_keeps f (act_try m)"
  by (auto simp: act_keeps_def act_try_def split: prod.splits sum.splits failure.splits) (metis snd_conv)+

lemma keep_modify: "(\<And>s. f (g s) = f s) \<Longrightarrow> act_keeps f (act_modify g)"
  by (simp add: act_keeps_def act_modify_def)

lemma keep_plain [keep_rules]: "act_keeps f (act_return x)" "act_keeps f (act_fail e)" "act_keeps f (act_lift r)"
  by (simp_all add: act_keeps_def act_return_def act_fail_def act_lift_def)

lemma keep_split [keep_rules]: "(\<And>a b. act_keeps f (m a b)) \<Longrightarrow> act_keeps f (case x of (a, b) \<Rightarrow> m a b)"
  by (cases x) simp

lemma keep_result [keep_rules]: "act_keeps f (\<lambda>s. (g s, s))"
  by (simp add: act_keeps_def)

lemma keep_update: "(\<And>s. f (g s) = f s) \<Longrightarrow> act_keeps f (\<lambda>s. (r s, g s))"
  by (simp add: act_keeps_def)

lemma keep_case [keep_rules]:
  "act_keeps f m \<Longrightarrow> (\<And>r. act_keeps f (k r)) \<Longrightarrow> act_keeps f (\<lambda>s. case m s of (r, s') \<Rightarrow> k r s')"
  unfolding act_keeps_def by (metis (no_types, lifting) case_prod_beta)

lemma keep_sum [keep_rules]:
  "(\<And>e. act_keeps f (k e)) \<Longrightarrow> (\<And>x. act_keeps f (l x)) \<Longrightarrow> act_keeps f (\<lambda>s. case r of Inl e \<Rightarrow> k e s | Inr x \<Rightarrow> l x s)"
  by (cases r) simp_all

lemma keep_failure [keep_rules]:
  "(\<And>n. act_keeps f (k n)) \<Longrightarrow> act_keeps f l \<Longrightarrow> act_keeps f (\<lambda>s. case r of Refused n \<Rightarrow> k n s | Crashed \<Rightarrow> l s)"
  by (cases r) simp_all

lemma keep_option:
  "act_keeps f k \<Longrightarrow> (\<And>x. act_keeps f (l x)) \<Longrightarrow> act_keeps f (\<lambda>s. case g s of None \<Rightarrow> k s | Some x \<Rightarrow> l x s)"
  by (simp add: act_keeps_def split: option.splits)

lemma keep_if: "act_keeps f k \<Longrightarrow> act_keeps f l \<Longrightarrow> act_keeps f (\<lambda>s. if g s then k s else l s)"
  by (simp add: act_keeps_def)

lemma keep_pair [keep_rules]:
  "(\<And>a b. act_keeps f (k a b)) \<Longrightarrow> act_keeps f (\<lambda>s. case g s of (a, b) \<Rightarrow> k a b s)"
  by (simp add: act_keeps_def split: prod.split)

lemma keep_at: "act_keeps f m \<Longrightarrow> f (snd (m s)) = f s"
  by (simp add: act_keeps_def)

lemma keep_each [keep_rules]: "(\<And>x. act_keeps f (k x)) \<Longrightarrow> act_keeps f (act_each k xs)"
  by (induction xs) (auto intro: keep_rules)

lemma keep_on: "(\<And>p s. f (put p s) = f s) \<Longrightarrow> act_keeps f (act_on get put m)"
  by (simp add: act_keeps_def act_on_def split: prod.split)

end
