(* ===== verification/Txdb.thy ===== *)
theory Txdb
  imports Effects Block_Index "HOL-Library.List_Lexorder"
begin

text \<open>
  The database of transactions and blocks (\<open>txdb-leveldb.h\<close>, \<open>txdb-leveldb.cpp\<close>). LevelDB is
  a map from byte strings to byte strings in the order of its bytewise comparator, with
  requests that may fail; \<open>CTxDB\<close> adds a batch of pending writes, which reads consult.
\<close>

section \<open>The store and the batch\<close>

datatype db_write = DbPut bytes bytes | DbDelete bytes
datatype db_request = DbGet bytes | DbWrite "db_write list"

text \<open>\<open>ldb_fault\<close> says which requests come back with an error that is not \<open>NotFound\<close>.\<close>

record CTxDB =
  ldb_store :: "(bytes, bytes) smap"
  ldb_fault :: "db_request \<Rightarrow> bool"
  activeBatch :: "db_write list option"
  fReadOnly :: bool

datatype db_status = DbOk bytes | DbNotFound | DbError

definition ldb_Get :: "bytes \<Rightarrow> CTxDB \<Rightarrow> db_status" where
  "ldb_Get key db =
     (if ldb_fault db (DbGet key) then DbError
      else case map_of (ldb_store db) key of Some v \<Rightarrow> DbOk v | None \<Rightarrow> DbNotFound)"

fun write_step :: "db_write \<Rightarrow> (bytes, bytes) smap \<Rightarrow> (bytes, bytes) smap" where
  "write_step (DbPut key value) m = smap_put key value m"
| "write_step (DbDelete key) m = smap_erase key m"

definition ldb_Write :: "db_write list \<Rightarrow> CTxDB \<Rightarrow> bool \<times> CTxDB" where
  "ldb_Write batch db =
     (if ldb_fault db (DbWrite batch) then (False, db)
      else (True, db\<lparr>ldb_store := fold write_step batch (ldb_store db)\<rparr>))"

text \<open>\<open>CBatchScanner\<close>: the entry found, with its value or the mark of a delete.\<close>

record CBatchScanner =
  foundEntry :: bool
  deleted :: bool
  foundValue :: bytes

fun scan_step :: "bytes \<Rightarrow> db_write \<Rightarrow> CBatchScanner \<Rightarrow> CBatchScanner" where
  "scan_step needle (DbPut key value) sc =
     (if key = needle then sc\<lparr>foundEntry := True, deleted := False, foundValue := value\<rparr> else sc)"
| "scan_step needle (DbDelete key) sc =
     (if key = needle then sc\<lparr>foundEntry := True, deleted := True\<rparr> else sc)"

definition ScanBatch :: "db_write list \<Rightarrow> bytes \<Rightarrow> CBatchScanner" where
  "ScanBatch batch key =
     fold (scan_step key) batch \<lparr>foundEntry = False, deleted = False, foundValue = []\<rparr>"

definition no_entry :: CBatchScanner where
  "no_entry = \<lparr>foundEntry = False, deleted = False, foundValue = []\<rparr>"

definition scan_active :: "CTxDB \<Rightarrow> bytes \<Rightarrow> CBatchScanner" where
  "scan_active db key = (case activeBatch db of Some batch \<Rightarrow> ScanBatch batch key | None \<Rightarrow> no_entry)"

section \<open>The generic operations\<close>

text \<open>\<open>Read\<close> returns false for a missing key, an error of the store, or bytes that do not parse.\<close>

definition db_fetch :: "bytes \<Rightarrow> CTxDB \<Rightarrow> bytes option" where
  "db_fetch key db =
     (let sc = scan_active db key
      in if deleted sc then None
         else if foundEntry sc then Some (foundValue sc)
         else case ldb_Get key db of DbOk v \<Rightarrow> Some v | _ \<Rightarrow> None)"

definition db_Read :: "bytes \<Rightarrow> 'a reader \<Rightarrow> CTxDB \<Rightarrow> 'a option" where
  "db_Read key unser db =
     (case db_fetch key db of None \<Rightarrow> None
      | Some v \<Rightarrow> (case unser v of Inl e \<Rightarrow> None | Inr (x, r) \<Rightarrow> Some x))"

definition db_Write :: "bytes \<Rightarrow> bytes \<Rightarrow> (CTxDB, unit) action" where
  "db_Write key value db =
     (if fReadOnly db then (Inl Crashed, db)
      else case activeBatch db of
        Some batch \<Rightarrow> (Inr (), db\<lparr>activeBatch := Some (batch @ [DbPut key value])\<rparr>)
      | None \<Rightarrow> (case ldb_Write [DbPut key value] db of
           (ok, db) \<Rightarrow> (if ok then Inr () else Inl (Refused 0), db)))"

definition db_Erase :: "bytes \<Rightarrow> (CTxDB, unit) action" where
  "db_Erase key db =
     (if fReadOnly db then (Inl Crashed, db)
      else case activeBatch db of
        Some batch \<Rightarrow> (Inr (), db\<lparr>activeBatch := Some (batch @ [DbDelete key])\<rparr>)
      | None \<Rightarrow> (case ldb_Write [DbDelete key] db of
           (ok, db) \<Rightarrow> (if ok then Inr () else Inl (Refused 0), db)))"

text \<open>\<open>Exists\<close> asks the store for a key the batch deletes: a delete does not hide a key from it.\<close>

definition db_Exists :: "bytes \<Rightarrow> CTxDB \<Rightarrow> bool" where
  "db_Exists key db =
     (let sc = scan_active db key
      in if foundEntry sc \<and> \<not> deleted sc then True else ldb_Get key db \<noteq> DbNotFound)"

definition TxnBegin :: "(CTxDB, unit) action" where
  "TxnBegin db =
     (if activeBatch db \<noteq> None then (Inl Crashed, db) else (Inr (), db\<lparr>activeBatch := Some []\<rparr>))"

definition TxnCommit :: "(CTxDB, unit) action" where
  "TxnCommit db =
     (case activeBatch db of None \<Rightarrow> (Inl Crashed, db)
      | Some batch \<Rightarrow> (case ldb_Write batch db of
          (ok, db) \<Rightarrow> (if ok then Inr () else Inl (Refused 0), db\<lparr>activeBatch := None\<rparr>)))"

definition TxnAbort :: "(CTxDB, unit) action" where
  "TxnAbort db = (Inr (), db\<lparr>activeBatch := None\<rparr>)"

text \<open>A new object over the same store; \<open>pszMode\<close> is read-only without \<open>+\<close> and \<open>w\<close>.\<close>

definition CTxDB_open :: "string \<Rightarrow> CTxDB \<Rightarrow> CTxDB" where
  "CTxDB_open pszMode db =
     db\<lparr>activeBatch := None, fReadOnly := CHR ''+'' \<notin> set pszMode \<and> CHR ''w'' \<notin> set pszMode\<rparr>"

section \<open>Records\<close>

definition ascii :: "string \<Rightarrow> bytes" where
  "ascii s = map of_char s"

definition db_key :: "string \<Rightarrow> bytes" where
  "db_key name = ser_bytes (ascii name)"

definition db_key_hash :: "string \<Rightarrow> u256 \<Rightarrow> bytes" where
  "db_key_hash name h = ser_pair ser_bytes ser_u256 (ascii name, h)"

definition ReadVersion :: "CTxDB \<Rightarrow> int option" where
  "ReadVersion db = db_Read (db_key ''version'') unser_i32 db"

definition WriteVersion :: "int \<Rightarrow> (CTxDB, unit) action" where
  "WriteVersion v = db_Write (db_key ''version'') (ser_i32 v)"

text \<open>
  The index of transactions. The assertions \<open>!fClient\<close> hold: \<open>fClient\<close> is the constant false.
\<close>

definition ReadTxIndex :: "u256 \<Rightarrow> CTxDB \<Rightarrow> CTxIndex option" where
  "ReadTxIndex hash db = db_Read (db_key_hash ''tx'' hash) (unser_CTxIndex False) db"

definition UpdateTxIndex :: "u256 \<Rightarrow> CTxIndex \<Rightarrow> (CTxDB, unit) action" where
  "UpdateTxIndex hash txindex =
     db_Write (db_key_hash ''tx'' hash) (ser_CTxIndex False CLIENT_VERSION txindex)"

definition AddTxIndex :: "extlib \<Rightarrow> CTransaction \<Rightarrow> CDiskTxPos \<Rightarrow> (CTxDB, unit) action" where
  "AddTxIndex L tx pos = UpdateTxIndex (tx_GetHash L tx) (txindex_new pos (length (vout tx)))"

definition EraseTxIndex :: "extlib \<Rightarrow> CTransaction \<Rightarrow> (CTxDB, unit) action" where
  "EraseTxIndex L tx = db_Erase (db_key_hash ''tx'' (tx_GetHash L tx))"

definition ContainsTx :: "u256 \<Rightarrow> CTxDB \<Rightarrow> bool" where
  "ContainsTx hash db = db_Exists (db_key_hash ''tx'' hash) db"

definition WriteBlockIndex ::
  "extlib \<Rightarrow> bool \<Rightarrow> int \<Rightarrow> CDiskBlockIndex \<Rightarrow> (CTxDB, unit) action" where
  "WriteBlockIndex L fUseFastIndex adjustedTime blockindex =
     (let (h, blockindex) = diskindex_GetBlockHash L fUseFastIndex adjustedTime blockindex
      in db_Write (db_key_hash ''blockindex'' h) (ser_CDiskBlockIndex False CLIENT_VERSION blockindex))"

definition ReadHashBestChain :: "CTxDB \<Rightarrow> u256 option" where
  "ReadHashBestChain db = db_Read (db_key ''hashBestChain'') unser_u256 db"

definition WriteHashBestChain :: "u256 \<Rightarrow> (CTxDB, unit) action" where
  "WriteHashBestChain h = db_Write (db_key ''hashBestChain'') (ser_u256 h)"

text \<open>A big number is stored as the byte string of \<open>getvch\<close>.\<close>

definition ReadBestInvalidTrust :: "extlib \<Rightarrow> CTxDB \<Rightarrow> int option" where
  "ReadBestInvalidTrust L db =
     map_option (setvch L) (db_Read (db_key ''bnBestInvalidTrust'') unser_bytes db)"

definition WriteBestInvalidTrust :: "extlib \<Rightarrow> int \<Rightarrow> (CTxDB, unit) action" where
  "WriteBestInvalidTrust L b = db_Write (db_key ''bnBestInvalidTrust'') (ser_bytes (getvch L b))"

definition ReadSyncCheckpoint :: "CTxDB \<Rightarrow> u256 option" where
  "ReadSyncCheckpoint db = db_Read (db_key ''hashSyncCheckpoint'') unser_u256 db"

definition WriteSyncCheckpoint :: "u256 \<Rightarrow> (CTxDB, unit) action" where
  "WriteSyncCheckpoint h = db_Write (db_key ''hashSyncCheckpoint'') (ser_u256 h)"

definition ReadCheckpointPubKey :: "CTxDB \<Rightarrow> bytes option" where
  "ReadCheckpointPubKey db = db_Read (db_key ''strCheckpointPubKey'') unser_bytes db"

definition WriteCheckpointPubKey :: "bytes \<Rightarrow> (CTxDB, unit) action" where
  "WriteCheckpointPubKey k = db_Write (db_key ''strCheckpointPubKey'') (ser_bytes k)"

definition ReadModifierUpgradeTime :: "CTxDB \<Rightarrow> u32 option" where
  "ReadModifierUpgradeTime db = db_Read (db_key ''nUpgradeTime'') unser_u32 db"

definition WriteModifierUpgradeTime :: "u32 \<Rightarrow> (CTxDB, unit) action" where
  "WriteModifierUpgradeTime t = db_Write (db_key ''nUpgradeTime'') (ser_u32 t)"

section \<open>The database as a map\<close>

text \<open>What a reader sees: the store with the pending writes applied.\<close>

definition pending :: "CTxDB \<Rightarrow> db_write list" where
  "pending db = (case activeBatch db of Some batch \<Rightarrow> batch | None \<Rightarrow> [])"

definition db_view :: "CTxDB \<Rightarrow> bytes \<rightharpoonup> bytes" where
  "db_view db = map_of (fold write_step (pending db) (ldb_store db))"

definition db_ok :: "CTxDB \<Rightarrow> bool" where
  "db_ok db \<longleftrightarrow> smap_ok (ldb_store db) \<and> ldb_fault db = (\<lambda>_. False) \<and> \<not> fReadOnly db"

named_theorems db_simps \<open>the database operations on the map they implement\<close>
lemma smap_ok_write_steps [simp]: "smap_ok m \<Longrightarrow> smap_ok (fold write_step batch m)"
proof (induction batch arbitrary: m)
  case (Cons w batch)
  then show ?case by (cases w) simp_all
qed simp

lemma ScanBatch_Nil: "ScanBatch [] key = no_entry"
  by (simp add: ScanBatch_def no_entry_def)

lemma ScanBatch_snoc: "ScanBatch (batch @ [w]) key = scan_step key w (ScanBatch batch key)"
  by (simp add: ScanBatch_def)

lemma ScanBatch_view:
  assumes "smap_ok m"
  shows "map_of (fold write_step batch m) key
           = (if deleted (ScanBatch batch key) then None
              else if foundEntry (ScanBatch batch key) then Some (foundValue (ScanBatch batch key))
              else map_of m key)
         \<and> (deleted (ScanBatch batch key) \<longrightarrow> foundEntry (ScanBatch batch key))"
proof (induction batch rule: rev_induct)
  case Nil
  then show ?case by (simp add: ScanBatch_def)
next
  case (snoc w batch)
  then show ?case using assms by (cases w) (auto simp: ScanBatch_snoc smap_simps)
qed

lemma db_fetch_view: "db_ok db \<Longrightarrow> db_fetch key db = db_view db key"
  using ScanBatch_view [of "ldb_store db" "pending db" key]
  by (auto simp: ScanBatch_Nil db_fetch_def scan_active_def db_view_def pending_def ldb_Get_def db_ok_def
      no_entry_def Let_def split: option.splits)

lemma db_Read_view:
  "db_ok db \<Longrightarrow> db_Read key unser db =
     (case db_view db key of None \<Rightarrow> None
      | Some v \<Rightarrow> (case unser v of Inl e \<Rightarrow> None | Inr (x, r) \<Rightarrow> Some x))"
  by (simp add: db_Read_def db_fetch_view)

lemma db_Write_ok:
  assumes "db_ok db"
  shows "fst (db_Write key value db) = Inr ()
         \<and> db_view (snd (db_Write key value db)) = (db_view db)(key \<mapsto> value)
         \<and> db_ok (snd (db_Write key value db))
         \<and> (activeBatch (snd (db_Write key value db)) = None \<longleftrightarrow> activeBatch db = None)
         \<and> (activeBatch db \<noteq> None \<longrightarrow> ldb_store (snd (db_Write key value db)) = ldb_store db)"
  using assms
  by (cases "activeBatch db")
    (simp_all add: db_Write_def db_view_def pending_def ldb_Write_def db_ok_def smap_simps)

lemma db_Erase_ok:
  assumes "db_ok db"
  shows "fst (db_Erase key db) = Inr ()
         \<and> db_view (snd (db_Erase key db)) = (db_view db)(key := None)
         \<and> db_ok (snd (db_Erase key db))
         \<and> (activeBatch (snd (db_Erase key db)) = None \<longleftrightarrow> activeBatch db = None)
         \<and> (activeBatch db \<noteq> None \<longrightarrow> ldb_store (snd (db_Erase key db)) = ldb_store db)"
  using assms
  by (cases "activeBatch db")
    (simp_all add: db_Erase_def db_view_def pending_def ldb_Write_def db_ok_def smap_simps)

lemma TxnBegin_ok:
  assumes "db_ok db" and "activeBatch db = None"
  shows "\<exists>db'. TxnBegin db = (Inr (), db') \<and> db_ok db' \<and> db_view db' = db_view db
           \<and> ldb_store db' = ldb_store db \<and> activeBatch db' = Some []"
  using assms by (simp add: TxnBegin_def db_ok_def db_view_def pending_def)

lemma TxnCommit_ok:
  assumes "db_ok db" and "activeBatch db \<noteq> None"
  shows "\<exists>db'. TxnCommit db = (Inr (), db') \<and> db_ok db' \<and> db_view db' = db_view db
           \<and> map_of (ldb_store db') = db_view db \<and> activeBatch db' = None"
  using assms by (auto simp: TxnCommit_def db_ok_def db_view_def pending_def ldb_Write_def)

lemma TxnAbort_ok:
  assumes "db_ok db"
  shows "\<exists>db'. TxnAbort db = (Inr (), db') \<and> db_ok db' \<and> db_view db' = map_of (ldb_store db)
           \<and> ldb_store db' = ldb_store db \<and> activeBatch db' = None"
  using assms by (simp add: TxnAbort_def db_ok_def db_view_def pending_def)

text \<open>Keys of different records differ.\<close>
lemma db_key_hash_eq: "db_key_hash name h = db_key_hash name h' \<longleftrightarrow> h = h'"
proof
  assume "db_key_hash name h = db_key_hash name h'"
  then have "ser_u256 h = ser_u256 h'" by (simp add: db_key_hash_def ser_pair_def)
  then show "h = h'" using hash256.unser_ser [of h "[]"] hash256.unser_ser [of h' "[]"] by simp
qed simp

lemma db_key_tx_other:
  "db_key_hash ''tx'' h \<noteq> db_key_hash ''blockindex'' h'" "db_key_hash ''tx'' h \<noteq> db_key ''hashBestChain''"
  "db_key_hash ''tx'' h \<noteq> db_key ''bnBestInvalidTrust''" "db_key_hash ''tx'' h \<noteq> db_key ''hashSyncCheckpoint''"
  by (simp_all add: db_key_hash_def db_key_def ser_pair_def ascii_def ser_bytes_def
      WriteCompactSize_def ser_u8_def)

section \<open>The index of transactions as a map\<close>

text \<open>
  What the code that connects and disconnects transactions relies on: a map from transaction
  hashes to index records.
\<close>

locale tx_index =
  fixes ok :: "'s \<Rightarrow> bool"
    and find_tx :: "u256 \<Rightarrow> 's \<Rightarrow> CTxIndex option"
    and update :: "u256 \<Rightarrow> CTxIndex \<Rightarrow> ('s, unit) action"
    and erase :: "u256 \<Rightarrow> ('s, unit) action"
    and fits :: "CTxIndex \<Rightarrow> bool"
  assumes update_law: "ok s \<Longrightarrow> fits i \<Longrightarrow>
      \<exists>s'. update h i s = (Inr (), s') \<and> ok s' \<and> (\<forall>h'. find_tx h' s' = (if h' = h then Some i else find_tx h' s))"
    and erase_law: "ok s \<Longrightarrow>
      \<exists>s'. erase h s = (Inr (), s') \<and> ok s' \<and> (\<forall>h'. find_tx h' s' = (if h' = h then None else find_tx h' s))"
begin

lemma update_all:
  assumes "ok s" and "\<forall>(h, i) \<in> set xs. fits i"
  shows "\<exists>s'. act_each (\<lambda>(h, i). update h i) xs s = (Inr (), s') \<and> ok s'
           \<and> (\<lambda>h. find_tx h s') = (\<lambda>h. find_tx h s) ++ map_of (rev xs)"
  using assms
proof (induction xs arbitrary: s)
  case Nil
  then show ?case by (simp add: act_simps)
next
  case (Cons p xs)
  obtain h i where p: "p = (h, i)" by fastforce
  obtain s1 where s1: "update h i s = (Inr (), s1)" "ok s1"
      "\<And>h'. find_tx h' s1 = (if h' = h then Some i else find_tx h' s)"
    using update_law [OF Cons.prems(1), of i h] Cons.prems(2) p by auto
  obtain s' where s': "act_each (\<lambda>(h, i). update h i) xs s1 = (Inr (), s')" "ok s'"
      "(\<lambda>h. find_tx h s') = (\<lambda>h. find_tx h s1) ++ map_of (rev xs)"
    using Cons.IH [OF s1(2)] Cons.prems(2) by auto
  have "(\<lambda>h. find_tx h s1) ++ map_of (rev xs) = (\<lambda>h. find_tx h s) ++ map_of (rev (p # xs))"
    by (rule ext) (simp add: p map_add_def s1(3) split: option.splits)
  then show ?case using s1(1) s' by (auto simp: p act_simps)
qed

end

definition txindex_fits :: "CTxIndex \<Rightarrow> bool" where
  "txindex_fits i \<longleftrightarrow> length (vSpent i) \<le> 0x02000000"

lemma client_version_ok [simp]: "i32_ok CLIENT_VERSION"
  by (simp add: i32_ok_def CLIENT_VERSION_def)

lemma ReadTxIndex_view:
  "db_ok db \<Longrightarrow> ReadTxIndex h db =
     (case db_view db (db_key_hash ''tx'' h) of None \<Rightarrow> None
      | Some v \<Rightarrow> (case unser_CTxIndex False v of Inl e \<Rightarrow> None | Inr (x, r) \<Rightarrow> Some x))"
  by (simp add: ReadTxIndex_def db_Read_view)

lemma unser_txindex_all: "txindex_fits i \<Longrightarrow> unser_CTxIndex False (ser_CTxIndex False CLIENT_VERSION i) = Inr (i, [])"
  using unser_txindex [of CLIENT_VERSION i False "[]"] by (simp add: txindex_fits_def)

interpretation txidx: tx_index db_ok ReadTxIndex UpdateTxIndex
  "\<lambda>h. db_Erase (db_key_hash ''tx'' h)" txindex_fits
proof
  fix s i h
  assume "db_ok s" and "txindex_fits i"
  then show "\<exists>s'. UpdateTxIndex h i s = (Inr (), s') \<and> db_ok s' \<and>
      (\<forall>h'. ReadTxIndex h' s' = (if h' = h then Some i else ReadTxIndex h' s))"
    using db_Write_ok [of s "db_key_hash ''tx'' h" "ser_CTxIndex False CLIENT_VERSION i"]
    by (cases "UpdateTxIndex h i s")
      (auto simp: UpdateTxIndex_def ReadTxIndex_view db_key_hash_eq unser_txindex_all)
next
  fix s h
  assume "db_ok s"
  then show "\<exists>s'. db_Erase (db_key_hash ''tx'' h) s = (Inr (), s') \<and> db_ok s' \<and>
      (\<forall>h'. ReadTxIndex h' s' = (if h' = h then None else ReadTxIndex h' s))"
    using db_Erase_ok [of s "db_key_hash ''tx'' h"]
    by (cases "db_Erase (db_key_hash ''tx'' h) s") (auto simp: ReadTxIndex_view db_key_hash_eq)
qed

section \<open>Properties\<close>

text \<open>C14: 
  A database with a batch is a map with nested writes: every read sees the store with the
  pending writes applied in their order; writes and erasures inside a transaction leave the store alone; \<open>TxnCommit\<close> makes the store what readers
  saw, and \<open>TxnAbort\<close> makes readers see the store of before.
\<close>
theorem transactions_atomic:
  assumes "db_ok db" and "activeBatch db \<noteq> None"
  shows "db_fetch k db = db_view db k
    \<and> db_view (snd (db_Write k' v db)) = (db_view db)(k' \<mapsto> v)
    \<and> db_view (snd (db_Erase k' db)) = (db_view db)(k' := None)
    \<and> ldb_store (snd (db_Write k' v db)) = ldb_store db
    \<and> ldb_store (snd (db_Erase k' db)) = ldb_store db
    \<and> (\<exists>db'. TxnCommit db = (Inr (), db') \<and> map_of (ldb_store db') = db_view db \<and> db_view db' = db_view db)
    \<and> (\<exists>db'. TxnAbort db = (Inr (), db') \<and> db_view db' = map_of (ldb_store db))"
  using db_Write_ok [OF assms(1), of k' v] db_Erase_ok [OF assms(1), of k'] TxnCommit_ok [OF assms]
    TxnAbort_ok [OF assms(1)] db_fetch_view [OF assms(1)] assms(2)
  by auto

text \<open>C40: 
  A deletion that waits in the batch hides a record from \<open>Read\<close> but not from \<open>Exists\<close>: inside a
  transaction that erased an indexed transaction, \<open>ReadTxIndex\<close> fails and \<open>ContainsTx\<close> still
  answers yes.
\<close>
theorem ContainsTx_ignores_erase:
  assumes "db_ok db" and "activeBatch db \<noteq> None"
    and "map_of (ldb_store db) (db_key_hash ''tx'' (tx_GetHash L tx)) \<noteq> None"
  shows "\<exists>db'. EraseTxIndex L tx db = (Inr (), db')
    \<and> ReadTxIndex (tx_GetHash L tx) db' = None \<and> ContainsTx (tx_GetHash L tx) db'"
proof -
  obtain b where b: "activeBatch db = Some b" using assms(2) by auto
  define k where "k = db_key_hash ''tx'' (tx_GetHash L tx)"
  define db' where "db' = db\<lparr>activeBatch := Some (b @ [DbDelete k])\<rparr>"
  have e: "EraseTxIndex L tx db = (Inr (), db')"
    using assms(1) by (simp add: EraseTxIndex_def db_Erase_def db_ok_def b db'_def k_def)
  have d: "deleted (scan_active db' k)" by (simp add: scan_active_def db'_def ScanBatch_snoc)
  have "ReadTxIndex (tx_GetHash L tx) db' = None"
    using d by (simp add: ReadTxIndex_def db_Read_def db_fetch_def Let_def k_def)
  moreover have "ContainsTx (tx_GetHash L tx) db'"
    using assms(1,3) d
    by (auto simp: ContainsTx_def db_Exists_def Let_def ldb_Get_def db_ok_def db'_def k_def)
  ultimately show ?thesis using e by blast
qed

section \<open>Witnesses\<close>

definition db_empty :: CTxDB where
  "db_empty = \<lparr>ldb_store = [], ldb_fault = (\<lambda>_. False), activeBatch = Some [], fReadOnly = False\<rparr>"

lemma db_ok_empty: "db_ok db_empty"
  by (simp add: db_ok_def db_empty_def)

theorem transactions_atomic_witness:
  "db_fetch [1] db_empty = db_view db_empty [1]
   \<and> db_view (snd (db_Write [1] [2] db_empty)) [1] = Some [2]
   \<and> ldb_store (snd (db_Write [1] [2] db_empty)) = []"
  using transactions_atomic [of db_empty "[1]" "[1]" "[2]"] db_ok_empty
  by (simp add: db_empty_def)

theorem ContainsTx_ignores_erase_witness:
  "\<exists>db'. EraseTxIndex ref_lib sample_tx
        (db_empty\<lparr>ldb_store := [(db_key_hash ''tx'' (tx_GetHash ref_lib sample_tx), [7])]\<rparr>) = (Inr (), db')
    \<and> ReadTxIndex (tx_GetHash ref_lib sample_tx) db' = None
    \<and> ContainsTx (tx_GetHash ref_lib sample_tx) db'"
  by (rule ContainsTx_ignores_erase) (simp_all add: db_ok_def db_empty_def smap_ok_def)

end
