(* ===== verification/Block_Store.thy ===== *)
theory Block_Store
  imports Txdb Targets
begin

text \<open>
  The block files \<open>blk0001.dat\<close>, \<open>blk0002.dat\<close>, \dots\ (\<open>main.cpp\<close>, \<open>main.h\<close>): blocks are appended,
  each behind the magic bytes of the network and its size, and read back, with their
  transactions, from the positions the indexes keep.
\<close>

section \<open>Files\<close>

text \<open>
  The content of every file that exists, \<open>nCurrentBlockFile\<close>, and the file numbers that cannot
  be opened (\<open>fopen\<close> fails). A write to an open file succeeds.
\<close>

record block_files =
  bf_content :: "u32 \<rightharpoonup> bytes"
  nCurrentBlockFile :: u32
  bf_fault :: "u32 \<Rightarrow> bool"

definition valid_file :: "u32 \<Rightarrow> bool" where
  "valid_file nFile = (\<not> (nFile < 1 \<or> nFile = - 1))"

text \<open>\<open>OpenBlockFile(nFile, nBlockPos, "rb")\<close>: what can be read from the position on.\<close>

definition open_read :: "u32 \<Rightarrow> u32 \<Rightarrow> block_files \<Rightarrow> bytes option" where
  "open_read nFile nBlockPos fs =
     (if \<not> valid_file nFile \<or> bf_fault fs nFile then None
      else map_option (drop (unat nBlockPos)) (bf_content fs nFile))"

text \<open>\<open>OpenBlockFile(nFile, 0, "ab")\<close> creates a missing file; the result is the end of the file.\<close>

definition open_append :: "u32 \<Rightarrow> block_files \<Rightarrow> bytes option" where
  "open_append nFile fs =
     (if \<not> valid_file nFile \<or> bf_fault fs nFile then None
      else Some (case bf_content fs nFile of Some c \<Rightarrow> c | None \<Rightarrow> []))"

text \<open>\<open>AppendBlockFile\<close> moves on from files of \<open>0x7F000000 - MAX_SIZE\<close> bytes.\<close>

definition file_limit :: nat where "file_limit = 0x7F000000 - 0x02000000"

function append_from :: "u32 \<Rightarrow> block_files \<Rightarrow> u32 option \<times> block_files" where
  "append_from n fs =
     (case open_append n fs of
        None \<Rightarrow> (None, fs\<lparr>nCurrentBlockFile := n\<rparr>)
      | Some c \<Rightarrow>
          if length c < file_limit
          then (Some n, fs\<lparr>nCurrentBlockFile := n, bf_content := (bf_content fs)(n \<mapsto> c)\<rparr>)
          else append_from (n + 1) fs)"
  by pat_completeness auto

lemma next_file_larger: "valid_file n \<Longrightarrow> 2 ^ 32 - unat (n + 1) < (2 ^ 32 - unat n :: nat)"
proof -
  assume v: "valid_file n"
  then have "n + 1 \<noteq> 0" by (metis add.commute add_cancel_left_left add_eq_0_iff valid_file_def)
  then have "unat (n + 1) = unat n + 1" by (metis add.commute unatSuc Suc_eq_plus1)
  moreover have "unat n < 2 ^ 32" using unsigned_less [of n, where ?'a = nat] by simp
  ultimately show ?thesis using diff_less_mono2 [of "unat n" "unat (n + 1)" "2 ^ 32"] by simp
qed

termination append_from
proof (relation "measure (\<lambda>(n, fs). 2 ^ 32 - unat n)", goal_cases)
  case (2 n fs c)
  then have "valid_file n" by (auto simp: open_append_def split: if_splits)
  then show ?case using next_file_larger by simp
qed simp

declare append_from.simps [simp del]

definition AppendBlockFile :: "block_files \<Rightarrow> u32 option \<times> block_files" where
  "AppendBlockFile fs = append_from (nCurrentBlockFile fs) fs"

definition append_bytes :: "u32 \<Rightarrow> bytes \<Rightarrow> block_files \<Rightarrow> block_files" where
  "append_bytes n b fs =
     fs\<lparr>bf_content := (bf_content fs)(n \<mapsto> (case bf_content fs n of Some c \<Rightarrow> c | None \<Rightarrow> []) @ b)\<rparr>"

section \<open>Writing and reading blocks and transactions\<close>

definition pchMessageStart :: "bool \<Rightarrow> bytes" where
  "pchMessageStart testnet = (if testnet then [0xcd, 0xf2, 0xc0, 0xef] else [0xe4, 0xe8, 0xe9, 0xe5])"

text \<open>The number of the file and the position of the block.\<close>

definition WriteToDisk :: "bool \<Rightarrow> CBlock \<Rightarrow> (block_files, u32 \<times> u32) action" where
  "WriteToDisk testnet b fs =
     (case AppendBlockFile fs of
        (None, fs) \<Rightarrow> (Inl (Refused 0), fs)
      | (Some nFileRet, fs) \<Rightarrow>
          let fs = append_bytes nFileRet (pchMessageStart testnet @ ser_u32 (of_nat (block_size b))) fs;
              nBlockPosRet = of_nat (length (the (bf_content fs nFileRet)))
          in (Inr (nFileRet, nBlockPosRet), append_bytes nFileRet (ser_CBlock False b) fs))"

definition tx_ReadFromDisk :: "CDiskTxPos \<Rightarrow> block_files \<Rightarrow> CTransaction option" where
  "tx_ReadFromDisk pos fs =
     (case open_read (dp_nFile pos) 0 fs of
        None \<Rightarrow> None
      | Some c \<Rightarrow> (case unser_CTransaction (drop (unat (dp_nTxPos pos)) c) of
          Inl e \<Rightarrow> None | Inr (tx, r) \<Rightarrow> Some tx))"

definition block_ReadFromDisk_pos ::
  "extlib \<Rightarrow> bool \<Rightarrow> u32 \<Rightarrow> u32 \<Rightarrow> bool \<Rightarrow> block_files \<Rightarrow> CBlock option" where
  "block_ReadFromDisk_pos L testnet nFile nBlockPos fReadTransactions fs =
     (case open_read nFile nBlockPos fs of
        None \<Rightarrow> None
      | Some c \<Rightarrow> (case unser_CBlock (\<not> fReadTransactions) block_SetNull c of
          Inl e \<Rightarrow> None
        | Inr (b, r) \<Rightarrow>
            if fReadTransactions \<and> block_IsProofOfWork b
               \<and> \<not> CheckProofOfWork L testnet (block_GetHash L b) (nBits b)
            then None else Some b))"

definition block_ReadFromDisk ::
  "extlib \<Rightarrow> bool \<Rightarrow> CBlockIndex \<Rightarrow> bool \<Rightarrow> block_files \<Rightarrow> CBlock option" where
  "block_ReadFromDisk L testnet pindex fReadTransactions fs =
     (if \<not> fReadTransactions then Some (GetBlockHeader pindex)
      else case block_ReadFromDisk_pos L testnet (bi_nFile pindex) (bi_nBlockPos pindex) fReadTransactions fs of
        None \<Rightarrow> None
      | Some b \<Rightarrow> if block_GetHash L b \<noteq> phashBlock pindex then None else Some b)"

text \<open>\<open>CTransaction::ReadFromDisk(txdb, prevout, txindexRet)\<close> and the two \<open>ReadDiskTx\<close>.\<close>

definition tx_ReadFromDisk_out ::
  "COutPoint \<Rightarrow> CTxDB \<Rightarrow> block_files \<Rightarrow> (CTransaction \<times> CTxIndex) option" where
  "tx_ReadFromDisk_out po db fs =
     (case ReadTxIndex (out_hash po) db of
        None \<Rightarrow> None
      | Some txindexRet \<Rightarrow> (case tx_ReadFromDisk (txi_pos txindexRet) fs of
          None \<Rightarrow> None
        | Some tx \<Rightarrow> if length (vout tx) \<le> unat (out_n po) then None else Some (tx, txindexRet)))"

definition ReadDiskTx :: "u256 \<Rightarrow> CTxDB \<Rightarrow> block_files \<Rightarrow> (CTransaction \<times> CTxIndex) option" where
  "ReadDiskTx hash db fs =
     (case ReadTxIndex hash db of
        None \<Rightarrow> None
      | Some txindex \<Rightarrow> (case tx_ReadFromDisk (txi_pos txindex) fs of
          None \<Rightarrow> None | Some tx \<Rightarrow> Some (tx, txindex)))"

text \<open>
  Where \<open>ConnectBlock\<close> expects the transactions of a block: the first behind the header and
  the count, each further one behind its predecessor.
\<close>

definition first_tx_pos :: "u32 \<Rightarrow> CBlock \<Rightarrow> u32" where
  "first_tx_pos nBlockPos b =
     nBlockPos + of_nat (block_size block_SetNull) - 2 * of_nat (GetSizeOfCompactSize 0)
     + of_nat (GetSizeOfCompactSize (of_nat (length (vtx b))))"

fun tx_positions :: "u32 \<Rightarrow> CTransaction list \<Rightarrow> u32 list" where
  "tx_positions nTxPos [] = []"
| "tx_positions nTxPos (tx # txs) = nTxPos # tx_positions (nTxPos + of_nat (tx_size tx)) txs"

section \<open>Readers that look no further than they read\<close>

text \<open>More bytes behind a value do not change what is read.\<close>

definition prefix_stable :: "'a reader \<Rightarrow> bool" where
  "prefix_stable u \<longleftrightarrow> (\<forall>s x r t. u s = Inr (x, r) \<longrightarrow> u (s @ t) = Inr (x, r @ t))"

named_theorems stable_rules \<open>stable readers\<close>
lemma stableD: "prefix_stable u \<Longrightarrow> u s = Inr (x, r) \<Longrightarrow> u (s @ t) = Inr (x, r @ t)"
  by (simp add: prefix_stable_def)

lemma stable_return [stable_rules]: "prefix_stable (\<lambda>s. Inr (x, s))" "prefix_stable (\<lambda>s. Inl e)"
  by (simp_all add: prefix_stable_def)

lemma rbind_Inr: "rbind m f = Inr y \<longleftrightarrow> (\<exists>x. m = Inr x \<and> f x = Inr y)"
  by (cases m) simp_all

lemma stable_bind [stable_rules]:
  assumes "prefix_stable u" and "\<And>x. prefix_stable (f x)"
  shows "prefix_stable (\<lambda>s. rbind (u s) (\<lambda>(x, r). f x r))"
  unfolding prefix_stable_def
proof (intro allI impI)
  fix s y r t
  assume "rbind (u s) (\<lambda>(x, r). f x r) = Inr (y, r)"
  then obtain x r1 where "u s = Inr (x, r1)" "f x r1 = Inr (y, r)" by (auto simp: rbind_Inr)
  then show "rbind (u (s @ t)) (\<lambda>(x, r). f x r) = Inr (y, r @ t)"
    using stableD [OF assms(1)] stableD [OF assms(2)] by simp
qed

lemma stable_if [stable_rules]: "prefix_stable u \<Longrightarrow> prefix_stable v \<Longrightarrow> prefix_stable (\<lambda>s. if c then u s else v s)"
  by (cases c) simp_all

lemma stable_stream_read [stable_rules]: "prefix_stable (stream_read n)"
  by (auto simp: prefix_stable_def stream_read_def split: if_splits)

lemma stable_eq: "(\<And>s. u s = v s) \<Longrightarrow> prefix_stable v \<Longrightarrow> prefix_stable u"
  by (simp add: prefix_stable_def)

lemma stable_read_word [stable_rules]: "prefix_stable (read_word n)"
  by (rule stable_eq [OF read_word_def]) (intro stable_rules)

lemma stable_words [stable_rules]:
  "prefix_stable unser_u8" "prefix_stable unser_u16" "prefix_stable unser_u32" "prefix_stable unser_u64" "prefix_stable unser_u256"
  by (simp_all add: unser_u8_def unser_u16_def unser_u32_def unser_u64_def unser_u256_def stable_rules)

lemma stable_ints [stable_rules]: "prefix_stable unser_i32" "prefix_stable unser_i64"
  by (rule stable_eq [OF unser_i32_def], intro stable_rules)
    (rule stable_eq [OF unser_i64_def], intro stable_rules)

lemma stable_compact [stable_rules]: "prefix_stable ReadCompactSize"
  by (rule stable_eq [OF ReadCompactSize_def]) (intro stable_rules)

lemma stable_bytes [stable_rules]: "prefix_stable unser_bytes"
  by (rule stable_eq [OF unser_bytes_def], unfold read_blocks_stream) (intro stable_rules)

lemma stable_items: "prefix_stable u \<Longrightarrow> prefix_stable (unser_items u n)"
proof (induction n)
  case 0
  then show ?case by (simp add: prefix_stable_def)
next
  case (Suc n)
  show ?case
    by (rule stable_eq [OF unser_items.simps(2)]) (intro stable_rules Suc)
qed

lemma stable_chunks: "prefix_stable u \<Longrightarrow> prefix_stable (unser_chunks step u n)"
proof (induction n rule: less_induct)
  case (less n)
  show ?case
  proof (cases "n = 0 \<or> step = 0")
    case True
    then show ?thesis by (simp add: prefix_stable_def unser_chunks.simps)
  next
    case False
    then have e: "unser_chunks step u n s = rbind (unser_items u (min step n) s) (\<lambda>(xs, s1).
        rbind (unser_chunks step u (n - min step n) s1) (\<lambda>(ys, r). Inr (xs @ ys, r)))" for s
      by (subst unser_chunks.simps) (simp add: Let_def)
    show ?thesis
      by (rule stable_eq [OF e]) (intro stable_rules stable_items less, use False in simp)
  qed
qed

lemma stable_vector [stable_rules]: "prefix_stable u \<Longrightarrow> prefix_stable (unser_vector step u)"
  by (rule stable_eq [OF unser_vector_def]) (intro stable_rules stable_chunks)

lemma stable_CTransaction [stable_rules]: "prefix_stable unser_CTransaction"
proof -
  have o: "prefix_stable unser_COutPoint"
    by (rule stable_eq [OF unser_COutPoint_def]) (intro stable_rules)
  have i: "prefix_stable unser_CTxIn"
    by (rule stable_eq [OF unser_CTxIn_def]) (intro stable_rules o)
  have u: "prefix_stable unser_CTxOut"
    by (rule stable_eq [OF unser_CTxOut_def]) (intro stable_rules)
  show ?thesis
    by (rule stable_eq [OF unser_CTransaction_def]) (intro stable_rules i u)
qed

lemma stable_CBlock [stable_rules]: "prefix_stable (unser_CBlock headerOnly b)"
proof -
  have h: "prefix_stable (unser_block_header b)"
    by (rule stable_eq [OF unser_block_header_def]) (intro stable_rules)
  show ?thesis
    by (rule stable_eq [OF unser_CBlock_def]) (intro stable_rules h)
qed

section \<open>Files only grow\<close>

definition extends :: "block_files \<Rightarrow> block_files \<Rightarrow> bool" where
  "extends fs fs' \<longleftrightarrow> bf_fault fs' = bf_fault fs
     \<and> (\<forall>n c. bf_content fs n = Some c \<longrightarrow> (\<exists>d. bf_content fs' n = Some (c @ d)))"

lemma extends_refl: "extends fs fs"
  by (auto simp: extends_def intro: exI [of _ "[]"])

lemma extends_trans: "extends a b \<Longrightarrow> extends b c \<Longrightarrow> extends a c"
  unfolding extends_def by (metis append_assoc)

lemma extends_append: "extends fs (append_bytes n b fs)"
  by (auto simp: extends_def append_bytes_def intro: exI [of _ "[]"])

lemma append_from_result:
  "append_from n fs = (r, fs') \<Longrightarrow> extends fs fs' \<and>
     (\<forall>f. r = Some f \<longrightarrow> valid_file f \<and> \<not> bf_fault fs' f
        \<and> (\<exists>c. bf_content fs' f = Some c \<and> length c < file_limit))"
proof (induction n fs arbitrary: r fs' rule: append_from.induct)
  case (1 n fs)
  show ?case
  proof (cases "open_append n fs")
    case None
    then have "append_from n fs = (None, fs\<lparr>nCurrentBlockFile := n\<rparr>)"
      by (simp add: append_from.simps)
    then show ?thesis using "1.prems" by (auto simp: extends_def)
  next
    case (Some c)
    note o = Some
    show ?thesis
    proof (cases "length c < file_limit")
      case True
      then have "r = Some n" "fs' = fs\<lparr>nCurrentBlockFile := n, bf_content := (bf_content fs)(n \<mapsto> c)\<rparr>"
        using "1.prems" o by (simp_all add: append_from.simps [of n])
      then show ?thesis
        using o True by (auto simp: extends_def open_append_def split: if_splits option.splits)
    next
      case False
      then have "append_from (n + 1) fs = (r, fs')"
        using "1.prems" o by (simp add: append_from.simps [of n])
      then show ?thesis using "1.IH" [OF o False] by blast
    qed
  qed
qed

lemma open_read_extends:
  "extends fs fs' \<Longrightarrow> open_read f p fs = Some c \<Longrightarrow> \<exists>d. open_read f p fs' = Some (c @ d)"
  by (fastforce simp: open_read_def extends_def split: if_splits)

lemma tx_read_extends:
  assumes "extends fs fs'" and "tx_ReadFromDisk pos fs = Some tx"
  shows "tx_ReadFromDisk pos fs' = Some tx"
proof -
  obtain c r where c: "open_read (dp_nFile pos) 0 fs = Some c"
      "unser_CTransaction (drop (unat (dp_nTxPos pos)) c) = Inr (tx, r)"
    using assms(2) by (auto simp: tx_ReadFromDisk_def split: option.splits sum.splits)
  obtain d where "open_read (dp_nFile pos) 0 fs' = Some (c @ d)"
    using open_read_extends [OF assms(1) c(1)] by blast
  then show ?thesis using stableD [OF stable_CTransaction c(2)] by (simp add: tx_ReadFromDisk_def)
qed

lemma block_read_extends:
  assumes "extends fs fs'" and "block_ReadFromDisk_pos L testnet f p full fs = Some b"
  shows "block_ReadFromDisk_pos L testnet f p full fs' = Some b"
proof -
  obtain c r where c: "open_read f p fs = Some c" "unser_CBlock (\<not> full) block_SetNull c = Inr (b, r)"
      "\<not> (full \<and> block_IsProofOfWork b \<and> \<not> CheckProofOfWork L testnet (block_GetHash L b) (nBits b))"
    using assms(2) by (auto simp: block_ReadFromDisk_pos_def split: option.splits sum.splits if_splits)
  obtain d where "open_read f p fs' = Some (c @ d)" using open_read_extends [OF assms(1) c(1)] by blast
  then show ?thesis using stableD [OF stable_CBlock c(2)] c(3) by (simp add: block_ReadFromDisk_pos_def)
qed

lemma WriteToDisk_result:
  assumes "WriteToDisk testnet b fs = (Inr (f, p), fs')"
  shows "extends fs fs' \<and> valid_file f \<and> \<not> bf_fault fs' f \<and>
    (\<exists>c. bf_content fs' f = Some (c @ ser_CBlock False b) \<and> p = of_nat (length c) \<and> length c < file_limit + 8)"
proof -
  obtain r fs1 where a: "append_from (nCurrentBlockFile fs) fs = (r, fs1)" by fastforce
  have r: "r = Some f"
    using assms a by (cases r) (simp_all add: WriteToDisk_def AppendBlockFile_def Let_def)
  then obtain c where c: "extends fs fs1" "valid_file f" "\<not> bf_fault fs1 f" "bf_content fs1 f = Some c"
      "length c < file_limit"
    using append_from_result [OF a] by blast
  define h where "h = pchMessageStart testnet @ ser_u32 (of_nat (block_size b))"
  have l: "length h = 8" by (simp add: h_def pchMessageStart_def ser_u32_def)
  have m: "the (bf_content (append_bytes f h fs1) f) = c @ h" by (simp add: append_bytes_def c(4))
  have "WriteToDisk testnet b fs = (Inr (f, of_nat (length (the (bf_content (append_bytes f h fs1) f)))),
      append_bytes f (ser_CBlock False b) (append_bytes f h fs1))"
    by (simp only: WriteToDisk_def AppendBlockFile_def a r Let_def h_def prod.case option.case)
  then have "(Inr (f, p) :: failure + _, fs') = (Inr (f, of_nat (length (c @ h))),
      append_bytes f (ser_CBlock False b) (append_bytes f h fs1))"
    by (simp only: assms m)
  then have fs': "fs' = append_bytes f (ser_CBlock False b) (append_bytes f h fs1)"
    and p: "p = of_nat (length (c @ h))"
    by (simp_all only: prod.inject sum.inject)
  have "bf_content fs' f = Some ((c @ h) @ ser_CBlock False b)"
    by (simp add: fs' append_bytes_def c(4))
  moreover have "extends fs fs'" unfolding fs'
    by (rule extends_trans [OF c(1) extends_trans [OF extends_append extends_append]])
  moreover have "bf_fault fs' = bf_fault fs1" by (simp add: fs' append_bytes_def)
  moreover have "length (c @ h) < file_limit + 8" using c(5) l by simp
  ultimately show ?thesis using c(2,3) p by (intro conjI exI [of _ "c @ h"]) simp_all
qed

section \<open>The positions of the transactions\<close>
lemma tx_positions_nth:
  "i < length txs \<Longrightarrow>
     tx_positions pos txs ! i = pos + of_nat (sum_list (map tx_size (take i txs)))"
proof (induction pos txs arbitrary: i rule: tx_positions.induct)
  case (2 pos tx txs)
  then show ?case by (cases i) (simp_all add: add.assoc)
qed simp

lemma length_tx_positions [simp]: "length (tx_positions pos txs) = length txs"
  by (induction pos txs rule: tx_positions.induct) simp_all

lemma first_tx_pos_value:
  "first_tx_pos p b = p + of_nat (80 + GetSizeOfCompactSize (of_nat (length (vtx b))))"
  by (simp add: first_tx_pos_def block_size_def block_SetNull_def vector_size_def bytes_size_def
      GetSizeOfCompactSize_def)

lemma unser_ser_block:
  assumes "block_ok b"
  shows "unser_CBlock False b0 (ser_CBlock False b @ r) = Inr (b\<lparr>vMerkleTree := vMerkleTree b0\<rparr>, r)"
proof -
  have "i32_ok (nVersion b)" "list_all tx_ok (vtx b) \<and> length (vtx b) \<le> 0x02000000" "bytes_ok (vchBlockSig b)"
    using assms by (simp_all add: block_ok_def)
  then show ?thesis
    using transactions.unser_ser byte_vector.unser_ser
    by (simp add: unser_CBlock_def ser_CBlock_def unser_header)
qed

lemma sum_list_take_le: "sum_list (take i xs) \<le> sum_list (xs :: nat list)"
  by (metis append_take_drop_id le_add1 sum_list_append)

lemma ser_block_split:
  assumes "block_ok b" and "i < length (vtx b)"
  shows "\<exists>r. drop (80 + GetSizeOfCompactSize (of_nat (length (vtx b))) + sum_list (map tx_size (take i (vtx b))))
      (ser_CBlock False b) = ser_CTransaction (vtx b ! i) @ r"
proof -
  have ok: "list_all tx_ok (vtx b)" using assms(1) by (simp add: block_ok_def)
  have s: "concat (map ser_CTransaction (vtx b)) =
      concat (map ser_CTransaction (take i (vtx b))) @ ser_CTransaction (vtx b ! i)
      @ concat (map ser_CTransaction (drop (Suc i) (vtx b)))"
    by (metis Cons_nth_drop_Suc append_take_drop_id assms(2) concat.simps(2) concat_append list.simps(9) map_append)
  have l: "length (concat (map ser_CTransaction (take i (vtx b)))) = sum_list (map tx_size (take i (vtx b)))"
    by (intro transaction.size_list) (meson ok in_set_takeD list_all_iff)
  show ?thesis
    by (simp add: ser_CBlock_def ser_vector_def s length_WriteCompactSize l)
qed

section \<open>Properties\<close>

text \<open>C19: 
  A block written to the block files can be read back: \<open>WriteToDisk\<close> returns a place from
  which \<open>ReadFromDisk\<close> gives the same block, and each of its transactions is found at the
  offset \<open>ConnectBlock\<close> computes for the transaction index. The files only grow, so every block
  and every transaction that could be read before is read the same after.
\<close>
theorem block_files_roundtrip:
  assumes "block_ok b" and "block_size b \<le> MAX_BLOCK_SIZE"
    and "WriteToDisk testnet b fs = (Inr (f, p), fs')"
    and "block_IsProofOfStake b \<or> CheckProofOfWork L testnet (block_GetHash L b) (nBits b)"
  shows "block_ReadFromDisk_pos L testnet f p True fs' = Some (b\<lparr>vMerkleTree := []\<rparr>)
    \<and> (\<forall>i < length (vtx b).
         tx_ReadFromDisk (diskpos f p (tx_positions (first_tx_pos p b) (vtx b) ! i)) fs' = Some (vtx b ! i))
    \<and> (\<forall>pos tx. tx_ReadFromDisk pos fs = Some tx \<longrightarrow> tx_ReadFromDisk pos fs' = Some tx)
    \<and> (\<forall>f' p' full b'. block_ReadFromDisk_pos L testnet f' p' full fs = Some b' \<longrightarrow>
         block_ReadFromDisk_pos L testnet f' p' full fs' = Some b')"
proof -
  obtain c where c: "extends fs fs'" "valid_file f" "\<not> bf_fault fs' f"
      "bf_content fs' f = Some (c @ ser_CBlock False b)" "p = of_nat (length c)" "length c < file_limit + 8"
    using WriteToDisk_result [OF assms(3)] by blast
  have lim: "length c < 2100000000" using c(6) by (simp add: file_limit_def)
  have up: "unat p = length c" unfolding c(5) using lim by (intro unat_of_nat_small) simp
  have "open_read f p fs' = Some (ser_CBlock False b)"
    using c(2,3,4) up by (simp add: open_read_def)
  moreover have "unser_CBlock False block_SetNull (ser_CBlock False b) = Inr (b\<lparr>vMerkleTree := []\<rparr>, [])"
    using unser_ser_block [OF assms(1), of block_SetNull "[]"] by (simp add: block_SetNull_def)
  moreover have "block_IsProofOfWork (b\<lparr>vMerkleTree := []\<rparr>) = block_IsProofOfWork b"
    "block_GetHash L (b\<lparr>vMerkleTree := []\<rparr>) = block_GetHash L b"
    by (simp_all add: block_IsProofOfWork_def block_IsProofOfStake_def block_GetHash_def ser_block_header_def)
  ultimately have r: "block_ReadFromDisk_pos L testnet f p True fs' = Some (b\<lparr>vMerkleTree := []\<rparr>)"
    using assms(4) by (auto simp: block_ReadFromDisk_pos_def block_IsProofOfWork_def)
  have t: "tx_ReadFromDisk (diskpos f p (tx_positions (first_tx_pos p b) (vtx b) ! i)) fs' = Some (vtx b ! i)"
    if i: "i < length (vtx b)" for i
  proof -
    define k where "k = 80 + GetSizeOfCompactSize (of_nat (length (vtx b))) + sum_list (map tx_size (take i (vtx b)))"
    have "k \<le> block_size b"
      using sum_list_take_le [of i "map tx_size (vtx b)"]
      by (simp add: k_def block_size_def vector_size_def take_map)
    then have k: "length c + k < 2 ^ LENGTH(32)" using lim assms(2) by (simp add: MAX_BLOCK_SIZE_def)
    have "tx_positions (first_tx_pos p b) (vtx b) ! i = of_nat (length c + k)"
      by (simp add: tx_positions_nth [OF i] first_tx_pos_value c(5) k_def add.assoc)
    then have u: "unat (tx_positions (first_tx_pos p b) (vtx b) ! i) = length c + k"
      using unat_of_nat_small [OF k] by simp
    obtain r where "drop k (ser_CBlock False b) = ser_CTransaction (vtx b ! i) @ r"
      using ser_block_split [OF assms(1) i] unfolding k_def by blast
    moreover have "tx_ok (vtx b ! i)" using assms(1) i by (simp add: block_ok_def list_all_length)
    ultimately have "unser_CTransaction (drop k (ser_CBlock False b)) = Inr (vtx b ! i, r)"
      using transaction.unser_ser by simp
    moreover have "open_read f 0 fs' = Some (c @ ser_CBlock False b)" using c by (simp add: open_read_def)
    ultimately show ?thesis by (simp add: tx_ReadFromDisk_def diskpos_def u)
  qed
  show ?thesis using r t tx_read_extends [OF c(1)] block_read_extends [OF c(1)] by blast
qed

section \<open>Witness\<close>

definition files_empty :: block_files where
  "files_empty = \<lparr>bf_content = Map.empty, nCurrentBlockFile = 1, bf_fault = (\<lambda>_. False)\<rparr>"

definition stake_tx :: CTransaction where
  "stake_tx = \<lparr>tx_nVersion = 1, tx_nTime = 1400000000, vin = [txin_new (COutPoint 7 1) [1, 2]],
     vout = [txout_SetEmpty, \<lparr>nValue = 20000, scriptPubKey = [0x51]\<rparr>], nLockTime = 0\<rparr>"

definition stake_block :: CBlock where
  "stake_block = sample_block\<lparr>vtx := [sample_tx, stake_tx]\<rparr>"

lemma write_first:
  "length (ser_CBlock False b) < 2 ^ 32 \<Longrightarrow> \<exists>fs'. WriteToDisk False b files_empty = (Inr (1, 8), fs')"
proof -
  have "append_from 1 files_empty = (Some 1, files_empty\<lparr>bf_content := [1 \<mapsto> []]\<rparr>)"
    by (simp add: append_from.simps [of 1] open_append_def files_empty_def valid_file_def file_limit_def)
  then show ?thesis
    by (simp add: WriteToDisk_def AppendBlockFile_def files_empty_def append_bytes_def Let_def
        pchMessageStart_def ser_u32_def)
qed

theorem block_files_roundtrip_witness:
  "\<exists>fs'. WriteToDisk False stake_block files_empty = (Inr (1, 8), fs')
    \<and> block_ReadFromDisk_pos ref_lib False 1 8 True fs' = Some stake_block
    \<and> tx_ReadFromDisk (diskpos 1 8 (tx_positions (first_tx_pos 8 stake_block) (vtx stake_block) ! 1)) fs'
        = Some stake_tx"
proof -
  have ok: "block_ok stake_block"
    by (simp add: stake_block_def sample_block_def sample_tx_def stake_tx_def block_ok_def tx_ok_def
        txin_ok_def txout_ok_def i32_ok_def i64_ok_def bytes_ok_def txin_new_def txout_SetEmpty_def
        block_SetNull_def)
  have size: "block_size stake_block \<le> MAX_BLOCK_SIZE"
    by (simp add: stake_block_def sample_block_def sample_tx_def stake_tx_def block_size_def tx_size_def
        vector_size_def txin_size_def txout_size_def bytes_size_def GetSizeOfCompactSize_def
        txin_new_def txout_SetEmpty_def MAX_BLOCK_SIZE_def)
  have stake: "block_IsProofOfStake stake_block"
    by (simp add: stake_block_def sample_block_def stake_tx_def block_IsProofOfStake_def IsCoinStake_def
        outpoint_IsNull_def txin_new_def txout_SetEmpty_def txout_IsEmpty_def)
  have "length (ser_CBlock False stake_block) < 2 ^ 32"
    using transactions.length_ser [of "vtx stake_block"] byte_vector.length_ser [of "vchBlockSig stake_block"] ok size
    by (simp add: ser_CBlock_def block_ok_def block_size_def MAX_BLOCK_SIZE_def)
  then obtain fs' where w: "WriteToDisk False stake_block files_empty = (Inr (1, 8), fs')"
    using write_first by blast
  have "vMerkleTree stake_block = []" by (simp add: stake_block_def sample_block_def block_SetNull_def)
  then have "stake_block\<lparr>vMerkleTree := []\<rparr> = stake_block" by simp
  moreover have "1 < length (vtx stake_block)" "vtx stake_block ! 1 = stake_tx" by (simp_all add: stake_block_def)
  ultimately show ?thesis
    using block_files_roundtrip [OF ok size w disjI1 [OF stake], of ref_lib] w by auto
qed

end
