(* ===== verification/Mempool.thy ===== *)
theory Mempool
  imports Transaction Std_Map
begin

text \<open>
  The memory pool (\<open>CTxMemPool\<close> of \<open>main.h\<close> and \<open>main.cpp\<close>) without the checks of \<open>accept\<close>,
  and the transactions whose inputs are not known yet (\<open>mapOrphanTransactions\<close>).
\<close>

section \<open>The pool\<close>

text \<open>
  A \<open>CInPoint\<close> points to an entry of \<open>mapTx\<close>: it is the key of that entry, with the number
  of the input.
\<close>

datatype CInPoint = CInPoint (ip_ptx: u256) (ip_n: nat)

record CTxMemPool =
  mapTx :: "(u256, CTransaction) smap"
  mapNextTx :: "(COutPoint, CInPoint) smap"
  nTransactionsUpdated :: u32

fun add_inputs :: "u256 \<Rightarrow> nat \<Rightarrow> CTxIn list \<Rightarrow> (COutPoint, CInPoint) smap \<Rightarrow> (COutPoint, CInPoint) smap" where
  "add_inputs hash i [] m = m"
| "add_inputs hash i (txin # ins) m = add_inputs hash (i + 1) ins (smap_put (prevout txin) (CInPoint hash i) m)"

definition pool_addUnchecked :: "u256 \<Rightarrow> CTransaction \<Rightarrow> CTxMemPool \<Rightarrow> CTxMemPool" where
  "pool_addUnchecked hash tx p =
     p\<lparr>mapTx := smap_put hash tx (mapTx p), mapNextTx := add_inputs hash 0 (vin tx) (mapNextTx p),
       nTransactionsUpdated := nTransactionsUpdated p + 1\<rparr>"

definition pool_remove :: "extlib \<Rightarrow> CTransaction \<Rightarrow> CTxMemPool \<Rightarrow> CTxMemPool" where
  "pool_remove L tx p =
     (let hash = tx_GetHash L tx
      in if smap_count hash (mapTx p)
         then p\<lparr>mapNextTx := fold (\<lambda>txin. smap_erase (prevout txin)) (vin tx) (mapNextTx p),
                mapTx := smap_erase hash (mapTx p),
                nTransactionsUpdated := nTransactionsUpdated p + 1\<rparr>
         else p)"

definition pool_clear :: "CTxMemPool \<Rightarrow> CTxMemPool" where
  "pool_clear p = p\<lparr>mapTx := [], mapNextTx := [], nTransactionsUpdated := nTransactionsUpdated p + 1\<rparr>"

definition pool_queryHashes :: "CTxMemPool \<Rightarrow> u256 list" where
  "pool_queryHashes p = map fst (mapTx p)"

definition pool_size :: "CTxMemPool \<Rightarrow> nat" where
  "pool_size p = length (mapTx p)"

definition pool_exists :: "u256 \<Rightarrow> CTxMemPool \<Rightarrow> bool" where
  "pool_exists hash p = smap_count hash (mapTx p)"

text \<open>\<open>lookup\<close> is \<open>mapTx[hash]\<close>: it creates a missing entry. Its callers ask \<open>exists\<close> first.\<close>

definition pool_lookup :: "u32 \<Rightarrow> u256 \<Rightarrow> CTxMemPool \<Rightarrow> CTransaction \<times> CTxMemPool" where
  "pool_lookup adjustedTime hash p =
     (case map_of (mapTx p) hash of
        Some tx \<Rightarrow> (tx, p)
      | None \<Rightarrow> (tx_SetNull adjustedTime, p\<lparr>mapTx := smap_put hash (tx_SetNull adjustedTime) (mapTx p)\<rparr>))"

section \<open>Orphan transactions\<close>

text \<open>
  The messages are kept by hash, and once more by the hash of every transaction they spend:
  the two maps share one copy, which \<open>EraseOrphanTx\<close> frees. \<open>GetRandHash()\<close> is the next
  number of a source.
\<close>

record orphan_pool =
  mapOrphanTransactions :: "(u256, bytes) smap"
  mapOrphanTransactionsByPrev :: "(u256, (u256, bytes) smap) smap"
  or_random :: "nat \<Rightarrow> u256"
  or_drawn :: nat

definition by_prev :: "u256 \<Rightarrow> (u256, (u256, bytes) smap) smap \<Rightarrow> (u256, bytes) smap" where
  "by_prev h m = (case map_of m h of Some inner \<Rightarrow> inner | None \<Rightarrow> [])"

text \<open>\<open>std::map::insert\<close> keeps an entry that is there.\<close>

definition smap_insert :: "'k::linorder \<Rightarrow> 'v \<Rightarrow> ('k, 'v) smap \<Rightarrow> ('k, 'v) smap" where
  "smap_insert k v m = (if smap_count k m then m else smap_put k v m)"

definition link_prev :: "u256 \<Rightarrow> bytes \<Rightarrow> CTxIn \<Rightarrow> (u256, (u256, bytes) smap) smap \<Rightarrow> (u256, (u256, bytes) smap) smap" where
  "link_prev hash msg txin m =
     (let h = out_hash (prevout txin) in smap_put h (smap_insert hash msg (by_prev h m)) m)"

definition unlink_prev :: "u256 \<Rightarrow> CTxIn \<Rightarrow> (u256, (u256, bytes) smap) smap \<Rightarrow> (u256, (u256, bytes) smap) smap" where
  "unlink_prev hash txin m =
     (let h = out_hash (prevout txin);
          inner = smap_erase hash (by_prev h m)
      in if inner = [] then smap_erase h m else smap_put h inner m)"

text \<open>\<open>None\<close>: the message does not parse, and the exception leaves the function.\<close>

definition AddOrphanTx :: "extlib \<Rightarrow> bytes \<Rightarrow> orphan_pool \<Rightarrow> (bool \<times> orphan_pool) option" where
  "AddOrphanTx L vMsg op =
     (case unser_CTransaction vMsg of
        Inl e \<Rightarrow> None
      | Inr (tx, r) \<Rightarrow>
          let hash = tx_GetHash L tx
          in if smap_count hash (mapOrphanTransactions op) then Some (False, op)
             else if 5000 < length vMsg then Some (False, op)
             else Some (True, op\<lparr>mapOrphanTransactions := smap_put hash vMsg (mapOrphanTransactions op),
                    mapOrphanTransactionsByPrev :=
                      fold (link_prev hash vMsg) (vin tx) (mapOrphanTransactionsByPrev op)\<rparr>))"

definition EraseOrphanTx :: "u256 \<Rightarrow> orphan_pool \<Rightarrow> orphan_pool option" where
  "EraseOrphanTx hash op =
     (case map_of (mapOrphanTransactions op) hash of
        None \<Rightarrow> Some op
      | Some msg \<Rightarrow> (case unser_CTransaction msg of
          Inl e \<Rightarrow> None
        | Inr (tx, r) \<Rightarrow>
            Some (op\<lparr>mapOrphanTransactionsByPrev := fold (unlink_prev hash) (vin tx) (mapOrphanTransactionsByPrev op),
                     mapOrphanTransactions := smap_erase hash (mapOrphanTransactions op)\<rparr>)))"

text \<open>The orphan that goes: the first at or behind the random hash, or the first of all.\<close>

definition orphan_victim :: "u256 \<Rightarrow> (u256, bytes) smap \<Rightarrow> u256" where
  "orphan_victim randomhash m =
     (case smap_lower_bound randomhash m of Some (h, msg) \<Rightarrow> h | None \<Rightarrow> fst (hd m))"

lemma orphan_victim_in: "m \<noteq> [] \<Longrightarrow> smap_count (orphan_victim r m) m"
  by (auto simp: orphan_victim_def smap_count_iff hd_in_set dest!: smap_lower_bound_in split: option.split)
    force

definition draw_random :: "orphan_pool \<Rightarrow> u256 \<times> orphan_pool" where
  "draw_random op = (or_random op (or_drawn op), op\<lparr>or_drawn := or_drawn op + 1\<rparr>)"

lemma EraseOrphanTx_smaller:
  "smap_count h (mapOrphanTransactions op) \<Longrightarrow> EraseOrphanTx h op = Some op' \<Longrightarrow>
     length (mapOrphanTransactions op') < length (mapOrphanTransactions op)"
  by (auto simp: EraseOrphanTx_def length_smap_erase smap_count_def split: option.splits sum.splits)

function LimitOrphanTxSize :: "nat \<Rightarrow> u32 \<Rightarrow> orphan_pool \<Rightarrow> (u32 \<times> orphan_pool) option" where
  "LimitOrphanTxSize nMaxOrphans nEvicted op =
     (if nMaxOrphans < length (mapOrphanTransactions op)
      then let (randomhash, op) = draw_random op
           in case EraseOrphanTx (orphan_victim randomhash (mapOrphanTransactions op)) op of
                None \<Rightarrow> None
              | Some op \<Rightarrow> LimitOrphanTxSize nMaxOrphans (nEvicted + 1) op
      else Some (nEvicted, op))"
  by pat_completeness auto

termination LimitOrphanTxSize
proof (relation "measure (\<lambda>(n, e, op). length (mapOrphanTransactions op))", goal_cases)
  case (2 nMaxOrphans nEvicted op p randomhash op1 op2)
  have l: "mapOrphanTransactions op1 = mapOrphanTransactions op"
    using 2(2,3) by (auto simp: draw_random_def)
  then have "mapOrphanTransactions op1 \<noteq> []" using 2(1) by auto
  then show ?case using EraseOrphanTx_smaller [OF orphan_victim_in 2(4)] by (simp add: l)
qed simp

declare LimitOrphanTxSize.simps [simp del]

section \<open>The invariant of the pool\<close>

text \<open>
  Entries sit under their hash, and \<open>mapNextTx\<close> is exactly the inverse of the inputs of the
  entries.
\<close>

definition pool_spends :: "(u256, CTransaction) smap \<Rightarrow> COutPoint \<Rightarrow> CInPoint \<Rightarrow> bool" where
  "pool_spends m po c \<longleftrightarrow> (\<exists>tx. map_of m (ip_ptx c) = Some tx \<and> ip_n c < length (vin tx)
     \<and> prevout (vin tx ! ip_n c) = po)"

definition pool_ok :: "extlib \<Rightarrow> CTxMemPool \<Rightarrow> bool" where
  "pool_ok L p \<longleftrightarrow> smap_ok (mapTx p) \<and> smap_ok (mapNextTx p)
     \<and> (\<forall>h tx. map_of (mapTx p) h = Some tx \<longrightarrow> tx_GetHash L tx = h)
     \<and> (\<forall>po c. map_of (mapNextTx p) po = Some c \<longleftrightarrow> pool_spends (mapTx p) po c)"

lemma pool_okD:
  assumes "pool_ok L p"
  shows "smap_ok (mapTx p)" "smap_ok (mapNextTx p)"
    "map_of (mapTx p) h = Some tx \<Longrightarrow> tx_GetHash L tx = h"
    "map_of (mapNextTx p) po = Some c \<longleftrightarrow> pool_spends (mapTx p) po c"
  using assms by (auto simp: pool_ok_def)

lemma smap_ok_add_inputs [simp]: "smap_ok m \<Longrightarrow> smap_ok (add_inputs hash i ins m)"
  by (induction hash i ins m rule: add_inputs.induct) simp_all

lemma add_inputs_lookup:
  assumes "smap_ok m" and "distinct (map prevout ins)"
  shows "map_of (add_inputs hash k ins m) po = Some c \<longleftrightarrow>
    (\<exists>i < length ins. prevout (ins ! i) = po \<and> c = CInPoint hash (k + i))
    \<or> po \<notin> prevout ` set ins \<and> map_of m po = Some c"
  using assms
proof (induction hash k ins m rule: add_inputs.induct)
  case (2 hash k txin ins m)
  have split: "(\<exists>i < length (txin # ins). prevout ((txin # ins) ! i) = po \<and> c = CInPoint hash (k + i)) \<longleftrightarrow>
      prevout txin = po \<and> c = CInPoint hash k
      \<or> (\<exists>i < length ins. prevout (ins ! i) = po \<and> c = CInPoint hash (k + 1 + i))" (is "?l \<longleftrightarrow> ?r")
  proof
    assume ?l
    then obtain i where "i < length (txin # ins)" "prevout ((txin # ins) ! i) = po" "c = CInPoint hash (k + i)"
      by blast
    then show ?r by (cases i) auto
  next
    assume ?r
    then show ?l by (auto intro: exI [of _ 0] exI [of _ "Suc i" for i])
  qed
  have "po \<in> prevout ` set ins \<Longrightarrow> prevout txin \<noteq> po" using "2.prems"(2) by auto
  moreover have "map_of (add_inputs hash (k + 1) ins (smap_put (prevout txin) (CInPoint hash k) m)) po = Some c \<longleftrightarrow>
      (\<exists>i < length ins. prevout (ins ! i) = po \<and> c = CInPoint hash (k + 1 + i))
      \<or> po \<notin> prevout ` set ins \<and> map_of (smap_put (prevout txin) (CInPoint hash k) m) po = Some c"
    using 2 by simp
  moreover have "(\<exists>i < length ins. prevout (ins ! i) = po \<and> c = CInPoint hash (k + 1 + i)) \<Longrightarrow> po \<in> prevout ` set ins"
    by force
  ultimately show ?case
    unfolding split add_inputs.simps using "2.prems"(1) by (auto simp: smap_simps)
qed simp

lemma map_of_fold_erase: "map_of (fold (\<lambda>txin. smap_erase (prevout txin)) ins m) po
    = (if po \<in> prevout ` set ins then None else map_of m po)"
  by (induction ins arbitrary: m) (auto simp: smap_simps)

lemma smap_ok_fold_erase: "smap_ok m \<Longrightarrow> smap_ok (fold (\<lambda>txin. smap_erase (prevout txin)) ins m)"
  by (induction ins arbitrary: m) simp_all

lemma pool_add_ok:
  assumes "pool_ok L p" and "map_of (mapTx p) (tx_GetHash L tx) = None"
    and "distinct (map prevout (vin tx))" and "\<forall>i \<in> set (vin tx). map_of (mapNextTx p) (prevout i) = None"
  shows "pool_ok L (pool_addUnchecked (tx_GetHash L tx) tx p)"
proof -
  let ?h = "tx_GetHash L tx"
  note ok = pool_okD [OF assms(1)]
  have "map_of (add_inputs ?h 0 (vin tx) (mapNextTx p)) po = Some c \<longleftrightarrow>
      pool_spends (smap_put ?h tx (mapTx p)) po c" for po c
  proof (cases "ip_ptx c = ?h")
    case True
    have "map_of (mapNextTx p) po \<noteq> Some c"
      unfolding ok(4) pool_spends_def True using assms(2) by simp
    then show ?thesis
      using True ok(1) by (cases c) (auto simp: add_inputs_lookup [OF ok(2) assms(3)] pool_spends_def smap_simps)
  next
    case False
    then have "pool_spends (smap_put ?h tx (mapTx p)) po c \<longleftrightarrow> map_of (mapNextTx p) po = Some c"
      unfolding ok(4) using ok(1) by (auto simp: pool_spends_def smap_simps)
    then show ?thesis
      using False assms(4) by (cases c) (auto simp: add_inputs_lookup [OF ok(2) assms(3)])
  qed
  then show ?thesis
    using ok(1-3) by (auto simp: pool_ok_def pool_addUnchecked_def smap_simps)
qed

lemma pool_remove_ok:
  assumes "pool_ok L p" and "map_of (mapTx p) (tx_GetHash L tx) = Some tx"
  shows "pool_ok L (pool_remove L tx p)"
proof -
  let ?h = "tx_GetHash L tx"
  note ok = pool_okD [OF assms(1)]
  have "map_of (fold (\<lambda>txin. smap_erase (prevout txin)) (vin tx) (mapNextTx p)) po = Some c \<longleftrightarrow>
      pool_spends (smap_erase ?h (mapTx p)) po c" for po c
  proof -
    have "po \<in> prevout ` set (vin tx) \<longleftrightarrow> (\<exists>n < length (vin tx). prevout (vin tx ! n) = po)"
      by (metis (no_types, lifting) image_iff in_set_conv_nth)
    then have "po \<in> prevout ` set (vin tx) \<longleftrightarrow> (\<exists>n. pool_spends (mapTx p) po (CInPoint ?h n))"
      using assms(2) by (simp add: pool_spends_def)
    then have "po \<in> prevout ` set (vin tx) \<longleftrightarrow> (\<exists>n. map_of (mapNextTx p) po = Some (CInPoint ?h n))"
      by (simp only: ok(4))
    moreover have "pool_spends (smap_erase ?h (mapTx p)) po c \<longleftrightarrow> ip_ptx c \<noteq> ?h \<and> map_of (mapNextTx p) po = Some c"
      unfolding ok(4) by (auto simp: pool_spends_def smap_simps)
    ultimately show ?thesis by (cases c) (auto simp: map_of_fold_erase)
  qed
  moreover have "tx_GetHash L t = h" if "map_of (smap_erase ?h (mapTx p)) h = Some t" for h t
  proof (rule ok(3))
    show "map_of (mapTx p) h = Some t" using that by (simp add: smap_simps split: if_splits)
  qed
  moreover have "mapTx (pool_remove L tx p) = smap_erase ?h (mapTx p)"
    "mapNextTx (pool_remove L tx p) = fold (\<lambda>txin. smap_erase (prevout txin)) (vin tx) (mapNextTx p)"
    using assms(2) by (simp_all add: pool_remove_def Let_def smap_count_def)
  ultimately show ?thesis
    unfolding pool_ok_def using smap_ok_erase [OF ok(1)] smap_ok_fold_erase [OF ok(2)] by metis
qed

section \<open>The invariant of the orphans\<close>

definition prev_hashes :: "CTransaction \<Rightarrow> u256 set" where
  "prev_hashes tx = (\<lambda>i. out_hash (prevout i)) ` set (vin tx)"

definition by_prev_ok :: "(u256, (u256, bytes) smap) smap \<Rightarrow> bool" where
  "by_prev_ok m \<longleftrightarrow> smap_ok m \<and> (\<forall>q inner. map_of m q = Some inner \<longrightarrow> smap_ok inner \<and> inner \<noteq> [])"

definition spends_hash :: "bytes \<Rightarrow> u256 \<Rightarrow> bool" where
  "spends_hash msg q \<longleftrightarrow> (\<exists>tx r. unser_CTransaction msg = Inr (tx, r) \<and> q \<in> prev_hashes tx)"

definition orphan_ok :: "extlib \<Rightarrow> u256 \<Rightarrow> bytes \<Rightarrow> bool" where
  "orphan_ok L h msg \<longleftrightarrow> length msg \<le> 5000
     \<and> (\<exists>tx r. unser_CTransaction msg = Inr (tx, r) \<and> tx_GetHash L tx = h)"

definition orphans_ok :: "extlib \<Rightarrow> orphan_pool \<Rightarrow> bool" where
  "orphans_ok L op \<longleftrightarrow> smap_ok (mapOrphanTransactions op) \<and> by_prev_ok (mapOrphanTransactionsByPrev op)
     \<and> (\<forall>h msg. map_of (mapOrphanTransactions op) h = Some msg \<longrightarrow> orphan_ok L h msg)
     \<and> (\<forall>q h msg. map_of (by_prev q (mapOrphanTransactionsByPrev op)) h = Some msg \<longleftrightarrow>
          map_of (mapOrphanTransactions op) h = Some msg \<and> spends_hash msg q)"

lemma by_prev_smap_ok: "by_prev_ok m \<Longrightarrow> smap_ok (by_prev q m)"
  by (auto simp: by_prev_ok_def by_prev_def split: option.split)

lemma smap_put_nonempty: "smap_put k v m \<noteq> []"
  using fst_smap_put [of k v m] by force

lemma smap_insert_facts:
  "smap_ok m \<Longrightarrow> smap_ok (smap_insert k v m)" "smap_insert k v m \<noteq> []"
  "smap_ok m \<Longrightarrow> map_of (smap_insert k v m) k' = (if k' = k \<and> map_of m k = None then Some v else map_of m k')"
  by (auto simp: smap_insert_def smap_put_nonempty smap_simps smap_count_def split: if_splits)

lemma link_prev_ok: "by_prev_ok m \<Longrightarrow> by_prev_ok (link_prev h msg i m)"
  using by_prev_smap_ok [of m "out_hash (prevout i)"]
  by (auto simp: by_prev_ok_def link_prev_def Let_def smap_simps smap_insert_facts split: if_splits)

lemma link_prev_lookup:
  "by_prev_ok m \<Longrightarrow> map_of (by_prev q (link_prev h msg i m)) h' =
     (if h' = h \<and> q = out_hash (prevout i) \<and> map_of (by_prev q m) h = None then Some msg
      else map_of (by_prev q m) h')"
  using by_prev_smap_ok [of m "out_hash (prevout i)"]
  by (auto simp: link_prev_def Let_def by_prev_def by_prev_ok_def smap_simps smap_insert_facts
      split: option.splits)

lemma unlink_prev_ok: "by_prev_ok m \<Longrightarrow> by_prev_ok (unlink_prev h i m)"
  using by_prev_smap_ok [of m "out_hash (prevout i)"]
  by (auto simp: by_prev_ok_def unlink_prev_def Let_def smap_simps split: if_splits)

lemma unlink_prev_lookup:
  assumes "by_prev_ok m"
  shows "map_of (by_prev q (unlink_prev h i m)) h' =
     (if h' = h \<and> q = out_hash (prevout i) then None else map_of (by_prev q m) h')"
proof -
  let ?p = "out_hash (prevout i)"
  let ?in = "smap_erase h (by_prev ?p m)"
  have m: "smap_ok m" using assms by (simp add: by_prev_ok_def)
  have e: "map_of ?in h' = (if h' = h then None else map_of (by_prev ?p m) h')"
    by (simp add: smap_simps)
  have e0: "?in = [] \<Longrightarrow> h' \<noteq> h \<Longrightarrow> map_of (by_prev ?p m) h' = None"
    using e by (metis map_of.simps(1))
  show ?thesis
  proof (cases "q = ?p")
    case True
    have "map_of (by_prev q (unlink_prev h i m)) h' = map_of ?in h'"
      using m True e0 by (auto simp: unlink_prev_def Let_def by_prev_def [of _ "smap_erase _ _"]
          by_prev_def [of _ "smap_put _ _ _"] smap_simps)
    then show ?thesis using e True by simp
  next
    case False
    then have "by_prev q (unlink_prev h i m) = by_prev q m"
      using m by (simp add: unlink_prev_def Let_def by_prev_def [of q] smap_simps)
    then show ?thesis using False by simp
  qed
qed

lemma fold_link:
  "by_prev_ok m \<Longrightarrow> by_prev_ok (fold (link_prev h msg) ins m) \<and>
     map_of (by_prev q (fold (link_prev h msg) ins m)) h' =
     (if h' = h \<and> q \<in> (\<lambda>i. out_hash (prevout i)) ` set ins \<and> map_of (by_prev q m) h = None then Some msg
      else map_of (by_prev q m) h')"
proof (induction ins arbitrary: m)
  case (Cons i ins)
  then show ?case
    using Cons.IH [OF link_prev_ok [OF Cons.prems]] by (auto simp: link_prev_lookup [OF Cons.prems])
qed simp

lemma fold_unlink:
  "by_prev_ok m \<Longrightarrow> by_prev_ok (fold (unlink_prev h) ins m) \<and>
     map_of (by_prev q (fold (unlink_prev h) ins m)) h' =
     (if h' = h \<and> q \<in> (\<lambda>i. out_hash (prevout i)) ` set ins then None else map_of (by_prev q m) h')"
proof (induction ins arbitrary: m)
  case (Cons i ins)
  then show ?case
    using Cons.IH [OF unlink_prev_ok [OF Cons.prems]] by (auto simp: unlink_prev_lookup [OF Cons.prems])
qed simp

lemma AddOrphanTx_ok:
  assumes ok: "orphans_ok L op" and add: "AddOrphanTx L msg op = Some (b, op')"
  shows "orphans_ok L op'"
proof (cases b)
  case False
  then have "op' = op" using add by (auto simp: AddOrphanTx_def Let_def split: sum.splits if_splits)
  then show ?thesis using ok by simp
next
  case True
  obtain tx r where tx: "unser_CTransaction msg = Inr (tx, r)"
    using add by (auto simp: AddOrphanTx_def split: sum.splits)
  let ?h = "tx_GetHash L tx"
  have new: "map_of (mapOrphanTransactions op) ?h = None" and len: "length msg \<le> 5000"
    and op': "op' = op\<lparr>mapOrphanTransactions := smap_put ?h msg (mapOrphanTransactions op),
      mapOrphanTransactionsByPrev := fold (link_prev ?h msg) (vin tx) (mapOrphanTransactionsByPrev op)\<rparr>"
    using add True tx by (auto simp: AddOrphanTx_def Let_def smap_count_def split: if_splits)
  have o: "smap_ok (mapOrphanTransactions op)" "by_prev_ok (mapOrphanTransactionsByPrev op)"
    and byp: "map_of (by_prev q (mapOrphanTransactionsByPrev op)) h = Some m \<longleftrightarrow>
      map_of (mapOrphanTransactions op) h = Some m \<and> spends_hash m q" for q h m
    using ok by (auto simp: orphans_ok_def)
  have none: "map_of (by_prev q (mapOrphanTransactionsByPrev op)) ?h = None" for q
    using new byp [of q ?h] by (cases "map_of (by_prev q (mapOrphanTransactionsByPrev op)) ?h") auto
  have "spends_hash msg q \<longleftrightarrow> q \<in> (\<lambda>i. out_hash (prevout i)) ` set (vin tx)" for q
    by (simp add: spends_hash_def tx prev_hashes_def)
  then have "map_of (by_prev q (mapOrphanTransactionsByPrev op')) h = Some m \<longleftrightarrow>
      map_of (mapOrphanTransactions op') h = Some m \<and> spends_hash m q" for q h m
    using fold_link [OF o(2), of ?h msg "vin tx" q h] o(1) none new
    by (auto simp: op' byp smap_simps)
  then show ?thesis
    using ok fold_link [OF o(2), of ?h msg "vin tx"] o(1) len tx
    by (auto simp: orphans_ok_def op' smap_simps orphan_ok_def)
qed

lemma EraseOrphanTx_ok:
  assumes ok: "orphans_ok L op" and h: "map_of (mapOrphanTransactions op) h = Some msg"
  shows "\<exists>op'. EraseOrphanTx h op = Some op' \<and> orphans_ok L op'
    \<and> mapOrphanTransactions op' = smap_erase h (mapOrphanTransactions op)"
proof -
  have o: "smap_ok (mapOrphanTransactions op)" "by_prev_ok (mapOrphanTransactionsByPrev op)"
    and byp: "map_of (by_prev q (mapOrphanTransactionsByPrev op)) k = Some m \<longleftrightarrow>
      map_of (mapOrphanTransactions op) k = Some m \<and> spends_hash m q" for q k m
    using ok by (auto simp: orphans_ok_def)
  obtain tx r where tx: "unser_CTransaction msg = Inr (tx, r)"
    using ok h unfolding orphans_ok_def orphan_ok_def by blast
  define op' where "op' = op\<lparr>mapOrphanTransactionsByPrev := fold (unlink_prev h) (vin tx) (mapOrphanTransactionsByPrev op),
      mapOrphanTransactions := smap_erase h (mapOrphanTransactions op)\<rparr>"
  have e: "EraseOrphanTx h op = Some op'" by (simp add: EraseOrphanTx_def h tx op'_def)
  have "spends_hash msg q \<longleftrightarrow> q \<in> (\<lambda>i. out_hash (prevout i)) ` set (vin tx)" for q
    by (simp add: spends_hash_def tx prev_hashes_def)
  then have "map_of (by_prev q (mapOrphanTransactionsByPrev op')) k = Some m \<longleftrightarrow>
      map_of (mapOrphanTransactions op') k = Some m \<and> spends_hash m q" for q k m
    using fold_unlink [OF o(2), of h "vin tx" q k] h by (auto simp: op'_def byp smap_simps)
  then have "orphans_ok L op'"
    using ok fold_unlink [OF o(2), of h "vin tx"] o(1) by (auto simp: orphans_ok_def op'_def smap_simps)
  then show ?thesis using e by (auto simp: op'_def)
qed

lemma draw_random_same:
  "draw_random op = (r, op') \<Longrightarrow> mapOrphanTransactions op' = mapOrphanTransactions op
     \<and> (orphans_ok L op' \<longleftrightarrow> orphans_ok L op)"
  by (auto simp: draw_random_def orphans_ok_def)

lemma LimitOrphanTxSize_result:
  assumes "orphans_ok L op"
  shows "\<exists>op'. LimitOrphanTxSize n e op =
        Some (e + of_nat (length (mapOrphanTransactions op) - n), op')
    \<and> orphans_ok L op' \<and> length (mapOrphanTransactions op') = min n (length (mapOrphanTransactions op))
    \<and> set (mapOrphanTransactions op') \<subseteq> set (mapOrphanTransactions op)"
  using assms
proof (induction "length (mapOrphanTransactions op)" arbitrary: op e rule: less_induct)
  case less
  show ?case
  proof (cases "n < length (mapOrphanTransactions op)")
    case False
    then show ?thesis using less.prems by (simp add: LimitOrphanTxSize.simps [of n e op])
  next
    case True
    obtain r op1 where d: "draw_random op = (r, op1)" by fastforce
    have m1: "mapOrphanTransactions op1 = mapOrphanTransactions op" and ok1: "orphans_ok L op1"
      using draw_random_same [OF d] less.prems by auto
    let ?v = "orphan_victim r (mapOrphanTransactions op1)"
    have c: "smap_count ?v (mapOrphanTransactions op)"
      using orphan_victim_in [of "mapOrphanTransactions op" r] True unfolding m1 by fastforce
    then obtain msg where "map_of (mapOrphanTransactions op1) ?v = Some msg"
      by (auto simp: smap_count_def m1)
    then obtain op2 where e: "EraseOrphanTx ?v op1 = Some op2" "orphans_ok L op2"
        "mapOrphanTransactions op2 = smap_erase ?v (mapOrphanTransactions op)"
      using EraseOrphanTx_ok [OF ok1] m1 by auto
    have l: "length (mapOrphanTransactions op2) = length (mapOrphanTransactions op) - 1"
      using length_smap_erase_eq [OF _ c] less.prems e(3) by (simp add: orphans_ok_def)
    have s: "LimitOrphanTxSize n e op = LimitOrphanTxSize n (e + 1) op2"
      using True d e(1) by (simp add: LimitOrphanTxSize.simps [of n e op] m1)
    have small: "length (mapOrphanTransactions op2) < length (mapOrphanTransactions op)" using l True by simp
    obtain op' where op': "LimitOrphanTxSize n (e + 1) op2 =
          Some (e + 1 + of_nat (length (mapOrphanTransactions op2) - n), op')"
        "orphans_ok L op'" "length (mapOrphanTransactions op') = min n (length (mapOrphanTransactions op2))"
        "set (mapOrphanTransactions op') \<subseteq> set (mapOrphanTransactions op2)"
      using less.hyps [OF small e(2), of "e + 1"] by blast
    have "length (mapOrphanTransactions op) - n = Suc (length (mapOrphanTransactions op2) - n)"
      using l True by linarith
    then have "e + of_nat (length (mapOrphanTransactions op) - n)
        = e + 1 + of_nat (length (mapOrphanTransactions op2) - n)" by (simp add: add.assoc)
    moreover have "min n (length (mapOrphanTransactions op2)) = min n (length (mapOrphanTransactions op))"
      using l True by linarith
    moreover have "set (mapOrphanTransactions op2) \<subseteq> set (mapOrphanTransactions op)"
      by (auto simp: e(3) set_smap_erase)
    ultimately show ?thesis using op' s by auto
  qed
qed

section \<open>Properties\<close>

text \<open>C10: 
  The memory pool never holds two transactions that spend the same output, and \<open>mapNextTx\<close> is
  always the exact inverse of the inputs of its transactions: adding a transaction that is
  new, spends nothing twice and nothing the pool spends keeps this; removing an entry keeps it
  and frees the outputs the entry spent; clearing keeps it.
\<close>
theorem mempool_no_double_spend:
  assumes "pool_ok L p"
  shows "(\<forall>h1 h2 t1 t2 i1 i2. map_of (mapTx p) h1 = Some t1 \<longrightarrow> map_of (mapTx p) h2 = Some t2 \<longrightarrow>
        i1 < length (vin t1) \<longrightarrow> i2 < length (vin t2) \<longrightarrow>
        prevout (vin t1 ! i1) = prevout (vin t2 ! i2) \<longrightarrow> h1 = h2 \<and> i1 = i2)
    \<and> (map_of (mapTx p) (tx_GetHash L tx) = None \<longrightarrow> distinct (map prevout (vin tx)) \<longrightarrow>
        (\<forall>i \<in> set (vin tx). map_of (mapNextTx p) (prevout i) = None) \<longrightarrow>
        pool_ok L (pool_addUnchecked (tx_GetHash L tx) tx p))
    \<and> (map_of (mapTx p) (tx_GetHash L tx) = Some tx \<longrightarrow> pool_ok L (pool_remove L tx p)
        \<and> (\<forall>i \<in> set (vin tx). map_of (mapNextTx (pool_remove L tx p)) (prevout i) = None))
    \<and> pool_ok L (pool_clear p)"
proof (intro conjI impI allI)
  fix h1 h2 t1 t2 i1 i2
  assume "map_of (mapTx p) h1 = Some t1" "map_of (mapTx p) h2 = Some t2" "i1 < length (vin t1)"
    "i2 < length (vin t2)" and e: "prevout (vin t1 ! i1) = prevout (vin t2 ! i2)"
  then have "pool_spends (mapTx p) (prevout (vin t1 ! i1)) (CInPoint h1 i1)"
    "pool_spends (mapTx p) (prevout (vin t1 ! i1)) (CInPoint h2 i2)"
    by (auto simp: pool_spends_def e)
  then have "map_of (mapNextTx p) (prevout (vin t1 ! i1)) = Some (CInPoint h1 i1)"
    "map_of (mapNextTx p) (prevout (vin t1 ! i1)) = Some (CInPoint h2 i2)"
    unfolding pool_okD(4) [OF assms, symmetric] .
  then show "h1 = h2" "i1 = i2" by simp_all
next
  show "pool_ok L (pool_clear p)" by (simp add: pool_clear_def pool_ok_def pool_spends_def)
  show "\<forall>i \<in> set (vin tx). map_of (mapNextTx (pool_remove L tx p)) (prevout i) = None"
    if "map_of (mapTx p) (tx_GetHash L tx) = Some tx"
    using that by (auto simp: pool_remove_def Let_def smap_count_def map_of_fold_erase)
qed (use assms in \<open>auto intro: pool_add_ok pool_remove_ok\<close>)

text \<open>C39: 
  The orphan transactions stay bounded and consistent. Limiting them always returns: it evicts
  exactly the surplus, keeps only what was there, and leaves at most the wanted number of
  messages of at most 5000 bytes; the index by previous transaction lists exactly the orphans
  that spend it, before and after every operation.
\<close>
theorem orphans_limited:
  assumes "orphans_ok L op"
  shows "(\<exists>op'. LimitOrphanTxSize n 0 op = Some (of_nat (length (mapOrphanTransactions op) - n), op')
        \<and> orphans_ok L op' \<and> length (mapOrphanTransactions op') = min n (length (mapOrphanTransactions op))
        \<and> set (mapOrphanTransactions op') \<subseteq> set (mapOrphanTransactions op)
        \<and> sum_list (map (length \<circ> snd) (mapOrphanTransactions op')) \<le> 5000 * n)
    \<and> (\<forall>msg b op'. AddOrphanTx L msg op = Some (b, op') \<longrightarrow> orphans_ok L op')
    \<and> (\<forall>h. \<exists>op'. EraseOrphanTx h op = Some op' \<and> orphans_ok L op')"
proof (intro conjI allI impI)
  obtain op' where op': "LimitOrphanTxSize n 0 op = Some (of_nat (length (mapOrphanTransactions op) - n), op')"
      "orphans_ok L op'" "length (mapOrphanTransactions op') = min n (length (mapOrphanTransactions op))"
      "set (mapOrphanTransactions op') \<subseteq> set (mapOrphanTransactions op)"
    using LimitOrphanTxSize_result [OF assms, of n 0] by auto
  have "length (snd q) \<le> 5000" if "q \<in> set (mapOrphanTransactions op')" for q
  proof -
    have "map_of (mapOrphanTransactions op') (fst q) = Some (snd q)"
      using op'(2) that smap_set_iff [of "mapOrphanTransactions op'" "fst q" "snd q"] by (simp add: orphans_ok_def)
    then show ?thesis using op'(2) unfolding orphans_ok_def orphan_ok_def by blast
  qed
  then have "sum_list (map (length \<circ> snd) (mapOrphanTransactions op'))
      \<le> sum_list (map (\<lambda>_. 5000) (mapOrphanTransactions op'))"
    by (intro sum_list_mono) simp
  also have "\<dots> \<le> 5000 * n" using op'(3) by (simp add: sum_list_triv)
  finally show "\<exists>op'. LimitOrphanTxSize n 0 op = Some (of_nat (length (mapOrphanTransactions op) - n), op')
      \<and> orphans_ok L op' \<and> length (mapOrphanTransactions op') = min n (length (mapOrphanTransactions op))
      \<and> set (mapOrphanTransactions op') \<subseteq> set (mapOrphanTransactions op)
      \<and> sum_list (map (length \<circ> snd) (mapOrphanTransactions op')) \<le> 5000 * n"
    using op' by blast
next
  fix h
  show "\<exists>op'. EraseOrphanTx h op = Some op' \<and> orphans_ok L op'"
  proof (cases "map_of (mapOrphanTransactions op) h")
    case None
    then show ?thesis using assms by (simp add: EraseOrphanTx_def)
  qed (use EraseOrphanTx_ok [OF assms] in blast)
qed (rule AddOrphanTx_ok [OF assms])

section \<open>Witnesses\<close>

definition pool_empty :: CTxMemPool where
  "pool_empty = \<lparr>mapTx = [], mapNextTx = [], nTransactionsUpdated = 0\<rparr>"

definition orphans_empty :: orphan_pool where
  "orphans_empty = \<lparr>mapOrphanTransactions = [], mapOrphanTransactionsByPrev = [],
     or_random = (\<lambda>_. 0), or_drawn = 0\<rparr>"

definition spend_tx :: CTransaction where
  "spend_tx = \<lparr>tx_nVersion = 1, tx_nTime = 5, vin = [txin_new (COutPoint 7 1) [1, 2]],
     vout = [\<lparr>nValue = 1000, scriptPubKey = [0xac]\<rparr>], nLockTime = 0\<rparr>"

lemma pool_ok_empty: "pool_ok L pool_empty"
  by (simp add: pool_ok_def pool_empty_def pool_spends_def)

theorem mempool_no_double_spend_witness:
  "pool_ok ref_lib (pool_addUnchecked (tx_GetHash ref_lib spend_tx) spend_tx pool_empty)
   \<and> pool_ok ref_lib (pool_clear pool_empty)"
  using mempool_no_double_spend [OF pool_ok_empty, of ref_lib spend_tx]
  by (simp add: pool_empty_def spend_tx_def txin_new_def)

lemma spend_tx_ok: "tx_ok (spend_tx\<lparr>tx_nTime := t\<rparr>)"
  by (simp add: spend_tx_def tx_ok_def txin_ok_def txout_ok_def bytes_ok_def i32_ok_def i64_ok_def txin_new_def)

lemma spend_tx_message:
  "unser_CTransaction (ser_CTransaction (spend_tx\<lparr>tx_nTime := t\<rparr>)) = Inr (spend_tx\<lparr>tx_nTime := t\<rparr>, [])"
  "length (ser_CTransaction (spend_tx\<lparr>tx_nTime := t\<rparr>)) \<le> 5000"
proof -
  show "unser_CTransaction (ser_CTransaction (spend_tx\<lparr>tx_nTime := t\<rparr>)) = Inr (spend_tx\<lparr>tx_nTime := t\<rparr>, [])"
    using transaction.unser_ser [OF spend_tx_ok, of t "[]"] by simp
  show "length (ser_CTransaction (spend_tx\<lparr>tx_nTime := t\<rparr>)) \<le> 5000"
    unfolding transaction.length_ser [OF spend_tx_ok]
    by (simp add: spend_tx_def tx_size_def vector_size_def txin_size_def txout_size_def bytes_size_def
        GetSizeOfCompactSize_def txin_new_def)
qed

lemma spend_tx_hashes: "tx_GetHash ref_lib (spend_tx\<lparr>tx_nTime := 5\<rparr>) \<noteq> tx_GetHash ref_lib (spend_tx\<lparr>tx_nTime := 6\<rparr>)"
proof -
  have v: "length (ser_i32 (tx_nVersion spend_tx)) = 4" using i32.length_ser [of "tx_nVersion spend_tx"]
    by (simp add: spend_tx_def i32_ok_def)
  have sha: "SHA256 ref_lib = pad_digest 32" by (simp add: ref_lib_def)
  have "u256_bytes (tx_GetHash ref_lib (spend_tx\<lparr>tx_nTime := t\<rparr>)) ! 4 = ser_u32 t ! 0" for t
    using v u32.length_ser [of t]
    by (simp add: tx_GetHash_def SerializeHash_Hash Hash_bytes [OF hash_ok_ref] sha pad_digest_def
        ser_CTransaction_def nth_append)
  moreover have "ser_u32 5 ! 0 \<noteq> ser_u32 6 ! 0" by code_simp
  ultimately show ?thesis by metis
qed

theorem orphans_limited_witness:
  "\<exists>op1 op2 op3. AddOrphanTx ref_lib (ser_CTransaction (spend_tx\<lparr>tx_nTime := 5\<rparr>)) orphans_empty = Some (True, op1)
    \<and> AddOrphanTx ref_lib (ser_CTransaction (spend_tx\<lparr>tx_nTime := 6\<rparr>)) op1 = Some (True, op2)
    \<and> length (mapOrphanTransactions op2) = 2 \<and> LimitOrphanTxSize 1 0 op2 = Some (1, op3)
    \<and> length (mapOrphanTransactions op3) = 1 \<and> orphans_ok ref_lib op3"
proof -
  let ?h1 = "tx_GetHash ref_lib (spend_tx\<lparr>tx_nTime := 5\<rparr>)" and ?h2 = "tx_GetHash ref_lib (spend_tx\<lparr>tx_nTime := 6\<rparr>)"
  have ok0: "orphans_ok ref_lib orphans_empty"
    by (auto simp: orphans_empty_def orphans_ok_def by_prev_ok_def by_prev_def)
  obtain op1 where 1: "AddOrphanTx ref_lib (ser_CTransaction (spend_tx\<lparr>tx_nTime := 5\<rparr>)) orphans_empty = Some (True, op1)"
      "mapOrphanTransactions op1 = [(?h1, ser_CTransaction (spend_tx\<lparr>tx_nTime := 5\<rparr>))]"
    using spend_tx_message [of 5] by (simp add: AddOrphanTx_def Let_def orphans_empty_def smap_count_def)
  have ok1: "orphans_ok ref_lib op1" using orphans_limited [OF ok0] 1(1) by blast
  obtain op2 where 2: "AddOrphanTx ref_lib (ser_CTransaction (spend_tx\<lparr>tx_nTime := 6\<rparr>)) op1 = Some (True, op2)"
      "length (mapOrphanTransactions op2) = 2"
    using spend_tx_message [of 6] spend_tx_hashes by (auto simp: AddOrphanTx_def Let_def smap_count_def 1(2))
  have "orphans_ok ref_lib op2" using orphans_limited [OF ok1] 2(1) by blast
  from orphans_limited [OF this, of 1] show ?thesis using 1(1) 2 by auto
qed

end
