(* ===== verification/Checkpoints.thy ===== *)
theory Checkpoints
  imports Block_Index Targets
begin

text \<open>
  Checkpoints (\<open>checkpoints.h\<close>, \<open>checkpoints.cpp\<close>): the hardened ones compiled in, and the rules
  of the synchronized checkpoint the network broadcasts. The operations that also switch the
  best chain are with the chain.
\<close>

section \<open>Hardened checkpoints\<close>

text \<open>\<open>MapCheckpoints\<close> maps a height to the hash of the block and its time.\<close>

type_synonym MapCheckpoints = "(int \<times> u256 \<times> u32) list"

definition hashGenesisBlockOfficial :: u256 where
  "hashGenesisBlockOfficial = 0x000002655a721555160ea9bcb1072faf63ff0c8dffed173d60b1d3556a134dc1"

definition hashGenesisBlockTestNet :: u256 where
  "hashGenesisBlockTestNet = 0x61d0019e85d49d536ede59e12c4390f11ef5380be5abb3e8698fcaf0519d3c52"

definition mapCheckpoints :: MapCheckpoints where
  "mapCheckpoints =
     [(0, hashGenesisBlockOfficial, 1360105017),
      (95002, 0x000000002005b8fcc4e971b14ef655535fde9285c913c52f3c7064d889cd6226, 1372351925),
      (128580, 0x0000000005bbf12779485036c7aa23d0c017182dabdbb58e86b66384e929fd2c, 1380061639),
      (150002, 0x00000000023d5687abb2208b1df44974a50c519f3a6f11c29b891dbe8cc84ebf, 1381364118),
      (183993, 0x000000001da3185b0b68ac3499084fd96e95487f62700f5ffd040bd8b4d58398, 1383425111),
      (190000, 0x000000000e226034b27a0fef11039fee830ff8027e0f17b926bb83c01bf3b688, 1383788516),
      (230000, 0x00000000469a52e1ecddf74ebd18d034ae42122729687ecbf5e233562fdfd39f, 1386214418),
      (260000, 0x0000000070030143c51d204917e5aaac6cf37d4b1803d72c08dafd12edc8ea72, 1388032785),
      (290000, 0x00000000af91b16f01a659894a24c879ee62133e34f9efabdc9fa08d281a4b11, 1389847220),
      (320000, 0x00000001d4ee504e892fd7597c0342079f8ec14a6bd7f0e38d77be78baa4442f, 1391663029),
      (350000, 0x000000026ff936a9f4d77ef8b3f43fb7c2202219c4246ac56c413ec37672f0e4, 1393476493),
      (380000, 0x0000000125a6f752588db314e8577e5c0126dc416929073ea50a21479d6deb69, 1395288765),
      (402000, 0x00000002c544f0f8c83671bb5dd48b6ced70dc3db5f6588643b910c079689ce0, 1396618025),
      (430000, 0x00000006ba35bae2e2af99bf37243488afc8d6efd0d7cf77bd96bf94e07b80e1, 1398316272),
      (460000, 0x109a874f7d794025858987cc72bac7f2baeff792a01d31afa9984a125da22fbd, 1400147033),
      (510000, 0x00000000114e79134fa556d603c1e5230e122bd0a78f6192888362bd5091bd18, 1403183947),
      (530000, 0x00000000a0540d980018d3b1992bbd10906bb9872b0fc953542d6fb4cddc7ff8, 1404385612),
      (560000, 0x00000004d61b326efed561b7fbf5b4d61b64fe6945f9f126f8b3153190fe1cdd, 1406221401),
      (590000, 0x000000004d64aa9e1c77b55c4db47dcdec8f878269f87737ef7decbb69f9f9e8, 1408027941),
      (610000, 0x0000000677b1841abad721ec3167b3c7b0463d53a22d78fbcd85c2eb53af56f2, 1409242463),
      (640000, 0x00000000d5da601476027f06518128b32a7d5bcddb9098e34aab7570830c6e84, 1411048458),
      (690000, 0xd60ffff3c297dc6b0b6020d733cd912ca5506bed2fe7472d3fda459c52a8a43e, 1414054379),
      (730000, 0xfde685b6116963359b221fc5235a6736f00d24c093bc4de5f3e0b0394a51c56a, 1416498679),
      (780000, 0x000000000280ad0eacaf25174b49cb9f965d192f25d3e47d2e4a6b053fb6f990, 1419520424),
      (820000, 0x0000000090a8d91fd306e83390eca58d65c576203a8a1a053c1b099190147cb9, 1421939687),
      (850000, 0x000000008b4658c03a8f13866ddb046227de8a96b3ee21078a828aa54d37e90d, 1423767293),
      (870000, 0x000000030107f0e16cb4dbbb14a548d91a56527534d34cadd9ac475adec719da, 1424981318),
      (890000, 0x000000012fa9230d9f3f15d203a787db0b9e92889eca232cc59f763368896935, 1426194182),
      (910000, 0x000000006251188a93289e904eb674dbfa15722e163d4ec90a9673b84d6ac767, 1427415383),
      (920000, 0x000000016365ab52244f095a0a2e47c95c9b448b97cd5542d2cdf4dce380ea63, 1428027541),
      (930000, 0x000000010d42105d7fb5fd8b37c1e089587831b215c2ffa0d910331bb622cf7b, 1428621116),
      (940000, 0x00000000effedf62c11f4915af520ff9760fe95079274272644db33fafcc144a, 1429238187),
      (950000, 0x000000013d1baea87356546d2a145ab914ce3e150a1a815255c94467926b8afa, 1429997830),
      (960000, 0x00000005ae8130555185ada554519439bdc71c390f95bd5e55530c240db3db54, 1430623240),
      (970000, 0x0000000056cf659b939456d76a883cf2147c49047c950ef7415c5700e0b5b4db, 1431227343),
      (980000, 0x00000002933a54248502f0091078d3c33269e6d0293358e9259f8581aa91359c, 1431895647),
      (990000, 0x00000000758136b0e554e639ad6fa11b7eb5f514120240960f36a33710cfe253, 1432502809),
      (1000000, 0x00000002c6f432ca95d5ea89b84d2bfd701e3253d8edef06d18fed7ec09de30c, 1433111376),
      (1100000, 0x000000015ac05d2bd89aba131cc9d57cdd7edda818320516cf2f346a2515b9be, 1439171273),
      (1200000, 0x000000007a41df6df9174de6483a00c6a70bfa1c2a383d723def0776b6e3601f, 1445225088),
      (1302573, 0x51050155f2159ecbaf3470725c50db7f34bb2a8590f1bb638474c6519e99e6ac, 1451570400),
      (1309160, 0x97ba36ecbcd66d6894b2766aec2b74c128afb5070ed4ba2243ae36f996fbfca8, 1452014385),
      (1310272, 0x720b51ded661eb7fd9ba0b4e47743dd80aeeba9adbc22dd4dad8ca58198390df, 1452091921),
      (1310670, 0x0abd54495d29078ea17efaae129c97224f6db03292bde04a905ca72bf1bd4547, 1452268352),
      (2318178, 0xfc3c5cd0ee81c62e1166c887d79977f040f2620ce189812f7aa0b701217f3441, 1520703501),
      (2319474, 0xd19281d0ae3644a487cb3b339a0e8f29093df69e26de068d38d148eb996bcbc5, 1520786127)]"

definition mapCheckpointsTestnet :: MapCheckpoints where
  "mapCheckpointsTestnet = [(0, hashGenesisBlockTestNet, 1372351925)]"

definition checkpoints :: "bool \<Rightarrow> MapCheckpoints" where
  "checkpoints testnet = (if testnet then mapCheckpointsTestnet else mapCheckpoints)"

definition CheckHardened :: "bool \<Rightarrow> int \<Rightarrow> u256 \<Rightarrow> bool" where
  "CheckHardened testnet height hash =
     (case map_of (checkpoints testnet) height of None \<Rightarrow> True | Some (h, t) \<Rightarrow> hash = h)"

definition GetTotalBlocksEstimate :: "bool \<Rightarrow> int" where
  "GetTotalBlocksEstimate testnet = fst (last (checkpoints testnet))"

text \<open>The time is an \<open>unsigned int\<close> returned as an \<open>int\<close>.\<close>

definition GetLastCheckpointTime :: "bool \<Rightarrow> int" where
  "GetLastCheckpointTime testnet = sint (snd (snd (last (checkpoints testnet))))"

definition GetLastCheckpoint :: "bool \<Rightarrow> block_map \<Rightarrow> u256 option" where
  "GetLastCheckpoint testnet M =
     map_option (\<lambda>(height, hash, t). hash)
       (find (\<lambda>(height, hash, t). M hash \<noteq> None) (rev (checkpoints testnet)))"

section \<open>Synchronized checkpoints\<close>

record CUnsignedSyncCheckpoint =
  scp_nVersion :: int
  hashCheckpoint :: u256

record CSyncCheckpoint = CUnsignedSyncCheckpoint +
  vchMsg :: bytes
  scp_vchSig :: bytes

definition checkpoint_SetNull :: CSyncCheckpoint where
  "checkpoint_SetNull = \<lparr>scp_nVersion = 1, hashCheckpoint = 0, vchMsg = [], scp_vchSig = []\<rparr>"

definition checkpoint_IsNull :: "CSyncCheckpoint \<Rightarrow> bool" where
  "checkpoint_IsNull c = (hashCheckpoint c = 0)"

definition ser_unsigned_checkpoint :: "'x CUnsignedSyncCheckpoint_scheme \<Rightarrow> bytes" where
  "ser_unsigned_checkpoint c = ser_i32 (scp_nVersion c) @ ser_u256 (hashCheckpoint c)"

definition unser_unsigned_checkpoint :: "(int \<times> u256) reader" where
  "unser_unsigned_checkpoint = unser_pair unser_i32 unser_u256"

definition ser_CSyncCheckpoint :: "CSyncCheckpoint \<Rightarrow> bytes" where
  "ser_CSyncCheckpoint c = ser_bytes (vchMsg c) @ ser_bytes (scp_vchSig c)"

definition unser_CSyncCheckpoint :: "CSyncCheckpoint reader" where
  "unser_CSyncCheckpoint s =
     rbind (unser_bytes s) (\<lambda>(m, s1). rbind (unser_bytes s1) (\<lambda>(g, r).
       Inr (checkpoint_SetNull\<lparr>vchMsg := m, scp_vchSig := g\<rparr>, r)))"

definition checkpoint_GetHash :: "extlib \<Rightarrow> CSyncCheckpoint \<Rightarrow> u256" where
  "checkpoint_GetHash L c = SerializeHash L ser_CSyncCheckpoint c"

text \<open>\<open>ParseHex(strMasterPubKey)\<close>.\<close>

definition master_pubkey :: bytes where
  "master_pubkey =
     [0x04, 0xc2, 0x0f, 0x50, 0xf1, 0x5c, 0x62, 0x6c, 0xc0, 0x37, 0xaa, 0x55, 0xf0, 0x3d, 0xaa,
      0x42, 0xd4, 0xd4, 0xfc, 0xc9, 0x98, 0xc5, 0xe7, 0xda, 0x6e, 0xf9, 0x83, 0xdf, 0xca, 0x44,
      0x79, 0x66, 0xc9, 0x03, 0xa1, 0x64, 0x99, 0xef, 0x8b, 0xfc, 0x91, 0x63, 0xa9, 0x51, 0xc1,
      0x1a, 0x72, 0xc3, 0x57, 0x63, 0x48, 0x71, 0xd3, 0x90, 0xaf, 0x60, 0x6e, 0x1b, 0xdd, 0xc3,
      0xdf, 0x31, 0xfe, 0xb6, 0x29]"

text \<open>\<open>CheckSignature\<close> fills in the fields from the signed message; \<open>None\<close> where that throws.\<close>

definition CheckSignature :: "extlib \<Rightarrow> CSyncCheckpoint \<Rightarrow> (bool \<times> CSyncCheckpoint) option" where
  "CheckSignature L c =
     (case SetPubKey L \<lparr>pk_vch = master_pubkey\<rparr> of
        None \<Rightarrow> Some (False, c)
      | Some (key, fCompressed) \<Rightarrow>
          if \<not> Key_Verify L key (Hash L (vchMsg c)) (scp_vchSig c) then Some (False, c)
          else case unser_unsigned_checkpoint (vchMsg c) of
                 Inl e \<Rightarrow> None
               | Inr ((v, h), r) \<Rightarrow> Some (True, c\<lparr>scp_nVersion := v, hashCheckpoint := h\<rparr>))"

record sync_state =
  hashSyncCheckpoint :: u256
  hashPendingCheckpoint :: u256
  checkpointMessage :: CSyncCheckpoint
  checkpointMessagePending :: CSyncCheckpoint
  hashInvalidCheckpoint :: u256

definition GetLastSyncCheckpoint :: "block_map \<Rightarrow> sync_state \<Rightarrow> CBlockIndex option" where
  "GetLastSyncCheckpoint M ss = M (hashSyncCheckpoint ss)"

text \<open>Back from a block to the first one of at most the given height; \<open>[]\<close> where \<open>pprev\<close> is NULL first.\<close>

definition trace_back :: "int \<Rightarrow> chain \<Rightarrow> chain" where
  "trace_back h ch = dropWhile (\<lambda>p. h < nHeight p) ch"

definition ValidateSyncCheckpoint :: "block_map \<Rightarrow> u256 \<Rightarrow> sync_state \<Rightarrow> bool \<times> sync_state" where
  "ValidateSyncCheckpoint M hash ss =
     (case M (hashSyncCheckpoint ss) of None \<Rightarrow> (False, ss)
      | Some pindexSync \<Rightarrow> (case M hash of None \<Rightarrow> (False, ss)
      | Some pindexRecv \<Rightarrow>
          if nHeight pindexRecv \<le> nHeight pindexSync
          then (case trace_back (nHeight pindexRecv) (chain_at M (Some (hashSyncCheckpoint ss))) of
                  [] \<Rightarrow> (False, ss)
                | pindex # _ \<Rightarrow>
                    if phashBlock pindex \<noteq> hash then (False, ss\<lparr>hashInvalidCheckpoint := hash\<rparr>)
                    else (False, ss))
          else (case trace_back (nHeight pindexSync) (chain_at M (Some hash)) of
                  [] \<Rightarrow> (False, ss)
                | pindex # _ \<Rightarrow>
                    if phashBlock pindex \<noteq> hashSyncCheckpoint ss
                    then (False, ss\<lparr>hashInvalidCheckpoint := hash\<rparr>)
                    else (True, ss))))"

text \<open>\<open>CheckSync\<close>; \<open>None\<close> where the assertion that the checkpoint was accepted fails.\<close>

definition CheckSync :: "bool \<Rightarrow> block_map \<Rightarrow> u256 \<Rightarrow> chain \<Rightarrow> sync_state \<Rightarrow> bool option" where
  "CheckSync testnet M hashBlock pindexPrev ss =
     (if testnet then Some True
      else case pindexPrev of [] \<Rightarrow> None | prev # _ \<Rightarrow>
        (case M (hashSyncCheckpoint ss) of None \<Rightarrow> None
         | Some pindexSync \<Rightarrow>
             let height = nHeight prev + 1;
                 rest = (if height = nHeight pindexSync \<and> hashBlock \<noteq> hashSyncCheckpoint ss then Some False
                         else if height < nHeight pindexSync \<and> M hashBlock = None then Some False
                         else Some True)
             in if nHeight pindexSync < height
                then (case trace_back (nHeight pindexSync) pindexPrev of
                        [] \<Rightarrow> Some False
                      | pindex # _ \<Rightarrow>
                          if nHeight pindex < nHeight pindexSync \<or> phashBlock pindex \<noteq> hashSyncCheckpoint ss
                          then Some False else rest)
                else rest))"

definition CHECKPOINT_MAX_SPAN :: int where "CHECKPOINT_MAX_SPAN = 60 * 60 * 4"

text \<open>
  \<open>AutoSelectSyncCheckpoint\<close> walks forward from the last proof-of-work block. \<open>fuel\<close> bounds
  the walk along \<open>pnext\<close>.
\<close>

fun select_forward :: "nat \<Rightarrow> block_map \<Rightarrow> CBlockIndex \<Rightarrow> CBlockIndex \<Rightarrow> CBlockIndex option" where
  "select_forward 0 M best p = None"
| "select_forward (Suc fuel) M best p =
     (case pnext p of None \<Rightarrow> Some p
      | Some n \<Rightarrow>
          if index_GetBlockTime p + CHECKPOINT_MAX_SPAN \<le> index_GetBlockTime best
             \<or> nHeight p + min 6 (nCoinbaseMaturity - 20) \<le> nHeight best
          then (case M n of None \<Rightarrow> None | Some q \<Rightarrow> select_forward fuel M best q)
          else Some p)"

definition AutoSelectSyncCheckpoint :: "nat \<Rightarrow> block_map \<Rightarrow> u256 \<Rightarrow> u256 option" where
  "AutoSelectSyncCheckpoint fuel M pindexBest =
     (case M pindexBest of None \<Rightarrow> None
      | Some best \<Rightarrow> (case GetLastBlockIndex (chain_at M (Some pindexBest)) False of
          [] \<Rightarrow> None
        | p # _ \<Rightarrow> map_option phashBlock (select_forward fuel M best p)))"

definition IsMatureSyncCheckpoint :: "block_map \<Rightarrow> int \<Rightarrow> int \<Rightarrow> sync_state \<Rightarrow> bool option" where
  "IsMatureSyncCheckpoint M bestHeight adjustedTime ss =
     (case M (hashSyncCheckpoint ss) of None \<Rightarrow> None
      | Some p \<Rightarrow> Some (nHeight p + nCoinbaseMaturity \<le> bestHeight
          \<or> index_GetBlockTime p + int (unat (GetStakeMinAge (bi_nTime p))) < adjustedTime))"

definition IsSyncCheckpointTooOld :: "block_map \<Rightarrow> u32 \<Rightarrow> int \<Rightarrow> sync_state \<Rightarrow> bool option" where
  "IsSyncCheckpointTooOld M nSeconds adjustedTime ss =
     (case M (hashSyncCheckpoint ss) of None \<Rightarrow> None
      | Some p \<Rightarrow> Some (index_GetBlockTime p + int (unat nSeconds) < adjustedTime))"

section \<open>Going back to a height\<close>
lemma chain_height_le:
  assumes "map_ok M" and "M h = Some i" and "p \<in> set (chain_at M (Some h))"
  shows "nHeight p \<le> nHeight i"
  using assms
proof (induction "nat (nHeight i)" arbitrary: h i rule: less_induct)
  case less
  have e: "entry_ok M h i" by (rule map_okD [OF less.prems(1,2)])
  show ?case
  proof (cases "pprev i")
    case None
    then show ?thesis using less.prems by (simp add: chain_at_unfold)
  next
    case (Some q)
    then obtain j where j: "M q = Some j" "nHeight i = nHeight j + 1" "0 \<le> nHeight j"
      using e by (auto simp: entry_ok_def)
    then have "nat (nHeight j) < nat (nHeight i)" by simp
    from less.hyps [OF this less.prems(1) j(1)] less.prems Some j(2) show ?thesis
      by (auto simp: chain_at_unfold)
  qed
qed

lemma trace_back_chain:
  assumes "map_ok M" and "M h = Some i" and "0 \<le> k" and "k \<le> nHeight i"
  shows "\<exists>p r. trace_back k (chain_at M (Some h)) = p # r \<and> nHeight p = k \<and> M (phashBlock p) = Some p
    \<and> p \<in> set (chain_at M (Some h))
    \<and> (\<forall>p' \<in> set (chain_at M (Some h)). nHeight p' = k \<longrightarrow> p' = p)"
  using assms
proof (induction "nat (nHeight i)" arbitrary: h i rule: less_induct)
  case less
  have e: "entry_ok M h i" by (rule map_okD [OF less.prems(1,2)])
  note u = chain_at_unfold [OF less.prems(1,2)]
  show ?case
  proof (cases "pprev i")
    case None
    then have "nHeight i = k" using e less.prems by (simp add: entry_ok_def)
    then show ?thesis using e less.prems(2) None u by (simp add: trace_back_def entry_ok_def)
  next
    case (Some q)
    then obtain j where j: "M q = Some j" "nHeight i = nHeight j + 1" "0 \<le> nHeight j"
      using e by (auto simp: entry_ok_def)
    show ?thesis
    proof (cases "nHeight i = k")
      case True
      have "nHeight p' \<noteq> k" if "p' \<in> set (chain_at M (Some q))" for p'
        using chain_height_le [OF less.prems(1) j(1) that] j(2) True by simp
      moreover have "trace_back k (chain_at M (Some h)) = i # chain_at M (Some q)"
        using True by (simp add: u Some trace_back_def)
      moreover have "M (phashBlock i) = Some i" using e less.prems(2) by (simp add: entry_ok_def)
      ultimately show ?thesis using True u Some by (intro exI [of _ i] exI [of _ "chain_at M (Some q)"]) auto
    next
      case False
      then have k: "k \<le> nHeight j" "nat (nHeight j) < nat (nHeight i)" using j less.prems(4) by simp_all
      obtain p r where p: "trace_back k (chain_at M (Some q)) = p # r" "nHeight p = k" "M (phashBlock p) = Some p"
          "p \<in> set (chain_at M (Some q))" "\<forall>p' \<in> set (chain_at M (Some q)). nHeight p' = k \<longrightarrow> p' = p"
        using less.hyps [OF k(2) less.prems(1) j(1) less.prems(3) k(1)] by blast
      have t: "trace_back k (chain_at M (Some h)) = p # r"
        using False less.prems(4) p(1) by (simp add: u Some trace_back_def)
      have s: "set (chain_at M (Some h)) = insert i (set (chain_at M (Some q)))" by (simp add: u Some)
      have "\<forall>p' \<in> insert i (set (chain_at M (Some q))). nHeight p' = k \<longrightarrow> p' = p" using p(5) False by blast
      then show ?thesis unfolding t s using p(2-4) by blast
    qed
  qed
qed

definition descends :: "block_map \<Rightarrow> u256 \<Rightarrow> u256 \<Rightarrow> bool" where
  "descends M hash anc \<longleftrightarrow> anc \<in> phashBlock ` set (chain_at M (Some hash))"

lemma trace_back_descends:
  assumes "map_ok M" and "M h = Some i" and "M s = Some j" and "nHeight j \<le> nHeight i"
  shows "\<exists>p r. trace_back (nHeight j) (chain_at M (Some h)) = p # r \<and> nHeight p = nHeight j
    \<and> (phashBlock p = s \<longleftrightarrow> descends M h s)"
proof -
  have j: "0 \<le> nHeight j" "phashBlock j = s"
    using map_okD [OF assms(1,3)] entry_height [of M s j] by (auto simp: entry_ok_def)
  obtain p r where p: "trace_back (nHeight j) (chain_at M (Some h)) = p # r" "nHeight p = nHeight j"
      "M (phashBlock p) = Some p" "p \<in> set (chain_at M (Some h))"
      "\<forall>p' \<in> set (chain_at M (Some h)). nHeight p' = nHeight j \<longrightarrow> p' = p"
    using trace_back_chain [OF assms(1,2) j(1) assms(4)] by blast
  have "phashBlock p = s \<longleftrightarrow> descends M h s"
  proof
    assume "descends M h s"
    then obtain p' where p': "p' \<in> set (chain_at M (Some h))" "phashBlock p' = s" by (auto simp: descends_def)
    have "M (phashBlock p') = Some p'"
      using chain_at_entries [OF assms(1,2)] p'(1) by (simp add: list_all_iff)
    then have "p' = j" using p'(2) assms(3) by simp
    then show "phashBlock p = s" using p(5) p'(1) j(2) by auto
  qed (use p(4) in \<open>auto simp: descends_def\<close>)
  then show ?thesis using p by blast
qed

section \<open>Properties\<close>

text \<open>C17: 
  The synchronized checkpoint binds the chain: on the main network a new block on top of
  \<open>prev\<close> passes \<open>CheckSync\<close> above the height of the checkpoint exactly when its predecessor is
  the checkpoint or descends from it, at the height of the checkpoint only when it is the
  checkpoint, and below only when it is known already. The check always answers, since the
  checkpoint is an accepted block.
\<close>
theorem CheckSync_binds:
  assumes "map_ok M" and "M (hashSyncCheckpoint ss) = Some s" and "M prev = Some i"
  shows "CheckSync False M hash (chain_at M (Some prev)) ss =
    Some (if nHeight s < nHeight i + 1 then descends M prev (hashSyncCheckpoint ss)
          else if nHeight s = nHeight i + 1 then hash = hashSyncCheckpoint ss
          else M hash \<noteq> None)"
proof -
  have c: "chain_at M (Some prev) = i # chain_at M (pprev i)" by (rule chain_at_unfold [OF assms(1,3)])
  show ?thesis
  proof (cases "nHeight s < nHeight i + 1")
    case True
    then obtain p r where "trace_back (nHeight s) (chain_at M (Some prev)) = p # r" "nHeight p = nHeight s"
        "phashBlock p = hashSyncCheckpoint ss \<longleftrightarrow> descends M prev (hashSyncCheckpoint ss)"
      using trace_back_descends [OF assms(1,3,2)] by fastforce
    then show ?thesis using True assms(2) c by (auto simp: CheckSync_def Let_def)
  qed (use assms(2) c in \<open>auto simp: CheckSync_def Let_def\<close>)
qed

text \<open>C18: 
  A received checkpoint is accepted exactly when its block is a proper descendant of the
  current checkpoint; one that neither descends from the current checkpoint nor is one of its
  ancestors is remembered as invalid, and an older one of the same branch is ignored.
\<close>
theorem ValidateSyncCheckpoint_iff:
  assumes "map_ok M" and "M (hashSyncCheckpoint ss) = Some s" and "M hash = Some i"
  shows "ValidateSyncCheckpoint M hash ss =
    (nHeight s < nHeight i \<and> descends M hash (hashSyncCheckpoint ss),
     if descends M hash (hashSyncCheckpoint ss) \<or> descends M (hashSyncCheckpoint ss) hash then ss
     else ss\<lparr>hashInvalidCheckpoint := hash\<rparr>)"
proof -
  have self: "M h = Some x \<Longrightarrow> phashBlock x = h" for h x
    using map_okD [OF assms(1)] by (auto simp: entry_ok_def)
  have above: "nHeight y \<le> nHeight x" if t: "M a = Some x" "M b = Some y" "descends M a b" for a b x y
  proof -
    obtain z where z: "z \<in> set (chain_at M (Some a))" "phashBlock z = b" using t(3) by (auto simp: descends_def)
    then have "M b = Some z" using chain_at_entries [OF assms(1) t(1)] by (auto simp: list_all_iff)
    then show ?thesis using chain_height_le [OF assms(1) t(1) z(1)] t(2) by simp
  qed
  have same: "a = b" if t: "M a = Some x" "M b = Some y" "descends M a b" "nHeight x = nHeight y" for a b x y
  proof -
    obtain p r where "trace_back (nHeight y) (chain_at M (Some a)) = p # r" "phashBlock p = b"
      using trace_back_descends [OF assms(1) t(1,2)] t(3,4) by fastforce
    then show ?thesis
      using t(1,4) self chain_at_unfold [OF assms(1) t(1)] by (auto simp: trace_back_def)
  qed
  show ?thesis
  proof (cases "nHeight i \<le> nHeight s")
    case True
    obtain p r where p: "trace_back (nHeight i) (chain_at M (Some (hashSyncCheckpoint ss))) = p # r"
        "phashBlock p = hash \<longleftrightarrow> descends M (hashSyncCheckpoint ss) hash"
      using trace_back_descends [OF assms(1,2,3) True] by blast
    have "descends M hash (hashSyncCheckpoint ss) \<Longrightarrow> descends M (hashSyncCheckpoint ss) hash"
      using above [OF assms(3,2)] same [OF assms(3,2)] True by (metis order_antisym)
    then show ?thesis using p True assms(2,3) by (auto simp: ValidateSyncCheckpoint_def)
  next
    case False
    then obtain p r where p: "trace_back (nHeight s) (chain_at M (Some hash)) = p # r"
        "phashBlock p = hashSyncCheckpoint ss \<longleftrightarrow> descends M hash (hashSyncCheckpoint ss)"
      using trace_back_descends [OF assms(1,3,2)] by fastforce
    have "\<not> descends M (hashSyncCheckpoint ss) hash" using above [OF assms(2,3)] False by blast
    then show ?thesis using p False assms(2,3) by (auto simp: ValidateSyncCheckpoint_def)
  qed
qed

text \<open>The heights increase, so every height has one checkpoint and the last is the highest.\<close>
lemma checkpoints_sorted: "sorted_wrt (<) (map fst (checkpoints testnet))"
  by (simp add: checkpoints_def mapCheckpoints_def mapCheckpointsTestnet_def)

lemma GetTotalBlocksEstimate_value: "GetTotalBlocksEstimate testnet = (if testnet then 0 else 2319474)"
  by (simp add: GetTotalBlocksEstimate_def checkpoints_def mapCheckpoints_def mapCheckpointsTestnet_def)

section \<open>Witnesses\<close>

definition two_blocks :: block_map where
  "two_blocks = [1 \<mapsto> index_empty\<lparr>phashBlock := 1, pnext := Some 2\<rparr>,
                 2 \<mapsto> index_empty\<lparr>phashBlock := 2, pprev := Some 1, nHeight := 1\<rparr>]"

definition sync_start :: sync_state where
  "sync_start = \<lparr>hashSyncCheckpoint = 1, hashPendingCheckpoint = 0, checkpointMessage = checkpoint_SetNull,
     checkpointMessagePending = checkpoint_SetNull, hashInvalidCheckpoint = 0\<rparr>"

lemma map_ok_two_blocks: "map_ok two_blocks"
  by (auto simp: map_ok_def two_blocks_def entry_ok_def index_empty_def split: if_splits)

lemma two_blocks_descends: "descends two_blocks 2 1" "descends two_blocks 2 2"
proof -
  have "chain_at two_blocks (Some 2) = [index_empty\<lparr>phashBlock := 2, pprev := Some 1, nHeight := 1\<rparr>,
      index_empty\<lparr>phashBlock := 1, pnext := Some 2\<rparr>]"
    by (simp add: chain_at_def two_blocks_def index_empty_def numeral_eq_Suc)
  then show "descends two_blocks 2 1" "descends two_blocks 2 2"
    by (simp_all add: descends_def)
qed

theorem CheckSync_binds_witness:
  "CheckSync False two_blocks 3 (chain_at two_blocks (Some 2)) sync_start = Some True"
  using CheckSync_binds [OF map_ok_two_blocks, of sync_start _ 2 _ 3] two_blocks_descends
  by (simp add: sync_start_def two_blocks_def index_empty_def)

theorem ValidateSyncCheckpoint_iff_witness:
  "ValidateSyncCheckpoint two_blocks 2 sync_start = (True, sync_start)"
  using ValidateSyncCheckpoint_iff [OF map_ok_two_blocks, of sync_start _ 2] two_blocks_descends
  by (simp add: sync_start_def two_blocks_def index_empty_def)

end
