(* ===== verification/Inputs.thy ===== *)
theory Inputs
  imports Block_Store Mempool Checkpoints Script_Verify
begin

text \<open>
  The inputs of transactions (\<open>main.cpp\<close>): finding the transactions they spend, checking and
  marking the spent outputs when a transaction is connected, giving them back when it is
  disconnected, and the admission of transactions to the memory pool.
\<close>

section \<open>Settings\<close>

text \<open>
  Global settings and clocks an operation reads: the network, the size of the signature cache,
  whether signatures are checked at all, \<open>GetAdjustedTime()\<close>, \<open>fUseFastIndex\<close>.
\<close>

record node_env =
  fTestNet :: bool
  nMaxSigCacheSize :: int
  fDisableSignatureChecking :: bool
  adjustedTime :: int
  fUseFastIndex :: bool
  fNoSyncCheckpoints :: bool
  fInitialDownload :: bool

section \<open>Fetching\<close>

text \<open>
  \<open>CDiskTxPos(1,1,1)\<close> marks a transaction of the memory pool. The failure carries the
  misbehaviour score and whether the transaction is invalid (\<open>fInvalid\<close>).
\<close>

type_synonym test_pool = "(u256, CTxIndex) smap"

definition pos_mempool :: CDiskTxPos where "pos_mempool = diskpos 1 1 1"

definition read_txindex :: "CTxDB \<Rightarrow> test_pool \<Rightarrow> bool \<Rightarrow> u256 \<Rightarrow> CTxIndex option" where
  "read_txindex db mapTestPool fBlockMiner hash =
     (if fBlockMiner \<and> smap_count hash mapTestPool then map_of mapTestPool hash
      else ReadTxIndex hash db)"

definition fetch_prev ::
  "CTxDB \<Rightarrow> block_files \<Rightarrow> CTxMemPool \<Rightarrow> test_pool \<Rightarrow> bool \<Rightarrow> u256 \<Rightarrow> (CTxIndex \<times> CTransaction) option" where
  "fetch_prev db fs pool mapTestPool fBlockMiner hash =
     (case read_txindex db mapTestPool fBlockMiner hash of
        None \<Rightarrow>
          if fBlockMiner then None
          else if \<not> pool_exists hash pool then None
          else let txPrev = fst (pool_lookup 0 hash pool)
               in Some (txindex_SetNull\<lparr>vSpent := replicate (length (vout txPrev)) diskpos_null\<rparr>, txPrev)
      | Some txindex \<Rightarrow>
          if diskpos_eq (txi_pos txindex) pos_mempool
          then if \<not> pool_exists hash pool then None
               else Some (txindex, fst (pool_lookup 0 hash pool))
          else map_option (Pair txindex) (tx_ReadFromDisk (txi_pos txindex) fs))"

fun fetch_loop ::
  "CTxDB \<Rightarrow> block_files \<Rightarrow> CTxMemPool \<Rightarrow> test_pool \<Rightarrow> bool \<Rightarrow> CTxIn list \<Rightarrow> MapPrevTx \<Rightarrow> MapPrevTx option" where
  "fetch_loop db fs pool mapTestPool fBlockMiner [] inputsRet = Some inputsRet"
| "fetch_loop db fs pool mapTestPool fBlockMiner (txin # ins) inputsRet =
     (let hash = out_hash (prevout txin)
      in if inputsRet hash \<noteq> None then fetch_loop db fs pool mapTestPool fBlockMiner ins inputsRet
         else case fetch_prev db fs pool mapTestPool fBlockMiner hash of
                None \<Rightarrow> None
              | Some p \<Rightarrow> fetch_loop db fs pool mapTestPool fBlockMiner ins (inputsRet(hash \<mapsto> p)))"

definition prevout_in_range :: "MapPrevTx \<Rightarrow> CTxIn \<Rightarrow> bool" where
  "prevout_in_range inputs txin =
     (case inputs (out_hash (prevout txin)) of None \<Rightarrow> False
      | Some (txindex, txPrev) \<Rightarrow>
          let n = unat (out_n (prevout txin)) in \<not> (length (vout txPrev) \<le> n \<or> length (vSpent txindex) \<le> n))"

definition FetchInputs ::
  "CTxDB \<Rightarrow> block_files \<Rightarrow> CTxMemPool \<Rightarrow> CTransaction \<Rightarrow> test_pool \<Rightarrow> bool \<Rightarrow> bool \<Rightarrow> MapPrevTx
     \<Rightarrow> (failure \<times> bool) + MapPrevTx" where
  "FetchInputs db fs pool tx mapTestPool fBlock fMiner inputsRet =
     (if IsCoinBase tx then Inr inputsRet
      else case fetch_loop db fs pool mapTestPool (fBlock \<or> fMiner) (vin tx) inputsRet of
        None \<Rightarrow> Inl (Refused 0, False)
      | Some inputs \<Rightarrow>
          if list_all (prevout_in_range inputs) (vin tx) then Inr inputs
          else Inl (Refused 100, True))"

section \<open>Connecting\<close>

text \<open>
  The first loop of \<open>ConnectInputs\<close>, without signatures. \<open>pindexBlock\<close> is the chain from the
  block back; a coinbase or coinstake is immature while its block is among the last
  \<open>nCoinbaseMaturity\<close>, found by the position on disk.
\<close>

definition immature :: "chain \<Rightarrow> CTxIndex \<Rightarrow> CTransaction \<Rightarrow> bool" where
  "immature pindexBlock txindex txPrev =
     ((IsCoinBase txPrev \<or> IsCoinStake txPrev)
      \<and> list_ex (\<lambda>pindex. bi_nBlockPos pindex = dp_nBlockPos (txi_pos txindex)
                        \<and> bi_nFile pindex = dp_nFile (txi_pos txindex))
          (takeWhile (\<lambda>pindex. nHeight (hd pindexBlock) - nHeight pindex < nCoinbaseMaturity) pindexBlock))"

fun check_inputs ::
  "CTransaction \<Rightarrow> MapPrevTx \<Rightarrow> chain \<Rightarrow> int \<Rightarrow> CTxIn list \<Rightarrow> failure + int" where
  "check_inputs tx inputs pindexBlock nValueIn [] = Inr nValueIn"
| "check_inputs tx inputs pindexBlock nValueIn (txin # ins) =
     (case inputs (out_hash (prevout txin)) of
        None \<Rightarrow> Inl Crashed
      | Some (txindex, txPrev) \<Rightarrow>
          let n = unat (out_n (prevout txin))
          in if length (vout txPrev) \<le> n \<or> length (vSpent txindex) \<le> n then Inl (Refused 100)
             else if immature pindexBlock txindex txPrev then Inl (Refused 0)
             else if tx_nTime tx < tx_nTime txPrev then Inl (Refused 100)
             else let nValueIn = nValueIn + nValue (vout txPrev ! n)
                  in if \<not> MoneyRange (nValue (vout txPrev ! n)) \<or> \<not> MoneyRange nValueIn then Inl (Refused 100)
                     else check_inputs tx inputs pindexBlock nValueIn ins)"

text \<open>The state of the second loop: the fetched inputs, the queue of changed records, the signature cache.\<close>

record connect_state =
  cn_inputs :: MapPrevTx
  mapTestPool :: test_pool
  cn_cache :: CSignatureCache

definition verify_input ::
  "extlib \<Rightarrow> node_env \<Rightarrow> CTransaction \<Rightarrow> nat \<Rightarrow> bool \<Rightarrow> CTransaction \<Rightarrow> (connect_state, unit) action" where
  "verify_input L E tx i fStrict txPrev s =
     (case VerifySignature L (nMaxSigCacheSize E) txPrev tx i fStrict 0 (cn_cache s) of
        (True, c) \<Rightarrow> (Inr (), s\<lparr>cn_cache := c\<rparr>)
      | (False, c) \<Rightarrow>
          if fStrict
          then (case VerifySignature L (nMaxSigCacheSize E) txPrev tx i False 0 c of
                  (ok, c) \<Rightarrow> (Inl (Refused (if ok then 0 else 100)), s\<lparr>cn_cache := c\<rparr>))
          else (Inl (Refused 100), s\<lparr>cn_cache := c\<rparr>))"

definition connect_input ::
  "extlib \<Rightarrow> node_env \<Rightarrow> int \<Rightarrow> CTransaction \<Rightarrow> CDiskTxPos \<Rightarrow> bool \<Rightarrow> bool \<Rightarrow> bool
     \<Rightarrow> nat \<times> CTxIn \<Rightarrow> (connect_state, unit) action" where
  "connect_input L E bestHeight tx posThisTx fBlock fMiner fStrict = (\<lambda>(i, txin) s.
     case cn_inputs s (out_hash (prevout txin)) of
       None \<Rightarrow> (Inl Crashed, s)
     | Some (txindex, txPrev) \<Rightarrow>
         let hash = out_hash (prevout txin); n = unat (out_n (prevout txin))
         in if \<not> diskpos_IsNull (vSpent txindex ! n) then (Inl (Refused 0), s)
            else act_then
              (if \<not> fDisableSignatureChecking E
                  \<and> \<not> (fBlock \<and> bestHeight < GetTotalBlocksEstimate (fTestNet E))
               then verify_input L E tx i fStrict txPrev else act_return ())
              (act_modify (\<lambda>s.
                 let txindex = txindex\<lparr>vSpent := (vSpent txindex)[n := posThisTx]\<rparr>;
                     s = s\<lparr>cn_inputs := (cn_inputs s)(hash \<mapsto> (txindex, txPrev))\<rparr>
                 in if fBlock \<or> fMiner then s\<lparr>mapTestPool := smap_put hash txindex (mapTestPool s)\<rparr> else s)) s)"

definition check_fee :: "CTransaction \<Rightarrow> int \<Rightarrow> bool \<Rightarrow> failure + unit" where
  "check_fee tx nValueIn fBlock =
     (if IsCoinStake tx then Inr ()
      else case GetValueOut tx of Inl e \<Rightarrow> Inl Crashed
      | Inr nValueOut \<Rightarrow>
          if nValueIn < nValueOut then Inl (Refused 100)
          else let nTxFee = nValueIn - nValueOut
               in if nTxFee < 0 then Inl (Refused 100)
                  else if nTxFee < GetMinFee tx 1 False GMF_BLOCK 0
                  then Inl (Refused (if fBlock then 100 else 0))
                  else if \<not> MoneyRange nTxFee then Inl (Refused 100) else Inr ())"

definition ConnectInputs ::
  "extlib \<Rightarrow> node_env \<Rightarrow> int \<Rightarrow> CTransaction \<Rightarrow> MapPrevTx \<Rightarrow> CDiskTxPos \<Rightarrow> chain \<Rightarrow> bool \<Rightarrow> bool \<Rightarrow> bool
     \<Rightarrow> (test_pool \<times> CSignatureCache, unit) action" where
  "ConnectInputs L E bestHeight tx inputs posThisTx pindexBlock fBlock fMiner fStrict = (\<lambda>(pool, cache).
     if IsCoinBase tx then (Inr (), pool, cache)
     else case check_inputs tx inputs pindexBlock 0 (vin tx) of
       Inl e \<Rightarrow> (Inl e, pool, cache)
     | Inr nValueIn \<Rightarrow>
         (case act_then
              (act_each (connect_input L E bestHeight tx posThisTx fBlock fMiner fStrict) (enumerate 0 (vin tx)))
              (act_lift (check_fee tx nValueIn fBlock))
              \<lparr>cn_inputs = inputs, mapTestPool = pool, cn_cache = cache\<rparr> of
            (r, s) \<Rightarrow> (r, mapTestPool s, cn_cache s)))"

section \<open>Disconnecting\<close>

definition release_input :: "CTxIn \<Rightarrow> (CTxDB, unit) action" where
  "release_input txin db =
     (case ReadTxIndex (out_hash (prevout txin)) db of
        None \<Rightarrow> (Inl (Refused 0), db)
      | Some txindex \<Rightarrow>
          let n = unat (out_n (prevout txin))
          in if length (vSpent txindex) \<le> n then (Inl (Refused 0), db)
             else UpdateTxIndex (out_hash (prevout txin))
                    (txindex\<lparr>vSpent := (vSpent txindex)[n := diskpos_SetNull (vSpent txindex ! n)]\<rparr>) db)"

text \<open>The result of the erasure is not looked at; in a read-only database it is an assertion.\<close>

definition DisconnectInputs :: "extlib \<Rightarrow> CTransaction \<Rightarrow> (CTxDB, unit) action" where
  "DisconnectInputs L tx =
     act_then (if \<not> IsCoinBase tx then act_each release_input (vin tx) else act_return ())
       (act_then (act_try (EraseTxIndex L tx)) (act_return ()))"

section \<open>Client mode\<close>

fun client_inputs ::
  "extlib \<Rightarrow> node_env \<Rightarrow> CTxMemPool \<Rightarrow> CTransaction \<Rightarrow> int \<Rightarrow> (nat \<times> CTxIn) list \<Rightarrow> (CSignatureCache, int) action" where
  "client_inputs L E pool tx nValueIn [] c = (Inr nValueIn, c)"
| "client_inputs L E pool tx nValueIn ((i, txin) # ins) c =
     (let hash = out_hash (prevout txin); n = unat (out_n (prevout txin))
      in if \<not> pool_exists hash pool then (Inl (Refused 0), c)
         else let txPrev = fst (pool_lookup 0 hash pool)
              in if length (vout txPrev) \<le> n then (Inl (Refused 0), c)
                 else (case VerifySignature L (nMaxSigCacheSize E) txPrev tx i True 0 c of (ok, c) \<Rightarrow>
                   if \<not> ok then (Inl (Refused 0), c)
                   else let nValueIn = nValueIn + nValue (vout txPrev ! n)
                        in if \<not> MoneyRange (nValue (vout txPrev ! n)) \<or> \<not> MoneyRange nValueIn
                           then (Inl (Refused 0), c)
                           else client_inputs L E pool tx nValueIn ins c))"

definition ClientConnectInputs ::
  "extlib \<Rightarrow> node_env \<Rightarrow> CTxMemPool \<Rightarrow> CTransaction \<Rightarrow> (CSignatureCache, unit) action" where
  "ClientConnectInputs L E pool tx =
     (if IsCoinBase tx then act_fail (Refused 0)
      else act_bind (client_inputs L E pool tx 0 (enumerate 0 (vin tx))) (\<lambda>nValueIn.
        act_lift (case GetValueOut tx of Inl e \<Rightarrow> Inl Crashed
          | Inr nValueOut \<Rightarrow> if nValueIn < nValueOut then Inl (Refused 0) else Inr ())))"

section \<open>Admission to the memory pool\<close>

text \<open>
  \<open>accept\<close> on the pool and the signature cache; a result \<open>(ok, fMissingInputs)\<close>, or the
  exception a value out of range throws. \<open>pindexBest\<close> is the best chain. The branch for fees below \<open>MIN_RELAY_TX_FEE\<close>, the
  limiter of free transactions, cannot be reached (lemma \<open>GetMinFee_ge\<close>: the least fee
  asked for just before is never below), and neither can the replacement behind \<open>return false\<close>.
\<close>

record accept_state =
  ac_pool :: CTxMemPool
  ac_cache :: CSignatureCache

definition accept_inputs ::
  "extlib \<Rightarrow> node_env \<Rightarrow> int \<Rightarrow> chain \<Rightarrow> CTxDB \<Rightarrow> block_files \<Rightarrow> CTransaction \<Rightarrow> (accept_state, bool \<times> bool) action" where
  "accept_inputs L E bestHeight pindexBest db fs tx s =
     (case FetchInputs db fs (ac_pool s) tx [] False False Map.empty of
        Inl (e, fInvalid) \<Rightarrow> if fInvalid then (Inl e, s) else (Inr (False, True), s)
      | Inr mapInputs \<Rightarrow> (case AreInputsStandard L (nMaxSigCacheSize E) tx mapInputs (ac_cache s) of
          Inl e \<Rightarrow> (Inl Crashed, s)
        | Inr (standard, c) \<Rightarrow>
            let s = s\<lparr>ac_cache := c\<rparr>
            in if \<not> standard \<and> \<not> fTestNet E then (Inl (Refused 0), s)
               else case (GetValueIn tx mapInputs, GetValueOut tx) of
                 (Inr nIn, Inr nOut) \<Rightarrow>
                   if nIn - nOut < GetMinFee tx 1000 False GMF_RELAY 0 then (Inl (Refused 0), s)
                   else (case ConnectInputs L E bestHeight tx mapInputs pos_mempool pindexBest
                              False False True ([], ac_cache s) of
                           (Inl e, p, c) \<Rightarrow> (Inl e, s\<lparr>ac_cache := c\<rparr>)
                         | (Inr u, p, c) \<Rightarrow> (Inr (True, False), s\<lparr>ac_cache := c\<rparr>))
               | _ \<Rightarrow> (Inl Crashed, s)))"

definition pool_accept ::
  "extlib \<Rightarrow> node_env \<Rightarrow> int \<Rightarrow> chain \<Rightarrow> CTxDB \<Rightarrow> block_files \<Rightarrow> CTransaction \<Rightarrow> bool \<Rightarrow> (accept_state, bool \<times> bool) action" where
  "pool_accept L E bestHeight pindexBest db fs tx fCheckInputs s =
     (case CheckTransaction tx of Inl dos \<Rightarrow> (Inl (Refused dos), s)
      | Inr u \<Rightarrow>
     if IsCoinBase tx then (Inl (Refused 100), s)
     else if IsCoinStake tx then (Inl (Refused 100), s)
     else if 2147483647 < int (unat (nLockTime tx)) then (Inl (Refused 0), s)
     else if \<not> fTestNet E \<and> \<not> tx_IsStandard bestHeight (adjustedTime E) tx then (Inl (Refused 0), s)
     else let hash = tx_GetHash L tx
          in if smap_count hash (mapTx (ac_pool s)) then (Inl (Refused 0), s)
             else if fCheckInputs \<and> ContainsTx hash db then (Inl (Refused 0), s)
             else if list_ex (\<lambda>txin. smap_count (prevout txin) (mapNextTx (ac_pool s))) (vin tx)
             then (Inl (Refused 0), s)
             else case (if fCheckInputs then accept_inputs L E bestHeight pindexBest db fs tx s else (Inr (True, False), s)) of
                    (Inr (True, m), s) \<Rightarrow>
                      (Inr (True, m), s\<lparr>ac_pool := pool_addUnchecked hash tx (ac_pool s)\<rparr>)
                  | r \<Rightarrow> r)"

section \<open>What a connected transaction satisfies\<close>

definition in_value :: "MapPrevTx \<Rightarrow> CTxIn \<Rightarrow> int" where
  "in_value inputs txin =
     (case inputs (out_hash (prevout txin)) of None \<Rightarrow> 0
      | Some (txindex, txPrev) \<Rightarrow> nValue (vout txPrev ! unat (out_n (prevout txin))))"

definition input_valid :: "CTransaction \<Rightarrow> MapPrevTx \<Rightarrow> chain \<Rightarrow> CTxIn \<Rightarrow> bool" where
  "input_valid tx inputs pindexBlock txin \<longleftrightarrow>
     (\<exists>txindex txPrev. inputs (out_hash (prevout txin)) = Some (txindex, txPrev)
        \<and> unat (out_n (prevout txin)) < length (vout txPrev)
        \<and> unat (out_n (prevout txin)) < length (vSpent txindex)
        \<and> \<not> immature pindexBlock txindex txPrev \<and> tx_nTime txPrev \<le> tx_nTime tx)"

lemma check_inputs_value:
  "check_inputs tx inputs ch v ins = Inr w \<Longrightarrow> MoneyRange v \<Longrightarrow>
     MoneyRange w \<and> w = v + sum_list (map (in_value inputs) ins)
     \<and> (\<forall>txin \<in> set ins. input_valid tx inputs ch txin \<and> MoneyRange (in_value inputs txin))"
proof (induction tx inputs ch v ins rule: check_inputs.induct)
  case (2 tx inputs ch v txin ins)
  then obtain txindex txPrev where p: "inputs (out_hash (prevout txin)) = Some (txindex, txPrev)"
    by (auto split: option.splits)
  define x where "x = nValue (vout txPrev ! unat (out_n (prevout txin)))"
  have e: "in_value inputs txin = x" by (simp add: in_value_def p x_def)
  have c: "unat (out_n (prevout txin)) < length (vout txPrev)" "unat (out_n (prevout txin)) < length (vSpent txindex)"
    "\<not> immature ch txindex txPrev" "tx_nTime txPrev \<le> tx_nTime tx"
    "MoneyRange x" "MoneyRange (v + x)" "check_inputs tx inputs ch (v + x) ins = Inr w"
    using "2.prems"(1) by (auto simp: p Let_def x_def not_less split: if_splits)
  have "MoneyRange w \<and> w = v + x + sum_list (map (in_value inputs) ins)
      \<and> (\<forall>txin \<in> set ins. input_valid tx inputs ch txin \<and> MoneyRange (in_value inputs txin))"
    unfolding x_def using c by (intro "2.IH" [OF p refl refl _ _ _ refl]) (auto simp: x_def)
  moreover have "input_valid tx inputs ch txin" using c(1-4) p by (auto simp: input_valid_def)
  ultimately show ?case using c(5) e by auto
qed simp

text \<open>What marking an output as spent does to the records fetched.\<close>

definition spend_in :: "CDiskTxPos \<Rightarrow> CTxIn \<Rightarrow> MapPrevTx \<Rightarrow> MapPrevTx" where
  "spend_in pos txin I =
     (case I (out_hash (prevout txin)) of None \<Rightarrow> I
      | Some (txindex, txPrev) \<Rightarrow>
          I(out_hash (prevout txin) \<mapsto>
            (txindex\<lparr>vSpent := (vSpent txindex)[unat (out_n (prevout txin)) := pos]\<rparr>, txPrev)))"

definition unspent_in :: "MapPrevTx \<Rightarrow> CTxIn \<Rightarrow> bool" where
  "unspent_in I txin \<longleftrightarrow> (\<exists>txindex txPrev. I (out_hash (prevout txin)) = Some (txindex, txPrev)
     \<and> diskpos_IsNull (vSpent txindex ! unat (out_n (prevout txin))))"

lemma verify_input_state:
  "verify_input L E tx i fS txPrev s = (r, s') \<Longrightarrow>
     cn_inputs s' = cn_inputs s \<and> mapTestPool s' = mapTestPool s"
  by (auto simp: verify_input_def split: prod.splits bool.splits if_splits)

lemma connect_input_Inr:
  assumes "connect_input L E bh tx pos fB fM fS (i, txin) s = (Inr (), s')"
  obtains txindex txPrev s1 where "cn_inputs s (out_hash (prevout txin)) = Some (txindex, txPrev)"
    and "unspent_in (cn_inputs s) txin"
    and "if \<not> fDisableSignatureChecking E \<and> \<not> (fB \<and> bh < GetTotalBlocksEstimate (fTestNet E))
         then verify_input L E tx i fS txPrev s = (Inr (), s1) else s1 = s"
    and "cn_inputs s' = spend_in pos txin (cn_inputs s)" and "cn_cache s' = cn_cache s1"
    and "mapTestPool s' = (if fB \<or> fM
           then smap_put (out_hash (prevout txin))
                  (txindex\<lparr>vSpent := (vSpent txindex)[unat (out_n (prevout txin)) := pos]\<rparr>) (mapTestPool s)
           else mapTestPool s)"
proof -
  let ?h = "out_hash (prevout txin)" and ?n = "unat (out_n (prevout txin))"
  obtain txindex txPrev where p: "cn_inputs s ?h = Some (txindex, txPrev)"
    using assms by (auto simp: connect_input_def split: option.splits)
  have u: "diskpos_IsNull (vSpent txindex ! ?n)"
    using assms p by (auto simp: connect_input_def Let_def split: if_splits)
  define m where "m = (if \<not> fDisableSignatureChecking E \<and> \<not> (fB \<and> bh < GetTotalBlocksEstimate (fTestNet E))
      then verify_input L E tx i fS txPrev else act_return ())"
  have "act_then m (act_modify (\<lambda>s.
        let txindex = txindex\<lparr>vSpent := (vSpent txindex)[?n := pos]\<rparr>;
            s = s\<lparr>cn_inputs := (cn_inputs s)(?h \<mapsto> (txindex, txPrev))\<rparr>
        in if fB \<or> fM then s\<lparr>mapTestPool := smap_put ?h txindex (mapTestPool s)\<rparr> else s)) s = (Inr (), s')"
    using assms p u by (simp add: connect_input_def Let_def m_def)
  then obtain s1 where s1: "m s = (Inr (), s1)"
    and s': "s' = (let txindex = txindex\<lparr>vSpent := (vSpent txindex)[?n := pos]\<rparr>;
            s = s1\<lparr>cn_inputs := (cn_inputs s1)(?h \<mapsto> (txindex, txPrev))\<rparr>
        in if fB \<or> fM then s\<lparr>mapTestPool := smap_put ?h txindex (mapTestPool s)\<rparr> else s)"
    by (auto simp: act_then_Inr act_modify_def)
  have same: "cn_inputs s1 = cn_inputs s" "mapTestPool s1 = mapTestPool s"
    using s1 verify_input_state [of L E tx i fS txPrev s "Inr ()" s1]
    by (auto simp: m_def act_return_def split: if_splits)
  show ?thesis
  proof (rule that [OF p])
    show "unspent_in (cn_inputs s) txin" using p u by (auto simp: unspent_in_def)
    show "if \<not> fDisableSignatureChecking E \<and> \<not> (fB \<and> bh < GetTotalBlocksEstimate (fTestNet E))
         then verify_input L E tx i fS txPrev s = (Inr (), s1) else s1 = s"
      using s1 by (auto simp: m_def act_return_def split: if_splits)
    show "cn_inputs s' = spend_in pos txin (cn_inputs s)" "cn_cache s' = cn_cache s1"
      "mapTestPool s' = (if fB \<or> fM
           then smap_put ?h (txindex\<lparr>vSpent := (vSpent txindex)[?n := pos]\<rparr>) (mapTestPool s) else mapTestPool s)"
      by (simp_all add: s' Let_def same spend_in_def p)
  qed
qed

definition in_range :: "MapPrevTx \<Rightarrow> CTxIn \<Rightarrow> bool" where
  "in_range I txin \<longleftrightarrow> (\<exists>txindex txPrev. I (out_hash (prevout txin)) = Some (txindex, txPrev)
     \<and> unat (out_n (prevout txin)) < length (vSpent txindex))"

abbreviation prev_hash_set :: "CTxIn list \<Rightarrow> u256 set" where
  "prev_hash_set ins \<equiv> (\<lambda>i. out_hash (prevout i)) ` set ins"

lemma in_range_spend: "in_range (spend_in pos t I) t' = in_range I t'"
  by (auto simp: in_range_def spend_in_def split: option.splits)

lemma unspent_in_spend:
  assumes "unspent_in (spend_in pos t I) t'" and "in_range I t" and "\<not> diskpos_IsNull pos"
  shows "prevout t' \<noteq> prevout t \<and> unspent_in I t'"
proof -
  obtain i tx where i: "I (out_hash (prevout t)) = Some (i, tx)" "unat (out_n (prevout t)) < length (vSpent i)"
    using assms(2) by (auto simp: in_range_def)
  show ?thesis
  proof (cases "out_hash (prevout t') = out_hash (prevout t)")
    case False
    then show ?thesis using assms(1) by (auto simp: unspent_in_def spend_in_def i)
  next
    case True
    have n: "unat (out_n (prevout t')) \<noteq> unat (out_n (prevout t))"
      using assms(1,3) i True by (auto simp: unspent_in_def spend_in_def)
    then show ?thesis using assms(1) i True by (auto simp: unspent_in_def spend_in_def)
  qed
qed

lemma fold_spend_other: "h \<notin> prev_hash_set ins \<Longrightarrow> fold (spend_in pos) ins I h = I h"
  by (induction ins arbitrary: I) (auto simp: spend_in_def split: option.splits)

lemma spend_in_txindex:
  "I (out_hash (prevout t)) = Some (i, tx) \<Longrightarrow>
     spend_in pos t I (out_hash (prevout t)) = Some (i\<lparr>vSpent := (vSpent i)[unat (out_n (prevout t)) := pos]\<rparr>, tx)"
  by (simp add: spend_in_def)

lemma connect_loop:
  assumes "act_each (connect_input L E bh tx pos fB fM fS) (enumerate k ins) s = (Inr (), s')"
    and "\<not> diskpos_IsNull pos" and "\<forall>t \<in> set ins. in_range (cn_inputs s) t" and "smap_ok (mapTestPool s)"
  shows "cn_inputs s' = fold (spend_in pos) ins (cn_inputs s)
    \<and> (\<forall>t \<in> set ins. unspent_in (cn_inputs s) t) \<and> distinct (map prevout ins)
    \<and> smap_ok (mapTestPool s')
    \<and> (\<forall>h. map_of (mapTestPool s') h =
         (if (fB \<or> fM) \<and> h \<in> prev_hash_set ins then map_option fst (cn_inputs s' h)
          else map_of (mapTestPool s) h))"
  using assms
proof (induction ins arbitrary: k s)
  case Nil
  then show ?case by (simp add: act_return_def)
next
  case (Cons t ins)
  let ?h = "out_hash (prevout t)"
  obtain s1 where s1: "connect_input L E bh tx pos fB fM fS (k, t) s = (Inr (), s1)"
    "act_each (connect_input L E bh tx pos fB fM fS) (enumerate (Suc k) ins) s1 = (Inr (), s')"
    using Cons.prems(1) by (auto simp: act_then_Inr)
  obtain i p where c: "cn_inputs s ?h = Some (i, p)" "unspent_in (cn_inputs s) t"
      "cn_inputs s1 = spend_in pos t (cn_inputs s)"
      "mapTestPool s1 = (if fB \<or> fM then smap_put ?h
         (i\<lparr>vSpent := (vSpent i)[unat (out_n (prevout t)) := pos]\<rparr>) (mapTestPool s) else mapTestPool s)"
    by (rule connect_input_Inr [OF s1(1)]) blast
  have r: "in_range (cn_inputs s) t" using Cons.prems(3) by simp
  have r1: "\<forall>t \<in> set ins. in_range (cn_inputs s1) t" using Cons.prems(3) by (simp add: c(3) in_range_spend)
  have m1: "smap_ok (mapTestPool s1)" using Cons.prems(4) by (simp add: c(4))
  have ih: "cn_inputs s' = fold (spend_in pos) ins (cn_inputs s1)" "\<forall>t \<in> set ins. unspent_in (cn_inputs s1) t"
      "distinct (map prevout ins)" "smap_ok (mapTestPool s')"
      "\<And>h. map_of (mapTestPool s') h =
         (if (fB \<or> fM) \<and> h \<in> prev_hash_set ins then map_option fst (cn_inputs s' h)
          else map_of (mapTestPool s1) h)"
    using Cons.IH [OF s1(2) Cons.prems(2) r1 m1] by blast+
  have u: "prevout t' \<noteq> prevout t \<and> unspent_in (cn_inputs s) t'" if "t' \<in> set ins" for t'
    using unspent_in_spend [OF _ r Cons.prems(2)] ih(2) that c(3) by simp
  have head: "map_of (mapTestPool s') ?h = map_option fst (cn_inputs s' ?h)"
    if "fB \<or> fM" "?h \<notin> prev_hash_set ins"
  proof -
    have "cn_inputs s' ?h = cn_inputs s1 ?h" unfolding ih(1) using that(2) by (rule fold_spend_other)
    then show ?thesis
      using ih(5) [of ?h] that Cons.prems(4) c(1) by (simp add: c(3,4) spend_in_txindex smap_simps)
  qed
  have other: "map_of (mapTestPool s1) h = map_of (mapTestPool s) h" if "h \<noteq> ?h \<or> \<not> (fB \<or> fM)" for h
    using that Cons.prems(4) by (auto simp: c(4) smap_simps)
  have "map_of (mapTestPool s') h = (if (fB \<or> fM) \<and> h \<in> prev_hash_set (t # ins)
      then map_option fst (cn_inputs s' h) else map_of (mapTestPool s) h)" for h
    using ih(5) [of h] head other [of h] by (cases "h = ?h") auto
  moreover have "prevout t \<notin> prevout ` set ins" "\<forall>t' \<in> set ins. unspent_in (cn_inputs s) t'"
    using u by (metis imageE, blast)
  ultimately show ?case using ih(1,3,4) c(2,3) by simp
qed

lemma verify_script_pure:
  assumes "cache_inv L n c" and "VerifySignature L n txPrev tx i fS 0 c = (ok, c')"
  shows "cache_inv L n c' \<and> (ok \<longrightarrow> unat (out_n (prevout (vin tx ! i))) < length (vout txPrev)
    \<and> out_hash (prevout (vin tx ! i)) = tx_GetHash L txPrev
    \<and> fst (verify_script L (pure_check L tx i 0) (scriptSig (vin tx ! i))
        (scriptPubKey (vout txPrev ! unat (out_n (prevout (vin tx ! i))))) fS ()))"
proof -
  let ?n = "unat (out_n (prevout (vin tx ! i)))"
  have v: "fst (VerifyScript L n sig spk tx i fS 0 c) = fst (verify_script L (pure_check L tx i 0) sig spk fS ())
      \<and> cache_inv L n (snd (VerifyScript L n sig spk tx i fS 0 c))" for sig spk
    using verify_script_sim [where L = L and sig = sig and spk = spk and p = fS and c' = "()",
        OF CheckSig_sim [of L n tx i 0] assms(1)] by (simp add: VerifyScript_def)
  show ?thesis
    using assms v [of "scriptSig (vin tx ! i)" "scriptPubKey (vout txPrev ! ?n)"]
    by (cases "VerifyScript L n (scriptSig (vin tx ! i)) (scriptPubKey (vout txPrev ! ?n)) tx i fS 0 c")
      (auto simp: VerifySignature_def Let_def not_le split: if_splits)
qed

text \<open>Every input is allowed by the script of the output it spends.\<close>

definition script_allows :: "extlib \<Rightarrow> CTransaction \<Rightarrow> MapPrevTx \<Rightarrow> bool \<Rightarrow> nat \<Rightarrow> bool" where
  "script_allows L tx inputs fS i \<longleftrightarrow>
     (\<exists>txindex txPrev. inputs (out_hash (prevout (vin tx ! i))) = Some (txindex, txPrev)
        \<and> out_hash (prevout (vin tx ! i)) = tx_GetHash L txPrev
        \<and> fst (verify_script L (pure_check L tx i 0) (scriptSig (vin tx ! i))
              (scriptPubKey (vout txPrev ! unat (out_n (prevout (vin tx ! i))))) fS ()))"

lemma script_allows_spend: "script_allows L tx (spend_in pos t I) fS i = script_allows L tx I fS i"
  by (auto simp: script_allows_def spend_in_def split: option.splits)

lemma connect_input_script:
  assumes "connect_input L E bh tx pos fB fM fS (i, vin tx ! i) s = (Inr (), s')"
    and "cache_inv L (nMaxSigCacheSize E) (cn_cache s)"
  shows "cache_inv L (nMaxSigCacheSize E) (cn_cache s')
    \<and> (\<not> fDisableSignatureChecking E \<longrightarrow> \<not> (fB \<and> bh < GetTotalBlocksEstimate (fTestNet E)) \<longrightarrow>
         script_allows L tx (cn_inputs s) fS i)"
proof (rule connect_input_Inr [OF assms(1)])
  fix txindex txPrev s1
  assume p: "cn_inputs s (out_hash (prevout (vin tx ! i))) = Some (txindex, txPrev)"
    and v: "if \<not> fDisableSignatureChecking E \<and> \<not> (fB \<and> bh < GetTotalBlocksEstimate (fTestNet E))
         then verify_input L E tx i fS txPrev s = (Inr (), s1) else s1 = s"
    and c: "cn_cache s' = cn_cache s1"
  show ?thesis
  proof (cases "\<not> fDisableSignatureChecking E \<and> \<not> (fB \<and> bh < GetTotalBlocksEstimate (fTestNet E))")
    case True
    then have "verify_input L E tx i fS txPrev s = (Inr (), s1)" using v by simp
    then obtain c1 where c1: "VerifySignature L (nMaxSigCacheSize E) txPrev tx i fS 0 (cn_cache s) = (True, c1)"
        "s1 = s\<lparr>cn_cache := c1\<rparr>"
      by (auto simp: verify_input_def split: prod.splits bool.splits if_splits)
    show ?thesis
      using verify_script_pure [OF assms(2) c1(1)] p c c1(2) by (auto simp: script_allows_def)
  qed (use v c assms(2) in auto)
qed

lemma connect_loop_scripts:
  assumes "act_each (connect_input L E bh tx pos fB fM fS) (enumerate k ins) s = (Inr (), s')"
    and "ins = drop k (vin tx)" and "cache_inv L (nMaxSigCacheSize E) (cn_cache s)"
  shows "cache_inv L (nMaxSigCacheSize E) (cn_cache s')
    \<and> (\<not> fDisableSignatureChecking E \<longrightarrow> \<not> (fB \<and> bh < GetTotalBlocksEstimate (fTestNet E)) \<longrightarrow>
         (\<forall>i. k \<le> i \<longrightarrow> i < length (vin tx) \<longrightarrow> script_allows L tx (cn_inputs s) fS i))"
  using assms
proof (induction ins arbitrary: k s)
  case Nil
  then show ?case by (simp add: act_return_def)
next
  case (Cons t ins)
  have t: "t = vin tx ! k" "ins = drop (Suc k) (vin tx)"
    using Cons.prems(2) by (metis list.inject Cons_nth_drop_Suc drop_eq_Nil linorder_not_le list.distinct(1))+
  obtain s1 where s1: "connect_input L E bh tx pos fB fM fS (k, t) s = (Inr (), s1)"
    "act_each (connect_input L E bh tx pos fB fM fS) (enumerate (Suc k) ins) s1 = (Inr (), s')"
    using Cons.prems(1) by (auto simp: act_then_Inr)
  have sp: "cn_inputs s1 = spend_in pos t (cn_inputs s)" by (rule connect_input_Inr [OF s1(1)])
  note h = connect_input_script [OF s1(1) [unfolded t(1)] Cons.prems(3)]
  have "\<forall>i. k \<le> i \<longrightarrow> i < length (vin tx) \<longrightarrow> script_allows L tx (cn_inputs s) fS i"
    if "\<forall>i. Suc k \<le> i \<longrightarrow> i < length (vin tx) \<longrightarrow> script_allows L tx (cn_inputs s1) fS i"
      "script_allows L tx (cn_inputs s) fS k"
    using that by (metis Suc_leI le_neq_implies_less script_allows_spend sp)
  then show ?case using Cons.IH [OF s1(2) t(2) conjunct1 [OF h]] h by blast
qed

lemma check_fee_Inr:
  assumes "check_fee tx v fB = Inr ()" and "\<not> IsCoinStake tx"
  shows "sum_list (map nValue (vout tx)) + GetMinFee tx 1 False GMF_BLOCK 0 \<le> v"
proof -
  obtain w where w: "GetValueOut tx = Inr w"
    using assms by (auto simp: check_fee_def split: sum.splits)
  then show ?thesis
    using assms GetValueOut_Inr [OF w] by (auto simp: check_fee_def Let_def split: if_splits)
qed

lemma ConnectInputs_steps:
  assumes "ConnectInputs L E bh tx inputs pos ch fB fM fS (pool, c) = (Inr (), pool', c')"
    and "\<not> IsCoinBase tx"
  obtains v s where "check_inputs tx inputs ch 0 (vin tx) = Inr v" and "check_fee tx v fB = Inr ()"
    and "act_each (connect_input L E bh tx pos fB fM fS) (enumerate 0 (vin tx))
           \<lparr>cn_inputs = inputs, mapTestPool = pool, cn_cache = c\<rparr> = (Inr (), s)"
    and "pool' = mapTestPool s" and "c' = cn_cache s"
proof -
  obtain v where v: "check_inputs tx inputs ch 0 (vin tx) = Inr v"
    using assms by (auto simp: ConnectInputs_def split: sum.splits)
  obtain s where s: "act_then (act_each (connect_input L E bh tx pos fB fM fS) (enumerate 0 (vin tx)))
      (act_lift (check_fee tx v fB)) \<lparr>cn_inputs = inputs, mapTestPool = pool, cn_cache = c\<rparr> = (Inr (), s)"
      "pool' = mapTestPool s" "c' = cn_cache s"
    using assms v by (auto simp: ConnectInputs_def split: prod.splits)
  then obtain u where "act_each (connect_input L E bh tx pos fB fM fS) (enumerate 0 (vin tx))
      \<lparr>cn_inputs = inputs, mapTestPool = pool, cn_cache = c\<rparr> = (Inr u, s)" "check_fee tx v fB = Inr ()"
    by (auto simp: act_then_Inr act_lift_def)
  then show ?thesis using that v s(2,3) by simp
qed

lemma ConnectInputs_effect:
  assumes "ConnectInputs L E bh tx inputs pos ch fB fM fS (pool, c) = (Inr (), pool', c')"
    and "\<not> IsCoinBase tx" and "\<not> diskpos_IsNull pos" and "smap_ok pool"
  shows "distinct (map prevout (vin tx))
    \<and> (\<forall>t \<in> set (vin tx). input_valid tx inputs ch t \<and> unspent_in inputs t \<and> MoneyRange (in_value inputs t))
    \<and> MoneyRange (sum_list (map (in_value inputs) (vin tx)))
    \<and> (\<not> IsCoinStake tx \<longrightarrow> sum_list (map nValue (vout tx)) + GetMinFee tx 1 False GMF_BLOCK 0
         \<le> sum_list (map (in_value inputs) (vin tx)))
    \<and> smap_ok pool'
    \<and> (\<forall>h. map_of pool' h =
         (if (fB \<or> fM) \<and> h \<in> prev_hash_set (vin tx)
          then map_option fst (fold (spend_in pos) (vin tx) inputs h) else map_of pool h))"
proof (rule ConnectInputs_steps [OF assms(1,2)])
  fix v s
  assume v: "check_inputs tx inputs ch 0 (vin tx) = Inr v" and f: "check_fee tx v fB = Inr ()"
    and a: "act_each (connect_input L E bh tx pos fB fM fS) (enumerate 0 (vin tx))
           \<lparr>cn_inputs = inputs, mapTestPool = pool, cn_cache = c\<rparr> = (Inr (), s)"
    and pool': "pool' = mapTestPool s"
  have val: "MoneyRange v" "v = sum_list (map (in_value inputs) (vin tx))"
      "\<forall>t \<in> set (vin tx). input_valid tx inputs ch t \<and> MoneyRange (in_value inputs t)"
    using check_inputs_value [OF v] by (simp_all add: amounts)
  then have "\<forall>t \<in> set (vin tx). in_range inputs t" by (fastforce simp: input_valid_def in_range_def)
  then have l: "cn_inputs s = fold (spend_in pos) (vin tx) inputs"
      "\<forall>t \<in> set (vin tx). unspent_in inputs t" "distinct (map prevout (vin tx))" "smap_ok (mapTestPool s)"
      "\<forall>h. map_of (mapTestPool s) h = (if (fB \<or> fM) \<and> h \<in> prev_hash_set (vin tx)
         then map_option fst (cn_inputs s h) else map_of pool h)"
    using connect_loop [OF a assms(3)] assms(4) by simp_all
  show ?thesis
    using l val check_fee_Inr [OF f] unfolding pool' by simp
qed

section \<open>Taking back\<close>

text \<open>
  The index of transactions as a function, and what connecting and disconnecting a transaction
  mean for it: the outputs it spends carry its position, and its own record appears.
\<close>

type_synonym tx_map = "u256 \<rightharpoonup> CTxIndex"

definition mark :: "CDiskTxPos \<Rightarrow> CTxIn \<Rightarrow> tx_map \<Rightarrow> tx_map" where
  "mark pos txin T =
     (case T (out_hash (prevout txin)) of None \<Rightarrow> T
      | Some i \<Rightarrow> T(out_hash (prevout txin) \<mapsto> i\<lparr>vSpent := (vSpent i)[unat (out_n (prevout txin)) := pos]\<rparr>))"

definition connected :: "extlib \<Rightarrow> CTransaction \<Rightarrow> CDiskTxPos \<Rightarrow> tx_map \<Rightarrow> tx_map" where
  "connected L tx pos T =
     ((if IsCoinBase tx then T else fold (mark pos) (vin tx) T)
        (tx_GetHash L tx \<mapsto> txindex_new pos (length (vout tx))))"

definition disconnected :: "extlib \<Rightarrow> CTransaction \<Rightarrow> tx_map \<Rightarrow> tx_map" where
  "disconnected L tx T =
     ((if IsCoinBase tx then T else fold (mark diskpos_null) (vin tx) T)(tx_GetHash L tx := None))"

definition free_out :: "tx_map \<Rightarrow> CTxIn \<Rightarrow> bool" where
  "free_out T txin \<longleftrightarrow> (\<exists>i. T (out_hash (prevout txin)) = Some i
     \<and> unat (out_n (prevout txin)) < length (vSpent i)
     \<and> vSpent i ! unat (out_n (prevout txin)) = diskpos_null)"

lemma mark_other: "h \<noteq> out_hash (prevout t) \<Longrightarrow> mark pos t T h = T h"
  by (simp add: mark_def split: option.split)

lemma fold_mark_other: "h \<notin> prev_hash_set ins \<Longrightarrow> fold (mark pos) ins T h = T h"
  by (induction ins arbitrary: T) (auto simp: mark_other)

lemma mark_commute: "prevout s \<noteq> prevout t \<Longrightarrow> mark p s (mark q t T) = mark q t (mark p s T)"
proof (cases "out_hash (prevout s) = out_hash (prevout t)")
  case True
  assume "prevout s \<noteq> prevout t"
  then have "unat (out_n (prevout s)) \<noteq> unat (out_n (prevout t))"
    using True by (metis COutPoint.exhaust_sel word_eq_iff_unat)
  then show ?thesis
    using True by (cases "T (out_hash (prevout t))") (simp_all add: mark_def list_update_swap)
qed (auto simp: mark_def fun_upd_twist split: option.splits)

lemma list_update_same: "xs ! n = x \<Longrightarrow> xs[n := x] = xs"
  by auto

lemma mark_upd: "h \<noteq> out_hash (prevout t) \<Longrightarrow> mark p t (T(h := x)) = (mark p t T)(h := x)"
  by (cases "T (out_hash (prevout t))") (auto simp: mark_def fun_upd_twist)

lemma mark_back: "free_out T t \<Longrightarrow> mark diskpos_null t (mark pos t T) = T"
  by (auto simp: free_out_def mark_def list_update_same fun_upd_idem)

lemma fold_mark_commute:
  "prevout t \<notin> prevout ` set ins \<Longrightarrow> fold (mark p) ins (mark q t T) = mark q t (fold (mark p) ins T)"
proof (induction ins arbitrary: T)
  case (Cons s ins)
  then have "mark p s (mark q t T) = mark q t (mark p s T)" by (intro mark_commute) auto
  then show ?case using Cons by simp
qed simp

lemma free_out_mark: "prevout s \<noteq> prevout t \<Longrightarrow> free_out T s \<Longrightarrow> free_out (mark p t T) s"
proof (cases "out_hash (prevout s) = out_hash (prevout t)")
  case True
  assume "prevout s \<noteq> prevout t" "free_out T s"
  moreover have "unat (out_n (prevout s)) \<noteq> unat (out_n (prevout t))"
    using True calculation(1) by (metis COutPoint.exhaust_sel word_eq_iff_unat)
  ultimately show ?thesis using True by (auto simp: free_out_def mark_def)
qed (simp add: free_out_def mark_other)

lemma fold_mark_back:
  assumes "distinct (map prevout ins)" and "\<forall>t \<in> set ins. free_out T t"
  shows "fold (mark diskpos_null) ins (fold (mark pos) ins T) = T"
  using assms
proof (induction ins arbitrary: T)
  case (Cons t ins)
  have "\<forall>s \<in> set ins. free_out T s" "free_out T t" "prevout t \<notin> prevout ` set ins" using Cons.prems by auto
  then have "fold (mark diskpos_null) (t # ins) (fold (mark pos) (t # ins) T)
      = fold (mark diskpos_null) ins (mark diskpos_null t (mark pos t (fold (mark pos) ins T)))"
    by (simp add: fold_mark_commute)
  also have "mark diskpos_null t (mark pos t (fold (mark pos) ins T)) = fold (mark pos) ins T"
  proof (rule mark_back)
    have "fold (mark pos) ins T = fold (mark pos) ins T \<Longrightarrow> free_out T t \<Longrightarrow> prevout t \<notin> prevout ` set ins \<Longrightarrow>
        free_out (fold (mark pos) ins T) t" for T
      by (induction ins arbitrary: T) (auto simp: free_out_mark)
    then show "free_out (fold (mark pos) ins T) t"
      using \<open>free_out T t\<close> \<open>prevout t \<notin> prevout ` set ins\<close> by blast
  qed
  finally show ?case using Cons.IH Cons.prems by simp
qed simp

lemma disconnected_connected:
  assumes "\<not> IsCoinBase tx \<longrightarrow> distinct (map prevout (vin tx)) \<and> (\<forall>t \<in> set (vin tx). free_out T t)"
    and "\<not> IsCoinBase tx \<longrightarrow> tx_GetHash L tx \<notin> prev_hash_set (vin tx)"
  shows "disconnected L tx (connected L tx pos T) = T(tx_GetHash L tx := None)"
proof (cases "IsCoinBase tx")
  case False
  have upd: "h \<notin> prev_hash_set ins \<Longrightarrow> fold (mark p) ins (T(h := x)) = (fold (mark p) ins T)(h := x)"
    for ins p T h and x :: "CTxIndex option"
    by (induction ins arbitrary: T) (auto simp: mark_upd)
  then show ?thesis
    using False assms fold_mark_back [of "vin tx" T pos] by (simp add: disconnected_def connected_def)
qed (simp add: disconnected_def connected_def)

section \<open>Operations inside a database transaction\<close>

text \<open>With a batch active the store itself does not change, whatever fails.\<close>

definition db_kept :: "CTxDB \<Rightarrow> CTxDB \<Rightarrow> bool" where
  "db_kept db db' \<longleftrightarrow> (activeBatch db \<noteq> None \<longrightarrow> activeBatch db' \<noteq> None \<and> ldb_store db' = ldb_store db)
     \<and> (db_ok db \<longrightarrow> db_ok db')"

definition keeps_db :: "(CTxDB, 'a) action \<Rightarrow> bool" where
  "keeps_db m \<longleftrightarrow> (\<forall>db. db_kept db (snd (m db)))"

named_theorems keeps_rules \<open>operations that keep the store inside a transaction\<close>
lemma db_kept_refl [simp]: "db_kept db db"
  by (simp add: db_kept_def)

lemma db_kept_trans: "db_kept a b \<Longrightarrow> db_kept b c \<Longrightarrow> db_kept a c"
  by (auto simp: db_kept_def)

lemma keeps_dbD: "keeps_db m \<Longrightarrow> m db = (r, db') \<Longrightarrow> db_kept db db'"
  by (metis keeps_db_def snd_conv)

lemma keeps_Write [keeps_rules]: "keeps_db (db_Write k v)"
  by (auto simp: keeps_db_def db_kept_def db_Write_def ldb_Write_def db_ok_def split: option.splits)

lemma keeps_Erase [keeps_rules]: "keeps_db (db_Erase k)"
  by (auto simp: keeps_db_def db_kept_def db_Erase_def ldb_Write_def db_ok_def split: option.splits)

lemma keeps_return [keeps_rules]: "keeps_db (act_return x)" "keeps_db (act_fail e)" "keeps_db (act_check b e)"
  by (simp_all add: keeps_db_def act_simps)

lemma keeps_then [keeps_rules]: "keeps_db m \<Longrightarrow> keeps_db k \<Longrightarrow> keeps_db (act_then m k)"
  unfolding keeps_db_def act_then_def act_bind_def
  by (auto split: prod.splits sum.splits) (metis db_kept_trans snd_conv)+

lemma keeps_try [keeps_rules]: "keeps_db m \<Longrightarrow> keeps_db (act_try m)"
  unfolding keeps_db_def act_try_def
  by (auto split: prod.splits sum.splits failure.splits) (metis snd_conv)+

lemma keeps_each [keeps_rules]: "(\<And>x. keeps_db (f x)) \<Longrightarrow> keeps_db (act_each f xs)"
  by (induction xs) (simp_all add: keeps_rules)

lemma keeps_release [keeps_rules]: "keeps_db (release_input t)"
  unfolding keeps_db_def
proof
  fix db
  show "db_kept db (snd (release_input t db))"
    using keeps_Write by (auto simp: release_input_def UpdateTxIndex_def Let_def keeps_db_def split: option.split)
qed

lemma keeps_DisconnectInputs [keeps_rules]: "keeps_db (DisconnectInputs L tx)"
  unfolding DisconnectInputs_def EraseTxIndex_def
  by (cases "IsCoinBase tx") (simp_all add: keeps_rules)

section \<open>DisconnectInputs implements the specification\<close>

abbreviation tx_index_of :: "CTxDB \<Rightarrow> tx_map" where
  "tx_index_of db \<equiv> \<lambda>h. ReadTxIndex h db"

definition releasable :: "tx_map \<Rightarrow> CTxIn \<Rightarrow> bool" where
  "releasable T t \<longleftrightarrow> (\<exists>i. T (out_hash (prevout t)) = Some i \<and> unat (out_n (prevout t)) < length (vSpent i)
     \<and> dp_blockHash (vSpent i ! unat (out_n (prevout t))) = 0 \<and> txindex_fits i)"

lemma releasable_mark:
  "releasable T s \<Longrightarrow> dp_blockHash p = 0 \<Longrightarrow> releasable (mark p t T) s"
proof (cases "out_hash (prevout s) = out_hash (prevout t)")
  case True
  assume "releasable T s" "dp_blockHash p = 0"
  then show ?thesis
    using True by (cases "unat (out_n (prevout s)) = unat (out_n (prevout t))")
      (auto simp: releasable_def mark_def txindex_fits_def)
qed (simp add: releasable_def mark_other)

lemma blockHash_diskpos [simp]: "dp_blockHash (diskpos f b t) = 0" "dp_blockHash diskpos_null = 0"
  by (simp_all add: diskpos_null_def diskpos_def)

lemma releasable_fold: "releasable T s \<Longrightarrow> dp_blockHash p = 0 \<Longrightarrow> releasable (fold (mark p) ins T) s"
  by (induction ins arbitrary: T) (simp_all add: releasable_mark)

lemma release_input_spec:
  assumes "db_ok db" and "releasable (tx_index_of db) t"
  shows "\<exists>db'. release_input t db = (Inr (), db') \<and> db_ok db'
    \<and> tx_index_of db' = mark diskpos_null t (tx_index_of db)"
proof -
  let ?h = "out_hash (prevout t)" and ?n = "unat (out_n (prevout t))"
  obtain i where i: "ReadTxIndex ?h db = Some i" "?n < length (vSpent i)" "dp_blockHash (vSpent i ! ?n) = 0"
      "txindex_fits i"
    using assms(2) by (auto simp: releasable_def)
  have n: "diskpos_SetNull (vSpent i ! ?n) = diskpos_null"
    using i(3) by (simp add: diskpos_SetNull_def diskpos_null_def diskpos_def)
  define i' where "i' = i\<lparr>vSpent := (vSpent i)[?n := diskpos_null]\<rparr>"
  have "txindex_fits i'" using i(4) by (simp add: i'_def txindex_fits_def)
  then obtain db' where db': "UpdateTxIndex ?h i' db = (Inr (), db')" "db_ok db'"
      "\<forall>h'. ReadTxIndex h' db' = (if h' = ?h then Some i' else ReadTxIndex h' db)"
    using txidx.update_law [OF assms(1)] by blast
  have "tx_index_of db' = mark diskpos_null t (tx_index_of db)"
    using db'(3) i(1) by (auto simp: mark_def i'_def)
  then show ?thesis
    using db'(1,2) i(1,2) by (auto simp: release_input_def Let_def n i'_def)
qed

lemma release_inputs_spec:
  assumes "db_ok db" and "\<forall>t \<in> set ins. releasable (tx_index_of db) t"
  shows "\<exists>db'. act_each release_input ins db = (Inr (), db') \<and> db_ok db'
    \<and> tx_index_of db' = fold (mark diskpos_null) ins (tx_index_of db)"
  using assms
proof (induction ins arbitrary: db)
  case Nil
  then show ?case by (simp add: act_return_def)
next
  case (Cons t ins)
  obtain db1 where 1: "release_input t db = (Inr (), db1)" "db_ok db1"
      "tx_index_of db1 = mark diskpos_null t (tx_index_of db)"
    using release_input_spec [OF Cons.prems(1)] Cons.prems(2) by auto
  have "\<forall>t \<in> set ins. releasable (tx_index_of db1) t"
    using Cons.prems(2) by (simp add: 1(3) releasable_mark)
  then show ?case using Cons.IH [OF 1(2)] 1 by (auto simp: act_simps)
qed

lemma DisconnectInputs_spec:
  assumes "db_ok db" and "\<not> IsCoinBase tx \<Longrightarrow> \<forall>t \<in> set (vin tx). releasable (tx_index_of db) t"
  shows "\<exists>db'. DisconnectInputs L tx db = (Inr (), db') \<and> db_ok db'
    \<and> tx_index_of db' = disconnected L tx (tx_index_of db)"
proof -
  define m where "m = (if \<not> IsCoinBase tx then act_each release_input (vin tx) else act_return ())"
  obtain db1 where 1: "m db = (Inr (), db1)" "db_ok db1"
      "tx_index_of db1 = (if IsCoinBase tx then tx_index_of db else fold (mark diskpos_null) (vin tx) (tx_index_of db))"
    using release_inputs_spec [OF assms] assms(1) by (cases "IsCoinBase tx") (auto simp: m_def act_return_def)
  obtain db2 where 2: "EraseTxIndex L tx db1 = (Inr (), db2)" "db_ok db2"
      "\<forall>h'. ReadTxIndex h' db2 = (if h' = tx_GetHash L tx then None else ReadTxIndex h' db1)"
    using txidx.erase_law [OF 1(2), of "tx_GetHash L tx"] by (auto simp: EraseTxIndex_def)
  have "DisconnectInputs L tx db = (Inr (), db2)"
    using 1(1) 2(1) by (simp add: DisconnectInputs_def m_def [symmetric] act_simps act_try_def)
  moreover have "tx_index_of db2 = disconnected L tx (tx_index_of db)"
    using 2(3) by (auto simp: disconnected_def 1(3) [symmetric])
  ultimately show ?thesis using 2(2) by blast
qed

section \<open>Admission keeps the pool consistent\<close>
lemma accept_inputs_pool:
  "accept_inputs L E bh ch db fs tx s = (r, s') \<Longrightarrow> ac_pool s' = ac_pool s"
  by (auto simp: accept_inputs_def Let_def split: sum.splits prod.splits if_splits)

lemma pool_accept_cases:
  assumes "pool_accept L E bh ch db fs tx fCheck s = (r, s')"
  shows "(r = Inr (True, False) \<or> fst (accept_inputs L E bh ch db fs tx s) = r \<and> fCheck \<or> (\<exists>e. r = Inl e))
    \<and> (if \<exists>m. r = Inr (True, m)
       then CheckTransaction tx = Inr () \<and> \<not> IsCoinBase tx \<and> \<not> IsCoinStake tx
         \<and> map_of (mapTx (ac_pool s)) (tx_GetHash L tx) = None
         \<and> (\<forall>i \<in> set (vin tx). map_of (mapNextTx (ac_pool s)) (prevout i) = None)
         \<and> (fCheck \<longrightarrow> \<not> ContainsTx (tx_GetHash L tx) db
              \<and> (\<exists>m. fst (accept_inputs L E bh ch db fs tx s) = Inr (True, m)))
         \<and> ac_pool s' = pool_addUnchecked (tx_GetHash L tx) tx (ac_pool s)
       else ac_pool s' = ac_pool s)"
proof (cases "CheckTransaction tx = Inr () \<and> \<not> IsCoinBase tx \<and> \<not> IsCoinStake tx
    \<and> \<not> 2147483647 < int (unat (nLockTime tx))
    \<and> \<not> (\<not> fTestNet E \<and> \<not> tx_IsStandard bh (adjustedTime E) tx)
    \<and> \<not> smap_count (tx_GetHash L tx) (mapTx (ac_pool s)) \<and> \<not> (fCheck \<and> ContainsTx (tx_GetHash L tx) db)
    \<and> \<not> list_ex (\<lambda>txin. smap_count (prevout txin) (mapNextTx (ac_pool s))) (vin tx)")
  case False
  then show ?thesis using assms by (auto simp: pool_accept_def Let_def split: sum.splits if_splits)
next
  case True
  then have c: "CheckTransaction tx = Inr ()" "\<not> IsCoinBase tx" "\<not> IsCoinStake tx"
      "map_of (mapTx (ac_pool s)) (tx_GetHash L tx) = None"
      "\<forall>i \<in> set (vin tx). map_of (mapNextTx (ac_pool s)) (prevout i) = None"
      "fCheck \<Longrightarrow> \<not> ContainsTx (tx_GetHash L tx) db"
    by (auto simp: smap_count_def list_ex_iff)
  from True have g: "CheckTransaction tx = Inr ()" "IsCoinBase tx = False" "IsCoinStake tx = False"
      "(2147483647 < int (unat (nLockTime tx))) = False"
      "(\<not> fTestNet E \<and> \<not> tx_IsStandard bh (adjustedTime E) tx) = False"
      "smap_count (tx_GetHash L tx) (mapTx (ac_pool s)) = False"
      "(fCheck \<and> ContainsTx (tx_GetHash L tx) db) = False"
      "list_ex (\<lambda>txin. smap_count (prevout txin) (mapNextTx (ac_pool s))) (vin tx) = False"
    by blast+
  define a where "a = (if fCheck then accept_inputs L E bh ch db fs tx s else (Inr (True, False), s))"
  have e: "(case a of (Inr (True, m), s) \<Rightarrow> (Inr (True, m), s\<lparr>ac_pool := pool_addUnchecked (tx_GetHash L tx) tx (ac_pool s)\<rparr>)
      | r \<Rightarrow> r) = (r, s')"
    using assms unfolding a_def pool_accept_def Let_def g sum.case if_False .
  obtain ra sa where a: "a = (ra, sa)" by fastforce
  have p: "ac_pool sa = ac_pool s" "fCheck \<Longrightarrow> fst (accept_inputs L E bh ch db fs tx s) = ra"
      "\<not> fCheck \<Longrightarrow> ra = Inr (True, False)"
    using a accept_inputs_pool [of L E bh ch db fs tx s ra sa] by (auto simp: a_def split: if_splits)
  show ?thesis
  proof (cases "\<exists>m. ra = Inr (True, m)")
    case True
    then obtain m where m: "ra = Inr (True, m)" by blast
    have r: "r = Inr (True, m)" "s' = sa\<lparr>ac_pool := pool_addUnchecked (tx_GetHash L tx) tx (ac_pool s)\<rparr>"
      using e m by (simp_all add: a p(1))
    have "fCheck \<Longrightarrow> fst (accept_inputs L E bh ch db fs tx s) = Inr (True, m)" "\<not> fCheck \<Longrightarrow> m = False"
      using p(2,3) m by simp_all
    then show ?thesis using c r by (cases fCheck) auto
  next
    case False
    then have "r = ra" "s' = sa" using e by (auto simp: a split: sum.splits prod.splits bool.splits)
    moreover have "\<not> (\<exists>m. r = Inr (True, m))" using False \<open>r = ra\<close> by simp
    moreover have "fCheck" using False p(3) by blast
    ultimately show ?thesis using p(1,2) by metis
  qed
qed

section \<open>Properties\<close>

text \<open>C8: 
  No double spend, no theft, no inflation by a connected transaction. If \<open>ConnectInputs\<close>
  succeeds on a transaction that is not a coinbase, its inputs name distinct outputs that exist,
  are mature, not younger than the transaction, and not spent before; where signatures are
  checked, the script of every output it spends allows the input; the values of the inputs add up within the money
  range, and unless it is a coinstake they cover its outputs and the least fee. When a block is
  connected, exactly the records of the transactions it spends from are queued, with exactly
  those outputs marked by its position.
\<close>
theorem ConnectInputs_sound:
  assumes "ConnectInputs L E bh tx inputs pos ch fB fM fS (pool, c) = (Inr (), pool', c')"
    and "\<not> IsCoinBase tx" and "\<not> diskpos_IsNull pos" and "smap_ok pool"
    and "cache_inv L (nMaxSigCacheSize E) c"
  shows "distinct (map prevout (vin tx))
    \<and> (\<forall>t \<in> set (vin tx). input_valid tx inputs ch t \<and> unspent_in inputs t \<and> MoneyRange (in_value inputs t))
    \<and> (\<not> fDisableSignatureChecking E \<longrightarrow> \<not> (fB \<and> bh < GetTotalBlocksEstimate (fTestNet E)) \<longrightarrow>
         (\<forall>i < length (vin tx). script_allows L tx inputs fS i))
    \<and> MoneyRange (sum_list (map (in_value inputs) (vin tx)))
    \<and> (\<not> IsCoinStake tx \<longrightarrow> sum_list (map nValue (vout tx)) + GetMinFee tx 1 False GMF_BLOCK 0
         \<le> sum_list (map (in_value inputs) (vin tx)))
    \<and> (\<forall>h. map_of pool' h =
         (if (fB \<or> fM) \<and> h \<in> prev_hash_set (vin tx)
          then map_option fst (fold (spend_in pos) (vin tx) inputs h) else map_of pool h))"
proof (rule ConnectInputs_steps [OF assms(1,2)])
  fix v s
  assume a: "act_each (connect_input L E bh tx pos fB fM fS) (enumerate 0 (vin tx))
           \<lparr>cn_inputs = inputs, mapTestPool = pool, cn_cache = c\<rparr> = (Inr (), s)"
  show ?thesis
    using connect_loop_scripts [OF a] assms(5) ConnectInputs_effect [OF assms(1-4)] by simp
qed

text \<open>
  Disconnecting undoes connecting. Let a transaction be connected at a place on disk to an index
  in which the outputs it spends were free: \<open>DisconnectInputs\<close> then succeeds and leaves
  exactly the index of before, without the record of the transaction itself.
\<close>
theorem disconnect_undoes_connect:
  assumes "db_ok db" and "tx_index_of db = connected L tx (diskpos f b p) T"
    and "\<not> IsCoinBase tx \<longrightarrow> distinct (map prevout (vin tx))
      \<and> (\<forall>t \<in> set (vin tx). free_out T t \<and> (\<forall>i. T (out_hash (prevout t)) = Some i \<longrightarrow> txindex_fits i))
      \<and> tx_GetHash L tx \<notin> prev_hash_set (vin tx)"
  shows "\<exists>db'. DisconnectInputs L tx db = (Inr (), db') \<and> db_ok db'
    \<and> tx_index_of db' = T(tx_GetHash L tx := None)"
proof -
  have r: "releasable (tx_index_of db) t" if "\<not> IsCoinBase tx" "t \<in> set (vin tx)" for t
  proof -
    have "releasable T t" using assms(3) that by (auto simp: releasable_def free_out_def)
    then have "releasable (fold (mark (diskpos f b p)) (vin tx) T) t" by (rule releasable_fold) simp
    moreover have "out_hash (prevout t) \<in> prev_hash_set (vin tx)" using that(2) by blast
    then have "out_hash (prevout t) \<noteq> tx_GetHash L tx" using assms(3) that(1) by metis
    ultimately show ?thesis using that(1) by (simp add: assms(2) connected_def releasable_def)
  qed
  have "disconnected L tx (connected L tx (diskpos f b p) T) = T(tx_GetHash L tx := None)"
    by (rule disconnected_connected) (use assms(3) in auto)
  then show ?thesis using DisconnectInputs_spec [OF assms(1), of tx L] r assms(2) by auto
qed

lemma pool_spent:
  assumes "pool_ok L p" and "map_of (mapTx p) h = Some t" and "i \<in> set (vin t)"
  shows "map_of (mapNextTx p) (prevout i) \<noteq> None"
proof -
  obtain n where n: "n < length (vin t)" "vin t ! n = i" using assms(3) by (auto simp: in_set_conv_nth)
  have "pool_spends (mapTx p) (prevout i) (CInPoint h n)" using assms(2) n by (simp add: pool_spends_def)
  then have "map_of (mapNextTx p) (prevout i) = Some (CInPoint h n)" by (rule pool_okD(4) [OF assms(1), THEN iffD2])
  then show ?thesis by simp
qed

text \<open>C9: 
  Admission to the memory pool keeps it consistent: whatever the transaction, \<open>accept\<close> leaves a
  pool without double spends. If it answers true the transaction was new, valid without
  context, neither coinbase nor coinstake, had its inputs connected where that was asked for,
  and spends nothing any transaction of the pool spends; it is added, and every transaction
  that was in the pool stays there. Otherwise the pool is unchanged.
\<close>
theorem accept_keeps_pool:
  assumes "pool_ok L (ac_pool s)" and "pool_accept L E bh ch db fs tx fCheck s = (r, s')"
  shows "pool_ok L (ac_pool s')
    \<and> ((\<exists>m. r = Inr (True, m)) \<longrightarrow> CheckTransaction tx = Inr () \<and> \<not> IsCoinBase tx \<and> \<not> IsCoinStake tx
         \<and> map_of (mapTx (ac_pool s)) (tx_GetHash L tx) = None
         \<and> (\<forall>i \<in> set (vin tx). map_of (mapNextTx (ac_pool s)) (prevout i) = None)
         \<and> (\<forall>h t. map_of (mapTx (ac_pool s)) h = Some t \<longrightarrow> prevout ` set (vin tx) \<inter> prevout ` set (vin t) = {})
         \<and> (fCheck \<longrightarrow> \<not> ContainsTx (tx_GetHash L tx) db
              \<and> (\<exists>m. fst (accept_inputs L E bh ch db fs tx s) = Inr (True, m)))
         \<and> (\<forall>h. map_of (mapTx (ac_pool s')) h =
              (if h = tx_GetHash L tx then Some tx else map_of (mapTx (ac_pool s)) h)))
    \<and> (\<not> (\<exists>m. r = Inr (True, m)) \<longrightarrow> ac_pool s' = ac_pool s)"
proof (cases "\<exists>m. r = Inr (True, m)")
  case True
  then have c: "CheckTransaction tx = Inr ()" "\<not> IsCoinBase tx" "\<not> IsCoinStake tx"
      "map_of (mapTx (ac_pool s)) (tx_GetHash L tx) = None"
      "\<forall>i \<in> set (vin tx). map_of (mapNextTx (ac_pool s)) (prevout i) = None"
      "fCheck \<longrightarrow> \<not> ContainsTx (tx_GetHash L tx) db \<and> (\<exists>m. fst (accept_inputs L E bh ch db fs tx s) = Inr (True, m))"
      "ac_pool s' = pool_addUnchecked (tx_GetHash L tx) tx (ac_pool s)"
    using pool_accept_cases [OF assms(2)] by auto
  have "distinct (map prevout (vin tx))" using c(1) by (simp add: CheckTransaction_cases check_duplicates_iff)
  then have "pool_ok L (ac_pool s')" using pool_add_ok [OF assms(1) c(4) _ c(5)] c(7) by simp
  moreover have "map_of (mapTx (ac_pool s')) h = (if h = tx_GetHash L tx then Some tx else map_of (mapTx (ac_pool s)) h)" for h
    using pool_okD(1) [OF assms(1)] by (simp add: c(7) pool_addUnchecked_def smap_simps)
  moreover have "prevout ` set (vin tx) \<inter> prevout ` set (vin t) = {}" if "map_of (mapTx (ac_pool s)) h = Some t" for h t
    using pool_spent [OF assms(1) that] c(5) by fastforce
  ultimately show ?thesis using c True by blast
next
  case False
  then show ?thesis using pool_accept_cases [OF assms(2)] assms(1) by auto
qed

section \<open>Witnesses\<close>

definition fund_tx :: CTransaction where
  "fund_tx = \<lparr>tx_nVersion = 1, tx_nTime = 5, vin = [txin_new (COutPoint 7 1) [1, 2]],
     vout = [\<lparr>nValue = 5000, scriptPubKey = [0x51]\<rparr>], nLockTime = 0\<rparr>"

definition fund_hash :: u256 where "fund_hash = tx_GetHash ref_lib fund_tx"

definition take_tx :: CTransaction where
  "take_tx = \<lparr>tx_nVersion = 1, tx_nTime = 6, vin = [txin_new (COutPoint fund_hash 0) []],
     vout = [\<lparr>nValue = 4000, scriptPubKey = [0x51]\<rparr>], nLockTime = 0\<rparr>"

definition fund_inputs :: MapPrevTx where
  "fund_inputs = [fund_hash \<mapsto> (txindex_new (diskpos 1 8 90) 1, fund_tx)]"

definition env_test :: node_env where
  "env_test = \<lparr>fTestNet = False, nMaxSigCacheSize = 10, fDisableSignatureChecking = False, adjustedTime = 9,
     fUseFastIndex = True, fNoSyncCheckpoints = False, fInitialDownload = False\<rparr>"

definition cache_empty :: CSignatureCache where
  "cache_empty = \<lparr>setValid = [], sc_random = (\<lambda>_. 0), sc_drawn = 0\<rparr>"

lemma cache_inv_empty: "cache_inv L n cache_empty"
  by (simp add: cache_inv_def cache_empty_def)

lemma take_verified: "fst (verify_script ref_lib (pure_check ref_lib tx 0 0) [] [0x51] True ())"
  by code_simp

lemma take_fee: "check_fee take_tx 5000 True = Inr ()"
proof -
  have "GetMinFee take_tx 1 False GMF_BLOCK 0 = 1000"
    unfolding GetMinFee_value
    by (simp add: take_tx_def txin_new_def tx_size_def vector_size_def txin_size_def txout_size_def
        bytes_size_def GetSizeOfCompactSize_def amounts Let_def)
  then show ?thesis
    by (simp add: check_fee_def take_tx_def IsCoinStake_def GetValueOut_def amounts Let_def)
qed

lemma take_signature:
  "\<exists>c. VerifySignature ref_lib 10 fund_tx take_tx 0 True 0 cache_empty = (True, c)"
proof -
  have v: "fst (VerifyScript ref_lib 10 [] [0x51] take_tx 0 True 0 cache_empty) = True"
    using verify_script_sim [where L = ref_lib and sig = "[]" and spk = "[0x51]" and p = True and c' = "()",
        OF CheckSig_sim [of ref_lib 10 take_tx 0 0] cache_inv_empty] take_verified
    by (simp add: VerifyScript_def)
  have "VerifySignature ref_lib 10 fund_tx take_tx 0 True 0 cache_empty
      = VerifyScript ref_lib 10 [] [0x51] take_tx 0 True 0 cache_empty"
    by (simp add: VerifySignature_def Let_def take_tx_def txin_new_def fund_hash_def) (simp add: fund_tx_def)
  then show ?thesis using v by (metis prod.collapse)
qed

lemma take_not_base: "\<not> IsCoinBase take_tx"
  by (simp add: IsCoinBase_def take_tx_def txin_new_def outpoint_IsNull_def)

lemma take_connects:
  "\<exists>pool' c'. ConnectInputs ref_lib env_test 3000000 take_tx fund_inputs (diskpos 1 200 290) [] True False True
      ([], cache_empty) = (Inr (), pool', c')"
proof -
  obtain c where c: "VerifySignature ref_lib 10 fund_tx take_tx 0 True 0 cache_empty = (True, c)"
    using take_signature by blast
  have b: "\<not> immature [] (txindex_new (diskpos 1 8 90) 1) fund_tx" by (simp add: immature_def)
  have i: "check_inputs take_tx fund_inputs [] 0 (vin take_tx) = Inr 5000"
    using b by (simp add: take_tx_def txin_new_def fund_inputs_def fund_tx_def txindex_new_def amounts)
  have "\<exists>s. act_each (connect_input ref_lib env_test 3000000 take_tx (diskpos 1 200 290) True False True)
      (enumerate 0 (vin take_tx)) \<lparr>cn_inputs = fund_inputs, mapTestPool = [], cn_cache = cache_empty\<rparr> = (Inr (), s)"
    using c
    by (simp add: take_tx_def [THEN arg_cong [where f = vin]] txin_new_def connect_input_def fund_inputs_def
        txindex_new_def diskpos_IsNull_def diskpos_null_def diskpos_def env_test_def
        GetTotalBlocksEstimate_value verify_input_def act_simps act_then_def act_bind_def)
  then show ?thesis using i take_fee take_not_base by (auto simp: ConnectInputs_def act_simps)
qed

theorem ConnectInputs_sound_witness:
  "\<exists>pool' c'. ConnectInputs ref_lib env_test 3000000 take_tx fund_inputs (diskpos 1 200 290) [] True False True
      ([], cache_empty) = (Inr (), pool', c')
    \<and> script_allows ref_lib take_tx fund_inputs True 0
    \<and> map_of pool' fund_hash = Some (txindex_new (diskpos 1 8 90) 1\<lparr>vSpent := [diskpos 1 200 290]\<rparr>)"
proof -
  obtain pool' c' where r: "ConnectInputs ref_lib env_test 3000000 take_tx fund_inputs (diskpos 1 200 290) [] True False True
      ([], cache_empty) = (Inr (), pool', c')"
    using take_connects by blast
  have n: "\<not> diskpos_IsNull (diskpos 1 200 290)" by (simp add: diskpos_IsNull_def diskpos_def)
  show ?thesis
    using ConnectInputs_sound [OF r take_not_base n _ cache_inv_empty] r
    by (simp add: env_test_def GetTotalBlocksEstimate_value)
      (simp add: take_tx_def txin_new_def spend_in_def fund_inputs_def txindex_new_def)
qed

definition fund_index :: tx_map where
  "fund_index = [fund_hash \<mapsto> txindex_new (diskpos 1 8 90) 1]"

text \<open>The reference library hashes to the first 32 bytes: transactions of different times differ.\<close>
lemma ref_hash_time:
  assumes "tx_GetHash ref_lib s = tx_GetHash ref_lib t"
  shows "tx_nTime s = tx_nTime t"
proof -
  have pad: "SHA256 ref_lib b = pad_digest 32 b" for b by (simp add: ref_lib_def)
  have len: "length (pad_digest 32 b) = 32" for b by (simp add: pad_digest_def)
  then have idem: "pad_digest 32 (pad_digest 32 b) = pad_digest 32 b" for b
    by (simp add: pad_digest_def [of 32 "pad_digest 32 b"])
  have val: "tx_GetHash ref_lib u = of_nat (le_val (pad_digest 32 (ser_CTransaction u)))" for u
    by (simp add: tx_GetHash_def SerializeHash_def hw_GetHash_def hw_write_def hw_Init_def pad idem)
  have bound: "le_val (pad_digest 32 b) < 2 ^ LENGTH(256)" for b
    using le_val_bound [of "pad_digest 32 b"] by (simp add: len)
  have "le_val (pad_digest 32 (ser_CTransaction s)) = le_val (pad_digest 32 (ser_CTransaction t))"
    using arg_cong [OF assms, of unat] unfolding val unat_of_nat_small [OF bound] .
  then have "pad_digest 32 (ser_CTransaction s) = pad_digest 32 (ser_CTransaction t)"
    using le_val_inj len by metis
  then have "take 8 (pad_digest 32 (ser_CTransaction s)) = take 8 (pad_digest 32 (ser_CTransaction t))" by simp
  moreover have "take 8 (pad_digest 32 (ser_CTransaction u)) = ser_i32 (tx_nVersion u) @ ser_u32 (tx_nTime u)" for u
    by (simp add: pad_digest_def ser_CTransaction_def)
  ultimately have "ser_u32 (tx_nTime s) = ser_u32 (tx_nTime t)" by simp
  then show ?thesis using u32.unser_ser [of "tx_nTime s" "[]"] u32.unser_ser [of "tx_nTime t" "[]"] by simp
qed

lemma take_hash: "tx_GetHash ref_lib take_tx \<noteq> fund_hash"
  using ref_hash_time [of take_tx fund_tx] by (auto simp: fund_hash_def take_tx_def fund_tx_def)

lemma connected_db: "\<exists>db. db_ok db \<and> tx_index_of db = connected ref_lib take_tx (diskpos 1 200 290) fund_index"
proof -
  define i where "i = txindex_new (diskpos 1 8 90) 1\<lparr>vSpent := [diskpos 1 200 290]\<rparr>"
  define j where "j = txindex_new (diskpos 1 200 290) 1"
  have fits: "txindex_fits i" "txindex_fits j" by (simp_all add: i_def j_def txindex_fits_def txindex_new_def)
  obtain s1 where s1: "db_ok s1" "\<forall>h'. ReadTxIndex h' s1 = (if h' = fund_hash then Some i else ReadTxIndex h' db_empty)"
    using txidx.update_law [OF db_ok_empty fits(1), of fund_hash] by blast
  obtain s2 where s2: "db_ok s2" "\<forall>h'. ReadTxIndex h' s2 = (if h' = tx_GetHash ref_lib take_tx then Some j else ReadTxIndex h' s1)"
    using txidx.update_law [OF s1(1) fits(2)] by blast
  have "ReadTxIndex h db_empty = None" for h
    by (simp add: ReadTxIndex_view [OF db_ok_empty] db_view_def pending_def) (simp add: db_empty_def)
  then have "tx_index_of s2 = [fund_hash \<mapsto> i, tx_GetHash ref_lib take_tx \<mapsto> j]"
    using s1(2) s2(2) by (auto simp: fun_eq_iff)
  moreover have "connected ref_lib take_tx (diskpos 1 200 290) fund_index = [fund_hash \<mapsto> i, tx_GetHash ref_lib take_tx \<mapsto> j]"
  proof -
    have "vin take_tx = [txin_new (COutPoint fund_hash 0) []]" "length (vout take_tx) = 1" by (simp_all add: take_tx_def)
    then show ?thesis
      using take_not_base
      by (simp add: connected_def mark_def fund_index_def txin_new_def i_def j_def txindex_new_def)
  qed
  ultimately show ?thesis using s2(1) by metis
qed

theorem disconnect_undoes_connect_witness:
  "\<exists>db db'. tx_index_of db = connected ref_lib take_tx (diskpos 1 200 290) fund_index
    \<and> DisconnectInputs ref_lib take_tx db = (Inr (), db')
    \<and> tx_index_of db' = fund_index(tx_GetHash ref_lib take_tx := None)"
proof -
  obtain db where db: "db_ok db" "tx_index_of db = connected ref_lib take_tx (diskpos 1 200 290) fund_index"
    using connected_db by blast
  have "vin take_tx = [txin_new (COutPoint fund_hash 0) []]" by (simp add: take_tx_def)
  then have "distinct (map prevout (vin take_tx))
      \<and> (\<forall>t \<in> set (vin take_tx). free_out fund_index t
          \<and> (\<forall>i. fund_index (out_hash (prevout t)) = Some i \<longrightarrow> txindex_fits i))
      \<and> tx_GetHash ref_lib take_tx \<notin> prev_hash_set (vin take_tx)"
    using take_hash by (simp add: free_out_def fund_index_def txin_new_def txindex_new_def txindex_fits_def)
  then show ?thesis using disconnect_undoes_connect [OF db] db(2) by blast
qed

theorem accept_keeps_pool_witness:
  "pool_ok ref_lib (ac_pool (snd (pool_accept ref_lib (env_test\<lparr>fTestNet := True\<rparr>) 7 [] db_empty files_empty take_tx False
      \<lparr>ac_pool = pool_empty, ac_cache = cache_empty\<rparr>)))
   \<and> fst (pool_accept ref_lib (env_test\<lparr>fTestNet := True\<rparr>) 7 [] db_empty files_empty take_tx False
      \<lparr>ac_pool = pool_empty, ac_cache = cache_empty\<rparr>) = Inr (True, False)"
proof -
  have c: "CheckTransaction take_tx = Inr ()"
    unfolding CheckTransaction_cases
    by (simp add: take_tx_def txin_new_def tx_size_def vector_size_def txin_size_def txout_size_def
        bytes_size_def GetSizeOfCompactSize_def amounts block_limits output_ok_def IsCoinBase_def outpoint_IsNull_def)
  have s: "\<not> IsCoinStake take_tx" "nLockTime take_tx = 0" by (simp_all add: IsCoinStake_def take_tx_def)
  have r: "fst (pool_accept ref_lib (env_test\<lparr>fTestNet := True\<rparr>) 7 [] db_empty files_empty take_tx False
      \<lparr>ac_pool = pool_empty, ac_cache = cache_empty\<rparr>) = Inr (True, False)"
    using c s take_not_base by (simp add: pool_accept_def Let_def pool_empty_def smap_count_def list_ex_iff env_test_def)
  then show ?thesis
    using accept_keeps_pool [of ref_lib "\<lparr>ac_pool = pool_empty, ac_cache = cache_empty\<rparr>", OF _ prod.collapse [symmetric]]
      pool_ok_empty by simp
qed

end
