(* ===== verification/Kernel.thy ===== *)
theory Kernel
  imports Inputs "HOL-Library.Product_Lexorder" "HOL-Library.Multiset"
begin

text \<open>
  The stake kernel of \<open>kernel.cpp\<close>: the stake modifier, computed at intervals from the
  entropy bits of 64 earlier blocks; the kernel hash and its target; the check of a coinstake.
  A block is the chain from it back, or its entry where the code follows \<open>pnext\<close>.
\<close>

section \<open>Intervals\<close>

definition MODIFIER_INTERVAL :: u32 where "MODIFIER_INTERVAL = 6 * 60 * 60"
definition MODIFIER_INTERVAL_RATIO :: u32 where "MODIFIER_INTERVAL_RATIO = 3"
definition nModifierInterval :: u32 where "nModifierInterval = 100"

definition GetModifierInterval :: "u32 \<Rightarrow> u32" where
  "GetModifierInterval t = (if HARDFORK_TIME \<le> t then nModifierInterval else MODIFIER_INTERVAL)"

text \<open>The arithmetic is that of \<open>unsigned int\<close>; the callers keep the section below 64.\<close>

definition GetStakeModifierSelectionIntervalSection :: "nat \<Rightarrow> u32 \<Rightarrow> int" where
  "GetStakeModifierSelectionIntervalSection nSection t =
     int (unat (GetModifierInterval t * 63 div (63 + (63 - of_nat nSection) * (MODIFIER_INTERVAL_RATIO - 1))))"

definition GetStakeModifierSelectionInterval :: "u32 \<Rightarrow> int" where
  "GetStakeModifierSelectionInterval t =
     fold (\<lambda>nSection s. s + GetStakeModifierSelectionIntervalSection nSection t) [0..<64] 0"

section \<open>The stake modifier\<close>

text \<open>The block that generated the last modifier; at the genesis block the walk stops.\<close>

fun last_generated :: "chain \<Rightarrow> chain" where
  "last_generated [] = []"
| "last_generated [p] = [p]"
| "last_generated (p # q # ch) =
     (if GeneratedStakeModifier p then p # q # ch else last_generated (q # ch))"

definition GetLastStakeModifier :: "chain \<Rightarrow> (u64 \<times> int) option" where
  "GetLastStakeModifier pindex =
     (case last_generated pindex of [] \<Rightarrow> None
      | p # _ \<Rightarrow> if GeneratedStakeModifier p then Some (nStakeModifier p, index_GetBlockTime p) else None)"

definition selection_hash :: "extlib \<Rightarrow> u64 \<Rightarrow> CBlockIndex \<Rightarrow> u256" where
  "selection_hash L nStakeModifierPrev pindex =
     (let hashProof = (if index_IsProofOfStake pindex then hashProofOfStake pindex else phashBlock pindex);
          hashSelection = Hash L (ser_u256 hashProof @ ser_u64 nStakeModifierPrev)
      in if index_IsProofOfStake pindex then drop_bit 32 hashSelection else hashSelection)"

text \<open>
  One round over the candidates. \<open>selected\<close> holds the keys of \<open>mapSelectedBlocks\<close>, \<open>best\<close> the
  choice so far with its hash, \<open>None\<close> while \<open>fSelected\<close> is false. The result is \<open>None\<close> when a
  candidate is not indexed.
\<close>

fun SelectBlockFromCandidates ::
  "extlib \<Rightarrow> block_map \<Rightarrow> u256 list \<Rightarrow> int \<Rightarrow> u64 \<Rightarrow> (int \<times> u256) list \<Rightarrow> (u256 \<times> CBlockIndex) option
     \<Rightarrow> (u256 \<times> CBlockIndex) option option" where
  "SelectBlockFromCandidates L M selected nSelectionIntervalStop nStakeModifierPrev [] best = Some best"
| "SelectBlockFromCandidates L M selected nSelectionIntervalStop nStakeModifierPrev (item # items) best =
     (case M (snd item) of None \<Rightarrow> None
      | Some pindex \<Rightarrow>
          if best \<noteq> None \<and> nSelectionIntervalStop < index_GetBlockTime pindex then Some best
          else if phashBlock pindex \<in> set selected
          then SelectBlockFromCandidates L M selected nSelectionIntervalStop nStakeModifierPrev items best
          else let hashSelection = selection_hash L nStakeModifierPrev pindex
               in SelectBlockFromCandidates L M selected nSelectionIntervalStop nStakeModifierPrev items
                    (case best of None \<Rightarrow> Some (hashSelection, pindex)
                     | Some (hashBest, p) \<Rightarrow>
                         if hashSelection < hashBest then Some (hashSelection, pindex) else best))"

definition selection_start :: "CBlockIndex \<Rightarrow> u32 \<Rightarrow> int" where
  "selection_start pindexPrev t =
     (let interval = int (unat (GetModifierInterval t))
      in index_GetBlockTime pindexPrev div interval * interval - GetStakeModifierSelectionInterval t)"

definition candidates :: "chain \<Rightarrow> u32 \<Rightarrow> (int \<times> u256) list" where
  "candidates pindexPrev t =
     sort (rev (map (\<lambda>pindex. (index_GetBlockTime pindex, phashBlock pindex))
       (takeWhile (\<lambda>pindex. selection_start (hd pindexPrev) t \<le> index_GetBlockTime pindex) pindexPrev)))"

fun modifier_rounds ::
  "extlib \<Rightarrow> block_map \<Rightarrow> u32 \<Rightarrow> u64 \<Rightarrow> (int \<times> u256) list \<Rightarrow> nat list \<Rightarrow> u256 list \<Rightarrow> int \<Rightarrow> u64 \<Rightarrow> u64 option" where
  "modifier_rounds L M t nStakeModifierPrev vSorted [] selected nStop nNew = Some nNew"
| "modifier_rounds L M t nStakeModifierPrev vSorted (nRound # rounds) selected nStop nNew =
     (let nStop = nStop + GetStakeModifierSelectionIntervalSection nRound t
      in case SelectBlockFromCandidates L M selected nStop nStakeModifierPrev vSorted None of
           Some (Some (h, pindex)) \<Rightarrow>
             modifier_rounds L M t nStakeModifierPrev vSorted rounds (phashBlock pindex # selected) nStop
               (nNew OR push_bit nRound (ucast (index_GetStakeEntropyBit pindex)))
         | _ \<Rightarrow> None)"

text \<open>The modifier and \<open>fGeneratedStakeModifier\<close>; \<open>None\<close> is \<open>return false\<close>.\<close>

definition ComputeNextStakeModifier :: "extlib \<Rightarrow> block_map \<Rightarrow> chain \<Rightarrow> u32 \<Rightarrow> (u64 \<times> bool) option" where
  "ComputeNextStakeModifier L M pindexPrev t =
     (case pindexPrev of [] \<Rightarrow> Some (0, True)
      | prev # _ \<Rightarrow>
     (case GetLastStakeModifier pindexPrev of None \<Rightarrow> None
      | Some (nStakeModifierPrev, nModifierTime) \<Rightarrow>
          let interval = int (unat (GetModifierInterval t))
          in if index_GetBlockTime prev div interval \<le> nModifierTime div interval
             then Some (nStakeModifierPrev, False)
             else let vSorted = candidates pindexPrev t
                  in map_option (\<lambda>m. (m, True))
                       (modifier_rounds L M t nStakeModifierPrev vSorted [0..<min 64 (length vSorted)] []
                          (selection_start prev t) 0)))"

section \<open>The kernel\<close>

text \<open>
  The walk along \<open>pnext\<close> to the modifier a selection interval later. It returns where the
  links go upwards (lemma \<open>kernel_walk_returns\<close>).
\<close>

partial_function (option) kernel_walk ::
  "block_map \<Rightarrow> int \<Rightarrow> CBlockIndex \<Rightarrow> int \<Rightarrow> int \<Rightarrow> (failure + CBlockIndex \<times> int \<times> int) option" where
  "kernel_walk M stop pindex nStakeModifierHeight nStakeModifierTime =
     (if nStakeModifierTime < stop
      then (case pnext pindex of
              None \<Rightarrow> Some (Inl (Refused 0))
            | Some q \<Rightarrow> (case M q of
                None \<Rightarrow> Some (Inl Crashed)
              | Some p \<Rightarrow>
                  if GeneratedStakeModifier p
                  then kernel_walk M stop p (nHeight p) (index_GetBlockTime p)
                  else kernel_walk M stop p nStakeModifierHeight nStakeModifierTime))
      else Some (Inr (pindex, nStakeModifierHeight, nStakeModifierTime)))"

text \<open>The modifier, the height and the time of the block that generated it.\<close>

definition GetKernelStakeModifier :: "block_map \<Rightarrow> u256 \<Rightarrow> (failure + u64 \<times> int \<times> int) option" where
  "GetKernelStakeModifier M hashBlockFrom =
     (case M hashBlockFrom of None \<Rightarrow> Some (Inl (Refused 0))
      | Some pindexFrom \<Rightarrow>
          map_option (map_sum id (\<lambda>(p, h, t). (nStakeModifier p, h, t)))
            (kernel_walk M (index_GetBlockTime pindexFrom + GetStakeModifierSelectionInterval (bi_nTime pindexFrom))
               pindexFrom (nHeight pindexFrom) (index_GetBlockTime pindexFrom)))"

definition kernel_time_weight :: "CTransaction \<Rightarrow> u32 \<Rightarrow> int" where
  "kernel_time_weight txPrev nTimeTx =
     min (int (unat nTimeTx) - int (unat (tx_nTime txPrev))) (int (unat (GetStakeMaxAge nTimeTx)))
       - int (unat (GetStakeMinAge nTimeTx))"

text \<open>\<open>bnCoinDayWeight\<close> before the fork, \<open>bnWeight\<close> after; a division throws on an error of the library.\<close>

definition kernel_weight :: "extlib \<Rightarrow> CTransaction \<Rightarrow> nat \<Rightarrow> u32 \<Rightarrow> int option" where
  "kernel_weight L txPrev n nTimeTx =
     (let nValueIn = nValue (vout txPrev ! n)
      in if nTimeTx < HARDFORK_TIME
         then Option.bind
           (bn_div L (BN_mul L (setint64 L nValueIn) (setint64 L (kernel_time_weight txPrev nTimeTx))) (setint64 L COIN))
           (\<lambda>b. bn_div L b (bn_of_int L (24 * 60 * 60)))
         else Some (setint64 L nValueIn))"

definition kernel_hash :: "extlib \<Rightarrow> u64 \<Rightarrow> u32 \<Rightarrow> u32 \<Rightarrow> u32 \<Rightarrow> u32 \<Rightarrow> u32 \<Rightarrow> u256" where
  "kernel_hash L modifier nTimeBlockFrom nTxPrevOffset nTimeTxPrev n nTimeTx =
     Hash L (ser_u64 modifier @ ser_u32 nTimeBlockFrom @ ser_u32 nTxPrevOffset @ ser_u32 nTimeTxPrev
       @ ser_u32 n @ ser_u32 nTimeTx)"

text \<open>
  The result is \<open>hashProofOfStake\<close>. The output spent is in range, as its callers have checked.
  \<open>fPrintProofOfStake\<close> only chooses messages.
\<close>

definition CheckStakeKernelHash ::
  "extlib \<Rightarrow> block_map \<Rightarrow> u32 \<Rightarrow> CBlock \<Rightarrow> u32 \<Rightarrow> CTransaction \<Rightarrow> COutPoint \<Rightarrow> u32 \<Rightarrow> (failure + u256) option" where
  "CheckStakeKernelHash L M bits blockFrom nTxPrevOffset txPrev po nTimeTx =
     (if nTimeTx < tx_nTime txPrev then Some (Inl (Refused 0))
      else if nTimeTx < nTime blockFrom + GetStakeMinAge nTimeTx then Some (Inl (Refused 0))
      else let bnTarget = SetCompact L bits
      in case kernel_weight L txPrev (unat (out_n po)) nTimeTx of None \<Rightarrow> Some (Inl Crashed)
         | Some weight \<Rightarrow>
      if kernel_time_weight txPrev nTimeTx \<le> 0 then Some (Inl (Refused 0))
      else map_option (\<lambda>r. case r of Inl e \<Rightarrow> Inl e
        | Inr (modifier, h, t) \<Rightarrow>
            let hashProof = kernel_hash L modifier (nTime blockFrom) nTxPrevOffset (tx_nTime txPrev) (out_n po) nTimeTx
            in if bn_gt L (setuint256 L hashProof) (BN_mul L weight bnTarget) then Inl (Refused 0)
               else Inr hashProof)
        (GetKernelStakeModifier M (block_GetHash L blockFrom)))"

definition CheckProofOfStake ::
  "extlib \<Rightarrow> node_env \<Rightarrow> block_map \<Rightarrow> CTxDB \<Rightarrow> block_files \<Rightarrow> CTransaction \<Rightarrow> u32 \<Rightarrow> CSignatureCache
     \<Rightarrow> (failure + u256) option \<times> CSignatureCache" where
  "CheckProofOfStake L E M db fs tx bits cache =
     (if \<not> IsCoinStake tx then (Some (Inl (Refused 0)), cache)
      else let txin = vin tx ! 0
      in case tx_ReadFromDisk_out (prevout txin) (CTxDB_open ''r'' db) fs of
           None \<Rightarrow> (Some (Inl (Refused 1)), cache)
         | Some (txPrev, txindex) \<Rightarrow>
      (case VerifySignature L (nMaxSigCacheSize E) txPrev tx 0 True 0 cache of
           (False, cache) \<Rightarrow> (Some (Inl (Refused 100)), cache)
         | (True, cache) \<Rightarrow>
      (case block_ReadFromDisk_pos L (fTestNet E) (dp_nFile (txi_pos txindex)) (dp_nBlockPos (txi_pos txindex)) False fs of
           None \<Rightarrow> (Some (Inl (Refused 0)), cache)
         | Some block \<Rightarrow>
             (map_option (map_sum (\<lambda>e. case e of Refused n \<Rightarrow> Refused 1 | Crashed \<Rightarrow> Crashed) id)
               (CheckStakeKernelHash L M bits block
                  (dp_nTxPos (txi_pos txindex) - dp_nBlockPos (txi_pos txindex)) txPrev (prevout txin) (tx_nTime tx)),
              cache))))"

definition CheckCoinStakeTimestamp :: "int \<Rightarrow> int \<Rightarrow> bool" where
  "CheckCoinStakeTimestamp nTimeBlock nTimeTx = (nTimeBlock = nTimeTx)"

section \<open>The checksum of the modifiers\<close>

definition hashGenesisBlock :: "bool \<Rightarrow> u256" where
  "hashGenesisBlock testnet = (if testnet then hashGenesisBlockTestNet else hashGenesisBlockOfficial)"

text \<open>\<open>None\<close>: the assertion that only the genesis block has no predecessor fails.\<close>

definition GetStakeModifierChecksum :: "extlib \<Rightarrow> bool \<Rightarrow> chain \<Rightarrow> u32 option" where
  "GetStakeModifierChecksum L testnet pindex =
     (case pindex of [] \<Rightarrow> None
      | p # ch \<Rightarrow>
          if ch = [] \<and> phashBlock p \<noteq> hashGenesisBlock testnet then None
          else Some (ucast (drop_bit (256 - 32) (Hash L
            ((case ch of [] \<Rightarrow> [] | q # _ \<Rightarrow> ser_u32 (nStakeModifierChecksum q))
             @ ser_u32 (nFlags p) @ ser_u256 (hashProofOfStake p) @ ser_u64 (nStakeModifier p))))))"

definition mapStakeModifierCheckpoints :: "(int \<times> u32) list" where
  "mapStakeModifierCheckpoints = [(0, 0x0e00670b), (95004, 0x01c6784a)]"

definition CheckStakeModifierCheckpoints :: "bool \<Rightarrow> int \<Rightarrow> u32 \<Rightarrow> bool" where
  "CheckStakeModifierCheckpoints testnet h checksum =
     (testnet \<or> (case map_of mapStakeModifierCheckpoints h of None \<Rightarrow> True | Some c \<Rightarrow> checksum = c))"

section \<open>Intervals and walks\<close>
lemma GetModifierInterval_cases: "GetModifierInterval t = 100 \<or> GetModifierInterval t = 21600"
  by (simp add: GetModifierInterval_def nModifierInterval_def MODIFIER_INTERVAL_def)

lemma selection_section_nonneg: "0 \<le> GetStakeModifierSelectionIntervalSection n t"
  by (simp add: GetStakeModifierSelectionIntervalSection_def)

lemma selection_interval_value:
  "GetStakeModifierSelectionInterval t = (if HARDFORK_TIME \<le> t then 3496 else 761920)"
  apply (simp add: GetStakeModifierSelectionInterval_def GetStakeModifierSelectionIntervalSection_def
      GetModifierInterval_def nModifierInterval_def MODIFIER_INTERVAL_def MODIFIER_INTERVAL_RATIO_def upt_conv_Cons)
  done

section \<open>What a round selects\<close>

text \<open>
  \<open>chosen\<close>: the block with the least selection hash among those up to the stop time, or
  the earliest block when all are later.
\<close>

definition time_key :: "CBlockIndex \<Rightarrow> int \<times> u256" where
  "time_key c = (index_GetBlockTime c, phashBlock c)"

definition chosen :: "extlib \<Rightarrow> u64 \<Rightarrow> CBlockIndex set \<Rightarrow> int \<Rightarrow> CBlockIndex \<Rightarrow> bool" where
  "chosen L prev C stop p \<longleftrightarrow> p \<in> C
     \<and> (if \<exists>c\<in>C. index_GetBlockTime c \<le> stop
        then index_GetBlockTime p \<le> stop
          \<and> (\<forall>c\<in>C. index_GetBlockTime c \<le> stop \<longrightarrow> selection_hash L prev p \<le> selection_hash L prev c)
        else \<forall>c\<in>C. time_key p \<le> time_key c)"

lemma select_more:
  assumes "\<forall>c \<in> set cs. M (phashBlock c) = Some c" and "sorted (map index_GetBlockTime cs)"
  shows "\<exists>p. SelectBlockFromCandidates L M sel stop prev (map time_key cs) (Some (selection_hash L prev b, b))
        = Some (Some (selection_hash L prev p, p))
      \<and> (p = b \<or> (p \<in> set cs \<and> phashBlock p \<notin> set sel \<and> index_GetBlockTime p \<le> stop))
      \<and> selection_hash L prev p \<le> selection_hash L prev b
      \<and> (\<forall>c \<in> set cs. phashBlock c \<notin> set sel \<and> index_GetBlockTime c \<le> stop
           \<longrightarrow> selection_hash L prev p \<le> selection_hash L prev c)"
  using assms
proof (induction cs arbitrary: b)
  case (Cons c cs)
  have m: "M (phashBlock c) = Some c" "\<forall>c \<in> set cs. M (phashBlock c) = Some c"
    and s: "sorted (map index_GetBlockTime cs)"
    using Cons.prems by simp_all
  consider (late) "stop < index_GetBlockTime c"
    | (taken) "index_GetBlockTime c \<le> stop" "phashBlock c \<in> set sel"
    | (free) "index_GetBlockTime c \<le> stop" "phashBlock c \<notin> set sel"
    by linarith
  then show ?case
  proof cases
    case late
    then have "\<forall>x \<in> set (c # cs). stop < index_GetBlockTime x" using Cons.prems(2) by auto
    then show ?thesis using late m by (intro exI [of _ b]) (auto simp: time_key_def)
  next
    case taken
    then show ?thesis using Cons.IH [OF m(2) s, of b] m(1) by (auto simp: time_key_def)
  next
    case free
    define b' where "b' = (if selection_hash L prev c < selection_hash L prev b then c else b)"
    have "SelectBlockFromCandidates L M sel stop prev (map time_key (c # cs)) (Some (selection_hash L prev b, b))
        = SelectBlockFromCandidates L M sel stop prev (map time_key cs) (Some (selection_hash L prev b', b'))"
      using free m(1) by (simp add: time_key_def b'_def)
    moreover have "selection_hash L prev b' \<le> selection_hash L prev b" "selection_hash L prev b' \<le> selection_hash L prev c"
      by (auto simp: b'_def)
    moreover have "b' = b \<or> b' = c" by (simp add: b'_def)
    moreover obtain p where p: "SelectBlockFromCandidates L M sel stop prev (map time_key cs)
          (Some (selection_hash L prev b', b')) = Some (Some (selection_hash L prev p, p))"
        "p = b' \<or> (p \<in> set cs \<and> phashBlock p \<notin> set sel \<and> index_GetBlockTime p \<le> stop)"
        "selection_hash L prev p \<le> selection_hash L prev b'"
        "\<forall>x \<in> set cs. phashBlock x \<notin> set sel \<and> index_GetBlockTime x \<le> stop
           \<longrightarrow> selection_hash L prev p \<le> selection_hash L prev x"
      using Cons.IH [OF m(2) s, of b'] by blast
    ultimately show ?thesis using free by (intro exI [of _ p]) auto
  qed
qed simp

lemma select_first:
  assumes "\<forall>c \<in> set cs. M (phashBlock c) = Some c" and "sorted (map time_key cs)"
    and "\<exists>c \<in> set cs. phashBlock c \<notin> set sel"
  shows "\<exists>p. SelectBlockFromCandidates L M sel stop prev (map time_key cs) None
        = Some (Some (selection_hash L prev p, p))
      \<and> chosen L prev {c \<in> set cs. phashBlock c \<notin> set sel} stop p"
  using assms
proof (induction cs)
  case (Cons c cs)
  have m: "M (phashBlock c) = Some c" "\<forall>c \<in> set cs. M (phashBlock c) = Some c"
    and s: "sorted (map time_key cs)" "\<forall>x \<in> set cs. time_key c \<le> time_key x"
    using Cons.prems by auto
  have st: "sorted (map index_GetBlockTime cs)"
    using s(1) by (induction cs) (auto simp: time_key_def less_eq_prod_def)
  show ?case
  proof (cases "phashBlock c \<in> set sel")
    case True
    then have "{x \<in> set (c # cs). phashBlock x \<notin> set sel} = {x \<in> set cs. phashBlock x \<notin> set sel}" by auto
    moreover have "SelectBlockFromCandidates L M sel stop prev (map time_key (c # cs)) None
        = SelectBlockFromCandidates L M sel stop prev (map time_key cs) None"
      using True m(1) by (simp add: time_key_def)
    ultimately show ?thesis using Cons.IH [OF m(2) s(1)] Cons.prems(3) True by auto
  next
    case False
    obtain p where p: "SelectBlockFromCandidates L M sel stop prev (map time_key cs) (Some (selection_hash L prev c, c))
        = Some (Some (selection_hash L prev p, p))"
        "p = c \<or> (p \<in> set cs \<and> phashBlock p \<notin> set sel \<and> index_GetBlockTime p \<le> stop)"
        "selection_hash L prev p \<le> selection_hash L prev c"
        "\<forall>x \<in> set cs. phashBlock x \<notin> set sel \<and> index_GetBlockTime x \<le> stop
           \<longrightarrow> selection_hash L prev p \<le> selection_hash L prev x"
      using select_more [OF m(2) st, of L sel stop prev c] by blast
    have "SelectBlockFromCandidates L M sel stop prev (map time_key (c # cs)) None
        = Some (Some (selection_hash L prev p, p))"
      using False m(1) p(1) by (simp add: time_key_def)
    moreover have "index_GetBlockTime c \<le> index_GetBlockTime x" if "x \<in> set cs" for x
      using s(2) that by (auto simp: time_key_def less_eq_prod_def)
    then have "chosen L prev {x \<in> set (c # cs). phashBlock x \<notin> set sel} stop p"
      using p(2-4) False s(2) by (fastforce simp: chosen_def)
    ultimately show ?thesis by blast
  qed
qed simp

definition round_stop :: "int \<Rightarrow> u32 \<Rightarrow> nat \<Rightarrow> int" where
  "round_stop start t n = start + (\<Sum>j<n. GetStakeModifierSelectionIntervalSection j t)"

lemma entropy_bit: "bit (index_GetStakeEntropyBit p) k \<longleftrightarrow> k = 0 \<and> bit (nFlags p) 1"
proof -
  have "bit (2 :: u32) n \<longleftrightarrow> n = 1" for n
    using bit_exp_iff [of 1 n, where 'a = u32] by auto
  then show ?thesis
    by (auto simp: index_GetStakeEntropyBit_def BLOCK_STAKE_ENTROPY_def bit_simps)
qed

lemma rounds_select:
  assumes "\<forall>c \<in> set cs. M (phashBlock c) = Some c" and "sorted (map time_key cs)"
    and "distinct cs" and "n \<le> length cs" and "n \<le> 64"
    and "i \<le> n" and "length ps = i" and "set ps \<subseteq> set cs" and "distinct ps"
  shows "\<exists>qs m. modifier_rounds L M t prev (map time_key cs) [i..<n] (rev (map phashBlock ps))
        (round_stop start t i) acc = Some m
      \<and> length qs = n \<and> take i qs = ps \<and> distinct qs \<and> set qs \<subseteq> set cs
      \<and> (\<forall>j. i \<le> j \<and> j < n \<longrightarrow> chosen L prev (set cs - set (take j qs)) (round_stop start t (Suc j)) (qs ! j))
      \<and> (\<forall>j. bit m j \<longleftrightarrow> bit acc j \<or> (i \<le> j \<and> j < n \<and> bit (nFlags (qs ! j)) 1))"
  using assms(6-9)
proof (induction "n - i" arbitrary: i ps acc)
  case 0
  then show ?case by (intro exI [of _ ps] exI [of _ acc]) auto
next
  case (Suc k)
  have i: "i < n" using Suc.hyps(2) by simp
  have inj: "c = c'" if "c \<in> set cs" "c' \<in> set cs" "phashBlock c = phashBlock c'" for c c'
    using assms(1) that by (metis option.inject)
  have free: "{c \<in> set cs. phashBlock c \<notin> set (rev (map phashBlock ps))} = set cs - set ps"
  proof -
    have "phashBlock c \<in> phashBlock ` set ps \<longleftrightarrow> c \<in> set ps" if "c \<in> set cs" for c
      using inj [OF that] Suc.prems(3) by blast
    then show ?thesis by auto
  qed
  have "card (set ps) < card (set cs)"
    using Suc.prems(2,4) i assms(3,4) by (simp add: distinct_card)
  then have "\<exists>c \<in> set cs. c \<notin> set ps"
    by (metis card_mono leD List.finite_set subsetI)
  then have "\<exists>c \<in> set cs. phashBlock c \<notin> set (rev (map phashBlock ps))" using free by blast
  from select_first [OF assms(1,2) this, of L "round_stop start t (Suc i)" prev] free
  obtain p where p: "SelectBlockFromCandidates L M (rev (map phashBlock ps)) (round_stop start t (Suc i)) prev
        (map time_key cs) None = Some (Some (selection_hash L prev p, p))"
      "chosen L prev (set cs - set ps) (round_stop start t (Suc i)) p" by auto
  then have pc: "p \<in> set cs" "p \<notin> set ps" by (auto simp: chosen_def)
  have step: "round_stop start t i + GetStakeModifierSelectionIntervalSection i t = round_stop start t (Suc i)"
    by (simp add: round_stop_def)
  let ?acc = "acc OR push_bit i (ucast (index_GetStakeEntropyBit p))"
  have run: "modifier_rounds L M t prev (map time_key cs) [i..<n] (rev (map phashBlock ps)) (round_stop start t i) acc
      = modifier_rounds L M t prev (map time_key cs) [Suc i..<n] (rev (map phashBlock (ps @ [p])))
          (round_stop start t (Suc i)) ?acc"
    using i p(1) by (simp add: upt_conv_Cons step del: upt_Suc)
  have bits: "bit ?acc j \<longleftrightarrow> bit acc j \<or> (j = i \<and> bit (nFlags p) 1)" for j
    using i assms(5) by (auto simp: bit_simps entropy_bit)
  have "k = n - Suc i" "Suc i \<le> n" "length (ps @ [p]) = Suc i" "set (ps @ [p]) \<subseteq> set cs" "distinct (ps @ [p])"
    using Suc.hyps(2) Suc.prems pc i by auto
  from Suc.hyps(1) [OF this, of ?acc]
  obtain qs m where q: "modifier_rounds L M t prev (map time_key cs) [Suc i..<n] (rev (map phashBlock (ps @ [p])))
        (round_stop start t (Suc i)) ?acc = Some m"
      "length qs = n" "take (Suc i) qs = ps @ [p]" "distinct qs" "set qs \<subseteq> set cs"
      "\<forall>j. Suc i \<le> j \<and> j < n \<longrightarrow> chosen L prev (set cs - set (take j qs)) (round_stop start t (Suc j)) (qs ! j)"
      "\<forall>j. bit m j \<longleftrightarrow> bit ?acc j \<or> (Suc i \<le> j \<and> j < n \<and> bit (nFlags (qs ! j)) 1)"
    by blast
  have t: "take i qs = ps" "qs ! i = p"
    using q(2,3) i Suc.prems(2) by (simp_all add: take_Suc_conv_app_nth)
  have "chosen L prev (set cs - set (take j qs)) (round_stop start t (Suc j)) (qs ! j)" if "i \<le> j" "j < n" for j
    using q(6) p(2) t that by (cases "j = i") auto
  moreover have "bit m j \<longleftrightarrow> bit acc j \<or> (i \<le> j \<and> j < n \<and> bit (nFlags (qs ! j)) 1)" for j
    using q(7) [rule_format, of j] bits [of j] t(2) i by (cases "j = i") auto
  ultimately show ?case using run q t by metis
qed

lemma distinct_chain_at:
  assumes "map_ok M" and "M h = Some i"
  shows "distinct (chain_at M (Some h))"
  using assms
proof (induction "nat (nHeight i)" arbitrary: h i rule: less_induct)
  case less
  have e: "entry_ok M h i" by (rule map_okD [OF less.prems])
  show ?case
  proof (cases "pprev i")
    case None
    then show ?thesis using less.prems by (simp add: chain_at_unfold)
  next
    case (Some q)
    then obtain j where j: "M q = Some j" "nHeight i = nHeight j + 1" "0 \<le> nHeight j"
      using e by (auto simp: entry_ok_def)
    have "i \<notin> set (chain_at M (Some q))"
      using chain_height_le [OF less.prems(1) j(1), of i] j(2) by auto
    moreover have "distinct (chain_at M (Some q))"
      using less.hyps [OF _ less.prems(1) j(1)] j(2,3) by simp
    ultimately show ?thesis using less.prems Some by (simp add: chain_at_unfold)
  qed
qed

section \<open>The walk to the modifier of a kernel\<close>

text \<open>Every \<open>pnext\<close> leads to a block on top: the main chain and nothing else has forward links.\<close>

definition next_ok :: "block_map \<Rightarrow> bool" where
  "next_ok M \<longleftrightarrow> (\<forall>h i q. M h = Some i \<and> pnext i = Some q \<longrightarrow> (\<exists>j. M q = Some j \<and> pprev j = Some h))"

lemma descends_refl: "map_ok M \<Longrightarrow> M h = Some i \<Longrightarrow> descends M h h"
  using map_okD [of M h i] by (simp add: descends_def chain_at_unfold entry_ok_def)

lemma descends_parent:
  "map_ok M \<Longrightarrow> M h = Some i \<Longrightarrow> pprev i = Some q \<Longrightarrow> descends M q a \<Longrightarrow> descends M h a"
  by (auto simp: descends_def chain_at_unfold)

lemma chain_at_suffix:
  assumes "map_ok M" and "M h = Some i" and "descends M h a"
  shows "\<exists>k. chain_at M (Some a) = drop k (chain_at M (Some h))"
proof -
  obtain k where "k < length (chain_at M (Some h))" "phashBlock (chain_at M (Some h) ! k) = a"
    using assms(3) by (auto simp: descends_def in_set_conv_nth)
  then show ?thesis using drop_chain_at [OF assms(1,2)] by metis
qed

lemma descends_trans:
  assumes "map_ok M" and "M h = Some i" and "descends M h a" and "descends M a b"
  shows "descends M h b"
proof -
  obtain k where "chain_at M (Some a) = drop k (chain_at M (Some h))"
    using chain_at_suffix [OF assms(1-3)] by blast
  then have "set (chain_at M (Some a)) \<subseteq> set (chain_at M (Some h))" by (simp add: set_drop_subset)
  then show ?thesis using assms(4) unfolding descends_def by blast
qed

lemma descends_entry:
  assumes "map_ok M" and "M h = Some i" and "M a = Some j" and "descends M h a"
  shows "j \<in> set (chain_at M (Some h))"
proof -
  obtain w where w: "w \<in> set (chain_at M (Some h))" "phashBlock w = a"
    using assms(4) by (auto simp: descends_def)
  have "\<forall>x \<in> set (chain_at M (Some h)). M (phashBlock x) = Some x"
    using chain_at_entries [OF assms(1,2)] by (simp add: list_all_iff)
  then have "w = j" using w assms(3) by fastforce
  then show ?thesis using w(1) by simp
qed

lemma descends_height:
  "map_ok M \<Longrightarrow> M h = Some i \<Longrightarrow> M a = Some j \<Longrightarrow> descends M h a \<Longrightarrow> nHeight j \<le> nHeight i"
  using descends_entry chain_height_le by blast

lemma chain_nth_height:
  assumes "map_ok M" and "M h = Some i" and "k < length (chain_at M (Some h))"
  shows "nHeight (chain_at M (Some h) ! k) = nHeight i - int k"
  using assms
proof (induction k arbitrary: h i)
  case 0
  then show ?case by (simp add: chain_at_unfold)
next
  case (Suc k)
  note u = chain_at_unfold [OF Suc.prems(1,2)]
  from Suc.prems(3) u obtain q j where q: "pprev i = Some q" "M q = Some j"
    by (cases "pprev i") (auto simp: chain_at_def split: option.splits)
  then have "nHeight i = nHeight j + 1"
    using map_okD [OF Suc.prems(1,2)] by (simp add: entry_ok_def)
  then show ?case using Suc.IH [OF Suc.prems(1) q(2)] Suc.prems(3) u q(1) by simp
qed

lemma chain_height_unique:
  assumes "map_ok M" and "M h = Some i" and "x \<in> set (chain_at M (Some h))" and "y \<in> set (chain_at M (Some h))"
    and "nHeight x = nHeight y"
  shows "x = y"
proof -
  let ?ch = "chain_at M (Some h)"
  obtain a b where ab: "a < length ?ch" "?ch ! a = x" "b < length ?ch" "?ch ! b = y"
    using assms(3,4) by (auto simp: in_set_conv_nth)
  then have "a = b"
    using chain_nth_height [OF assms(1,2) ab(1)] chain_nth_height [OF assms(1,2) ab(3)] assms(5) by simp
  then show ?thesis using ab by simp
qed

lemma chain_comparable:
  assumes "map_ok M" and "M h = Some i" and "x \<in> set (chain_at M (Some h))" and "y \<in> set (chain_at M (Some h))"
    and "nHeight y \<le> nHeight x"
  shows "descends M (phashBlock x) (phashBlock y)"
proof -
  let ?ch = "chain_at M (Some h)"
  obtain a b where ab: "a < length ?ch" "?ch ! a = x" "b < length ?ch" "?ch ! b = y"
    using assms(3,4) by (auto simp: in_set_conv_nth)
  then have "a \<le> b"
    using chain_nth_height [OF assms(1,2) ab(1)] chain_nth_height [OF assms(1,2) ab(3)] assms(5) by simp
  then have "y = drop a ?ch ! (b - a)" "b - a < length (drop a ?ch)" using ab by auto
  then have "y \<in> set (drop a ?ch)" using nth_mem by blast
  then show ?thesis using drop_chain_at [OF assms(1,2) ab(1)] ab(2) by (simp add: descends_def)
qed

text \<open>\<open>modifier_source M h stop q\<close>: \<open>q\<close> is the first descendant of \<open>h\<close> that generates a modifier at or after \<open>stop\<close>.\<close>

definition modifier_source :: "block_map \<Rightarrow> u256 \<Rightarrow> int \<Rightarrow> CBlockIndex \<Rightarrow> bool" where
  "modifier_source M h stop q \<longleftrightarrow>
     GeneratedStakeModifier q \<and> stop \<le> index_GetBlockTime q
     \<and> M (phashBlock q) = Some q \<and> descends M (phashBlock q) h \<and> phashBlock q \<noteq> h
     \<and> (\<forall>x \<in> set (chain_at M (Some (phashBlock q))).
          descends M (phashBlock x) h \<and> phashBlock x \<noteq> h \<and> GeneratedStakeModifier x \<and> x \<noteq> q
          \<longrightarrow> index_GetBlockTime x < stop)"

lemma modifier_source_step:
  assumes "map_ok M" and "M h = Some p" and "M h' = Some p'" and "pprev p' = Some h"
    and "GeneratedStakeModifier p' \<Longrightarrow> index_GetBlockTime p' < stop" and "modifier_source M h' stop q"
  shows "modifier_source M h stop q"
proof -
  have q: "GeneratedStakeModifier q" "stop \<le> index_GetBlockTime q" "M (phashBlock q) = Some q"
      "descends M (phashBlock q) h'" "phashBlock q \<noteq> h'"
      "\<And>x. x \<in> set (chain_at M (Some (phashBlock q))) \<Longrightarrow> descends M (phashBlock x) h' \<Longrightarrow> phashBlock x \<noteq> h'
        \<Longrightarrow> GeneratedStakeModifier x \<Longrightarrow> x \<noteq> q \<Longrightarrow> index_GetBlockTime x < stop"
    using assms(6) unfolding modifier_source_def by blast+
  have e: "phashBlock p' = h'" "nHeight p' = nHeight p + 1"
    using map_okD [OF assms(1,3)] assms(2,4) by (auto simp: entry_ok_def)
  have d: "descends M h' h"
    using descends_parent [OF assms(1,3,4)] descends_refl [OF assms(1,2)] by blast
  have up: "descends M (phashBlock q) h" using descends_trans [OF assms(1) q(3,4) d] .
  have "phashBlock q \<noteq> h"
    using descends_height [OF assms(1) q(3) assms(3) q(4)] e(2) assms(2) q(3) by auto
  moreover have "index_GetBlockTime x < stop"
    if x: "x \<in> set (chain_at M (Some (phashBlock q)))" "descends M (phashBlock x) h" "phashBlock x \<noteq> h"
      "GeneratedStakeModifier x" "x \<noteq> q" for x
  proof -
    have mx: "M (phashBlock x) = Some x" using chain_at_entries [OF assms(1) q(3)] x(1) by (simp add: list_all_iff)
    show ?thesis
    proof (cases "x = p'")
      case True
      then show ?thesis using assms(5) x(4) by simp
    next
      case False
      then have n: "phashBlock x \<noteq> h'" using mx assms(3) by auto
      have p: "p \<in> set (chain_at M (Some (phashBlock q)))" "p' \<in> set (chain_at M (Some (phashBlock q)))"
        using descends_entry [OF assms(1) q(3) assms(2) up] descends_entry [OF assms(1) q(3) assms(3) q(4)] by auto
      have "\<not> nHeight x \<le> nHeight p"
      proof
        assume "nHeight x \<le> nHeight p"
        then have "nHeight x = nHeight p" using descends_height [OF assms(1) mx assms(2) x(2)] by simp
        then have "x = p" using chain_height_unique [OF assms(1) q(3) x(1) p(1)] by simp
        then show False using x(3) map_okD [OF assms(1,2)] by (simp add: entry_ok_def)
      qed
      then have "nHeight p' \<le> nHeight x" using e(2) by simp
      then have "descends M (phashBlock x) h'"
        using chain_comparable [OF assms(1) q(3) x(1) p(2)] e(1) by simp
      then show ?thesis using q(6) [OF x(1) _ n x(4,5)] by blast
    qed
  qed
  ultimately show ?thesis unfolding modifier_source_def using q(1-3) up by blast
qed

lemma modifier_source_here:
  assumes "map_ok M" and "M h = Some p" and "M h' = Some p'" and "pprev p' = Some h"
    and "GeneratedStakeModifier p'" and "stop \<le> index_GetBlockTime p'"
  shows "modifier_source M h stop p'"
proof -
  have e: "phashBlock p' = h'" "nHeight p' = nHeight p + 1" "phashBlock p = h"
    using map_okD [OF assms(1,3)] map_okD [OF assms(1,2)] assms(2,4) by (auto simp: entry_ok_def)
  have d: "descends M h' h"
    using descends_parent [OF assms(1,3,4)] descends_refl [OF assms(1,2)] by blast
  have "x = p \<or> x = p'" if x: "x \<in> set (chain_at M (Some h'))" "descends M (phashBlock x) h" for x
  proof -
    have mx: "M (phashBlock x) = Some x" using chain_at_entries [OF assms(1,3)] x(1) by (simp add: list_all_iff)
    have "nHeight p \<le> nHeight x" by (rule descends_height [OF assms(1) mx assms(2) x(2)])
    moreover have "nHeight x \<le> nHeight p'" by (rule chain_height_le [OF assms(1,3) x(1)])
    ultimately have "nHeight x = nHeight p \<or> nHeight x = nHeight p'" using e(2) by linarith
    moreover have "p \<in> set (chain_at M (Some h'))" "p' \<in> set (chain_at M (Some h'))"
      using descends_entry [OF assms(1,3,2) d] chain_at_unfold [OF assms(1,3)] by auto
    ultimately show ?thesis using chain_height_unique [OF assms(1,3) x(1)] by blast
  qed
  moreover have "h' \<noteq> h" using e(2) assms(2,3) by auto
  ultimately show ?thesis using assms(3,5,6) d e by (auto simp: modifier_source_def)
qed

text \<open>The forward links as a relation; its transitive closure is what lies ahead of a block.\<close>

definition next_links :: "block_map \<Rightarrow> (u256 \<times> u256) set" where
  "next_links M = {(a, b). \<exists>i. M a = Some i \<and> pnext i = Some b}"

lemma next_links_ahead:
  assumes "M h = Some p"
  shows "(h, b) \<in> (next_links M)\<^sup>+ \<longleftrightarrow> (\<exists>c. pnext p = Some c \<and> (b = c \<or> (c, b) \<in> (next_links M)\<^sup>+))"
proof
  assume "(h, b) \<in> (next_links M)\<^sup>+"
  then show "\<exists>c. pnext p = Some c \<and> (b = c \<or> (c, b) \<in> (next_links M)\<^sup>+)"
    by (cases rule: converse_tranclE) (use assms in \<open>auto simp: next_links_def\<close>)
next
  assume "\<exists>c. pnext p = Some c \<and> (b = c \<or> (c, b) \<in> (next_links M)\<^sup>+)"
  then obtain c where c: "(h, c) \<in> next_links M" "b = c \<or> (c, b) \<in> (next_links M)\<^sup>+"
    using assms by (auto simp: next_links_def)
  then show "(h, b) \<in> (next_links M)\<^sup>+" by (auto intro: trancl_into_trancl2)
qed

definition no_modifier_ahead :: "block_map \<Rightarrow> u256 \<Rightarrow> int \<Rightarrow> bool" where
  "no_modifier_ahead M h stop \<longleftrightarrow>
     (\<forall>b q. (h, b) \<in> (next_links M)\<^sup>+ \<and> M b = Some q \<and> GeneratedStakeModifier q \<longrightarrow> index_GetBlockTime q < stop)"

lemma kernel_walk_returns:
  assumes "map_ok M" and "next_ok M" and "\<forall>i \<in> ran M. nHeight i \<le> B" and "M h = Some p"
  shows "\<exists>r. kernel_walk M stop p H T = Some r
    \<and> ((T < stop \<and> no_modifier_ahead M h stop \<and> r = Inl (Refused 0))
       \<or> (stop \<le> T \<and> r = Inr (p, H, T))
       \<or> (T < stop \<and> (\<exists>q. modifier_source M h stop q \<and> (h, phashBlock q) \<in> (next_links M)\<^sup>+
            \<and> r = Inr (q, nHeight q, index_GetBlockTime q))))"
  using assms(4)
proof (induction "nat (B - nHeight p)" arbitrary: h p H T rule: less_induct)
  case less
  show ?case
  proof (cases "T < stop")
    case True
    show ?thesis
    proof (cases "pnext p")
      case None
      then have "no_modifier_ahead M h stop" by (simp add: no_modifier_ahead_def next_links_ahead [where M = M, OF less.prems])
      then show ?thesis using True None by (subst kernel_walk.simps) simp
    next
      case (Some h')
      then obtain p' where p': "M h' = Some p'" "pprev p' = Some h"
        using assms(2) less.prems by (force simp: next_ok_def)
      note ahead = next_links_ahead [where M = M, OF less.prems, unfolded Some]
      have up: "nHeight p' = nHeight p + 1" and self: "phashBlock p' = h'"
        using map_okD [OF assms(1) p'(1)] p'(2) less.prems by (auto simp: entry_ok_def)
      have "nHeight p' \<le> B" using assms(3) p'(1) by (auto simp: ran_def)
      then have m: "nat (B - nHeight p') < nat (B - nHeight p)" using up by simp
      define H' where "H' = (if GeneratedStakeModifier p' then nHeight p' else H)"
      define T' where "T' = (if GeneratedStakeModifier p' then index_GetBlockTime p' else T)"
      have run: "kernel_walk M stop p H T = kernel_walk M stop p' H' T'"
        using True Some p' by (subst kernel_walk.simps) (simp add: H'_def T'_def)
      obtain r where r: "kernel_walk M stop p' H' T' = Some r"
          "(T' < stop \<and> no_modifier_ahead M h' stop \<and> r = Inl (Refused 0)) \<or> (stop \<le> T' \<and> r = Inr (p', H', T'))
           \<or> (T' < stop \<and> (\<exists>q. modifier_source M h' stop q \<and> (h', phashBlock q) \<in> (next_links M)\<^sup>+
                \<and> r = Inr (q, nHeight q, index_GetBlockTime q)))"
        using less.hyps [OF m p'(1), of H' T'] by blast
      from r(2) consider (refused) "T' < stop" "no_modifier_ahead M h' stop" "r = Inl (Refused 0)"
        | (here) "stop \<le> T'" "r = Inr (p', H', T')"
        | (later) q where "T' < stop" "modifier_source M h' stop q" "(h', phashBlock q) \<in> (next_links M)\<^sup>+"
            "r = Inr (q, nHeight q, index_GetBlockTime q)"
        by blast
      then show ?thesis
      proof cases
        case refused
        have "no_modifier_ahead M h stop"
          using refused(1,2) p'(1) by (auto simp: no_modifier_ahead_def ahead T'_def)
        then show ?thesis using run r(1) refused(3) True by auto
      next
        case here
        then have g: "GeneratedStakeModifier p'" using True by (auto simp: T'_def split: if_splits)
        have "modifier_source M h stop p'"
          using modifier_source_here [OF assms(1) less.prems p' g] here(1) g by (simp add: T'_def)
        moreover have "(h, phashBlock p') \<in> (next_links M)\<^sup>+" by (simp add: ahead self)
        ultimately show ?thesis using run r(1) here(2) g True by (auto simp: H'_def T'_def)
      next
        case later
        have "index_GetBlockTime p' < stop" if "GeneratedStakeModifier p'"
          using later(1) that by (simp add: T'_def)
        then have "modifier_source M h stop q"
          using modifier_source_step [OF assms(1) less.prems p' _ later(2)] by blast
        moreover have "(h, phashBlock q) \<in> (next_links M)\<^sup>+" using later(3) by (simp add: ahead)
        ultimately show ?thesis using run r(1) later(4) True by (intro exI [of _ r]) auto
      qed
    qed
  next
    case False
    then show ?thesis by (subst kernel_walk.simps) simp
  qed
qed

lemma GetKernelStakeModifier_returns:
  assumes "map_ok M" and "next_ok M" and "finite (dom M)" and "M h = Some p"
  defines "stop \<equiv> index_GetBlockTime p + GetStakeModifierSelectionInterval (bi_nTime p)"
  shows "(no_modifier_ahead M h stop \<and> GetKernelStakeModifier M h = Some (Inl (Refused 0)))
    \<or> (\<exists>q. modifier_source M h stop q \<and> (h, phashBlock q) \<in> (next_links M)\<^sup>+
         \<and> GetKernelStakeModifier M h = Some (Inr (nStakeModifier q, nHeight q, index_GetBlockTime q)))"
proof -
  have fin: "finite (nHeight ` ran M)" using finite_ran [OF assms(3)] by simp
  then have "nHeight i \<le> Max (nHeight ` ran M)" if "i \<in> ran M" for i using that by simp
  then have B: "\<forall>i \<in> ran M. nHeight i \<le> Max (nHeight ` ran M)" by blast
  have pos: "0 < GetStakeModifierSelectionInterval (bi_nTime p)" by (simp add: selection_interval_value)
  show ?thesis
    using kernel_walk_returns [OF assms(1,2) B assms(4), of stop "nHeight p" "index_GetBlockTime p"] pos
    by (auto simp: GetKernelStakeModifier_def assms(4) stop_def)
qed

lemma candidates_sorted:
  "candidates ch t = map time_key (sort_key time_key
     (takeWhile (\<lambda>p. selection_start (hd ch) t \<le> index_GetBlockTime p) ch))"
proof -
  let ?c = "takeWhile (\<lambda>p. selection_start (hd ch) t \<le> index_GetBlockTime p) ch"
  have "sort (map time_key ?c) = map time_key (sort_key time_key ?c)"
    by (intro properties_for_sort) simp_all
  moreover have "sort (rev (map time_key ?c)) = sort (map time_key ?c)"
    by (intro properties_for_sort) simp_all
  ultimately show ?thesis by (simp add: candidates_def time_key_def [abs_def])
qed

section \<open>Properties\<close>

text \<open>C12: 
  How the stake modifier comes about. Let the chain have a block that generated one. Within the
  modifier interval of that block the modifier stays; otherwise \<open>ComputeNextStakeModifier\<close>
  never fails: it selects, one per round, distinct blocks of the selection interval, 64 or as
  many as there are, each with the least selection hash among those left that the round may look
  at (or the earliest one, when all are later), and bit \<open>i\<close> of the new modifier is the entropy
  bit of the block of round \<open>i\<close>.
\<close>
theorem stake_modifier_selection:
  assumes "map_ok M" and "M h = Some prev"
    and "GetLastStakeModifier (chain_at M (Some h)) = Some (old, gen)"
    and "start = selection_start prev t"
    and "cand = set (takeWhile (\<lambda>p. start \<le> index_GetBlockTime p) (chain_at M (Some h)))"
  shows "if index_GetBlockTime prev div int (unat (GetModifierInterval t)) \<le> gen div int (unat (GetModifierInterval t))
    then ComputeNextStakeModifier L M (chain_at M (Some h)) t = Some (old, False)
    else \<exists>qs m. ComputeNextStakeModifier L M (chain_at M (Some h)) t = Some (m, True)
      \<and> length qs = min 64 (card cand) \<and> distinct qs
      \<and> (\<forall>i < length qs. chosen L old (cand - set (take i qs)) (round_stop start t (Suc i)) (qs ! i))
      \<and> (\<forall>i. bit m i \<longleftrightarrow> i < length qs \<and> bit (nFlags (qs ! i)) 1)"
proof (cases "index_GetBlockTime prev div int (unat (GetModifierInterval t)) \<le> gen div int (unat (GetModifierInterval t))")
  case True
  then show ?thesis using assms(1-3)
    by (simp add: ComputeNextStakeModifier_def chain_at_unfold Let_def)
next
  case False
  define ch where "ch = chain_at M (Some h)"
  have u: "ch = prev # tl ch" using chain_at_unfold [OF assms(1,2)] by (simp add: ch_def)
  define cs where "cs = sort_key time_key (takeWhile (\<lambda>p. start \<le> index_GetBlockTime p) ch)"
  have hd: "hd ch = prev" using u by (metis list.sel(1))
  have c: "candidates ch t = map time_key cs"
    by (simp add: candidates_sorted cs_def hd assms(4))
  have m: "\<forall>p \<in> set cs. M (phashBlock p) = Some p"
    using chain_at_entries [OF assms(1,2)] by (auto simp: cs_def ch_def list_all_iff dest: set_takeWhileD)
  have d: "distinct cs" using distinct_chain_at [OF assms(1,2)] by (simp add: cs_def ch_def)
  have sc: "set cs = cand" by (simp add: cs_def assms(5) ch_def)
  have len: "length cs = card cand" using d sc distinct_card by fastforce
  have s0: "round_stop start t 0 = start" by (simp add: round_stop_def)
  obtain qs mm where q: "modifier_rounds L M t old (map time_key cs) [0..<min 64 (length cs)] [] start 0 = Some mm"
      "length qs = min 64 (length cs)" "distinct qs"
      "\<forall>j. 0 \<le> j \<and> j < min 64 (length cs)
         \<longrightarrow> chosen L old (set cs - set (take j qs)) (round_stop start t (Suc j)) (qs ! j)"
      "\<forall>j. bit mm j \<longleftrightarrow> bit (0 :: u64) j \<or> (0 \<le> j \<and> j < min 64 (length cs) \<and> bit (nFlags (qs ! j)) 1)"
    using rounds_select [OF m _ d, of "min 64 (length cs)" 0 "[]" L t old start 0] s0
    by (auto simp: cs_def)
  have "ComputeNextStakeModifier L M ch t = Some (mm, True)"
  proof (cases ch)
    case (Cons p r)
    then have "p = prev" using hd by simp
    then show ?thesis
      using Cons c q(1) False assms(3) ch_def [symmetric]
      by (simp add: ComputeNextStakeModifier_def assms(4) del: upt_Suc)
  qed (use u in simp)
  then show ?thesis using False q(2-5) sc len by (auto simp: ch_def)
qed

text \<open>C13: 
  The search for the modifier of a kernel comes back with the right answer. In an index whose
  forward links go from parent to child, \<open>GetKernelStakeModifier\<close> follows no dangling link and
  returns: if a block ahead of the block of the coin generated a modifier at least a selection
  interval (761,920 seconds, 3,496 since the fork) later, it is the modifier, height and time of
  the first such block; it refuses exactly when the best block is reached and there was none.
\<close>
theorem kernel_modifier_found:
  assumes "map_ok M" and "next_ok M" and "finite (dom M)" and "M h = Some p"
    and "stop = index_GetBlockTime p + (if HARDFORK_TIME \<le> bi_nTime p then 3496 else 761920)"
  shows "if \<forall>b q. (h, b) \<in> (next_links M)\<^sup>+ \<and> M b = Some q \<and> GeneratedStakeModifier q \<longrightarrow> index_GetBlockTime q < stop
    then GetKernelStakeModifier M h = Some (Inl (Refused 0))
    else \<exists>q. modifier_source M h stop q \<and> (h, phashBlock q) \<in> (next_links M)\<^sup>+
         \<and> GetKernelStakeModifier M h = Some (Inr (nStakeModifier q, nHeight q, index_GetBlockTime q))"
proof -
  have "\<not> no_modifier_ahead M h stop" if "modifier_source M h stop q" "(h, phashBlock q) \<in> (next_links M)\<^sup>+" for q
    using that by (fastforce simp: no_modifier_ahead_def modifier_source_def)
  then show ?thesis
    using GetKernelStakeModifier_returns [OF assms(1-4)]
    unfolding selection_interval_value assms(5) [symmetric] no_modifier_ahead_def [symmetric] by auto
qed

lemma kernel_weight_value:
  assumes "bn_ok L" and "MoneyRange (nValue (vout txPrev ! n))" and "0 < kernel_time_weight txPrev t"
  shows "kernel_weight L txPrev n t = Some (if t < HARDFORK_TIME
    then nValue (vout txPrev ! n) * kernel_time_weight txPrev t div COIN div (24 * 60 * 60)
    else nValue (vout txPrev ! n))"
proof -
  have v: "0 \<le> nValue (vout txPrev ! n)" "nValue (vout txPrev ! n) < 2 ^ 63"
    using assms(2) by (simp_all add: MoneyRange_def MAX_MONEY_def COIN_def)
  have w: "kernel_time_weight txPrev t < 2 ^ 63"
  proof -
    have "kernel_time_weight txPrev t \<le> int (unat t)" unfolding kernel_time_weight_def by linarith
    then have "kernel_time_weight txPrev t < 4294967296" using unat_u32_lt [of t] by linarith
    then show ?thesis by simp
  qed
  show ?thesis
    using v w assms(1,3) bn_div_nonneg [OF assms(1)]
    by (simp add: kernel_weight_def bn_simps COIN_def pos_imp_zdiv_nonneg_iff)
qed

text \<open>C11: 
  What \<open>CheckStakeKernelHash\<close> accepts: exactly the coins of a transaction not younger than the
  coinstake, in a block of the minimum age, with a positive age weight, whose kernel hash is at
  most the target times the value of the coin (before the fork, times its coin-days).
\<close>
theorem kernel_hash_target:
  assumes "bn_ok L" and "MoneyRange (nValue (vout txPrev ! unat (out_n po)))"
    and "GetKernelStakeModifier M (block_GetHash L blk) = Some (Inr (modifier, hh, tt))"
  shows "CheckStakeKernelHash L M bits blk offset txPrev po t = Some (Inr hash) \<longleftrightarrow>
    tx_nTime txPrev \<le> t \<and> nTime blk + GetStakeMinAge t \<le> t \<and> 0 < kernel_time_weight txPrev t
    \<and> hash = kernel_hash L modifier (nTime blk) offset (tx_nTime txPrev) (out_n po) t
    \<and> int (unat hash) \<le> (if t < HARDFORK_TIME
         then nValue (vout txPrev ! unat (out_n po)) * kernel_time_weight txPrev t div COIN div (24 * 60 * 60)
         else nValue (vout txPrev ! unat (out_n po))) * compact_value bits"
proof (cases "0 < kernel_time_weight txPrev t")
  case True
  show ?thesis
    using assms(3) True
    by (auto simp: CheckStakeKernelHash_def kernel_weight_value [OF assms(1,2) True] SetCompact_value [OF assms(1)]
        bn_simps [OF assms(1)] Let_def not_less)
next
  case False
  then show ?thesis by (auto simp: CheckStakeKernelHash_def Let_def split: option.splits)
qed

section \<open>Witnesses\<close>

text \<open>
  Two blocks with the keys \<open>k\<close> and \<open>k + 1\<close>, the first with a generated modifier, the second at
  time \<open>tm\<close> with the flags \<open>fl\<close>.
\<close>

definition kernel_genesis :: "u256 \<Rightarrow> CBlockIndex" where
  "kernel_genesis k = index_empty\<lparr>phashBlock := k, pnext := Some (k + 1), nFlags := 4, nStakeModifier := 7\<rparr>"

definition kernel_tip :: "u256 \<Rightarrow> u32 \<Rightarrow> u32 \<Rightarrow> CBlockIndex" where
  "kernel_tip k tm fl = index_empty\<lparr>phashBlock := k + 1, pprev := Some k, nHeight := 1, nFlags := fl,
     bi_nTime := tm, nStakeModifier := 9\<rparr>"

definition kernel_blocks :: "u256 \<Rightarrow> u32 \<Rightarrow> u32 \<Rightarrow> block_map" where
  "kernel_blocks k tm fl = [k \<mapsto> kernel_genesis k, k + 1 \<mapsto> kernel_tip k tm fl]"

lemma kernel_fields [simp]:
  "phashBlock (kernel_genesis k) = k" "pprev (kernel_genesis k) = None" "pnext (kernel_genesis k) = Some (k + 1)"
  "nHeight (kernel_genesis k) = 0" "nFlags (kernel_genesis k) = 4" "nStakeModifier (kernel_genesis k) = 7"
  "bi_nTime (kernel_genesis k) = 0" "index_GetBlockTime (kernel_genesis k) = 0"
  "phashBlock (kernel_tip k tm fl) = k + 1" "pprev (kernel_tip k tm fl) = Some k" "pnext (kernel_tip k tm fl) = None"
  "nHeight (kernel_tip k tm fl) = 1" "nFlags (kernel_tip k tm fl) = fl" "nStakeModifier (kernel_tip k tm fl) = 9"
  "index_GetBlockTime (kernel_tip k tm fl) = int (unat tm)"
  by (simp_all add: kernel_genesis_def kernel_tip_def index_empty_def index_GetBlockTime_def)

lemma kernel_blocks_at [simp]:
  "kernel_blocks k tm fl k = Some (kernel_genesis k)" "kernel_blocks k tm fl (k + 1) = Some (kernel_tip k tm fl)"
  by (simp_all add: kernel_blocks_def)

lemma kernel_blocks_ok:
  "map_ok (kernel_blocks k tm fl)" "next_ok (kernel_blocks k tm fl)" "finite (dom (kernel_blocks k tm fl))"
proof -
  show "map_ok (kernel_blocks k tm fl)"
    unfolding map_ok_def
  proof (intro allI impI)
    fix h i
    assume "kernel_blocks k tm fl h = Some i"
    then have "h = k \<and> i = kernel_genesis k \<or> h = k + 1 \<and> i = kernel_tip k tm fl"
      by (simp add: kernel_blocks_def split: if_splits)
    then show "entry_ok (kernel_blocks k tm fl) h i"
      by (elim disjE conjE) (simp_all add: entry_ok_def)
  qed
  show "next_ok (kernel_blocks k tm fl)"
    unfolding next_ok_def
  proof (intro allI impI)
    fix h i q
    assume "kernel_blocks k tm fl h = Some i \<and> pnext i = Some q"
    then have "h = k \<and> q = k + 1"
      by (auto simp: kernel_blocks_def split: if_splits)
    then show "\<exists>j. kernel_blocks k tm fl q = Some j \<and> pprev j = Some h" by simp
  qed
qed (simp add: kernel_blocks_def)

lemma kernel_blocks_chain:
  "chain_at (kernel_blocks k tm fl) (Some (k + 1)) = [kernel_tip k tm fl, kernel_genesis k]"
  by (simp add: chain_at_unfold [OF kernel_blocks_ok(1)])

lemma kernel_blocks_modifier:
  "GetKernelStakeModifier (kernel_blocks k 800000 4) k = Some (Inr (9, 1, 800000))"
proof -
  have "kernel_walk (kernel_blocks k 800000 4) 761920 (kernel_genesis k) 0 0
      = kernel_walk (kernel_blocks k 800000 4) 761920 (kernel_tip k 800000 4) 1 800000"
    by (subst kernel_walk.simps) (simp add: GeneratedStakeModifier_def BLOCK_STAKE_MODIFIER_def)
  also have "\<dots> = Some (Inr (kernel_tip k 800000 4, 1, 800000))"
    by (subst kernel_walk.simps) simp
  finally show ?thesis by (simp add: GetKernelStakeModifier_def selection_interval_value HARDFORK_TIME_def)
qed

theorem stake_modifier_selection_witness:
  "\<exists>(qs :: CBlockIndex list) m. ComputeNextStakeModifier ref_lib (kernel_blocks 1 700000 2) (chain_at (kernel_blocks 1 700000 2) (Some (1 + 1))) 0
       = Some (m, True)
     \<and> length qs = 2 \<and> distinct qs \<and> (\<forall>i. bit m i \<longleftrightarrow> i < length qs \<and> bit (nFlags (qs ! i)) 1)"
proof -
  define M where "M = kernel_blocks 1 700000 2"
  define prev where "prev = kernel_tip 1 700000 2"
  have ch: "chain_at M (Some (1 + 1)) = [prev, kernel_genesis 1]" unfolding M_def prev_def by (rule kernel_blocks_chain)
  have g: "GetLastStakeModifier (chain_at M (Some (1 + 1))) = Some (7, 0)"
    unfolding GetLastStakeModifier_def ch by (simp add: prev_def GeneratedStakeModifier_def BLOCK_STAKE_MODIFIER_def)
  have p: "M (1 + 1) = Some prev" "map_ok M" unfolding M_def prev_def by (rule kernel_blocks_at(2), rule kernel_blocks_ok)
  have i: "GetModifierInterval 0 = 21600" by (simp add: GetModifierInterval_def HARDFORK_TIME_def MODIFIER_INTERVAL_def)
  have t: "index_GetBlockTime prev = 700000" by (simp add: prev_def)
  have s: "selection_start prev 0 = - 70720"
    by (simp only: selection_start_def t i Let_def selection_interval_value) (simp add: HARDFORK_TIME_def)
  have "prev \<noteq> kernel_genesis 1" using t by auto
  then have c: "card (set (takeWhile (\<lambda>p. selection_start prev 0 \<le> index_GetBlockTime p) (chain_at M (Some (1 + 1))))) = 2"
    unfolding s ch by (simp add: t)
  have n: "\<not> index_GetBlockTime prev div int (unat (GetModifierInterval 0)) \<le> 0 div int (unat (GetModifierInterval 0))"
    by (simp add: t i)
  note sel = stake_modifier_selection [OF p(2,1) g refl refl, of 0 ref_lib, unfolded if_not_P [OF n] c]
  obtain qs :: "CBlockIndex list" and m where q: "ComputeNextStakeModifier ref_lib M (chain_at M (Some (1 + 1))) 0 = Some (m, True)"
      "length qs = min 64 2" "distinct qs" "\<forall>i. bit m i \<longleftrightarrow> i < length qs \<and> bit (nFlags (qs ! i)) 1"
    by (insert sel, elim exE conjE) (rule that, assumption+)
  have l: "length qs = 2" using q(2) by simp
  show ?thesis by (rule exI [of _ qs], rule exI [of _ m]) (intro conjI q(1) [unfolded M_def] l q(3,4))
qed

theorem kernel_modifier_found_witness:
  "(\<exists>q. modifier_source (kernel_blocks 1 800000 4) 1 761920 q \<and> nStakeModifier q = 9)
   \<and> GetKernelStakeModifier (kernel_blocks 1 700000 4) 1 = Some (Inl (Refused 0))"
proof
  have stop: "761920 = index_GetBlockTime (kernel_genesis 1) + (if HARDFORK_TIME \<le> bi_nTime (kernel_genesis 1) then 3496 else 761920)"
    by (simp add: HARDFORK_TIME_def)
  show "\<exists>q. modifier_source (kernel_blocks 1 800000 4) 1 761920 q \<and> nStakeModifier q = 9"
    using kernel_modifier_found [OF kernel_blocks_ok kernel_blocks_at(1) stop, of 800000 4]
      kernel_blocks_modifier [of 1] by (auto split: if_splits)
  have "(\<forall>b q. (1, b) \<in> (next_links (kernel_blocks 1 700000 4))\<^sup>+ \<and> kernel_blocks 1 700000 4 b = Some q
      \<and> GeneratedStakeModifier q \<longrightarrow> index_GetBlockTime q < 761920)"
    by (auto simp: kernel_blocks_def split: if_splits)
  then show "GetKernelStakeModifier (kernel_blocks 1 700000 4) 1 = Some (Inl (Refused 0))"
    using kernel_modifier_found [OF kernel_blocks_ok kernel_blocks_at(1) stop, of 700000 4] by simp
qed

theorem kernel_hash_target_witness:
  "CheckStakeKernelHash ref_lib (kernel_blocks (block_GetHash ref_lib stake_block) 800000 4) 0x207fffff stake_block 80
     stake_tx (COutPoint 7 1) 1500000000 = Some (Inr (kernel_hash ref_lib 9 1400000001 80 1400000000 1 1500000000))"
proof -
  let ?h = "kernel_hash ref_lib 9 1400000001 80 1400000000 1 1500000000"
  have v: "nValue (vout stake_tx ! unat (out_n (COutPoint 7 1))) = 20000" "tx_nTime stake_tx = 1400000000"
    by (simp_all add: stake_tx_def)
  have w: "0 < kernel_time_weight stake_tx 1500000000"
    by (simp add: kernel_time_weight_def v GetStakeMaxAge_def GetStakeMinAge_def HARDFORK_TIME_def
        nStakeMaxAge_def nStakeMinAge_def unsigned_minus_1_eq_mask mask_eq_exp_minus_1)
  have c: "compact_value 0x207fffff = 0x7fffff * 256 ^ 29" by (simp add: compact_value_def compact_shift_def Let_def)
  have "int (unat ?h) \<le> 20000 * compact_value 0x207fffff"
    using uint_lt2p [of ?h] unfolding c by simp
  moreover have "MoneyRange (nValue (vout stake_tx ! unat (out_n (COutPoint 7 1))))"
    by (simp add: stake_tx_def MoneyRange_def MAX_MONEY_def COIN_def)
  ultimately show ?thesis
    using kernel_hash_target [OF bn_ok_ref _ kernel_blocks_modifier, where txPrev = stake_tx and po = "COutPoint 7 1"
        and blk = stake_block and bits = "0x207fffff" and offset = 80 and t = 1500000000 and hash = ?h] w
    by (simp add: stake_tx_def stake_block_def sample_block_def GetStakeMinAge_def HARDFORK_TIME_def nStakeMinAge_def)
qed

end
