(* ===== verification/Check_Block.thy ===== *)
theory Check_Block
  imports Kernel
begin

text \<open>
  The context-free checks of a block (\<open>CBlock::CheckBlock\<close>, \<open>CBlock::CheckBlockSignature\<close> of
  \<open>main.cpp\<close>). They look at the clock and, for the reward of the coinbase, at the height of the
  best block: \<open>pindexBest\<close> is its entry, \<open>None\<close> for NULL.
\<close>

definition MAX_MINT_PROOF_OF_WORK_LEGACY :: int where "MAX_MINT_PROOF_OF_WORK_LEGACY = 10 * COIN"
definition REWARD_SWITCH_TIME :: u32 where "REWARD_SWITCH_TIME = 1369432800"
definition nMaxClockDrift :: int where "nMaxClockDrift = 20 * 60"
definition nOldMaxClockDrift :: int where "nOldMaxClockDrift = 2 * 60 * 60"

section \<open>The signature of a block\<close>

definition pubkey_signed :: "extlib \<Rightarrow> CBlock \<Rightarrow> bytes \<Rightarrow> bool" where
  "pubkey_signed L b vchPubKey =
     (case SetPubKey L \<lparr>pk_vch = vchPubKey\<rparr> of None \<Rightarrow> False
      | Some (key, fCompressed) \<Rightarrow>
          vchBlockSig b \<noteq> [] \<and> Key_Verify L key (block_GetHash L b) (vchBlockSig b))"

text \<open>A proof-of-work block: any pay-to-pubkey output of the coinbase may sign; an output nobody recognises ends the search.\<close>

fun coinbase_signed :: "extlib \<Rightarrow> CBlock \<Rightarrow> CTxOut list \<Rightarrow> bool" where
  "coinbase_signed L b [] = False"
| "coinbase_signed L b (out # outs) =
     (case Solver (scriptPubKey out) of (ok, whichType, vSolutions) \<Rightarrow>
        if \<not> ok then False
        else if whichType = TX_PUBKEY \<and> pubkey_signed L b (vSolutions ! 0) then True
        else coinbase_signed L b outs)"

definition CheckBlockSignature :: "extlib \<Rightarrow> bool \<Rightarrow> CBlock \<Rightarrow> bool" where
  "CheckBlockSignature L testnet b =
     (if block_GetHash L b = hashGenesisBlock testnet then vchBlockSig b = []
      else if block_IsProofOfStake b
      then (case Solver (scriptPubKey (vout (vtx b ! 1) ! 1)) of (ok, whichType, vSolutions) \<Rightarrow>
              ok \<and> whichType = TX_PUBKEY \<and> pubkey_signed L b (vSolutions ! 0))
      else coinbase_signed L b (vout (vtx b ! 0)))"

section \<open>The reward of the coinbase\<close>

text \<open>The most a coinbase may pay out; \<open>Crashed\<close> where the best block is dereferenced and there is none.\<close>

definition coinbase_limit :: "CBlockIndex option \<Rightarrow> CBlock \<Rightarrow> failure + int" where
  "coinbase_limit pindexBest b =
     (if nTime b < REWARD_SWITCH_TIME
      then Inr (if block_IsProofOfWork b then MAX_MINT_PROOF_OF_WORK_LEGACY else 0)
      else case pindexBest of None \<Rightarrow> Inl Crashed
        | Some pindexPrev \<Rightarrow> Inr
            (if block_IsProofOfWork b
             then GetProofOfWorkReward (if nHeight pindexPrev < 59700 then 0 else of_int (nHeight pindexPrev))
               - GetMinFee (vtx b ! 0) 1 False GMF_BLOCK 0 + MIN_TX_FEE
             else 0))"

definition check_reward :: "CBlockIndex option \<Rightarrow> CBlock \<Rightarrow> failure + unit" where
  "check_reward pindexBest b =
     (case coinbase_limit pindexBest b of Inl e \<Rightarrow> Inl e
      | Inr limit \<Rightarrow> (case GetValueOut (vtx b ! 0) of Inl e \<Rightarrow> Inl Crashed
        | Inr v \<Rightarrow> if limit < v then Inl (Refused 50) else Inr ()))"

section \<open>CheckBlock\<close>

fun check_txs :: "CBlock \<Rightarrow> CTransaction list \<Rightarrow> failure + unit" where
  "check_txs b [] = Inr ()"
| "check_txs b (tx # txs) =
     (case CheckTransaction tx of Inl nDoS \<Rightarrow> Inl (Refused nDoS)
      | Inr u \<Rightarrow> if nTime b < tx_nTime tx then Inl (Refused 50) else check_txs b txs)"

definition legacy_sigops :: "CBlock \<Rightarrow> u32" where
  "legacy_sigops b = sum_list (map (\<lambda>tx. of_nat (GetLegacySigOpCount tx)) (vtx b))"

definition check_contents :: "extlib \<Rightarrow> bool \<Rightarrow> bool \<Rightarrow> bool \<Rightarrow> CBlock \<Rightarrow> failure + unit" where
  "check_contents L testnet fCheckMerkleRoot fCheckSig b =
     rbind (check_txs b (vtx b)) (\<lambda>_.
       if card (set (map (tx_GetHash L) (vtx b))) \<noteq> length (vtx b) then Inl (Refused 100)
       else if of_nat MAX_BLOCK_SIGOPS < legacy_sigops b then Inl (Refused 100)
       else if fCheckMerkleRoot \<and> hashMerkleRoot b \<noteq> fst (BuildMerkleTree L b) then Inl (Refused 100)
       else if fCheckSig \<and> \<not> CheckBlockSignature L testnet b then Inl (Refused 100)
       else Inr ())"

definition CheckBlock ::
  "extlib \<Rightarrow> node_env \<Rightarrow> CBlockIndex option \<Rightarrow> bool \<Rightarrow> bool \<Rightarrow> bool \<Rightarrow> CBlock \<Rightarrow> failure + unit" where
  "CheckBlock L E pindexBest fCheckPOW fCheckMerkleRoot fCheckSig b =
     (if vtx b = [] \<or> MAX_BLOCK_SIZE < length (vtx b) \<or> MAX_BLOCK_SIZE < block_size b then Inl (Refused 100)
      else if fCheckPOW \<and> block_IsProofOfWork b \<and> \<not> CheckProofOfWork L (fTestNet E) (block_GetHash L b) (nBits b)
      then Inl (Refused 50)
      else if adjustedTime E + nMaxClockDrift < block_GetBlockTime b then Inl (Refused 0)
      else if vtx b = [] \<or> \<not> IsCoinBase (vtx b ! 0) then Inl (Refused 100)
      else if list_ex IsCoinBase (drop 1 (vtx b)) then Inl (Refused 100)
      else if list_ex IsCoinStake (drop 2 (vtx b)) then Inl (Refused 100)
      else if block_IsProofOfStake b
        \<and> (length (vout (vtx b ! 0)) \<noteq> 1 \<or> \<not> txout_IsEmpty (vout (vtx b ! 0) ! 0)) then Inl (Refused 0)
      else if int (unat (tx_nTime (vtx b ! 0))) + nMaxClockDrift < block_GetBlockTime b then Inl (Refused 50)
      else if block_IsProofOfStake b
        \<and> \<not> CheckCoinStakeTimestamp (block_GetBlockTime b) (int (unat (tx_nTime (vtx b ! 1)))) then Inl (Refused 50)
      else rbind (check_reward pindexBest b) (\<lambda>_. check_contents L (fTestNet E) fCheckMerkleRoot fCheckSig b))"

section \<open>What an accepted block satisfies\<close>
lemma check_txs_Inr:
  "check_txs b txs = Inr u \<longleftrightarrow> (\<forall>tx \<in> set txs. CheckTransaction tx = Inr () \<and> tx_nTime tx \<le> nTime b)"
  by (induction txs) (auto split: sum.splits)

lemma CheckBlock_Inr:
  assumes "CheckBlock L E best pow mr sig b = Inr ()"
  shows "vtx b \<noteq> []" and "block_size b \<le> MAX_BLOCK_SIZE" and "IsCoinBase (vtx b ! 0)"
    and "\<forall>tx \<in> set (drop 1 (vtx b)). \<not> IsCoinBase tx" and "\<forall>tx \<in> set (drop 2 (vtx b)). \<not> IsCoinStake tx"
    and "check_reward best b = Inr ()"
    and "\<forall>tx \<in> set (vtx b). CheckTransaction tx = Inr () \<and> tx_nTime tx \<le> nTime b"
    and "distinct (map (tx_GetHash L) (vtx b))"
    and "mr \<Longrightarrow> hashMerkleRoot b = fst (BuildMerkleTree L b)"
    and "sig \<Longrightarrow> CheckBlockSignature L (fTestNet E) b"
    and "pow \<Longrightarrow> block_IsProofOfWork b \<Longrightarrow> CheckProofOfWork L (fTestNet E) (block_GetHash L b) (nBits b)"
    and "block_IsProofOfStake b \<Longrightarrow> tx_nTime (vtx b ! 1) = nTime b"
proof -
  have c: "check_reward best b = Inr ()" "check_contents L (fTestNet E) mr sig b = Inr ()"
    "vtx b \<noteq> []" "block_size b \<le> MAX_BLOCK_SIZE" "IsCoinBase (vtx b ! 0)" "\<not> list_ex IsCoinBase (drop 1 (vtx b))"
    "\<not> list_ex IsCoinStake (drop 2 (vtx b))"
    "pow \<Longrightarrow> block_IsProofOfWork b \<Longrightarrow> CheckProofOfWork L (fTestNet E) (block_GetHash L b) (nBits b)"
    "block_IsProofOfStake b \<Longrightarrow> block_GetBlockTime b = int (unat (tx_nTime (vtx b ! 1)))"
    using assms
    by (auto simp: CheckBlock_def rbind_eq_Inr not_less CheckCoinStakeTimestamp_def simp del: rbind_simps
        split: if_splits)
  then show "vtx b \<noteq> []" "block_size b \<le> MAX_BLOCK_SIZE" "IsCoinBase (vtx b ! 0)"
    "\<forall>tx \<in> set (drop 1 (vtx b)). \<not> IsCoinBase tx" "\<forall>tx \<in> set (drop 2 (vtx b)). \<not> IsCoinStake tx"
    "check_reward best b = Inr ()"
    "pow \<Longrightarrow> block_IsProofOfWork b \<Longrightarrow> CheckProofOfWork L (fTestNet E) (block_GetHash L b) (nBits b)"
    by (auto simp: list_ex_iff)
  show "\<forall>tx \<in> set (vtx b). CheckTransaction tx = Inr () \<and> tx_nTime tx \<le> nTime b"
    using c(2) by (auto simp: check_contents_def rbind_eq_Inr check_txs_Inr)
  have "card (set (map (tx_GetHash L) (vtx b))) = length (map (tx_GetHash L) (vtx b))"
    using c(2) by (auto simp: check_contents_def rbind_eq_Inr split: if_splits)
  then show "distinct (map (tx_GetHash L) (vtx b))" by (rule card_distinct)
  show "mr \<Longrightarrow> hashMerkleRoot b = fst (BuildMerkleTree L b)" "sig \<Longrightarrow> CheckBlockSignature L (fTestNet E) b"
    using c(2) by (auto simp: check_contents_def rbind_eq_Inr split: if_splits)
  show "block_IsProofOfStake b \<Longrightarrow> tx_nTime (vtx b ! 1) = nTime b"
    using c(9) by (simp add: block_GetBlockTime_def word_uint_eq_iff)
qed

end
