(* ===== verification/Connect_Block.thy ===== *)
theory Connect_Block
  imports Check_Block
begin

text \<open>
  Connecting a block to the chain and disconnecting it (\<open>CTransaction::GetCoinAge\<close>,
  \<open>CBlock::GetCoinAge\<close>, \<open>CBlock::ConnectBlock\<close>, \<open>CBlock::DisconnectBlock\<close> of \<open>main.cpp\<close>). The
  calls that tell the wallets have no effect on what is modelled. The flags that are \<open>true\<close> in
  the code (\<open>fEnforceBIP30\<close>, \<open>fStrictPayToScriptHash\<close>) are not arguments.
\<close>

section \<open>Coin age\<close>

text \<open>
  The age of one input in cent-seconds: \<open>Inr 0\<close> for an input that does not count, \<open>Refused\<close> for
  \<open>return false\<close>, \<open>Crashed\<close> for a division that throws. Times are compared as \<open>int64\<close>.
\<close>

definition input_coin_age ::
  "extlib \<Rightarrow> bool \<Rightarrow> CTxDB \<Rightarrow> block_files \<Rightarrow> CTransaction \<Rightarrow> CTxIn \<Rightarrow> failure + int" where
  "input_coin_age L testnet db fs tx txin =
     (case tx_ReadFromDisk_out (prevout txin) db fs of None \<Rightarrow> Inr 0
      | Some (txPrev, txindex) \<Rightarrow>
          if tx_nTime tx < tx_nTime txPrev then Inl (Refused 0)
          else case block_ReadFromDisk_pos L testnet (dp_nFile (txi_pos txindex)) (dp_nBlockPos (txi_pos txindex)) False fs of
            None \<Rightarrow> Inl (Refused 0)
          | Some block \<Rightarrow>
              if int (unat (tx_nTime tx)) < block_GetBlockTime block + int (unat (GetStakeMinAge (tx_nTime tx))) then Inr 0
              else case bn_div L (BN_mul L (setint64 L (nValue (vout txPrev ! unat (out_n (prevout txin)))))
                     (setulong L (ucast (tx_nTime tx - tx_nTime txPrev)))) (setint64 L CENT) of
                  None \<Rightarrow> Inl Crashed
                | Some b \<Rightarrow> Inr b)"

fun coin_age_from ::
  "extlib \<Rightarrow> bool \<Rightarrow> CTxDB \<Rightarrow> block_files \<Rightarrow> CTransaction \<Rightarrow> int \<Rightarrow> CTxIn list \<Rightarrow> failure + int" where
  "coin_age_from L testnet db fs tx bnCentSecond [] = Inr bnCentSecond"
| "coin_age_from L testnet db fs tx bnCentSecond (txin # ins) =
     rbind (input_coin_age L testnet db fs tx txin) (\<lambda>b.
       coin_age_from L testnet db fs tx (BN_add L bnCentSecond b) ins)"

definition tx_GetCoinAge :: "extlib \<Rightarrow> bool \<Rightarrow> CTxDB \<Rightarrow> block_files \<Rightarrow> CTransaction \<Rightarrow> failure + u64" where
  "tx_GetCoinAge L testnet db fs tx =
     (if IsCoinBase tx then Inr 0
      else rbind (coin_age_from L testnet db fs tx (bn_of_int L 0) (vin tx)) (\<lambda>bnCentSecond.
        case Option.bind (bn_div L (BN_mul L bnCentSecond (setint64 L CENT)) (setint64 L COIN))
               (\<lambda>b. bn_div L b (bn_of_int L (24 * 60 * 60))) of
          None \<Rightarrow> Inl Crashed
        | Some bnCoinDay \<Rightarrow> Inr (getuint64 L bnCoinDay)))"

fun coin_age_sum :: "extlib \<Rightarrow> bool \<Rightarrow> CTxDB \<Rightarrow> block_files \<Rightarrow> u64 \<Rightarrow> CTransaction list \<Rightarrow> failure + u64" where
  "coin_age_sum L testnet db fs nCoinAge [] = Inr nCoinAge"
| "coin_age_sum L testnet db fs nCoinAge (tx # txs) =
     rbind (tx_GetCoinAge L testnet db fs tx) (\<lambda>n. coin_age_sum L testnet db fs (nCoinAge + n) txs)"

definition block_GetCoinAge :: "extlib \<Rightarrow> bool \<Rightarrow> CTxDB \<Rightarrow> block_files \<Rightarrow> CBlock \<Rightarrow> failure + u64" where
  "block_GetCoinAge L testnet db fs b =
     rbind (coin_age_sum L testnet (CTxDB_open ''r'' db) fs 0 (vtx b)) (\<lambda>n. Inr (if n = 0 then 1 else n))"

section \<open>The transactions of a block\<close>

text \<open>The variables of the loop of \<open>ConnectBlock\<close>.\<close>

record connect_totals =
  mapQueuedChanges :: test_pool
  ct_nFees :: int
  ct_nValueIn :: int
  ct_nValueOut :: int
  ct_nStakeReward :: int
  ct_nSigOps :: u32
  ct_nTxPos :: u32
  ct_cache :: CSignatureCache

text \<open>BIP30: a transaction with the same hash that is not completely spent.\<close>

definition overwrites :: "extlib \<Rightarrow> CTxDB \<Rightarrow> CTransaction \<Rightarrow> bool" where
  "overwrites L db tx =
     (case ReadTxIndex (tx_GetHash L tx) db of None \<Rightarrow> False
      | Some txindexOld \<Rightarrow> list_ex diskpos_IsNull (vSpent txindexOld))"

text \<open>A failure of a transaction makes the block fail with no score of its own.\<close>

fun no_score :: "failure \<Rightarrow> failure" where
  "no_score (Refused n) = Refused 0"
| "no_score Crashed = Crashed"

text \<open>The transactions other than the coinbase.\<close>

definition connect_spending ::
  "extlib \<Rightarrow> node_env \<Rightarrow> int \<Rightarrow> CTxDB \<Rightarrow> block_files \<Rightarrow> CTxMemPool \<Rightarrow> chain \<Rightarrow> CTransaction \<Rightarrow> CDiskTxPos
     \<Rightarrow> (connect_totals, unit) action" where
  "connect_spending L E bestHeight db fs pool pindex tx posThisTx s =
     (case FetchInputs db fs pool tx (mapQueuedChanges s) True False Map.empty of
        Inl (e, fInvalid) \<Rightarrow> (Inl (no_score e), s)
      | Inr mapInputs \<Rightarrow>
     (case GetP2SHSigOpCount tx mapInputs of Inl e \<Rightarrow> (Inl Crashed, s)
      | Inr n \<Rightarrow>
          let s = s\<lparr>ct_nSigOps := ct_nSigOps s + of_nat n\<rparr>
          in if of_nat MAX_BLOCK_SIGOPS < ct_nSigOps s then (Inl (Refused 100), s)
             else (case (GetValueIn tx mapInputs, GetValueOut tx) of
               (Inr nTxValueIn, Inr nTxValueOut) \<Rightarrow>
                 let s = s\<lparr>ct_nValueIn := ct_nValueIn s + nTxValueIn, ct_nValueOut := ct_nValueOut s + nTxValueOut\<rparr>;
                     s = (if IsCoinStake tx then s\<lparr>ct_nStakeReward := nTxValueOut - nTxValueIn\<rparr>
                          else s\<lparr>ct_nFees := ct_nFees s + (nTxValueIn - nTxValueOut)\<rparr>)
                 in (case ConnectInputs L E bestHeight tx mapInputs posThisTx pindex True False True
                            (mapQueuedChanges s, ct_cache s) of
                       (Inl e, q, c) \<Rightarrow> (Inl (no_score e), s\<lparr>mapQueuedChanges := q, ct_cache := c\<rparr>)
                     | (Inr u, q, c) \<Rightarrow> (Inr (), s\<lparr>mapQueuedChanges := q, ct_cache := c\<rparr>))
             | _ \<Rightarrow> (Inl Crashed, s))))"

definition connect_coinbase :: "CTransaction \<Rightarrow> (connect_totals, unit) action" where
  "connect_coinbase tx s =
     (case GetValueOut tx of Inl e \<Rightarrow> (Inl Crashed, s)
      | Inr v \<Rightarrow> (Inr (), s\<lparr>ct_nValueOut := ct_nValueOut s + v\<rparr>))"

definition connect_tx ::
  "extlib \<Rightarrow> node_env \<Rightarrow> int \<Rightarrow> CTxDB \<Rightarrow> block_files \<Rightarrow> CTxMemPool \<Rightarrow> chain \<Rightarrow> bool \<Rightarrow> CTransaction
     \<Rightarrow> (connect_totals, unit) action" where
  "connect_tx L E bestHeight db fs pool pindex fJustCheck tx s =
     (if overwrites L db tx then (Inl (Refused 0), s)
      else let s = s\<lparr>ct_nSigOps := ct_nSigOps s + of_nat (GetLegacySigOpCount tx)\<rparr>
      in if of_nat MAX_BLOCK_SIGOPS < ct_nSigOps s then (Inl (Refused 100), s)
      else let posThisTx = diskpos (bi_nFile (hd pindex)) (bi_nBlockPos (hd pindex)) (ct_nTxPos s);
               s = s\<lparr>ct_nTxPos := (if fJustCheck then ct_nTxPos s else ct_nTxPos s + of_nat (tx_size tx))\<rparr>
      in act_then
           (if IsCoinBase tx then connect_coinbase tx
            else connect_spending L E bestHeight db fs pool pindex tx posThisTx)
           (act_modify (\<lambda>s. s\<lparr>mapQueuedChanges :=
              smap_put (tx_GetHash L tx) (txindex_new posThisTx (length (vout tx))) (mapQueuedChanges s)\<rparr>)) s)"

section \<open>ConnectBlock and DisconnectBlock\<close>

text \<open>What \<open>ConnectBlock\<close> changes: the database, the entry \<open>*pindex\<close>, the signature cache.\<close>

record block_connect =
  cb_db :: CTxDB
  cb_pindex :: CBlockIndex
  cb_cache :: CSignatureCache

text \<open>
  The reward is checked with the coin age as \<open>int64\<close> and the fees as \<open>int\<close>: the parameters
  of \<open>GetProofOfStakeReward\<close> narrow them.
\<close>

definition check_stake_reward ::
  "extlib \<Rightarrow> node_env \<Rightarrow> CTxDB \<Rightarrow> block_files \<Rightarrow> chain \<Rightarrow> CBlock \<Rightarrow> int \<Rightarrow> int \<Rightarrow> failure + unit" where
  "check_stake_reward L E db fs prevs b nStakeReward nFees =
     (if \<not> block_IsProofOfStake b then Inr ()
      else rbind (tx_GetCoinAge L (fTestNet E) db fs (vtx b ! 1)) (\<lambda>nCoinAge.
        case GetProofOfStakeReward L (fTestNet E) (sint nCoinAge)
               (case prevs of [] \<Rightarrow> 0 | p # _ \<Rightarrow> bi_nBits p) (nTime b)
               (case prevs of [] \<Rightarrow> 1 | p # _ \<Rightarrow> of_int (nHeight p))
               (case prevs of [] \<Rightarrow> 0 | p # _ \<Rightarrow> nMoneySupply p) (sint (of_int nFees :: u32)) of
          None \<Rightarrow> Inl Crashed
        | Some nCalculatedStakeReward \<Rightarrow>
            if nCalculatedStakeReward < nStakeReward then Inl (Refused 100) else Inr ()))"

definition write_index :: "extlib \<Rightarrow> node_env \<Rightarrow> CDiskBlockIndex \<Rightarrow> (CTxDB, unit) action" where
  "write_index L E = WriteBlockIndex L (fUseFastIndex E) (adjustedTime E)"

definition connect_start :: "bool \<Rightarrow> CBlockIndex \<Rightarrow> CBlock \<Rightarrow> CSignatureCache \<Rightarrow> connect_totals" where
  "connect_start fJustCheck pindex b cache =
     \<lparr>mapQueuedChanges = [], ct_nFees = 0, ct_nValueIn = 0, ct_nValueOut = 0, ct_nStakeReward = 0, ct_nSigOps = 0,
      ct_nTxPos = (if fJustCheck then 1 else first_tx_pos (bi_nBlockPos pindex) b), ct_cache = cache\<rparr>"

definition write_connected ::
  "extlib \<Rightarrow> node_env \<Rightarrow> CBlockIndex \<Rightarrow> chain \<Rightarrow> test_pool \<Rightarrow> (CTxDB, unit) action" where
  "write_connected L E pindex prevs queue =
     act_then (act_each (\<lambda>(h, txindex). UpdateTxIndex h txindex) queue)
       (case prevs of [] \<Rightarrow> act_return ()
        | prev # _ \<Rightarrow> write_index L E (diskindex_of prev\<lparr>hashNext := phashBlock pindex\<rparr>))"

text \<open>\<open>prevs\<close> is the chain from \<open>pindex->pprev\<close> back, \<open>best\<close> the entry \<open>pindexBest\<close>.\<close>

definition ConnectBlock ::
  "extlib \<Rightarrow> node_env \<Rightarrow> CBlockIndex option \<Rightarrow> int \<Rightarrow> block_files \<Rightarrow> CTxMemPool \<Rightarrow> CBlock \<Rightarrow> chain \<Rightarrow> bool
     \<Rightarrow> (block_connect, unit) action" where
  "ConnectBlock L E best bestHeight fs pool b prevs fJustCheck s =
     (case CheckBlock L E best (\<not> fJustCheck) (\<not> fJustCheck) True b of Inl e \<Rightarrow> (Inl e, s)
      | Inr u \<Rightarrow>
     (case act_each (connect_tx L E bestHeight (cb_db s) fs pool (cb_pindex s # prevs) fJustCheck) (vtx b)
             (connect_start fJustCheck (cb_pindex s) b (cb_cache s)) of
        (Inl e, t) \<Rightarrow> (Inl e, s\<lparr>cb_cache := ct_cache t\<rparr>)
      | (Inr u, t) \<Rightarrow>
          let s = s\<lparr>cb_cache := ct_cache t\<rparr>
          in case check_stake_reward L E (cb_db s) fs prevs b (ct_nStakeReward t) (ct_nFees t) of
               Inl e \<Rightarrow> (Inl e, s)
             | Inr u \<Rightarrow>
                 let s = s\<lparr>cb_pindex := (cb_pindex s)
                        \<lparr>nMint := ct_nValueOut t - ct_nValueIn t + ct_nFees t,
                         nMoneySupply := (case prevs of [] \<Rightarrow> 0 | p # _ \<Rightarrow> nMoneySupply p)
                           + ct_nValueOut t - ct_nValueIn t\<rparr>\<rparr>
                 in act_on cb_db (\<lambda>db s. s\<lparr>cb_db := db\<rparr>)
                      (act_then (write_index L E (diskindex_of (cb_pindex s)))
                        (if fJustCheck then act_return ()
                         else write_connected L E (cb_pindex s) prevs (mapQueuedChanges t))) s))"

definition DisconnectBlock :: "extlib \<Rightarrow> node_env \<Rightarrow> CBlock \<Rightarrow> chain \<Rightarrow> (CTxDB, unit) action" where
  "DisconnectBlock L E b prevs =
     act_then (act_each (DisconnectInputs L) (rev (vtx b)))
       (case prevs of [] \<Rightarrow> act_return ()
        | prev # _ \<Rightarrow> write_index L E (diskindex_of prev\<lparr>hashNext := 0\<rparr>))"

section \<open>Fetched inputs\<close>

text \<open>The index as a block sees it while it is connected: the queued records over those of the database.\<close>

definition block_view :: "CTxDB \<Rightarrow> test_pool \<Rightarrow> tx_map" where
  "block_view db q = tx_index_of db ++ map_of q"

lemma fetch_prev_view:
  "fetch_prev db fs pool q True h = Some (i, p) \<Longrightarrow> block_view db q h = Some i"
  by (auto simp: fetch_prev_def read_txindex_def block_view_def map_add_def smap_count_def split: option.splits if_splits)

lemma fetch_loop_view:
  assumes "fetch_loop db fs pool q True ins I = Some I'" and "\<forall>h i p. I h = Some (i, p) \<longrightarrow> block_view db q h = Some i"
  shows "(\<forall>h i p. I' h = Some (i, p) \<longrightarrow> block_view db q h = Some i) \<and> prev_hash_set ins \<subseteq> dom I' \<and> dom I \<subseteq> dom I'"
  using assms
proof (induction ins arbitrary: I)
  case (Cons t ins)
  let ?h = "out_hash (prevout t)"
  show ?case
  proof (cases "I ?h")
    case (Some x)
    then have "fetch_loop db fs pool q True ins I = Some I'" using Cons.prems(1) by simp
    from Cons.IH [OF this Cons.prems(2)] Some show ?thesis by auto
  next
    case None
    then obtain i p where p: "fetch_prev db fs pool q True ?h = Some (i, p)"
        "fetch_loop db fs pool q True ins (I(?h \<mapsto> (i, p))) = Some I'"
      using Cons.prems(1) by (auto simp: Let_def split: option.splits)
    have "\<forall>h i' p'. (I(?h \<mapsto> (i, p))) h = Some (i', p') \<longrightarrow> block_view db q h = Some i'"
      using fetch_prev_view [OF p(1)] Cons.prems(2) by simp
    note ih = Cons.IH [OF p(2) this]
    have d: "dom (I(?h \<mapsto> (i, p))) = insert ?h (dom I)" by simp
    show ?thesis using ih unfolding d by simp
  qed
qed simp

lemma FetchInputs_view:
  assumes "FetchInputs db fs pool tx q True fM Map.empty = Inr I" and "\<not> IsCoinBase tx"
  shows "(\<forall>h i p. I h = Some (i, p) \<longrightarrow> block_view db q h = Some i) \<and> prev_hash_set (vin tx) \<subseteq> dom I"
  using assms fetch_loop_view [of db fs pool q "vin tx" Map.empty I]
  by (auto simp: FetchInputs_def split: option.splits if_splits)

lemma value_in_total:
  "value_in_from I v ins = Inr w \<Longrightarrow> w = v + sum_list (map (in_value I) ins)"
proof (induction ins arbitrary: v)
  case (Cons t ins)
  then obtain i p where p: "I (out_hash (prevout t)) = Some (i, p)"
      "value_in_from I (v + nValue (vout p ! unat (out_n (prevout t)))) ins = Inr w"
    by (auto simp: rbind_eq_Inr GetOutputFor_def split: option.splits if_splits)
  then show ?case using Cons.IH [OF p(2)] by (simp add: in_value_def)
qed simp

lemma spend_mark:
  assumes "\<forall>h. (\<exists>x. I h = Some x) \<longrightarrow> map_option fst (I h) = T h" and "prev_hash_set ins \<subseteq> dom I"
  shows "(\<exists>x. I h = Some x) \<longrightarrow> map_option fst (fold (spend_in pos) ins I h) = fold (mark pos) ins T h"
  using assms
proof (induction ins arbitrary: I T)
  case (Cons t ins)
  obtain i p where i: "I (out_hash (prevout t)) = Some (i, p)" using Cons.prems(2) by auto
  then have T: "T (out_hash (prevout t)) = Some i" using Cons.prems(1) by fastforce
  have d: "dom (spend_in pos t I) = dom I" using i by (auto simp: spend_in_def)
  have "\<forall>h. (\<exists>x. spend_in pos t I h = Some x) \<longrightarrow> map_option fst (spend_in pos t I h) = mark pos t T h"
    using Cons.prems(1) i T by (simp add: spend_in_def mark_def)
  moreover have "prev_hash_set ins \<subseteq> dom (spend_in pos t I)" using Cons.prems(2) d by simp
  ultimately have "(\<exists>x. spend_in pos t I h = Some x) \<longrightarrow>
      map_option fst (fold (spend_in pos) ins (spend_in pos t I) h) = fold (mark pos) ins (mark pos t T) h"
    by (rule Cons.IH)
  moreover have "(\<exists>x. spend_in pos t I h = Some x) \<longleftrightarrow> (\<exists>x. I h = Some x)" using d by blast
  ultimately show ?case by simp
qed simp

section \<open>One transaction of a block\<close>

definition mint_of :: "connect_totals \<Rightarrow> int" where
  "mint_of t = ct_nValueOut t - ct_nValueIn t + ct_nFees t"

lemma connect_spending_Inr:
  assumes "connect_spending L E bh db fs pool ch tx pos s = (Inr (), s')" and "\<not> IsCoinBase tx"
    and "\<not> diskpos_IsNull pos" and "smap_ok (mapQueuedChanges s)"
  shows "smap_ok (mapQueuedChanges s') \<and> ct_nTxPos s' = ct_nTxPos s
    \<and> (if IsCoinStake tx then mint_of s' = mint_of s + ct_nStakeReward s' \<and> ct_nFees s' = ct_nFees s
       else mint_of s' = mint_of s \<and> ct_nStakeReward s' = ct_nStakeReward s \<and> ct_nFees s \<le> ct_nFees s')
    \<and> distinct (map prevout (vin tx))
    \<and> block_view db (mapQueuedChanges s') = fold (mark pos) (vin tx) (block_view db (mapQueuedChanges s))
    \<and> (\<forall>t \<in> set (vin tx). \<exists>i. block_view db (mapQueuedChanges s) (out_hash (prevout t)) = Some i
         \<and> unat (out_n (prevout t)) < length (vSpent i) \<and> diskpos_IsNull (vSpent i ! unat (out_n (prevout t))))"
proof -
  obtain I where I: "FetchInputs db fs pool tx (mapQueuedChanges s) True False Map.empty = Inr I"
    using assms(1) by (auto simp: connect_spending_def split: sum.splits prod.splits)
  obtain n where n: "GetP2SHSigOpCount tx I = Inr n"
    using assms(1) by (auto simp: connect_spending_def I split: sum.splits)
  obtain vi vo where v: "GetValueIn tx I = Inr vi" "GetValueOut tx = Inr vo"
    using assms(1) by (auto simp: connect_spending_def I n Let_def split: sum.splits if_splits)
  obtain q c where q: "ConnectInputs L E bh tx I pos ch True False True (mapQueuedChanges s, ct_cache s) = (Inr (), q, c)"
    using assms(1) by (auto simp: connect_spending_def I n v Let_def split: sum.splits prod.splits if_splits)
  have s': "mapQueuedChanges s' = q" "ct_nTxPos s' = ct_nTxPos s"
      "ct_nValueIn s' = ct_nValueIn s + vi" "ct_nValueOut s' = ct_nValueOut s + vo"
      "ct_nStakeReward s' = (if IsCoinStake tx then vo - vi else ct_nStakeReward s)"
      "ct_nFees s' = (if IsCoinStake tx then ct_nFees s else ct_nFees s + (vi - vo))"
    using assms(1) by (auto simp: connect_spending_def I n v q Let_def split: if_splits)
  note eff = ConnectInputs_effect [OF q assms(2,3,4)]
  have vi: "vi = sum_list (map (in_value I) (vin tx))"
    using v(1) assms(2) value_in_total [of I 0 "vin tx" vi] by (simp add: GetValueIn_def)
  have vo: "vo = sum_list (map nValue (vout tx))" using GetValueOut_Inr [OF v(2)] by simp
  have fee: "\<not> IsCoinStake tx \<Longrightarrow> vo \<le> vi"
    using eff GetMinFee_ge(1) [of tx 1 False GMF_BLOCK 0] vi vo by linarith
  note view = FetchInputs_view [OF I assms(2)]
  have T: "\<forall>h. (\<exists>x. I h = Some x) \<longrightarrow> map_option fst (I h) = block_view db (mapQueuedChanges s) h"
    using view by fastforce
  have "block_view db q h = fold (mark pos) (vin tx) (block_view db (mapQueuedChanges s)) h" for h
  proof (cases "h \<in> prev_hash_set (vin tx)")
    case True
    then have "\<exists>x. I h = Some x" using view by blast
    then have "map_option fst (fold (spend_in pos) (vin tx) I h)
        = fold (mark pos) (vin tx) (block_view db (mapQueuedChanges s)) h"
      using spend_mark [OF T] view by blast
    moreover have "map_of q h = map_option fst (fold (spend_in pos) (vin tx) I h)" using eff True by simp
    moreover have "fold (mark pos) ins T' h' \<noteq> None \<longleftrightarrow> T' h' \<noteq> None" for ins T' h'
      by (induction ins arbitrary: T') (auto simp: mark_def split: option.splits)
    then have "fold (mark pos) (vin tx) (block_view db (mapQueuedChanges s)) h \<noteq> None"
      using T \<open>\<exists>x. I h = Some x\<close> by (metis option.distinct(1) option.map_disc_iff)
    ultimately show ?thesis by (auto simp: block_view_def map_add_def)
  next
    case False
    then have "map_of q h = map_of (mapQueuedChanges s) h" using eff by simp
    then show ?thesis using False by (simp add: fold_mark_other block_view_def map_add_def)
  qed
  moreover have "\<exists>i. block_view db (mapQueuedChanges s) (out_hash (prevout t)) = Some i
         \<and> unat (out_n (prevout t)) < length (vSpent i) \<and> diskpos_IsNull (vSpent i ! unat (out_n (prevout t)))"
    if t: "t \<in> set (vin tx)" for t
  proof -
    obtain i p where i: "I (out_hash (prevout t)) = Some (i, p)" "unat (out_n (prevout t)) < length (vSpent i)"
        "diskpos_IsNull (vSpent i ! unat (out_n (prevout t)))"
      using eff t by (fastforce simp: input_valid_def unspent_in_def)
    then show ?thesis using view by blast
  qed
  ultimately show ?thesis
    using eff s' fee by (auto simp: mint_of_def)
qed

lemma connect_tx_Inr:
  assumes "connect_tx L E bh db fs pool ch fJC tx s = (Inr (), s')"
    and "bi_nFile (hd ch) \<noteq> - 1" and "smap_ok (mapQueuedChanges s)"
  shows "smap_ok (mapQueuedChanges s')
    \<and> ct_nTxPos s' = (if fJC then ct_nTxPos s else ct_nTxPos s + of_nat (tx_size tx))
    \<and> (if IsCoinBase tx then mint_of s' = mint_of s + sum_list (map nValue (vout tx))
           \<and> ct_nFees s' = ct_nFees s \<and> ct_nStakeReward s' = ct_nStakeReward s
       else if IsCoinStake tx then mint_of s' = mint_of s + ct_nStakeReward s' \<and> ct_nFees s' = ct_nFees s
       else mint_of s' = mint_of s \<and> ct_nStakeReward s' = ct_nStakeReward s \<and> ct_nFees s \<le> ct_nFees s')
    \<and> \<not> overwrites L db tx
    \<and> block_view db (mapQueuedChanges s')
        = connected L tx (diskpos (bi_nFile (hd ch)) (bi_nBlockPos (hd ch)) (ct_nTxPos s)) (block_view db (mapQueuedChanges s))
    \<and> (\<not> IsCoinBase tx \<longrightarrow> distinct (map prevout (vin tx))
        \<and> (\<forall>t \<in> set (vin tx). \<exists>i. block_view db (mapQueuedChanges s) (out_hash (prevout t)) = Some i
             \<and> unat (out_n (prevout t)) < length (vSpent i) \<and> diskpos_IsNull (vSpent i ! unat (out_n (prevout t)))))"
proof -
  define pos where "pos = diskpos (bi_nFile (hd ch)) (bi_nBlockPos (hd ch)) (ct_nTxPos s)"
  define s1 where "s1 = s\<lparr>ct_nSigOps := ct_nSigOps s + of_nat (GetLegacySigOpCount tx),
      ct_nTxPos := (if fJC then ct_nTxPos s else ct_nTxPos s + of_nat (tx_size tx))\<rparr>"
  have null: "\<not> diskpos_IsNull pos" using assms(2) by (simp add: pos_def diskpos_IsNull_def diskpos_def)
  have ow: "\<not> overwrites L db tx" using assms(1) by (auto simp: connect_tx_def)
  obtain s2 where s2: "(if IsCoinBase tx then connect_coinbase tx
      else connect_spending L E bh db fs pool ch tx pos) s1 = (Inr (), s2)"
    and s': "s' = s2\<lparr>mapQueuedChanges := smap_put (tx_GetHash L tx) (txindex_new pos (length (vout tx))) (mapQueuedChanges s2)\<rparr>"
    using assms(1) ow
    by (auto simp: connect_tx_def Let_def act_then_Inr act_modify_def s1_def pos_def split: if_splits)
  have q1: "mapQueuedChanges s1 = mapQueuedChanges s" "mint_of s1 = mint_of s" "ct_nFees s1 = ct_nFees s"
      "ct_nStakeReward s1 = ct_nStakeReward s"
      "ct_nTxPos s1 = (if fJC then ct_nTxPos s else ct_nTxPos s + of_nat (tx_size tx))"
    by (simp_all add: s1_def mint_of_def)
  have f: "mint_of s' = mint_of s2" "ct_nFees s' = ct_nFees s2" "ct_nStakeReward s' = ct_nStakeReward s2"
      "ct_nTxPos s' = ct_nTxPos s2" "mapQueuedChanges s' =
         smap_put (tx_GetHash L tx) (txindex_new pos (length (vout tx))) (mapQueuedChanges s2)"
    by (simp_all add: s' mint_of_def)
  have put: "block_view db (smap_put h i q) = (block_view db q)(h \<mapsto> i)" if "smap_ok q" for h i q
    using that by (auto simp: block_view_def map_add_def smap_simps)
  show ?thesis
  proof (cases "IsCoinBase tx")
    case True
    then obtain v where v: "GetValueOut tx = Inr v" "s2 = s1\<lparr>ct_nValueOut := ct_nValueOut s1 + v\<rparr>"
      using s2 by (auto simp: connect_coinbase_def split: sum.splits)
    then have "mapQueuedChanges s2 = mapQueuedChanges s" "ct_nTxPos s2 = ct_nTxPos s1"
        "mint_of s2 = mint_of s + v" "ct_nFees s2 = ct_nFees s" "ct_nStakeReward s2 = ct_nStakeReward s"
      using q1 by (simp_all add: mint_of_def)
    then show ?thesis
      using True GetValueOut_Inr [OF v(1)] ow assms(3) q1(5) f put [OF assms(3)]
      by (simp add: connected_def pos_def [symmetric])
  next
    case False
    then have c: "connect_spending L E bh db fs pool ch tx pos s1 = (Inr (), s2)" using s2 by simp
    have ok: "smap_ok (mapQueuedChanges s1)" using assms(3) q1 by simp
    note e = connect_spending_Inr [OF c False null ok, unfolded q1]
    have "smap_ok (mapQueuedChanges s')" using e f(5) by simp
    moreover have "ct_nTxPos s' = (if fJC then ct_nTxPos s else ct_nTxPos s + of_nat (tx_size tx))"
      using e f(4) by simp
    moreover have "if IsCoinStake tx then mint_of s' = mint_of s + ct_nStakeReward s' \<and> ct_nFees s' = ct_nFees s
       else mint_of s' = mint_of s \<and> ct_nStakeReward s' = ct_nStakeReward s \<and> ct_nFees s \<le> ct_nFees s'"
      unfolding f(1-3) using e by blast
    moreover have "block_view db (mapQueuedChanges s') = connected L tx pos (block_view db (mapQueuedChanges s))"
      unfolding f(5) using e put [of "mapQueuedChanges s2"] False by (simp add: connected_def)
    ultimately show ?thesis
      using e False ow unfolding pos_def by (simp only: if_False simp_thms) blast
  qed
qed

section \<open>All transactions of a block\<close>
lemma coinstake_not_base: "IsCoinStake tx \<Longrightarrow> \<not> IsCoinBase tx"
  by (auto simp: IsCoinStake_def IsCoinBase_def)

lemma connect_txs_mint:
  assumes "act_each (connect_tx L E bh db fs pool ch fJC) txs s = (Inr (), s')"
    and "bi_nFile (hd ch) \<noteq> - 1" and "smap_ok (mapQueuedChanges s)"
    and "length (filter IsCoinStake txs) \<le> 1" and "filter IsCoinStake txs = [] \<or> ct_nStakeReward s = 0"
  shows "mint_of s' - ct_nStakeReward s' = mint_of s - ct_nStakeReward s
       + (\<Sum>tx\<leftarrow>filter IsCoinBase txs. sum_list (map nValue (vout tx)))
    \<and> ct_nFees s \<le> ct_nFees s' \<and> smap_ok (mapQueuedChanges s')
    \<and> (filter IsCoinStake txs = [] \<longrightarrow> ct_nStakeReward s' = ct_nStakeReward s)"
  using assms(1,3-5)
proof (induction txs arbitrary: s)
  case Nil
  then show ?case by (simp add: act_return_def)
next
  case (Cons tx txs)
  obtain s1 where s1: "connect_tx L E bh db fs pool ch fJC tx s = (Inr (), s1)"
      "act_each (connect_tx L E bh db fs pool ch fJC) txs s1 = (Inr (), s')"
    using Cons.prems(1) by (auto simp: act_then_Inr)
  note e = connect_tx_Inr [OF s1(1) assms(2) Cons.prems(2)]
  have ok: "smap_ok (mapQueuedChanges s1)" using e by simp
  have len: "length (filter IsCoinStake txs) \<le> 1" using Cons.prems(3) by (simp split: if_splits)
  show ?case
  proof (cases "IsCoinStake tx")
    case True
    then have none: "filter IsCoinStake txs = []" "ct_nStakeReward s = 0" using Cons.prems(3,4) by simp_all
    have "mint_of s' - ct_nStakeReward s' = mint_of s1 - ct_nStakeReward s1
        + (\<Sum>tx\<leftarrow>filter IsCoinBase txs. sum_list (map nValue (vout tx)))
      \<and> ct_nFees s1 \<le> ct_nFees s' \<and> smap_ok (mapQueuedChanges s')"
      using Cons.IH [OF s1(2) ok len] none by blast
    then show ?thesis using True e coinstake_not_base [OF True] none by simp
  next
    case False
    have "ct_nStakeReward s1 = ct_nStakeReward s" using e False by (simp split: if_splits)
    then have "filter IsCoinStake txs = [] \<or> ct_nStakeReward s1 = 0" using Cons.prems(4) False by simp
    note ih = Cons.IH [OF s1(2) ok len this]
    show ?thesis using ih e False by (simp split: if_splits)
  qed
qed

section \<open>The whole block\<close>

text \<open>A block is connected to the index one transaction after the other, each at its place on disk.\<close>

fun connected_all :: "extlib \<Rightarrow> u32 \<Rightarrow> u32 \<Rightarrow> u32 \<Rightarrow> CTransaction list \<Rightarrow> tx_map \<Rightarrow> tx_map" where
  "connected_all L f b p [] T = T"
| "connected_all L f b p (tx # txs) T =
     connected_all L f b (p + of_nat (tx_size tx)) txs (connected L tx (diskpos f b p) T)"

text \<open>An index all of whose records the database can hold and the code can write.\<close>

definition index_wf :: "tx_map \<Rightarrow> bool" where
  "index_wf T \<longleftrightarrow> (\<forall>h i. T h = Some i \<longrightarrow> txindex_fits i
     \<and> (\<forall>p \<in> set (vSpent i). dp_blockHash p = 0 \<and> (diskpos_IsNull p \<longrightarrow> p = diskpos_null)))"

definition connectable :: "extlib \<Rightarrow> tx_map \<Rightarrow> CTransaction \<Rightarrow> bool" where
  "connectable L T tx \<longleftrightarrow> \<not> IsCoinBase tx \<longrightarrow> distinct (map prevout (vin tx)) \<and> (\<forall>t \<in> set (vin tx). free_out T t)"

fun connectable_all :: "extlib \<Rightarrow> u32 \<Rightarrow> u32 \<Rightarrow> u32 \<Rightarrow> CTransaction list \<Rightarrow> tx_map \<Rightarrow> bool" where
  "connectable_all L f b p [] T = True"
| "connectable_all L f b p (tx # txs) T =
     (connectable L T tx \<and> connectable_all L f b (p + of_nat (tx_size tx)) txs (connected L tx (diskpos f b p) T))"

lemma index_wf_mark:
  assumes "index_wf T" and "f \<noteq> - 1"
  shows "index_wf (mark (diskpos f b p) t T)"
proof -
  have n: "\<not> diskpos_IsNull (diskpos f b p)" using assms(2) by (simp add: diskpos_IsNull_def diskpos_def)
  show ?thesis
  proof (cases "T (out_hash (prevout t))")
    case (Some i)
    then have i: "txindex_fits i" "\<forall>p \<in> set (vSpent i). dp_blockHash p = 0 \<and> (diskpos_IsNull p \<longrightarrow> p = diskpos_null)"
      using assms(1) by (auto simp: index_wf_def)
    then have "\<forall>q \<in> set ((vSpent i)[unat (out_n (prevout t)) := diskpos f b p]).
        dp_blockHash q = 0 \<and> (diskpos_IsNull q \<longrightarrow> q = diskpos_null)"
      using n by (metis blockHash_diskpos(1) insertE set_update_subset_insert subsetD)
    then show ?thesis using i(1) assms(1) Some by (auto simp: index_wf_def mark_def txindex_fits_def)
  qed (use assms(1) in \<open>simp add: mark_def\<close>)
qed

lemma index_wf_connected:
  assumes "index_wf T" and "f \<noteq> - 1" and "length (vout tx) \<le> 0x02000000"
  shows "index_wf (connected L tx (diskpos f b p) T)"
proof -
  have m: "index_wf (fold (mark (diskpos f b p)) ins T)" for ins
    using assms(1) by (induction ins arbitrary: T) (simp_all add: index_wf_mark assms(2))
  have "index_wf (if IsCoinBase tx then T else fold (mark (diskpos f b p)) (vin tx) T)" using m assms(1) by simp
  moreover have "txindex_fits (txindex_new (diskpos f b p) (length (vout tx)))"
    "\<forall>q \<in> set (vSpent (txindex_new (diskpos f b p) (length (vout tx)))). dp_blockHash q = 0 \<and> q = diskpos_null"
    using assms(3) by (simp_all add: txindex_fits_def txindex_new_def)
  ultimately show ?thesis unfolding index_wf_def connected_def by simp
qed

lemma connect_txs_index:
  assumes "act_each (connect_tx L E bh db fs pool ch False) txs s = (Inr (), s')"
    and "bi_nFile (hd ch) \<noteq> - 1" and "smap_ok (mapQueuedChanges s)"
    and "index_wf (block_view db (mapQueuedChanges s))" and "\<forall>tx \<in> set txs. length (vout tx) \<le> 0x02000000"
  shows "smap_ok (mapQueuedChanges s') \<and> index_wf (block_view db (mapQueuedChanges s'))
    \<and> block_view db (mapQueuedChanges s')
        = connected_all L (bi_nFile (hd ch)) (bi_nBlockPos (hd ch)) (ct_nTxPos s) txs (block_view db (mapQueuedChanges s))
    \<and> connectable_all L (bi_nFile (hd ch)) (bi_nBlockPos (hd ch)) (ct_nTxPos s) txs (block_view db (mapQueuedChanges s))"
  using assms(1,3-5)
proof (induction txs arbitrary: s)
  case Nil
  then show ?case by (simp add: act_return_def)
next
  case (Cons tx txs)
  obtain s1 where s1: "connect_tx L E bh db fs pool ch False tx s = (Inr (), s1)"
      "act_each (connect_tx L E bh db fs pool ch False) txs s1 = (Inr (), s')"
    using Cons.prems(1) by (auto simp: act_then_Inr)
  note e = connect_tx_Inr [OF s1(1) assms(2) Cons.prems(2)]
  have v: "block_view db (mapQueuedChanges s1) = connected L tx
      (diskpos (bi_nFile (hd ch)) (bi_nBlockPos (hd ch)) (ct_nTxPos s)) (block_view db (mapQueuedChanges s))"
    using e by blast
  have free: "free_out (block_view db (mapQueuedChanges s)) t" if t: "t \<in> set (vin tx)" "\<not> IsCoinBase tx" for t
  proof -
    obtain i where "block_view db (mapQueuedChanges s) (out_hash (prevout t)) = Some i"
        "unat (out_n (prevout t)) < length (vSpent i)" "diskpos_IsNull (vSpent i ! unat (out_n (prevout t)))"
      using e t by blast
    then show ?thesis using Cons.prems(3) by (fastforce simp: free_out_def index_wf_def)
  qed
  have "connectable L (block_view db (mapQueuedChanges s)) tx" using e free by (simp add: connectable_def)
  moreover have "index_wf (block_view db (mapQueuedChanges s1))"
    unfolding v by (rule index_wf_connected) (use Cons.prems assms(2) in auto)
  moreover have p: "ct_nTxPos s1 = ct_nTxPos s + of_nat (tx_size tx)" and "smap_ok (mapQueuedChanges s1)"
    using e by simp_all
  moreover have "\<forall>tx \<in> set txs. length (vout tx) \<le> 0x02000000" using Cons.prems(4) by simp
  ultimately show ?case
    using Cons.IH [OF s1(2)] unfolding connected_all.simps connectable_all.simps v [symmetric] p [symmetric] by blast
qed

lemma connected_other:
  assumes "T h = None" and "h \<noteq> tx_GetHash L tx" shows "connected L tx pos T h = None"
proof -
  have "fold (mark pos) ins T h = None" for ins
    using assms(1)
  proof (induction ins arbitrary: T)
    case (Cons t ins)
    have "mark pos t T h = None" using Cons.prems by (cases "h = out_hash (prevout t)") (auto simp: mark_def split: option.split)
    then show ?case using Cons.IH by simp
  qed simp
  then show ?thesis using assms by (simp add: connected_def)
qed

lemma fold_mark_fits:
  assumes "T h = Some i" and "txindex_fits i"
  shows "\<exists>j. fold (mark pos) ins T h = Some j \<and> txindex_fits j"
  using assms
proof (induction ins arbitrary: T i)
  case (Cons t ins)
  have "\<exists>j. mark pos t T h = Some j \<and> txindex_fits j"
    using Cons.prems by (cases "h = out_hash (prevout t)") (auto simp: mark_def txindex_fits_def split: option.split)
  then show ?case using Cons.IH by auto
qed simp

lemma DisconnectInputs_back:
  assumes "db_ok db" and "tx_index_of db = connected L tx (diskpos f b p) T" and "index_wf T"
    and "connectable L T tx" and "T (tx_GetHash L tx) = None"
  shows "\<exists>db'. DisconnectInputs L tx db = (Inr (), db') \<and> db_ok db' \<and> tx_index_of db' = T"
proof -
  have h: "tx_GetHash L tx \<notin> prev_hash_set (vin tx)" if "\<not> IsCoinBase tx"
    using that assms(4,5) by (auto simp: connectable_def free_out_def)
  have r: "releasable (tx_index_of db) t" if "\<not> IsCoinBase tx" "t \<in> set (vin tx)" for t
  proof -
    have "releasable T t"
      using assms(3,4) that by (force simp: releasable_def free_out_def connectable_def index_wf_def)
    then have "releasable (fold (mark (diskpos f b p)) (vin tx) T) t" by (rule releasable_fold) simp
    moreover have "out_hash (prevout t) \<noteq> tx_GetHash L tx" using h that by (metis imageI)
    ultimately show ?thesis using that(1) by (simp add: assms(2) connected_def releasable_def)
  qed
  have "disconnected L tx (connected L tx (diskpos f b p) T) = T"
    using disconnected_connected [of tx T L] assms(4,5) h by (auto simp: connectable_def)
  then show ?thesis using DisconnectInputs_spec [OF assms(1), of tx L] r assms(2) by auto
qed

lemma DisconnectInputs_all:
  assumes "db_ok db" and "tx_index_of db = connected_all L f b p txs T" and "index_wf T" and "f \<noteq> - 1"
    and "\<forall>tx \<in> set txs. length (vout tx) \<le> 0x02000000 \<and> T (tx_GetHash L tx) = None"
    and "connectable_all L f b p txs T" and "distinct (map (tx_GetHash L) txs)"
  shows "\<exists>db'. act_each (DisconnectInputs L) (rev txs) db = (Inr (), db') \<and> db_ok db' \<and> tx_index_of db' = T"
  using assms(2,3,5-7)
proof (induction txs arbitrary: T p)
  case Nil
  then show ?case using assms(1) by (simp add: act_return_def)
next
  case (Cons tx txs)
  define T1 where "T1 = connected L tx (diskpos f b p) T"
  have "index_wf T1" unfolding T1_def by (rule index_wf_connected) (use Cons.prems assms(4) in auto)
  moreover have "T1 (tx_GetHash L t) = None" if "t \<in> set txs" for t
    unfolding T1_def by (rule connected_other) (use that Cons.prems in \<open>auto simp: image_iff\<close>)
  ultimately obtain db1 where 1: "act_each (DisconnectInputs L) (rev txs) db = (Inr (), db1)" "db_ok db1"
      "tx_index_of db1 = T1"
    using Cons.IH [of "p + of_nat (tx_size tx)" T1] Cons.prems by (auto simp: T1_def)
  then obtain db2 where "DisconnectInputs L tx db1 = (Inr (), db2)" "db_ok db2" "tx_index_of db2 = T"
    using DisconnectInputs_back [OF 1(2), of L tx f b p T] Cons.prems by (auto simp: T1_def)
  then show ?case using 1(1) by (auto simp: act_each_append act_simps)
qed

section \<open>The records of the block index\<close>
lemma write_index_ok:
  assumes "db_ok db"
  shows "\<exists>db'. write_index L E d db = (Inr (), db') \<and> db_ok db' \<and> tx_index_of db' = tx_index_of db"
proof -
  obtain h d' where d: "diskindex_GetBlockHash L (fUseFastIndex E) (adjustedTime E) d = (h, d')" by fastforce
  define w where "w = db_Write (db_key_hash ''blockindex'' h) (ser_CDiskBlockIndex False CLIENT_VERSION d') db"
  have "fst w = Inr ()" "db_ok (snd w)"
      "db_view (snd w) = (db_view db)(db_key_hash ''blockindex'' h \<mapsto> ser_CDiskBlockIndex False CLIENT_VERSION d')"
    using db_Write_ok [OF assms] unfolding w_def by blast+
  moreover have "tx_index_of (snd w) = tx_index_of db"
    using calculation assms by (simp add: ReadTxIndex_view db_key_tx_other fun_eq_iff)
  ultimately show ?thesis
    using d by (cases w) (auto simp: write_index_def WriteBlockIndex_def w_def)
qed

lemma write_connected_ok:
  assumes "db_ok db" and "smap_ok q" and "index_wf (block_view db q)"
  shows "\<exists>db'. write_connected L E pindex prevs q db = (Inr (), db') \<and> db_ok db'
    \<and> tx_index_of db' = block_view db q"
proof -
  have fits: "\<forall>(h, i) \<in> set q. txindex_fits i"
  proof -
    have "map_of q h = Some i" if "(h, i) \<in> set q" for h i using smap_ok_distinct [OF assms(2)] that by simp
    then have "block_view db q h = Some i" if "(h, i) \<in> set q" for h i
      using that by (simp add: block_view_def map_add_def)
    then show ?thesis using assms(3) by (auto simp: index_wf_def)
  qed
  have d: "distinct (map fst (rev q))" using smap_ok_distinct [OF assms(2)] by (simp add: rev_map [symmetric])
  have "map_of (rev q) = map_of q"
  proof (rule ext)
    fix h
    show "map_of (rev q) h = map_of q h"
      using d smap_ok_distinct [OF assms(2)] map_of_eq_None_iff [of q h] map_of_eq_None_iff [of "rev q" h]
      by (cases "map_of q h") auto
  qed
  then obtain db1 where 1: "act_each (\<lambda>(h, txindex). UpdateTxIndex h txindex) q db = (Inr (), db1)" "db_ok db1"
      "tx_index_of db1 = block_view db q"
    using txidx.update_all [OF assms(1) fits] by (auto simp: block_view_def)
  show ?thesis
  proof (cases prevs)
    case Nil
    then show ?thesis using 1 by (auto simp: write_connected_def act_simps)
  next
    case (Cons prev ps)
    then show ?thesis
      using 1 write_index_ok [OF 1(2), of L E "diskindex_of prev\<lparr>hashNext := phashBlock pindex\<rparr>"]
      by (auto simp: write_connected_def act_simps)
  qed
qed

section \<open>Blocks that connect\<close>
lemma ConnectBlock_Inr:
  assumes "ConnectBlock L E best bh fs pool b prevs fJC s = (Inr (), s')"
  obtains t where "CheckBlock L E best (\<not> fJC) (\<not> fJC) True b = Inr ()"
    and "act_each (connect_tx L E bh (cb_db s) fs pool (cb_pindex s # prevs) fJC) (vtx b)
           (connect_start fJC (cb_pindex s) b (cb_cache s)) = (Inr (), t)"
    and "check_stake_reward L E (cb_db s) fs prevs b (ct_nStakeReward t) (ct_nFees t) = Inr ()"
    and "cb_pindex s' = (cb_pindex s)\<lparr>nMint := mint_of t,
           nMoneySupply := (case prevs of [] \<Rightarrow> 0 | p # _ \<Rightarrow> nMoneySupply p) + mint_of t - ct_nFees t\<rparr>"
    and "act_then (write_index L E (diskindex_of (cb_pindex s')))
           (if fJC then act_return () else write_connected L E (cb_pindex s') prevs (mapQueuedChanges t)) (cb_db s)
         = (Inr (), cb_db s')"
proof -
  obtain t where t: "CheckBlock L E best (\<not> fJC) (\<not> fJC) True b = Inr ()"
    "act_each (connect_tx L E bh (cb_db s) fs pool (cb_pindex s # prevs) fJC) (vtx b)
           (connect_start fJC (cb_pindex s) b (cb_cache s)) = (Inr (), t)"
    "check_stake_reward L E (cb_db s) fs prevs b (ct_nStakeReward t) (ct_nFees t) = Inr ()"
    using assms by (auto simp: ConnectBlock_def Let_def split: sum.splits prod.splits)
  define pi where "pi = (cb_pindex s)\<lparr>nMint := ct_nValueOut t - ct_nValueIn t + ct_nFees t,
         nMoneySupply := (case prevs of [] \<Rightarrow> 0 | p # _ \<Rightarrow> nMoneySupply p) + ct_nValueOut t - ct_nValueIn t\<rparr>"
  define m where "m = act_then (write_index L E (diskindex_of pi))
           (if fJC then act_return () else write_connected L E pi prevs (mapQueuedChanges t))"
  have "act_on cb_db (\<lambda>db s. s\<lparr>cb_db := db\<rparr>) m (s\<lparr>cb_cache := ct_cache t, cb_pindex := pi\<rparr>) = (Inr (), s')"
    using assms t by (cases fJC) (simp_all add: ConnectBlock_def Let_def m_def pi_def)
  then have w: "fst (m (cb_db s)) = Inr ()" "s' = s\<lparr>cb_cache := ct_cache t, cb_pindex := pi, cb_db := snd (m (cb_db s))\<rparr>"
    by (auto simp: act_on_def split: prod.splits)
  then have "cb_pindex s' = pi" "m (cb_db s) = (Inr (), cb_db s')" by (simp_all add: prod_eq_iff)
  moreover have "pi = (cb_pindex s)\<lparr>nMint := mint_of t,
           nMoneySupply := (case prevs of [] \<Rightarrow> 0 | p # _ \<Rightarrow> nMoneySupply p) + mint_of t - ct_nFees t\<rparr>"
    by (simp add: pi_def mint_of_def)
  ultimately show thesis using that [OF t] unfolding m_def by metis
qed

lemma one_coinbase:
  assumes "IsCoinBase (txs ! 0)" and "\<forall>tx \<in> set (drop 1 txs). \<not> IsCoinBase tx" and "txs \<noteq> []"
  shows "filter IsCoinBase txs = [txs ! 0]"
  using assms by (cases txs) (auto simp: filter_empty_conv)

lemma one_coinstake:
  assumes "IsCoinBase (txs ! 0)" and "\<forall>tx \<in> set (drop 2 txs). \<not> IsCoinStake tx" and "txs \<noteq> []"
  shows "filter IsCoinStake txs = (if 1 < length txs \<and> IsCoinStake (txs ! 1) then [txs ! 1] else [])"
proof -
  obtain a xs where a: "txs = a # xs" using assms(3) by (cases txs) auto
  have "\<not> IsCoinStake a" using assms(1) a coinstake_not_base [of a] by auto
  moreover have "filter IsCoinStake xs = (if xs \<noteq> [] \<and> IsCoinStake (xs ! 0) then [xs ! 0] else [])"
    using assms(2) by (cases xs) (auto simp: a filter_empty_conv numeral_2_eq_2)
  ultimately show ?thesis by (simp add: a)
qed

lemma length_vout_size: "length (vout tx) \<le> tx_size tx"
proof -
  have "length xs \<le> sum_list (map txout_size xs)" for xs
    by (induction xs) (simp_all add: txout_size_def)
  then show ?thesis by (simp add: tx_size_def vector_size_def trans_le_add2 le_add2 add.assoc le_SucI)
qed

lemma tx_size_in_block: "tx \<in> set (vtx b) \<Longrightarrow> tx_size tx \<le> block_size b"
  using member_le_sum_list [of "tx_size tx" "map tx_size (vtx b)"] by (simp add: block_size_def vector_size_def)

section \<open>Properties\<close>

text \<open>C1: 
  New coins are bounded. Whatever the transactions of a block, when \<open>ConnectBlock\<close> accepts it
  the amount it records as minted is what its coinbase pays out, at most the limit of
  \<open>CheckBlock\<close>, plus the reward of its coinstake, at most what \<open>GetProofOfStakeReward\<close> gives for
  the coin age of that transaction; every other transaction only pays fees. The money supply
  grows by the amount minted less the fees.
\<close>
theorem mint_bounded:
  assumes "ConnectBlock L E best bh fs pool b prevs fJC s = (Inr (), s')" and "bi_nFile (cb_pindex s) \<noteq> - 1"
  shows "\<exists>fees reward limit. 0 \<le> fees
    \<and> nMint (cb_pindex s') = sum_list (map nValue (vout (vtx b ! 0))) + reward
    \<and> nMoneySupply (cb_pindex s') = (case prevs of [] \<Rightarrow> 0 | p # _ \<Rightarrow> nMoneySupply p) + nMint (cb_pindex s') - fees
    \<and> coinbase_limit best b = Inr limit \<and> sum_list (map nValue (vout (vtx b ! 0))) \<le> limit
    \<and> (if block_IsProofOfStake b
       then \<exists>nCoinAge r. tx_GetCoinAge L (fTestNet E) (cb_db s) fs (vtx b ! 1) = Inr nCoinAge \<and> reward \<le> r
         \<and> GetProofOfStakeReward L (fTestNet E) (sint nCoinAge) (case prevs of [] \<Rightarrow> 0 | p # _ \<Rightarrow> bi_nBits p) (nTime b)
             (case prevs of [] \<Rightarrow> 1 | p # _ \<Rightarrow> of_int (nHeight p))
             (case prevs of [] \<Rightarrow> 0 | p # _ \<Rightarrow> nMoneySupply p) (sint (of_int fees :: u32)) = Some r
       else reward = 0)"
proof (rule ConnectBlock_Inr [OF assms(1)])
  fix t
  assume c: "CheckBlock L E best (\<not> fJC) (\<not> fJC) True b = Inr ()"
    and e: "act_each (connect_tx L E bh (cb_db s) fs pool (cb_pindex s # prevs) fJC) (vtx b)
           (connect_start fJC (cb_pindex s) b (cb_cache s)) = (Inr (), t)"
    and r: "check_stake_reward L E (cb_db s) fs prevs b (ct_nStakeReward t) (ct_nFees t) = Inr ()"
    and p: "cb_pindex s' = (cb_pindex s)\<lparr>nMint := mint_of t,
           nMoneySupply := (case prevs of [] \<Rightarrow> 0 | p # _ \<Rightarrow> nMoneySupply p) + mint_of t - ct_nFees t\<rparr>"
  note k = CheckBlock_Inr [OF c]
  note base = one_coinbase [OF k(3,4,1)] and stake = one_coinstake [OF k(3,5,1)]
  have "length (filter IsCoinStake (vtx b)) \<le> 1" using stake by simp
  note m = connect_txs_mint [OF e _ _ this]
  have t: "mint_of t = sum_list (map nValue (vout (vtx b ! 0))) + ct_nStakeReward t" "0 \<le> ct_nFees t"
      "\<not> block_IsProofOfStake b \<Longrightarrow> ct_nStakeReward t = 0"
    using m assms(2) base stake
    by (simp_all add: connect_start_def mint_of_def block_IsProofOfStake_def split: if_splits)
  obtain limit where limit: "coinbase_limit best b = Inr limit" "sum_list (map nValue (vout (vtx b ! 0))) \<le> limit"
    using k(6) GetValueOut_Inr by (fastforce simp: check_reward_def not_less split: sum.splits if_splits)
  have "\<exists>nCoinAge r. tx_GetCoinAge L (fTestNet E) (cb_db s) fs (vtx b ! 1) = Inr nCoinAge \<and> ct_nStakeReward t \<le> r
         \<and> GetProofOfStakeReward L (fTestNet E) (sint nCoinAge) (case prevs of [] \<Rightarrow> 0 | p # _ \<Rightarrow> bi_nBits p) (nTime b)
             (case prevs of [] \<Rightarrow> 1 | p # _ \<Rightarrow> of_int (nHeight p))
             (case prevs of [] \<Rightarrow> 0 | p # _ \<Rightarrow> nMoneySupply p) (sint (of_int (ct_nFees t) :: u32)) = Some r"
    if "block_IsProofOfStake b"
    using r that by (auto simp: check_stake_reward_def rbind_eq_Inr not_less split: option.splits if_splits)
  then show ?thesis
    using p t limit by (intro exI [of _ "ct_nFees t"] exI [of _ "ct_nStakeReward t"] exI [of _ limit]) simp
qed

lemma ConnectBlock_index:
  assumes "ConnectBlock L E best bh fs pool b prevs False s = (Inr (), s')" and "bi_nFile (cb_pindex s) \<noteq> - 1"
    and "db_ok (cb_db s)" and "index_wf (tx_index_of (cb_db s))"
  shows "db_ok (cb_db s') \<and> connectable_all L (bi_nFile (cb_pindex s)) (bi_nBlockPos (cb_pindex s))
      (first_tx_pos (bi_nBlockPos (cb_pindex s)) b) (vtx b) (tx_index_of (cb_db s))
    \<and> tx_index_of (cb_db s') = connected_all L (bi_nFile (cb_pindex s)) (bi_nBlockPos (cb_pindex s))
      (first_tx_pos (bi_nBlockPos (cb_pindex s)) b) (vtx b) (tx_index_of (cb_db s))
    \<and> index_wf (tx_index_of (cb_db s'))
    \<and> (\<forall>tx \<in> set (vtx b). length (vout tx) \<le> 0x02000000) \<and> distinct (map (tx_GetHash L) (vtx b))"
proof (rule ConnectBlock_Inr [OF assms(1)])
  fix t
  assume c: "CheckBlock L E best (\<not> False) (\<not> False) True b = Inr ()"
    and e: "act_each (connect_tx L E bh (cb_db s) fs pool (cb_pindex s # prevs) False) (vtx b)
           (connect_start False (cb_pindex s) b (cb_cache s)) = (Inr (), t)"
    and w: "act_then (write_index L E (diskindex_of (cb_pindex s')))
           (if False then act_return () else write_connected L E (cb_pindex s') prevs (mapQueuedChanges t)) (cb_db s)
         = (Inr (), cb_db s')"
  note k = CheckBlock_Inr [OF c]
  have out: "length (vout tx) \<le> 0x02000000" if "tx \<in> set (vtx b)" for tx
    using length_vout_size [of tx] tx_size_in_block [OF that] k(2) by (simp add: block_limits)
  have v: "block_view (cb_db s) [] = tx_index_of (cb_db s)" by (simp add: block_view_def)
  have q: "smap_ok (mapQueuedChanges t) \<and> index_wf (block_view (cb_db s) (mapQueuedChanges t))
    \<and> block_view (cb_db s) (mapQueuedChanges t) = connected_all L (bi_nFile (cb_pindex s)) (bi_nBlockPos (cb_pindex s))
      (first_tx_pos (bi_nBlockPos (cb_pindex s)) b) (vtx b) (tx_index_of (cb_db s))
    \<and> connectable_all L (bi_nFile (cb_pindex s)) (bi_nBlockPos (cb_pindex s))
      (first_tx_pos (bi_nBlockPos (cb_pindex s)) b) (vtx b) (tx_index_of (cb_db s))"
    using connect_txs_index [OF e] assms(2,4) out
    by (simp add: connect_start_def v del: fun_upd_apply) metis
  obtain db1 where 1: "write_index L E (diskindex_of (cb_pindex s')) (cb_db s) = (Inr (), db1)" "db_ok db1"
      "tx_index_of db1 = tx_index_of (cb_db s)"
    using write_index_ok [OF assms(3)] by blast
  then have v1: "block_view db1 q = block_view (cb_db s) q" for q by (simp add: block_view_def)
  have "write_connected L E (cb_pindex s') prevs (mapQueuedChanges t) db1 = (Inr (), cb_db s')"
    using w 1(1) by (simp add: act_simps)
  moreover have "\<exists>db'. write_connected L E (cb_pindex s') prevs (mapQueuedChanges t) db1 = (Inr (), db') \<and> db_ok db'
      \<and> tx_index_of db' = block_view db1 (mapQueuedChanges t)"
    using q by (intro write_connected_ok [OF 1(2)]) (simp only: v1 simp_thms, metis v1)
  ultimately have "db_ok (cb_db s')" "tx_index_of (cb_db s') = block_view (cb_db s) (mapQueuedChanges t)"
    using v1 by auto
  then show ?thesis using q out k(8) by metis
qed

text \<open>C7: 
  Connecting implements the specification of the index: with the records of the database in
  order, a block \<open>ConnectBlock\<close> accepts leaves the index that results from connecting its
  transactions in turn, each at its place in the block file, and every transaction but the
  coinbase spent outputs that were unspent at its turn.
\<close>
theorem connect_block_refines:
  assumes "ConnectBlock L E best bh fs pool b prevs False s = (Inr (), s')" and "bi_nFile (cb_pindex s) \<noteq> - 1"
    and "db_ok (cb_db s)" and "index_wf (tx_index_of (cb_db s))"
  shows "tx_index_of (cb_db s') = connected_all L (bi_nFile (cb_pindex s)) (bi_nBlockPos (cb_pindex s))
      (first_tx_pos (bi_nBlockPos (cb_pindex s)) b) (vtx b) (tx_index_of (cb_db s))
    \<and> connectable_all L (bi_nFile (cb_pindex s)) (bi_nBlockPos (cb_pindex s))
      (first_tx_pos (bi_nBlockPos (cb_pindex s)) b) (vtx b) (tx_index_of (cb_db s))
    \<and> index_wf (tx_index_of (cb_db s'))"
  using ConnectBlock_index [OF assms] by blast

text \<open>C6: 
  Disconnecting a block undoes connecting it: after \<open>ConnectBlock\<close> accepted a block none of whose
  transactions was in the index, \<open>DisconnectBlock\<close> succeeds and leaves the index of before, also when
  transactions of the block spend outputs of others in it.
\<close>
theorem disconnect_block_undoes:
  assumes "ConnectBlock L E best bh fs pool b prevs False s = (Inr (), s')" and "bi_nFile (cb_pindex s) \<noteq> - 1"
    and "db_ok (cb_db s)" and "index_wf (tx_index_of (cb_db s))"
    and "\<forall>tx \<in> set (vtx b). ReadTxIndex (tx_GetHash L tx) (cb_db s) = None"
  shows "\<exists>db'. DisconnectBlock L E b prevs (cb_db s') = (Inr (), db') \<and> db_ok db'
    \<and> tx_index_of db' = tx_index_of (cb_db s)"
proof -
  note c = ConnectBlock_index [OF assms(1-4)]
  obtain db1 where 1: "act_each (DisconnectInputs L) (rev (vtx b)) (cb_db s') = (Inr (), db1)" "db_ok db1"
      "tx_index_of db1 = tx_index_of (cb_db s)"
    using DisconnectInputs_all [of "cb_db s'" L _ _ _ "vtx b" "tx_index_of (cb_db s)"] c assms(2,4,5) by blast
  show ?thesis
  proof (cases prevs)
    case Nil
    then show ?thesis using 1 by (auto simp: DisconnectBlock_def act_simps)
  next
    case (Cons prev ps)
    then show ?thesis
      using 1 write_index_ok [OF 1(2), of L E "diskindex_of prev\<lparr>hashNext := 0\<rparr>"]
      by (auto simp: DisconnectBlock_def act_simps)
  qed
qed

section \<open>Witnesses\<close>

text \<open>
  A library whose SHA-256 maps the 96 bytes of the outer HMAC call to the hash of the genesis
  block, so that every block has it: the block below needs no signature.
\<close>

definition genesis_lib :: extlib where
  "genesis_lib = ref_lib\<lparr>SHA256 := (\<lambda>b. if length b = 96 then ser_u256 hashGenesisBlockOfficial else pad_digest 32 b)\<rparr>"

definition mint_tx :: CTransaction where
  "mint_tx = \<lparr>tx_nVersion = 1, tx_nTime = 4, vin = [txin_new outpoint_null [1, 2]],
     vout = [\<lparr>nValue = 5000, scriptPubKey = [0x51]\<rparr>], nLockTime = 0\<rparr>"

definition mint_block :: CBlock where
  "mint_block = sample_block\<lparr>vtx := [mint_tx, take_tx], nTime := 6, nBits := 0x1e0fffff, vchBlockSig := [],
     hashMerkleRoot := fst (BuildMerkleTree genesis_lib (sample_block\<lparr>vtx := [mint_tx, take_tx]\<rparr>))\<rparr>"

lemma bn_ok_genesis: "bn_ok genesis_lib"
  using bn_ok_ref unfolding bn_ok_def genesis_lib_def by simp

lemma genesis_scrypt: "scrypt_hash genesis_lib x = hashGenesisBlockOfficial"
proof -
  have s: "SHA256 genesis_lib b = (if length b = 96 then ser_u256 hashGenesisBlockOfficial else pad_digest 32 b)" for b
    by (simp add: genesis_lib_def)
  have l: "length (SHA256 genesis_lib b) = 32" for b by (auto simp: s pad_digest_def min_def)
  have o: "SHA256 genesis_lib (hmac_pad c K @ SHA256 genesis_lib b) = ser_u256 hashGenesisBlockOfficial" for c K b
    unfolding s [of "hmac_pad c K @ SHA256 genesis_lib b"] by (simp add: l) (simp add: hmac_pad_def)
  have "PBKDF2_SHA256 genesis_lib p salt 1 32 = ser_u256 hashGenesisBlockOfficial" for p salt
    using hash256.length_ser [of hashGenesisBlockOfficial]
    by (simp add: PBKDF2_SHA256_def pbkdf2_blocks.simps HMAC_SHA256_Final_def HMAC_SHA256_Update_def HMAC_SHA256_Init_def Let_def o)
  moreover have "le_val (ser_u256 hashGenesisBlockOfficial) = unat hashGenesisBlockOfficial"
    unfolding ser_u256_def le_val_le_bytes by (simp add: hashGenesisBlockOfficial_def)
  ultimately show ?thesis by (simp add: scrypt_hash_def scrypt_def Let_def)
qed

lemma small_txs: "tx_size mint_tx < 96" "tx_size take_tx < 96" "tx_size mint_tx < 1000" "tx_size take_tx < 1000"
  by (simp_all add: mint_tx_def take_tx_def txin_new_def tx_size_def vector_size_def txin_size_def txout_size_def
        bytes_size_def GetSizeOfCompactSize_def Let_def)

lemma mint_tx_hash: "tx_GetHash genesis_lib mint_tx = tx_GetHash ref_lib mint_tx"
  "tx_GetHash genesis_lib take_tx = tx_GetHash ref_lib take_tx"
proof -
  have l: "length (ser_CTransaction tx) = tx_size tx" if "tx = mint_tx \<or> tx = take_tx" for tx
  proof (rule transaction.length_ser)
    show "tx_ok tx"
      using that by (auto simp: tx_ok_def mint_tx_def take_tx_def txin_new_def i32_ok_def i64_ok_def bytes_ok_def txin_ok_def txout_ok_def)
  qed
  have "tx_GetHash genesis_lib tx = tx_GetHash ref_lib tx" if "length (ser_CTransaction tx) < 96" for tx
  proof -
    have "length (pad_digest 32 b) = 32" for b by (auto simp: pad_digest_def min_def)
    then show ?thesis
      using that by (simp add: tx_GetHash_def SerializeHash_def hw_GetHash_def hw_write_def hw_Init_def genesis_lib_def ref_lib_def)
  qed
  then show "tx_GetHash genesis_lib mint_tx = tx_GetHash ref_lib mint_tx"
    "tx_GetHash genesis_lib take_tx = tx_GetHash ref_lib take_tx" using l small_txs by simp_all
qed

lemma mint_hashes: "tx_GetHash ref_lib mint_tx \<noteq> fund_hash" "tx_GetHash ref_lib mint_tx \<noteq> tx_GetHash ref_lib take_tx"
  using ref_hash_time [of mint_tx fund_tx] ref_hash_time [of mint_tx take_tx]
  by (auto simp: fund_hash_def take_tx_def fund_tx_def mint_tx_def)

lemma mint_pow: "CheckProofOfWork genesis_lib False (block_GetHash genesis_lib b) 0x1e0fffff"
proof -
  have t: "SetCompact genesis_lib 0x1e0fffff = 0xfffff * 256 ^ 27"
    unfolding SetCompact_value [OF bn_ok_genesis] compact_value_def by (simp add: Let_def compact_shift_def)
  have h: "unat hashGenesisBlockOfficial = 0x000002655a721555160ea9bcb1072faf63ff0c8dffed173d60b1d3556a134dc1"
    by (simp add: hashGenesisBlockOfficial_def)
  show ?thesis
    unfolding CheckProofOfWork_iff [OF bn_ok_genesis] t block_GetHash_def genesis_scrypt h by simp
qed

lemma mint_txs_valid: "CheckTransaction mint_tx = Inr ()" "CheckTransaction take_tx = Inr ()"
  unfolding CheckTransaction_cases
  by (simp_all add: mint_tx_def take_tx_def txin_new_def tx_size_def vector_size_def txin_size_def txout_size_def
        bytes_size_def GetSizeOfCompactSize_def amounts block_limits output_ok_def IsCoinBase_def outpoint_IsNull_def outpoint_null_def)

lemma mint_coinbase: "IsCoinBase mint_tx" "\<not> IsCoinStake mint_tx" "\<not> IsCoinStake take_tx"
  by (simp_all add: mint_tx_def take_tx_def txin_new_def IsCoinBase_def IsCoinStake_def outpoint_IsNull_def outpoint_null_def)

lemma mint_sigops: "GetLegacySigOpCount mint_tx = 0" "GetLegacySigOpCount take_tx = 0"
proof -
  have "GetSigOpCount False [0x51] = 0" "GetSigOpCount False [1, 2] = 0" "GetSigOpCount False [] = 0" by code_simp+
  then show "GetLegacySigOpCount mint_tx = 0" "GetLegacySigOpCount take_tx = 0"
    by (simp_all add: GetLegacySigOpCount_def mint_tx_def take_tx_def txin_new_def)
qed

lemma mint_block_checked: "CheckBlock genesis_lib env_test best True True True mint_block = Inr ()"
proof -
  have v: "vtx mint_block = [mint_tx, take_tx]" "nTime mint_block = 6" "nBits mint_block = 0x1e0fffff"
      "vchBlockSig mint_block = []" "hashMerkleRoot mint_block = fst (BuildMerkleTree genesis_lib mint_block)"
    by (simp_all add: mint_block_def BuildMerkleTree_def Let_def)
  have t: "tx_nTime mint_tx = 4" "tx_nTime take_tx = 6" "length (vout mint_tx) = 1"
      "GetValueOut mint_tx = Inr 5000"
    by (simp_all add: mint_tx_def take_tx_def GetValueOut_def amounts Let_def)
  have size: "block_size mint_block \<le> MAX_BLOCK_SIZE"
    using small_txs(3,4) by (simp add: block_size_def v vector_size_def bytes_size_def GetSizeOfCompactSize_def block_limits)
  have pos: "\<not> block_IsProofOfStake mint_block" using mint_coinbase by (simp add: block_IsProofOfStake_def v)
  have sig: "CheckBlockSignature genesis_lib False mint_block"
    by (simp add: CheckBlockSignature_def block_GetHash_def genesis_scrypt hashGenesisBlock_def v)
  have reward: "check_reward best mint_block = Inr ()"
    using pos by (simp add: check_reward_def coinbase_limit_def v t REWARD_SWITCH_TIME_def block_IsProofOfWork_def
        MAX_MINT_PROOF_OF_WORK_LEGACY_def amounts)
  have contents: "check_contents genesis_lib False True True mint_block = Inr ()"
    using sig mint_hashes(2) mint_sigops by (simp add: check_contents_def v mint_txs_valid t mint_tx_hash legacy_sigops_def)
  show ?thesis
    using size pos mint_pow mint_coinbase take_not_base reward contents
    by (simp add: CheckBlock_def v t env_test_def nMaxClockDrift_def block_GetBlockTime_def block_limits)
qed

definition mint_pool :: CTxMemPool where
  "mint_pool = pool_empty\<lparr>mapTx := [(fund_hash, fund_tx)]\<rparr>"

definition mint_pindex :: CBlockIndex where
  "mint_pindex = index_empty\<lparr>bi_nFile := 1, bi_nBlockPos := 8\<rparr>"

abbreviation mint_start :: "CTxDB \<Rightarrow> block_connect" where
  "mint_start db \<equiv> \<lparr>cb_db = db, cb_pindex = mint_pindex, cb_cache = cache_empty\<rparr>"

lemma mint_p2sh: "IsPayToScriptHash [0x51] = False"
  by code_simp

lemma mint_connects:
  assumes "db_ok db" and "tx_index_of db = [fund_hash \<mapsto> txindex_new pos_mempool 1]"
    and "bi_nFile p1 = 1" and "bi_nBlockPos p1 = 8"
  shows "\<exists>t. act_each (connect_tx genesis_lib env_test 0 db files_empty mint_pool (p1 # prevs) False) (vtx mint_block)
      (connect_start False p1 mint_block cache_empty) = (Inr (), t)"
proof -
  have v: "vtx mint_block = [mint_tx, take_tx]" by (simp add: mint_block_def)
  have r: "ReadTxIndex h db = (if h = fund_hash then Some (txindex_new pos_mempool 1) else None)" for h
    using fun_cong [OF assms(2), of h] by simp
  have t: "GetValueOut mint_tx = Inr 5000" "GetValueOut take_tx = Inr 4000" "vin take_tx = [txin_new (COutPoint fund_hash 0) []]"
      "length (vout mint_tx) = 1" "length (vout take_tx) = 1"
    by (simp_all add: mint_tx_def take_tx_def GetValueOut_def amounts Let_def)
  have ow: "\<not> overwrites genesis_lib db mint_tx" "\<not> overwrites genesis_lib db take_tx"
    using mint_hashes take_hash by (simp_all add: overwrites_def r mint_tx_hash)
  define p where "p = diskpos 1 8 (first_tx_pos 8 mint_block)"
  define I :: MapPrevTx where "I = [fund_hash \<mapsto> (txindex_new pos_mempool 1, fund_tx)]"
  define q where "q = smap_put (tx_GetHash ref_lib mint_tx) (txindex_new p 1) []"
  have f: "FetchInputs db files_empty mint_pool take_tx q True False Map.empty = Inr I"
    using mint_hashes take_not_base
    by (simp add: FetchInputs_def t txin_new_def fetch_prev_def read_txindex_def r q_def smap_count_def I_def
        diskpos_eq_def pool_exists_def mint_pool_def pool_lookup_def prevout_in_range_def txindex_new_def fund_tx_def Let_def)
  have n: "GetP2SHSigOpCount take_tx I = Inr 0"
    using take_not_base by (simp add: GetP2SHSigOpCount_def t txin_new_def I_def fund_tx_def GetOutputFor_def mint_p2sh)
  have vi: "GetValueIn take_tx I = Inr 5000"
    using take_not_base by (simp add: GetValueIn_def t txin_new_def I_def fund_tx_def GetOutputFor_def)
  have c: "\<exists>q' c'. ConnectInputs genesis_lib env_test 0 take_tx I p' ch True False True (q, cache_empty) = (Inr (), q', c')" for p' ch
  proof -
    have b: "\<not> immature ch (txindex_new pos_mempool 1) fund_tx"
      by (simp add: immature_def fund_tx_def IsCoinBase_def IsCoinStake_def txin_new_def outpoint_IsNull_def)
    have "check_inputs take_tx I ch 0 (vin take_tx) = Inr 5000"
      using b by (simp add: t txin_new_def I_def fund_tx_def txindex_new_def take_tx_def amounts)
    moreover have "\<exists>s. act_each (connect_input genesis_lib env_test 0 take_tx p' True False True)
        (enumerate 0 (vin take_tx)) \<lparr>cn_inputs = I, mapTestPool = q, cn_cache = cache_empty\<rparr> = (Inr (), s)"
      by (simp add: t txin_new_def connect_input_def I_def txindex_new_def diskpos_IsNull_def diskpos_null_def diskpos_def
          env_test_def GetTotalBlocksEstimate_value act_simps act_then_def act_bind_def)
    ultimately show ?thesis using take_fee take_not_base by (auto simp: ConnectInputs_def act_simps)
  qed
  obtain s1 where s1: "connect_tx genesis_lib env_test 0 db files_empty mint_pool (p1 # prevs) False mint_tx
      (connect_start False p1 mint_block cache_empty) = (Inr (), s1)" "mapQueuedChanges s1 = q" "ct_cache s1 = cache_empty"
      "ct_nSigOps s1 = 0"
    using ow(1) mint_coinbase(1)
    by (simp add: connect_tx_def Let_def mint_sigops connect_start_def connect_coinbase_def t mint_tx_hash q_def p_def assms(3,4) act_simps)
  define p2 where "p2 = diskpos 1 8 (ct_nTxPos s1)"
  define s2 where "s2 = s1\<lparr>ct_nSigOps := 0, ct_nTxPos := ct_nTxPos s1 + of_nat (tx_size take_tx)\<rparr>"
  obtain q' c' where c2: "ConnectInputs genesis_lib env_test 0 take_tx I p2 (p1 # prevs) True False True (q, cache_empty) = (Inr (), q', c')"
    using c by blast
  have s2: "mapQueuedChanges s2 = q" "ct_cache s2 = cache_empty" "ct_nSigOps s2 = 0"
    by (simp_all add: s2_def s1)
  have "\<exists>s3. connect_spending genesis_lib env_test 0 db files_empty mint_pool (p1 # prevs) take_tx p2 s2 = (Inr (), s3)"
    using mint_coinbase(3) by (simp add: connect_spending_def s2 f n vi t c2 Let_def)
  then obtain s3 where "connect_spending genesis_lib env_test 0 db files_empty mint_pool (p1 # prevs) take_tx p2 s2 = (Inr (), s3)"
    by blast
  then have "\<exists>s4. connect_tx genesis_lib env_test 0 db files_empty mint_pool (p1 # prevs) False take_tx s1 = (Inr (), s4)"
    using ow(2) take_not_base s1(4)
    by (simp add: connect_tx_def Let_def mint_sigops act_then_def act_bind_def act_modify_def s2_def p2_def assms(3,4))
  then show ?thesis using s1(1) by (auto simp: v act_simps)
qed

lemma ConnectBlock_succeeds:
  assumes "CheckBlock L E best True True True b = Inr ()"
    and "act_each (connect_tx L E bh (cb_db s) fs pool (cb_pindex s # prevs) False) (vtx b)
           (connect_start False (cb_pindex s) b (cb_cache s)) = (Inr (), t)"
    and "check_stake_reward L E (cb_db s) fs prevs b (ct_nStakeReward t) (ct_nFees t) = Inr ()"
    and "db_ok (cb_db s)" and "smap_ok (mapQueuedChanges t)" and "index_wf (block_view (cb_db s) (mapQueuedChanges t))"
  shows "\<exists>s'. ConnectBlock L E best bh fs pool b prevs False s = (Inr (), s')"
proof -
  have "\<exists>db'. act_then (write_index L E d) (write_connected L E p prevs (mapQueuedChanges t)) (cb_db s) = (Inr (), db')" for d p
  proof -
    obtain db1 where 1: "write_index L E d (cb_db s) = (Inr (), db1)" "db_ok db1" "tx_index_of db1 = tx_index_of (cb_db s)"
      using write_index_ok [OF assms(4)] by blast
    then have "index_wf (block_view db1 (mapQueuedChanges t))" using assms(6) by (simp add: block_view_def)
    then obtain db2 where "write_connected L E p prevs (mapQueuedChanges t) db1 = (Inr (), db2)"
      using write_connected_ok [OF 1(2) assms(5)] by blast
    then show ?thesis using 1(1) by (simp add: act_simps)
  qed
  then show ?thesis
    by (simp add: ConnectBlock_def assms(1-3) Let_def act_on_def split: prod.split) (metis Pair_inject)
qed

lemma mint_db:
  "\<exists>db. db_ok db \<and> tx_index_of db = [fund_hash \<mapsto> txindex_new pos_mempool 1] \<and> index_wf (tx_index_of db)
    \<and> activeBatch db = None"
proof -
  define i where "i = txindex_new pos_mempool 1"
  define db0 where "db0 = db_empty\<lparr>activeBatch := None\<rparr>"
  have i: "txindex_fits i" "vSpent i = [diskpos_null]" by (simp_all add: i_def txindex_fits_def txindex_new_def)
  have ok: "db_ok db0" by (simp add: db0_def db_ok_def db_empty_def)
  obtain db where db: "UpdateTxIndex fund_hash i db0 = (Inr (), db)" "db_ok db"
      "\<forall>h'. ReadTxIndex h' db = (if h' = fund_hash then Some i else ReadTxIndex h' db0)"
    using txidx.update_law [OF ok i(1), of fund_hash] by blast
  have "activeBatch (snd (UpdateTxIndex fund_hash i db0)) = None"
    unfolding UpdateTxIndex_def using db_Write_ok [OF ok] by (simp add: db0_def)
  then have n: "activeBatch db = None" by (simp add: db(1))
  have "ReadTxIndex h db0 = None" for h
    by (simp add: ReadTxIndex_view [OF ok] db_view_def pending_def) (simp add: db0_def db_empty_def)
  then have T: "tx_index_of db = [fund_hash \<mapsto> i]" using db(3) by (auto simp: fun_eq_iff)
  have wf: "index_wf (tx_index_of db)" unfolding T by (simp add: index_wf_def i)
  show ?thesis using db(2) n T wf unfolding i_def by blast
qed

lemma mint_ConnectBlock:
  assumes "db_ok db" and "tx_index_of db = [fund_hash \<mapsto> txindex_new pos_mempool 1]" and "index_wf (tx_index_of db)"
    and "bi_nFile p = 1" and "bi_nBlockPos p = 8"
  shows "\<exists>s'. ConnectBlock genesis_lib env_test best 0 files_empty mint_pool mint_block prevs False
      \<lparr>cb_db = db, cb_pindex = p, cb_cache = cache_empty\<rparr> = (Inr (), s')"
proof -
  obtain t where t: "act_each (connect_tx genesis_lib env_test 0 db files_empty mint_pool (p # prevs) False) (vtx mint_block)
      (connect_start False p mint_block cache_empty) = (Inr (), t)"
    using mint_connects [OF assms(1,2,4,5)] by blast
  have v: "block_view db [] = tx_index_of db" by (simp add: block_view_def)
  have "\<forall>tx \<in> set (vtx mint_block). length (vout tx) \<le> 0x02000000" by (simp add: mint_block_def mint_tx_def take_tx_def)
  then have q: "smap_ok (mapQueuedChanges t)" "index_wf (block_view db (mapQueuedChanges t))"
    using connect_txs_index [OF t, THEN conjunct1] connect_txs_index [OF t, THEN conjunct2, THEN conjunct1] assms(3)
    by (simp_all add: connect_start_def v assms(4,5))
  have pos: "\<not> block_IsProofOfStake mint_block"
    using mint_coinbase by (simp add: block_IsProofOfStake_def mint_block_def)
  have "check_stake_reward genesis_lib env_test db files_empty prevs mint_block (ct_nStakeReward t) (ct_nFees t) = Inr ()"
    using pos by (simp add: check_stake_reward_def)
  then show ?thesis
    using ConnectBlock_succeeds [where s = "\<lparr>cb_db = db, cb_pindex = p, cb_cache = cache_empty\<rparr>", OF mint_block_checked] t q assms(1)
    by simp
qed

lemma mint_block_connects:
  "\<exists>db s'. db_ok db \<and> tx_index_of db = [fund_hash \<mapsto> txindex_new pos_mempool 1]
    \<and> index_wf (tx_index_of db)
    \<and> ConnectBlock genesis_lib env_test None 0 files_empty mint_pool mint_block [] False (mint_start db) = (Inr (), s')"
proof -
  have "bi_nFile mint_pindex = 1" "bi_nBlockPos mint_pindex = 8" by (simp_all add: mint_pindex_def)
  then show ?thesis using mint_db mint_ConnectBlock by blast
qed

theorem mint_bounded_witness:
  "\<exists>db s' fees. ConnectBlock genesis_lib env_test None 0 files_empty mint_pool mint_block [] False (mint_start db) = (Inr (), s')
    \<and> 0 \<le> fees \<and> nMint (cb_pindex s') = 5000 \<and> nMoneySupply (cb_pindex s') = 5000 - fees"
proof -
  obtain db s' where c: "ConnectBlock genesis_lib env_test None 0 files_empty mint_pool mint_block [] False (mint_start db) = (Inr (), s')"
    using mint_block_connects by blast
  have "\<not> block_IsProofOfStake mint_block" "vout (vtx mint_block ! 0) = [\<lparr>nValue = 5000, scriptPubKey = [0x51]\<rparr>]"
    using mint_coinbase by (simp_all add: block_IsProofOfStake_def mint_block_def) (simp add: mint_tx_def)
  then show ?thesis using mint_bounded [OF c] c by (fastforce simp: mint_pindex_def)
qed

theorem connect_block_refines_witness:
  "\<exists>db s'. tx_index_of db = [fund_hash \<mapsto> txindex_new pos_mempool 1]
    \<and> ConnectBlock genesis_lib env_test None 0 files_empty mint_pool mint_block [] False (mint_start db) = (Inr (), s')
    \<and> tx_index_of (cb_db s')
      = connected_all genesis_lib 1 8 (first_tx_pos 8 mint_block) [mint_tx, take_tx] (tx_index_of db)"
proof -
  obtain db s' where c: "ConnectBlock genesis_lib env_test None 0 files_empty mint_pool mint_block [] False (mint_start db) = (Inr (), s')"
      "db_ok db" "index_wf (tx_index_of db)" "tx_index_of db = [fund_hash \<mapsto> txindex_new pos_mempool 1]"
    using mint_block_connects by blast
  have v: "vtx mint_block = [mint_tx, take_tx]" by (simp add: mint_block_def)
  have "tx_index_of (cb_db s')
      = connected_all genesis_lib 1 8 (first_tx_pos 8 mint_block) [mint_tx, take_tx] (tx_index_of db)"
    using connect_block_refines [OF c(1)] c(2,3) by (simp add: mint_pindex_def v)
  then show ?thesis using c(1,4) by blast
qed

theorem disconnect_block_undoes_witness:
  "\<exists>db s' db'. tx_index_of db = [fund_hash \<mapsto> txindex_new pos_mempool 1]
    \<and> ConnectBlock genesis_lib env_test None 0 files_empty mint_pool mint_block [] False (mint_start db) = (Inr (), s')
    \<and> DisconnectBlock genesis_lib env_test mint_block [] (cb_db s') = (Inr (), db') \<and> tx_index_of db' = tx_index_of db"
proof -
  obtain db s' where c: "ConnectBlock genesis_lib env_test None 0 files_empty mint_pool mint_block [] False (mint_start db) = (Inr (), s')"
      "db_ok db" "index_wf (tx_index_of db)" "tx_index_of db = [fund_hash \<mapsto> txindex_new pos_mempool 1]"
    using mint_block_connects by blast
  have "\<forall>tx \<in> set (vtx mint_block). ReadTxIndex (tx_GetHash genesis_lib tx) db = None"
    using mint_hashes take_hash fun_cong [OF c(4)] by (simp add: mint_block_def mint_tx_hash)
  then show ?thesis using disconnect_block_undoes [OF c(1)] c by (fastforce simp: mint_pindex_def)
qed

end
