(* ===== verification/Chain.thy ===== *)
theory Chain
  imports Connect_Block
begin

text \<open>
  The node's tree of blocks and its best branch (\<open>main.cpp\<close>): finding a block by height, the
  reorganisation, setting the best chain, adding a block to the index. A pointer to an entry is
  its key in \<open>mapBlockIndex\<close>. The wallets, which are told the new best block, the time it came
  (\<open>nTimeBestReceived\<close>), the version warning and \<open>-blocknotify\<close> are not modelled.
\<close>

section \<open>The state of the node\<close>

record node =
  mapBlockIndex :: block_map
  pindexGenesisBlock :: "u256 option"
  pindexBest :: "u256 option"
  hashBestChain :: u256
  nBestHeight :: int
  bnBestChainTrust :: int
  bnBestInvalidTrust :: int
  pblockindexFBBHLast :: "u256 option"
  setStakeSeen :: "(COutPoint \<times> u32) set"
  mapProofOfStake :: "u256 \<rightharpoonup> u256"
  nd_db :: CTxDB
  nd_files :: block_files
  nd_pool :: CTxMemPool
  nd_cache :: CSignatureCache

definition on_db :: "(CTxDB, 'a) action \<Rightarrow> (node, 'a) action" where
  "on_db = act_on nd_db (\<lambda>db nd. nd\<lparr>nd_db := db\<rparr>)"

definition best_chain :: "node \<Rightarrow> chain" where
  "best_chain nd = chain_at (mapBlockIndex nd) (pindexBest nd)"

definition best_entry :: "node \<Rightarrow> CBlockIndex option" where
  "best_entry nd = Option.bind (pindexBest nd) (mapBlockIndex nd)"

section \<open>A block by its height\<close>

text \<open>Forward along \<open>pnext\<close>; the walk may not end in a malformed index. \<open>Crashed\<close> for NULL.\<close>

partial_function (option) height_forward :: "block_map \<Rightarrow> int \<Rightarrow> CBlockIndex \<Rightarrow> (failure + CBlockIndex) option" where
  "height_forward M height p =
     (if nHeight p < height
      then (case Option.bind (pnext p) M of None \<Rightarrow> Some (Inl Crashed) | Some q \<Rightarrow> height_forward M height q)
      else Some (Inr p))"

definition height_start :: "node \<Rightarrow> int \<Rightarrow> u256 option" where
  "height_start nd height =
     (let pblockindex = (if height < c_div (nBestHeight nd) 2 then pindexGenesisBlock nd else pindexBest nd)
      in case Option.bind (pblockindexFBBHLast nd) (mapBlockIndex nd) of
           None \<Rightarrow> pblockindex
         | Some q \<Rightarrow> (case Option.bind pblockindex (mapBlockIndex nd) of
             None \<Rightarrow> None
           | Some p \<Rightarrow> if \<bar>height - nHeight q\<bar> < \<bar>height - nHeight p\<bar> then pblockindexFBBHLast nd else pblockindex))"

definition FindBlockByHeight :: "int \<Rightarrow> node \<Rightarrow> (failure + CBlockIndex) option \<times> node" where
  "FindBlockByHeight height nd =
     (case trace_back height (chain_at (mapBlockIndex nd) (height_start nd height)) of
        [] \<Rightarrow> (Some (Inl Crashed), nd)
      | p # _ \<Rightarrow> (case height_forward (mapBlockIndex nd) height p of
          Some (Inr q) \<Rightarrow> (Some (Inr q), nd\<lparr>pblockindexFBBHLast := Some (phashBlock q)\<rparr>)
        | r \<Rightarrow> (r, nd)))"

section \<open>Connecting within the node\<close>

text \<open>\<open>ConnectBlock\<close> changes the entry even where it fails later.\<close>

definition node_ConnectBlock :: "extlib \<Rightarrow> node_env \<Rightarrow> CBlock \<Rightarrow> u256 \<Rightarrow> (node, unit) action" where
  "node_ConnectBlock L E b h nd =
     (case mapBlockIndex nd h of None \<Rightarrow> (Inl Crashed, nd)
      | Some pindex \<Rightarrow>
          (case ConnectBlock L E (best_entry nd) (nBestHeight nd) (nd_files nd) (nd_pool nd) b
                  (chain_at (mapBlockIndex nd) (pprev pindex)) False
                  \<lparr>cb_db = nd_db nd, cb_pindex = pindex, cb_cache = nd_cache nd\<rparr> of
             (r, c) \<Rightarrow> (r, nd\<lparr>nd_db := cb_db c, mapBlockIndex := (mapBlockIndex nd)(h \<mapsto> cb_pindex c),
                            nd_cache := cb_cache c\<rparr>)))"

definition AcceptToMemoryPool :: "extlib \<Rightarrow> node_env \<Rightarrow> CTransaction \<Rightarrow> bool \<Rightarrow> (node, bool \<times> bool) action" where
  "AcceptToMemoryPool L E tx fCheckInputs nd =
     (case pool_accept L E (nBestHeight nd) (best_chain nd) (nd_db nd) (nd_files nd) tx fCheckInputs
             \<lparr>ac_pool = nd_pool nd, ac_cache = nd_cache nd\<rparr> of
        (r, s) \<Rightarrow> (r, nd\<lparr>nd_pool := ac_pool s, nd_cache := ac_cache s\<rparr>))"

definition node_remove :: "extlib \<Rightarrow> CTransaction \<Rightarrow> (node, unit) action" where
  "node_remove L tx = act_modify (\<lambda>nd. nd\<lparr>nd_pool := pool_remove L tx (nd_pool nd)\<rparr>)"

section \<open>Reorganisation\<close>

text \<open>
  The fork of two branches: \<open>pfork\<close> and \<open>plonger\<close> are the branches from these blocks back.
  \<open>None\<close> where a branch ends without one.
\<close>

function find_fork :: "chain \<Rightarrow> chain \<Rightarrow> chain option" where
  "find_fork pfork plonger =
     (case (pfork, plonger) of
        (p # ps, q # qs) \<Rightarrow>
          if phashBlock p = phashBlock q then Some pfork
          else (case trace_back (nHeight p) plonger of
            [] \<Rightarrow> None
          | r # rs \<Rightarrow> if phashBlock p = phashBlock r then Some pfork
                      else if ps = [] then None else find_fork ps (r # rs))
      | _ \<Rightarrow> None)"
  by pat_completeness auto
termination by (relation "measure (\<lambda>(p, q). length p)") auto

declare find_fork.simps [simp del]

text \<open>The blocks of a branch above the fork, newest first.\<close>

definition branch_above :: "chain \<Rightarrow> chain \<Rightarrow> u256 list" where
  "branch_above ch pfork = map phashBlock (takeWhile (\<lambda>p. phashBlock p \<noteq> phashBlock (hd pfork)) ch)"

fun disconnect_branch :: "extlib \<Rightarrow> node_env \<Rightarrow> u256 list \<Rightarrow> CTransaction list \<Rightarrow> (node, CTransaction list) action" where
  "disconnect_branch L E [] vResurrect nd = (Inr vResurrect, nd)"
| "disconnect_branch L E (h # hs) vResurrect nd =
     (case mapBlockIndex nd h of None \<Rightarrow> (Inl Crashed, nd)
      | Some pindex \<Rightarrow> (case block_ReadFromDisk L (fTestNet E) pindex True (nd_files nd) of
          None \<Rightarrow> (Inl (Refused 0), nd)
        | Some b \<Rightarrow>
            act_then (on_db (DisconnectBlock L E b (chain_at (mapBlockIndex nd) (pprev pindex))))
              (disconnect_branch L E hs
                 (vResurrect @ filter (\<lambda>tx. \<not> (IsCoinBase tx \<or> IsCoinStake tx)) (vtx b))) nd))"

fun connect_branch :: "extlib \<Rightarrow> node_env \<Rightarrow> u256 list \<Rightarrow> CTransaction list \<Rightarrow> (node, CTransaction list) action" where
  "connect_branch L E [] vDelete nd = (Inr vDelete, nd)"
| "connect_branch L E (h # hs) vDelete nd =
     (case mapBlockIndex nd h of None \<Rightarrow> (Inl Crashed, nd)
      | Some pindex \<Rightarrow> (case block_ReadFromDisk L (fTestNet E) pindex True (nd_files nd) of
          None \<Rightarrow> (Inl (Refused 0), nd)
        | Some b \<Rightarrow> (case node_ConnectBlock L E b h nd of
            (Inl e, nd) \<Rightarrow> (Inl (no_score e), nd)
          | (Inr u, nd) \<Rightarrow> connect_branch L E hs (vDelete @ vtx b) nd)))"

definition set_pnext :: "u256 option \<Rightarrow> u256 \<Rightarrow> block_map \<Rightarrow> block_map" where
  "set_pnext v q M = M(q := map_option (\<lambda>i. i\<lparr>pnext := v\<rparr>) (M q))"

text \<open>\<open>pindex->pprev->pnext = NULL\<close> and \<open>= pindex\<close>, where there is a predecessor.\<close>

definition link_prev_to :: "u256 option \<Rightarrow> u256 \<Rightarrow> block_map \<Rightarrow> block_map" where
  "link_prev_to v h M =
     (case Option.bind (M h) pprev of None \<Rightarrow> M | Some q \<Rightarrow> set_pnext v q M)"

definition relink :: "u256 list \<Rightarrow> u256 list \<Rightarrow> block_map \<Rightarrow> block_map" where
  "relink vDisconnect vConnect M =
     fold (\<lambda>h. link_prev_to (Some h) h) vConnect (fold (link_prev_to None) vDisconnect M)"

definition resurrect :: "extlib \<Rightarrow> node_env \<Rightarrow> CTransaction \<Rightarrow> (node, unit) action" where
  "resurrect L E tx = act_then (act_try (AcceptToMemoryPool L E tx False)) (act_return ())"

definition Reorganize :: "extlib \<Rightarrow> node_env \<Rightarrow> u256 \<Rightarrow> (node, unit) action" where
  "Reorganize L E pindexNew nd =
     (if best_chain nd = [] then (Inl Crashed, nd)
      else case find_fork (best_chain nd) (chain_at (mapBlockIndex nd) (Some pindexNew)) of
        None \<Rightarrow> (Inl (Refused 0), nd)
      | Some pfork \<Rightarrow>
          let vDisconnect = branch_above (best_chain nd) pfork;
              vConnect = rev (branch_above (chain_at (mapBlockIndex nd) (Some pindexNew)) pfork)
          in act_bind (disconnect_branch L E vDisconnect []) (\<lambda>vResurrect.
             act_bind (connect_branch L E vConnect []) (\<lambda>vDelete.
               act_then (on_db (act_then (WriteHashBestChain pindexNew) TxnCommit))
              (act_then (act_modify (\<lambda>nd. nd\<lparr>mapBlockIndex := relink vDisconnect vConnect (mapBlockIndex nd)\<rparr>))
              (act_then (act_each (resurrect L E) vResurrect)
                        (act_each (node_remove L) vDelete))))) nd)"

section \<open>Setting the best chain\<close>

text \<open>\<open>CTxDB().WriteBestInvalidTrust\<close>: an object of its own over the same store; its result is not looked at.\<close>

definition InvalidChainFound :: "extlib \<Rightarrow> u256 \<Rightarrow> (node, unit) action" where
  "InvalidChainFound L pindexNew nd =
     (case mapBlockIndex nd pindexNew of None \<Rightarrow> (Inl Crashed, nd)
      | Some p \<Rightarrow>
          let nd = (if bn_gt L (bnChainTrust p) (bnBestInvalidTrust nd)
                    then let db = snd (WriteBestInvalidTrust L (bnChainTrust p) (CTxDB_open ''r+'' (nd_db nd)))
                         in nd\<lparr>bnBestInvalidTrust := bnChainTrust p, nd_db := (nd_db nd)\<lparr>ldb_store := ldb_store db\<rparr>\<rparr>
                    else nd)
          in if best_entry nd = None then (Inl Crashed, nd) else (Inr (), nd))"

text \<open>What a failed attempt leaves: \<open>TxnAbort\<close>, \<open>InvalidChainFound\<close>, and \<open>return false\<close> with the score \<open>n\<close>.\<close>

definition chain_refused :: "extlib \<Rightarrow> u256 \<Rightarrow> int \<Rightarrow> (node, unit) action" where
  "chain_refused L pindexNew n =
     act_then (on_db TxnAbort) (act_then (InvalidChainFound L pindexNew) (act_fail (Refused n)))"

definition SetBestChainInner :: "extlib \<Rightarrow> node_env \<Rightarrow> CBlock \<Rightarrow> u256 \<Rightarrow> (node, unit) action" where
  "SetBestChainInner L E b pindexNew nd =
     (case act_then (node_ConnectBlock L E b pindexNew) (on_db (WriteHashBestChain (block_GetHash L b))) nd of
        (Inl (Refused n), nd) \<Rightarrow> chain_refused L pindexNew n nd
      | (Inl Crashed, nd) \<Rightarrow> (Inl Crashed, nd)
      | (Inr u, nd) \<Rightarrow>
          act_then (on_db TxnCommit)
          (act_then (\<lambda>nd. if Option.bind (mapBlockIndex nd pindexNew) pprev = None then (Inl Crashed, nd)
              else (Inr (), nd\<lparr>mapBlockIndex := link_prev_to (Some pindexNew) pindexNew (mapBlockIndex nd)\<rparr>))
            (act_each (node_remove L) (vtx b))) nd)"

text \<open>
  The blocks postponed, newest first, and the block to reorganise to: as long as the
  predecessor alone has more trust than the best chain.
\<close>

fun postpone :: "extlib \<Rightarrow> int \<Rightarrow> chain \<Rightarrow> u256 list \<times> u256" where
  "postpone L bestTrust [] = ([], 0)"
| "postpone L bestTrust [p] = ([], phashBlock p)"
| "postpone L bestTrust (p # q # ch) =
     (if bn_gt L (bnChainTrust q) bestTrust
      then (case postpone L bestTrust (q # ch) of (ps, m) \<Rightarrow> (phashBlock p # ps, m))
      else ([], phashBlock p))"

text \<open>The postponed blocks, oldest first; a block that cannot be read or connected ends the loop without an error.\<close>

fun connect_postponed :: "extlib \<Rightarrow> node_env \<Rightarrow> u256 list \<Rightarrow> (node, unit) action" where
  "connect_postponed L E [] nd = (Inr (), nd)"
| "connect_postponed L E (h # hs) nd =
     (case mapBlockIndex nd h of None \<Rightarrow> (Inl Crashed, nd)
      | Some pindex \<Rightarrow> (case block_ReadFromDisk L (fTestNet E) pindex True (nd_files nd) of
          None \<Rightarrow> (Inr (), nd)
        | Some b \<Rightarrow> (case act_then (on_db TxnBegin) (SetBestChainInner L E b h) nd of
            (Inl (Refused n), nd) \<Rightarrow> (Inr (), nd)
          | (Inl Crashed, nd) \<Rightarrow> (Inl Crashed, nd)
          | (Inr u, nd) \<Rightarrow> connect_postponed L E hs nd)))"

definition switch_branch :: "extlib \<Rightarrow> node_env \<Rightarrow> u256 \<Rightarrow> (node, unit) action" where
  "switch_branch L E pindexNew nd =
     (case best_entry nd of None \<Rightarrow> (Inl Crashed, nd)
      | Some best \<Rightarrow>
          (case postpone L (bnChainTrust best) (chain_at (mapBlockIndex nd) (Some pindexNew)) of
             (vpindexSecondary, pindexIntermediate) \<Rightarrow>
          (case Reorganize L E pindexIntermediate nd of
             (Inl (Refused n), nd) \<Rightarrow> chain_refused L pindexNew 0 nd
           | (Inl Crashed, nd) \<Rightarrow> (Inl Crashed, nd)
           | (Inr u, nd) \<Rightarrow> connect_postponed L E (rev vpindexSecondary) nd)))"

definition set_best :: "u256 \<Rightarrow> u256 \<Rightarrow> (node, unit) action" where
  "set_best hash pindexNew nd =
     (case mapBlockIndex nd pindexNew of None \<Rightarrow> (Inl Crashed, nd)
      | Some p \<Rightarrow> (Inr (), nd\<lparr>hashBestChain := hash, pindexBest := Some pindexNew, pblockindexFBBHLast := None,
             nBestHeight := nHeight p, bnBestChainTrust := bnChainTrust p,
             nd_pool := (nd_pool nd)\<lparr>nTransactionsUpdated := nTransactionsUpdated (nd_pool nd) + 1\<rparr>\<rparr>))"

definition SetBestChain :: "extlib \<Rightarrow> node_env \<Rightarrow> CBlock \<Rightarrow> u256 \<Rightarrow> (node, unit) action" where
  "SetBestChain L E b pindexNew =
     (let hash = block_GetHash L b
      in act_then (on_db TxnBegin)
        (act_then (\<lambda>nd.
           if pindexGenesisBlock nd = None \<and> hash = hashGenesisBlock (fTestNet E)
           then act_then (on_db (act_then (act_try (WriteHashBestChain hash)) TxnCommit))
                  (act_modify (\<lambda>nd. nd\<lparr>pindexGenesisBlock := Some pindexNew\<rparr>)) nd
           else if hashPrevBlock b = hashBestChain nd then SetBestChainInner L E b pindexNew nd
           else switch_branch L E pindexNew nd)
         (set_best hash pindexNew)))"

section \<open>Adding a block to the index\<close>

text \<open>The entry of a new block; \<open>Crashed\<close> for a division that throws or the assertion of the checksum.\<close>

definition new_entry :: "extlib \<Rightarrow> node_env \<Rightarrow> u32 \<Rightarrow> u32 \<Rightarrow> CBlock \<Rightarrow> node \<Rightarrow> failure + CBlockIndex" where
  "new_entry L E nFile nBlockPos b nd =
     (let M = mapBlockIndex nd; hash = block_GetHash L b;
          p = (index_of_block nFile nBlockPos b)\<lparr>phashBlock := hash\<rparr>;
          p = (case M (hashPrevBlock b) of None \<Rightarrow> p
               | Some q \<Rightarrow> p\<lparr>pprev := Some (hashPrevBlock b), nHeight := nHeight q + 1\<rparr>);
          prevs = chain_at M (pprev p)
      in case GetBlockTrust L p of None \<Rightarrow> Inl Crashed
       | Some trust \<Rightarrow>
           let p = p\<lparr>bnChainTrust := BN_add L (case prevs of [] \<Rightarrow> bn_of_int L 0 | q # _ \<Rightarrow> bnChainTrust q) trust\<rparr>
           in case SetStakeEntropyBit (block_GetStakeEntropyBit L (fTestNet E) b (of_int (nHeight p))) p of
                (False, p) \<Rightarrow> Inl (Refused 0)
              | (True, p) \<Rightarrow>
                  if index_IsProofOfStake p \<and> mapProofOfStake nd hash = None then Inl (Refused 0)
                  else let p = (case mapProofOfStake nd hash of
                                  Some h \<Rightarrow> if index_IsProofOfStake p then p\<lparr>hashProofOfStake := h\<rparr> else p
                                | None \<Rightarrow> p)
                  in case ComputeNextStakeModifier L M prevs (bi_nTime p) of
                       None \<Rightarrow> Inl (Refused 0)
                     | Some (modifier, fGenerated) \<Rightarrow>
                         let p = SetStakeModifier modifier fGenerated p
                         in case GetStakeModifierChecksum L (fTestNet E) (p # prevs) of
                              None \<Rightarrow> Inl Crashed
                            | Some checksum \<Rightarrow>
                                if CheckStakeModifierCheckpoints (fTestNet E) (nHeight p) checksum
                                then Inr (p\<lparr>nStakeModifierChecksum := checksum\<rparr>) else Inl (Refused 0))"

definition AddToBlockIndex :: "extlib \<Rightarrow> node_env \<Rightarrow> u32 \<Rightarrow> u32 \<Rightarrow> CBlock \<Rightarrow> (node, unit) action" where
  "AddToBlockIndex L E nFile nBlockPos b nd =
     (let hash = block_GetHash L b
      in if mapBlockIndex nd hash \<noteq> None then (Inl (Refused 0), nd)
         else case new_entry L E nFile nBlockPos b nd of Inl e \<Rightarrow> (Inl e, nd)
         | Inr p \<Rightarrow>
             let nd = nd\<lparr>mapBlockIndex := (mapBlockIndex nd)(hash \<mapsto> p),
                         setStakeSeen := (if index_IsProofOfStake p
                            then insert (prevoutStake p, nStakeTime p) (setStakeSeen nd) else setStakeSeen nd),
                         nd_db := CTxDB_open ''r+'' (nd_db nd)\<rparr>
             in act_then (on_db (act_then TxnBegin (act_then (act_try (write_index L E (diskindex_of p))) TxnCommit)))
                  (\<lambda>nd. if bn_gt L (bnChainTrust p) (bnBestChainTrust nd) then SetBestChain L E b hash nd
                        else (Inr (), nd)) nd)"

end
