(* ===== verification/Main_Chain.thy ===== *)
theory Main_Chain
  imports Chain
begin

text \<open>
  What keeps the tree of blocks and its best branch right: the fork two branches have in common,
  the forward links along the best branch, and that a failed switch leaves the node as it was.
\<close>

section \<open>The fork\<close>

text \<open>Branches as lists: heights fall, and a key stands for one entry.\<close>

definition falling :: "chain \<Rightarrow> bool" where
  "falling ch \<longleftrightarrow> sorted_wrt (\<lambda>p q. nHeight q < nHeight p) ch"

definition same_keys :: "chain \<Rightarrow> chain \<Rightarrow> bool" where
  "same_keys xs ys \<longleftrightarrow> (\<forall>p \<in> set xs. \<forall>q \<in> set ys. phashBlock p = phashBlock q \<longrightarrow> p = q)"

lemma trace_back_split: "\<exists>ds. ch = ds @ trace_back k ch \<and> (\<forall>d \<in> set ds. k < nHeight d)"
  unfolding trace_back_def using takeWhile_dropWhile_id [of "\<lambda>p. k < nHeight p" ch] set_takeWhileD by metis

lemma find_fork_spec:
  assumes "falling a" and "falling b" and "same_keys a b" and "a \<noteq> []"
  shows "find_fork a b = (case dropWhile (\<lambda>p. phashBlock p \<notin> phashBlock ` set b) a of [] \<Rightarrow> None | c \<Rightarrow> Some c)"
  using assms
proof (induction a arbitrary: b)
  case (Cons p ps)
  note fp = Cons.prems(1) and fb = Cons.prems(2) and sk = Cons.prems(3)
  have low: "\<forall>x \<in> set ps. nHeight x < nHeight p" using fp by (simp add: falling_def)
  obtain ds where ds: "b = ds @ trace_back (nHeight p) b" "\<forall>d \<in> set ds. nHeight p < nHeight d"
    using trace_back_split by blast
  have not_ds: "phashBlock x \<notin> phashBlock ` set ds" if "x \<in> set (p # ps)" for x
  proof
    assume "phashBlock x \<in> phashBlock ` set ds"
    then obtain d where d: "d \<in> set ds" "phashBlock x = phashBlock d" by blast
    have "set ds \<subseteq> set b" using ds(1) by (metis set_append sup_ge1)
    then have "x = d" using sk d that unfolding same_keys_def by blast
    then show False using ds(2) d(1) low that by fastforce
  qed
  show ?case
  proof (cases b)
    case Nil
    have d: "dropWhile (\<lambda>p. phashBlock p \<notin> phashBlock ` set b) (p # ps) = []"
      unfolding dropWhile_eq_Nil_conv Nil by simp
    show ?thesis unfolding d using Nil by (simp add: find_fork.simps)
  next
    case (Cons q qs)
    show ?thesis
    proof (cases "phashBlock p = phashBlock q")
      case True
      then show ?thesis by (simp add: find_fork.simps [of "p # ps"] Cons)
    next
      case False
      show ?thesis
      proof (cases "trace_back (nHeight p) b")
        case Nil
        then have "phashBlock x \<notin> phashBlock ` set b" if "x \<in> set (p # ps)" for x
          using not_ds [OF that] ds(1) by simp
        then have "dropWhile (\<lambda>p. phashBlock p \<notin> phashBlock ` set b) (p # ps) = []"
          by (simp only: dropWhile_eq_Nil_conv) blast
        then show ?thesis
          using Nil False by (simp add: find_fork.simps [of "p # ps"] Cons)
      next
        case (Cons r rs)
        have b: "phashBlock x \<in> phashBlock ` set b \<longleftrightarrow> phashBlock x \<in> phashBlock ` set (r # rs)"
          if "x \<in> set (p # ps)" for x
          using not_ds [OF that] ds(1) unfolding Cons by (metis Un_iff image_Un set_append)
        have r: "nHeight r \<le> nHeight p"
          using Cons hd_dropWhile [of "\<lambda>x. nHeight p < nHeight x" b] unfolding trace_back_def by simp
        show ?thesis
        proof (cases "phashBlock p = phashBlock r")
          case True
          then have "phashBlock p \<in> phashBlock ` set (r # rs)" by simp
          then have "phashBlock p \<in> phashBlock ` set b" using b [of p] by (simp only: list.set_intros)
          then show ?thesis using True False Cons \<open>b = q # qs\<close> by (simp add: find_fork.simps [of "p # ps"])
        next
          case pr: False
          have fr: "falling (r # rs)" using fb ds(1) Cons unfolding falling_def by (metis sorted_wrt_append)
          have sr: "set (r # rs) \<subseteq> set b" using ds(1) Cons by (metis set_append sup_ge2)
          have np: "phashBlock p \<notin> phashBlock ` set (r # rs)"
          proof
            assume "phashBlock p \<in> phashBlock ` set (r # rs)"
            then obtain x where x: "x \<in> set rs" "phashBlock p = phashBlock x" using pr by auto
            then have "p = x" using sk sr unfolding same_keys_def by auto
            then show False using x(1) fr r by (auto simp: falling_def)
          qed
          have dw: "dropWhile (\<lambda>p. phashBlock p \<notin> phashBlock ` set b) (p # ps)
              = dropWhile (\<lambda>p. phashBlock p \<notin> phashBlock ` set (r # rs)) ps"
          proof -
            have "phashBlock p \<notin> phashBlock ` set b" using b [of p] np by (simp only: list.set_intros) simp
            moreover have "dropWhile (\<lambda>p. phashBlock p \<notin> phashBlock ` set b) ps
                = dropWhile (\<lambda>p. phashBlock p \<notin> phashBlock ` set (r # rs)) ps"
              by (rule dropWhile_cong [OF refl]) (use b in \<open>simp only: list.set_intros\<close>)
            ultimately show ?thesis by simp
          qed
          have "find_fork (p # ps) b = (if ps = [] then None else find_fork ps (r # rs))"
            using False pr Cons \<open>b = q # qs\<close> by (simp add: find_fork.simps [of "p # ps"])
          moreover have "find_fork ps (r # rs)
              = (case dropWhile (\<lambda>p. phashBlock p \<notin> phashBlock ` set (r # rs)) ps of [] \<Rightarrow> None | c \<Rightarrow> Some c)"
            if "ps \<noteq> []"
          proof (rule Cons.IH [OF _ fr _ that])
            show "falling ps" using fp by (simp add: falling_def)
            show "same_keys ps (r # rs)" using sk sr unfolding same_keys_def by (meson list.set_intros(2) subsetD)
          qed
          ultimately show ?thesis unfolding dw by auto
        qed
      qed
    qed
  qed
qed simp

lemma chain_at_falling:
  assumes "map_ok M" and "M h = Some i" shows "falling (chain_at M (Some h))"
proof -
  have "nHeight (chain_at M (Some h) ! b) < nHeight (chain_at M (Some h) ! a)"
    if "a < b" "b < length (chain_at M (Some h))" for a b
    using chain_nth_height [OF assms, of a] chain_nth_height [OF assms, of b] that by simp
  then show ?thesis by (simp add: falling_def sorted_wrt_iff_nth_less)
qed

lemma chain_at_same_keys:
  assumes "map_ok M" and "M a = Some i" and "M b = Some j"
  shows "same_keys (chain_at M (Some a)) (chain_at M (Some b))"
  using chain_at_entries [OF assms(1,2)] chain_at_entries [OF assms(1,3)]
  unfolding same_keys_def list_all_iff by (metis option.inject)

lemma chain_at_nonempty: "map_ok M \<Longrightarrow> M h = Some i \<Longrightarrow> chain_at M (Some h) \<noteq> []"
  by (simp add: chain_at_unfold)

lemma find_fork_chain:
  assumes "map_ok M" and "M a = Some i" and "M b = Some j"
  shows "find_fork (chain_at M (Some a)) (chain_at M (Some b))
    = (case dropWhile (\<lambda>p. \<not> descends M b (phashBlock p)) (chain_at M (Some a)) of [] \<Rightarrow> None | c \<Rightarrow> Some c)"
  unfolding descends_def
  by (rule find_fork_spec [OF chain_at_falling [OF assms(1,2)] chain_at_falling [OF assms(1,3)]
        chain_at_same_keys [OF assms] chain_at_nonempty [OF assms(1,2)]])

lemma find_fork_deepest:
  assumes "map_ok M" and "M a = Some i" and "M b = Some j"
    and "find_fork (chain_at M (Some a)) (chain_at M (Some b)) = Some c"
  obtains f where "c = chain_at M (Some (phashBlock f))" and "f \<in> set (chain_at M (Some a))"
    and "f \<in> set (chain_at M (Some b))" and "M (phashBlock f) = Some f"
    and "\<forall>h. descends M a h \<and> descends M b h \<longrightarrow> descends M (phashBlock f) h"
proof -
  let ?A = "chain_at M (Some a)" and ?P = "\<lambda>p. \<not> descends M b (phashBlock p)"
  have c: "dropWhile ?P ?A = c" "c \<noteq> []"
    using assms(4) find_fork_chain [OF assms(1-3)] by (auto split: list.splits)
  define k where "k = length (takeWhile ?P ?A)"
  have k: "c = drop k ?A" unfolding k_def c(1) [symmetric] by (rule dropWhile_eq_drop)
  have kl: "k < length ?A" using c(2) k by auto
  define f where "f = ?A ! k"
  have f: "f \<in> set ?A" using kl by (simp add: f_def)
  have e: "\<forall>x \<in> set ?A. M (phashBlock x) = Some x" "\<forall>x \<in> set (chain_at M (Some b)). M (phashBlock x) = Some x"
    using chain_at_entries [OF assms(1,2)] chain_at_entries [OF assms(1,3)] by (simp_all add: list_all_iff)
  have "hd c = f" using k kl by (simp add: f_def hd_drop_conv_nth)
  then have "descends M b (phashBlock f)" using hd_dropWhile [of ?P ?A] c by auto
  then have fb: "f \<in> set (chain_at M (Some b))" using e f unfolding descends_def by force
  have ck: "c = chain_at M (Some (phashBlock f))" using drop_chain_at [OF assms(1,2) kl] k by (simp add: f_def)
  have "descends M (phashBlock f) h" if h: "descends M a h" "descends M b h" for h
  proof -
    obtain x where x: "x \<in> set ?A" "phashBlock x = h" using h(1) by (auto simp: descends_def)
    have "x \<notin> set (takeWhile ?P ?A)" using h(2) x(2) set_takeWhileD by fastforce
    then have "x \<in> set c" using x(1) c(1) by (metis Un_iff set_append takeWhile_dropWhile_id)
    then show ?thesis using x(2) ck by (auto simp: descends_def)
  qed
  then show thesis using that [OF ck f fb] e f by blast
qed

section \<open>Links along the best branch\<close>

text \<open>
  Forward links exist along the branch of the best block and nowhere else: \<open>pnext\<close> of a block
  is the block of that branch right above it.
\<close>

definition main_ok :: "block_map \<Rightarrow> u256 \<Rightarrow> bool" where
  "main_ok M best \<longleftrightarrow>
     (\<forall>h i q. M h = Some i \<longrightarrow> (pnext i = Some q \<longleftrightarrow> descends M best q \<and> Option.bind (M q) pprev = Some h))"

text \<open>Maps that differ in the fields \<open>pnext\<close>, \<open>nMint\<close> and \<open>nMoneySupply\<close> of their entries only.\<close>

definition bare :: "CBlockIndex \<Rightarrow> CBlockIndex" where
  "bare i = i\<lparr>pnext := None, nMint := 0, nMoneySupply := 0\<rparr>"

definition same_tree :: "block_map \<Rightarrow> block_map \<Rightarrow> bool" where
  "same_tree M M' \<longleftrightarrow> (\<forall>h. map_option bare (M h) = map_option bare (M' h))"

lemma bare_sel: "phashBlock (bare i) = phashBlock i" "pprev (bare i) = pprev i" "nHeight (bare i) = nHeight i"
  "bi_nFile (bare i) = bi_nFile i" "bi_nBlockPos (bare i) = bi_nBlockPos i" "bnChainTrust (bare i) = bnChainTrust i"
  by (simp_all add: bare_def)

lemma bare_eq: "bare i = bare j \<Longrightarrow> phashBlock i = phashBlock j \<and> pprev i = pprev j \<and> nHeight i = nHeight j
    \<and> bi_nFile i = bi_nFile j \<and> bi_nBlockPos i = bi_nBlockPos j \<and> bnChainTrust i = bnChainTrust j"
  using bare_sel [of i] bare_sel [of j] by simp

lemma same_tree_refl [simp]: "same_tree M M"
  by (simp add: same_tree_def)

lemma same_tree_trans: "same_tree M N \<Longrightarrow> same_tree N K \<Longrightarrow> same_tree M K"
  by (simp add: same_tree_def)

lemma same_tree_upd: "M h = Some i \<Longrightarrow> bare j = bare i \<Longrightarrow> same_tree M (M(h \<mapsto> j))"
  by (simp add: same_tree_def)

lemma same_treeD:
  assumes "same_tree M M'" and "M h = Some i"
  obtains j where "M' h = Some j" and "bare j = bare i"
  using assms unfolding same_tree_def by (metis option.map_disc_iff option.map_sel option.sel option.exhaust_sel option.distinct(1) option.simps(9))

lemma same_tree_sym: "same_tree M M' \<Longrightarrow> same_tree M' M"
  by (simp add: same_tree_def)

lemma same_tree_None: "same_tree M M' \<Longrightarrow> M h = None \<longleftrightarrow> M' h = None"
  unfolding same_tree_def by (metis option.map_disc_iff)

lemma same_tree_chain:
  assumes "same_tree M M'"
  shows "map bare (ancestors n M p) = map bare (ancestors n M' p)"
proof (induction n arbitrary: p)
  case (Suc n)
  show ?case
  proof (cases p)
    case (Some h)
    show ?thesis
    proof (cases "M h")
      case None
      then show ?thesis using Some same_tree_None [OF assms, of h] by simp
    next
      case s: (Some i)
      obtain j where j: "M' h = Some j" "bare j = bare i" by (rule same_treeD [OF assms s])
      then show ?thesis using s Some Suc.IH [of "pprev i"] bare_eq [OF j(2)] j(2) [symmetric] by simp
    qed
  qed simp
qed simp

lemma same_tree_chain_at:
  assumes "same_tree M M'"
  shows "map bare (chain_at M p) = map bare (chain_at M' p)"
proof (cases p)
  case (Some h)
  show ?thesis
  proof (cases "M h")
    case None
    then show ?thesis using Some same_tree_None [OF assms, of h] by (simp add: chain_at_def)
  next
    case s: (Some i)
    obtain j where j: "M' h = Some j" "bare j = bare i" by (rule same_treeD [OF assms s])
    have "nHeight j = nHeight i" using bare_eq [OF j(2)] by simp
    then show ?thesis using same_tree_chain [OF assms, of "nat (nHeight i) + 1" "Some h"] s j(1) Some
      by (simp add: chain_at_def del: ancestors.simps)
  qed
qed simp

lemma same_tree_keys:
  assumes "same_tree M M'"
  shows "map phashBlock (chain_at M p) = map phashBlock (chain_at M' p)"
proof -
  have "map phashBlock xs = map phashBlock (map bare xs)" for xs by (simp add: bare_sel)
  then show ?thesis using same_tree_chain_at [OF assms] by metis
qed

lemma same_tree_descends: "same_tree M M' \<Longrightarrow> descends M h a \<longleftrightarrow> descends M' h a"
  unfolding descends_def using arg_cong [OF same_tree_keys [of M M' "Some h"], of set] by simp

lemma same_tree_pprev:
  assumes "same_tree M M'" shows "Option.bind (M h) pprev = Option.bind (M' h) pprev"
proof (cases "M h")
  case None
  then show ?thesis using same_tree_None [OF assms, of h] by simp
next
  case (Some i)
  obtain j where j: "M' h = Some j" "bare j = bare i" by (rule same_treeD [OF assms Some])
  show ?thesis using Some j(1) bare_eq [OF j(2)] by simp
qed

lemma set_pnext_tree: "same_tree M (set_pnext v q M)"
  unfolding set_pnext_def same_tree_def by (cases "M q") (auto simp: bare_def)

lemma link_prev_to_tree: "same_tree M (link_prev_to v h M)"
  by (simp add: link_prev_to_def set_pnext_tree split: option.split)

lemma fold_link_tree: "same_tree M (fold (\<lambda>h. link_prev_to (v h) h) hs M)"
  by (induction hs arbitrary: M) (auto intro: same_tree_trans link_prev_to_tree)

lemma relink_tree: "same_tree M (relink ds cs M)"
  unfolding relink_def
  by (rule same_tree_trans [OF fold_link_tree [where v = "\<lambda>_. None"] fold_link_tree [where v = Some]])

text \<open>What a run of link updates leaves in \<open>pnext\<close>: the last update of a predecessor wins.\<close>
lemma link_prev_to_pnext:
  assumes "M h = Some i"
  shows "map_option pnext (link_prev_to v c M h)
    = Some (if Option.bind (M c) pprev = Some h then v else pnext i)"
  using assms by (auto simp: link_prev_to_def set_pnext_def split: option.splits)

lemma fold_link_pnext:
  assumes "M h = Some i"
    and "\<forall>c \<in> set hs. \<forall>d \<in> set hs. Option.bind (M c) pprev = Some h \<and> Option.bind (M d) pprev = Some h \<longrightarrow> v c = v d"
  shows "map_option pnext (fold (\<lambda>h. link_prev_to (v h) h) hs M h)
    = Some (case find (\<lambda>c. Option.bind (M c) pprev = Some h) hs of None \<Rightarrow> pnext i | Some c \<Rightarrow> v c)"
  using assms
proof (induction hs arbitrary: M i)
  case (Cons c hs)
  let ?M = "link_prev_to (v c) c M"
  have t: "same_tree M ?M" by (rule link_prev_to_tree)
  obtain j where j: "?M h = Some j" by (rule same_treeD [OF t Cons.prems(1)])
  have pj: "pnext j = (if Option.bind (M c) pprev = Some h then v c else pnext i)"
    using link_prev_to_pnext [where M = M and h = h and c = c and v = "v c", OF Cons.prems(1)] j by simp
  note pp = same_tree_pprev [OF t, symmetric]
  have "\<forall>c \<in> set hs. \<forall>d \<in> set hs. Option.bind (?M c) pprev = Some h \<and> Option.bind (?M d) pprev = Some h \<longrightarrow> v c = v d"
    using Cons.prems(2) unfolding pp by (meson list.set_intros(2))
  note ih = Cons.IH [OF j this, unfolded pp]
  show ?case
  proof (cases "find (\<lambda>c. Option.bind (M c) pprev = Some h) hs")
    case None
    show ?thesis
    proof (cases "Option.bind (M c) pprev = Some h")
      case True
      then show ?thesis using ih None pj by simp
    next
      case False
      then show ?thesis using ih None pj by simp
    qed
  next
    case (Some d)
    then have d: "d \<in> set hs" "Option.bind (M d) pprev = Some h" by (auto simp: find_Some_iff)
    show ?thesis
    proof (cases "Option.bind (M c) pprev = Some h")
      case True
      then have "v d = v c" using Cons.prems(2) d by (metis list.set_intros)
      then show ?thesis using ih Some True by simp
    next
      case False
      then show ?thesis using ih Some by simp
    qed
  qed
qed simp

text \<open>The blocks of a branch above one of its ancestors.\<close>
lemma branch_above_set:
  assumes "map_ok M" and "M a = Some i" and "f \<in> set (chain_at M (Some a))"
  shows "h \<in> set (branch_above (chain_at M (Some a)) (chain_at M (Some (phashBlock f))))
    \<longleftrightarrow> descends M a h \<and> \<not> descends M (phashBlock f) h"
proof -
  let ?A = "chain_at M (Some a)"
  have e: "\<forall>x \<in> set ?A. M (phashBlock x) = Some x"
    using chain_at_entries [OF assms(1,2)] by (simp add: list_all_iff)
  then have fM: "M (phashBlock f) = Some f" using assms(3) by blast
  have hd: "hd (chain_at M (Some (phashBlock f))) = f" by (simp add: chain_at_unfold [OF assms(1) fM])
  let ?P = "\<lambda>p. phashBlock p \<noteq> phashBlock f"
  define k where "k = length (takeWhile ?P ?A)"
  have ex: "dropWhile ?P ?A \<noteq> []" using assms(3) by (auto simp: dropWhile_eq_Nil_conv)
  have dk: "dropWhile ?P ?A = drop k ?A" unfolding k_def by (rule dropWhile_eq_drop)
  have kl: "k < length ?A" using ex dk by auto
  have "phashBlock (?A ! k) = phashBlock f"
    using hd_dropWhile [OF ex] dk kl by (simp add: hd_drop_conv_nth)
  then have dc: "dropWhile ?P ?A = chain_at M (Some (phashBlock f))"
    using drop_chain_at [OF assms(1,2) kl] dk by simp
  have A: "?A = takeWhile ?P ?A @ chain_at M (Some (phashBlock f))"
    using takeWhile_dropWhile_id [of ?P ?A] dc by simp
  have dist: "x \<notin> set (chain_at M (Some (phashBlock f)))" if "x \<in> set (takeWhile ?P ?A)" for x
    using distinct_chain_at [OF assms(1,2)] that A by (metis disjoint_iff distinct_append)
  have b: "branch_above ?A (chain_at M (Some (phashBlock f))) = map phashBlock (takeWhile ?P ?A)"
    by (simp add: branch_above_def hd)
  show ?thesis
  proof
    assume "h \<in> set (branch_above ?A (chain_at M (Some (phashBlock f))))"
    then obtain x where x: "x \<in> set (takeWhile ?P ?A)" "h = phashBlock x" by (auto simp: b)
    then have xA: "x \<in> set ?A" using set_takeWhileD by metis
    moreover have "\<not> descends M (phashBlock f) h"
    proof
      assume "descends M (phashBlock f) h"
      then obtain y where y: "y \<in> set (chain_at M (Some (phashBlock f)))" "phashBlock y = h" by (auto simp: descends_def)
      then have "y \<in> set ?A" using A by (metis Un_iff set_append)
      then have "x = y" using e xA x(2) y(2) by (metis option.inject)
      then show False using dist [OF x(1)] y(1) by simp
    qed
    ultimately show "descends M a h \<and> \<not> descends M (phashBlock f) h" using x(2) by (auto simp: descends_def)
  next
    assume "descends M a h \<and> \<not> descends M (phashBlock f) h"
    then obtain x where x: "x \<in> set ?A" "phashBlock x = h" "x \<notin> set (chain_at M (Some (phashBlock f)))"
      by (auto simp: descends_def)
    then have "x \<in> set (takeWhile ?P ?A)" using A by (metis Un_iff set_append)
    then show "h \<in> set (branch_above ?A (chain_at M (Some (phashBlock f))))" using x(2) b by auto
  qed
qed

lemma child_unique:
  assumes "map_ok M" and "M a = Some i" and "descends M a c" and "descends M a d"
    and "Option.bind (M c) pprev = Some h" and "Option.bind (M d) pprev = Some h"
  shows "c = d"
proof -
  obtain p q where pq: "M c = Some p" "M d = Some q" "pprev p = Some h" "pprev q = Some h"
    using assms(5,6) by (auto simp: bind_eq_Some_conv)
  have "nHeight p = nHeight q"
    using map_okD [OF assms(1) pq(1)] map_okD [OF assms(1) pq(2)] pq(3,4) by (auto simp: entry_ok_def)
  then have "p = q"
    using chain_height_unique [OF assms(1,2)] descends_entry [OF assms(1,2) pq(1) assms(3)]
      descends_entry [OF assms(1,2) pq(2) assms(4)] by blast
  then show ?thesis using map_okD [OF assms(1) pq(1)] map_okD [OF assms(1) pq(2)] by (simp add: entry_ok_def)
qed

lemma child_of_descends:
  assumes "map_ok M" and "M q = Some j" and "pprev j = Some h" and "descends M a q" and "M a = Some i"
  shows "descends M a h"
proof -
  have "descends M q h"
    using descends_parent [OF assms(1-3)] descends_refl [OF assms(1)] map_okD [OF assms(1,2)] assms(3)
    by (auto simp: entry_ok_def)
  then show ?thesis using descends_trans [OF assms(1,5,4)] by blast
qed

lemma map_ok_same_tree:
  assumes "map_ok M" and "same_tree M M'" and "\<forall>h i q. M' h = Some i \<and> pnext i = Some q \<longrightarrow> M' q \<noteq> None"
  shows "map_ok M'"
  unfolding map_ok_def
proof (intro allI impI)
  fix h i
  assume i: "M' h = Some i"
  obtain i0 where i0: "M h = Some i0" "bare i0 = bare i" by (rule same_treeD [OF same_tree_sym [OF assms(2)] i])
  note e = map_okD [OF assms(1) i0(1)] and b = bare_eq [OF i0(2)]
  show "entry_ok M' h i"
  proof (cases "pprev i")
    case None
    then show ?thesis using e b assms(3) i by (auto simp: entry_ok_def split: option.splits)
  next
    case (Some q)
    then obtain j where j: "M q = Some j" "nHeight i0 = nHeight j + 1" "0 \<le> nHeight j"
      using e b by (auto simp: entry_ok_def)
    obtain j' where "M' q = Some j'" "bare j' = bare j" by (rule same_treeD [OF assms(2) j(1)])
    then show ?thesis using e b assms(3) i j Some bare_eq [of j' j]
      by (auto simp: entry_ok_def split: option.splits)
  qed
qed

lemma relink_main:
  assumes "map_ok M" and "main_ok M a" and "M a = Some i" and "M b = Some j"
    and "find_fork (chain_at M (Some a)) (chain_at M (Some b)) = Some c"
  shows "main_ok (relink (branch_above (chain_at M (Some a)) c) (rev (branch_above (chain_at M (Some b)) c)) M) b"
proof -
  obtain f where f: "c = chain_at M (Some (phashBlock f))" "f \<in> set (chain_at M (Some a))"
      "f \<in> set (chain_at M (Some b))" "M (phashBlock f) = Some f"
    by (rule find_fork_deepest [OF assms(1,3,4,5)])
  define D where "D = branch_above (chain_at M (Some a)) c"
  define C where "C = rev (branch_above (chain_at M (Some b)) c)"
  define M1 where "M1 = fold (\<lambda>h. link_prev_to None h) D M"
  define M' where "M' = fold (\<lambda>h. link_prev_to (Some h) h) C M1"
  have D: "h \<in> set D \<longleftrightarrow> descends M a h \<and> \<not> descends M (phashBlock f) h" for h
    unfolding D_def f(1) by (rule branch_above_set [OF assms(1,3) f(2)])
  have C: "h \<in> set C \<longleftrightarrow> descends M b h \<and> \<not> descends M (phashBlock f) h" for h
    unfolding C_def f(1) using branch_above_set [OF assms(1,4) f(3)] by simp
  have fa: "descends M a h" "descends M b h" if "descends M (phashBlock f) h" for h
    using descends_trans [OF assms(1,3) _ that] descends_trans [OF assms(1,4) _ that] f(2,3)
    by (auto simp: descends_def)
  have t1: "same_tree M M1" unfolding M1_def by (rule fold_link_tree)
  have t2: "same_tree M1 M'" unfolding M'_def by (rule fold_link_tree)
  note t = same_tree_trans [OF t1 t2]
  have "main_ok M' b"
    unfolding main_ok_def
  proof (intro allI impI)
    fix h i' q
    assume i': "M' h = Some i'"
    obtain i0 where i0: "M h = Some i0" by (rule same_treeD [OF same_tree_sym [OF t] i'])
    obtain i1 where i1: "M1 h = Some i1" by (rule same_treeD [OF t1 i0])
    let ?P = "\<lambda>c. Option.bind (M c) pprev = Some h"
    have n1: "pnext i1 = (case find ?P D of None \<Rightarrow> pnext i0 | Some d \<Rightarrow> None)"
      using fold_link_pnext [where M = M and v = "\<lambda>_. None" and hs = D, OF i0] i1 by (simp add: M1_def)
    have u: "x = y" if "x \<in> set C" "y \<in> set C" "?P x" "?P y" for x y
      using child_unique [OF assms(1,4)] that C by blast
    have "map_option pnext (M' h) = Some (case find ?P C of None \<Rightarrow> pnext i1 | Some c \<Rightarrow> Some c)"
      using fold_link_pnext [where M = M1 and v = Some and hs = C, OF i1] u
      unfolding M'_def same_tree_pprev [OF t1, symmetric] by blast
    then have n2: "pnext i' = (case find ?P C of None \<Rightarrow> pnext i1 | Some c \<Rightarrow> Some c)" using i' by simp
    have goal: "pnext i' = Some q \<longleftrightarrow> descends M b q \<and> ?P q"
    proof (cases "find ?P C")
      case (Some x)
      then have x: "x \<in> set C" "?P x" by (auto simp: find_Some_iff)
      then show ?thesis using n2 Some C child_unique [OF assms(1,4), of x q h] by auto
    next
      case None
      then have noC: "\<not> ?P x" if "x \<in> set C" for x using that by (auto simp: find_None_iff)
      have n3: "pnext i' = pnext i1" using n2 None by simp
      show ?thesis
      proof (cases "find ?P D")
        case (Some d)
        then have d: "d \<in> set D" "?P d" by (auto simp: find_Some_iff)
        have "\<not> (descends M b q \<and> ?P q)"
        proof
          assume q: "descends M b q \<and> ?P q"
          then have "descends M (phashBlock f) q" using noC C by blast
          then show False using child_unique [OF assms(1,3), of q d h] fa d D q by blast
        qed
        then show ?thesis using n1 n3 Some by simp
      next
        case None
        then have noD: "\<not> ?P x" if "x \<in> set D" for x using that by (auto simp: find_None_iff)
        have "pnext i' = Some q \<longleftrightarrow> descends M a q \<and> ?P q"
          using n1 n3 None assms(2) i0 by (simp add: main_ok_def)
        also have "\<dots> \<longleftrightarrow> descends M (phashBlock f) q \<and> ?P q" using noD D fa by blast
        also have "\<dots> \<longleftrightarrow> descends M b q \<and> ?P q" using noC C fa by blast
        finally show ?thesis .
      qed
    qed
    then show "pnext i' = Some q \<longleftrightarrow> descends M' b q \<and> Option.bind (M' q) pprev = Some h"
      using same_tree_descends [OF t] same_tree_pprev [OF t] by simp
  qed
  then show ?thesis by (simp add: relink_def M'_def M1_def D_def C_def)
qed

lemma main_ok_entries: "main_ok M b \<Longrightarrow> M h = Some i \<Longrightarrow> pnext i = Some q \<Longrightarrow> M q \<noteq> None"
  by (cases "M q") (auto simp: main_ok_def)

lemma map_ok_main:
  "map_ok M \<Longrightarrow> same_tree M M' \<Longrightarrow> main_ok M' b \<Longrightarrow> map_ok M'"
  using map_ok_same_tree [of M M'] main_ok_entries [of M' b] by blast

lemma link_new_best:
  assumes "map_ok M" and "main_ok M a" and "M a = Some i" and "M b = Some j" and "pprev j = Some a"
  shows "main_ok (link_prev_to (Some b) b M) b"
  unfolding main_ok_def
proof (intro allI impI)
  fix h i' q
  let ?M = "link_prev_to (Some b) b M"
  assume i': "?M h = Some i'"
  have t: "same_tree M ?M" by (rule link_prev_to_tree)
  obtain i0 where i0: "M h = Some i0" by (rule same_treeD [OF same_tree_sym [OF t] i'])
  have n: "pnext i' = (if h = a then Some b else pnext i0)"
    using link_prev_to_pnext [where M = M and h = h and c = b and v = "Some b", OF i0] i' assms(4,5) by auto
  have b: "descends M b q \<longleftrightarrow> q = b \<or> descends M a q" for q
    using map_okD [OF assms(1,4)] by (auto simp: descends_def chain_at_unfold [OF assms(1,4)] assms(5) entry_ok_def)
  have nb: "\<not> descends M a b"
    using descends_height [OF assms(1,3,4)] map_okD [OF assms(1,4)] assms(3,5) by (auto simp: entry_ok_def)
  have na: "\<not> (descends M a q \<and> Option.bind (M q) pprev = Some a)" for q
    using descends_height [OF assms(1,3), of q] map_okD [OF assms(1), of q] assms(3)
    by (auto simp: bind_eq_Some_conv entry_ok_def)
  have "pnext i' = Some q \<longleftrightarrow> descends M b q \<and> Option.bind (M q) pprev = Some h"
  proof (cases "h = a")
    case True
    then show ?thesis using n b na [of q] assms(4,5) by auto
  next
    case False
    then have "q \<noteq> b" if "Option.bind (M q) pprev = Some h" using that assms(4,5) by auto
    then show ?thesis using n b False assms(2) i0 by (auto simp: main_ok_def)
  qed
  then show "pnext i' = Some q \<longleftrightarrow> descends ?M b q \<and> Option.bind (?M q) pprev = Some h"
    using same_tree_descends [OF t] same_tree_pprev [OF t] by simp
qed

section \<open>Steps inside a database transaction\<close>
lemma keeps_write_index [keeps_rules]: "keeps_db (write_index L E d)"
  unfolding write_index_def WriteBlockIndex_def by (simp add: Let_def keeps_rules split: prod.split)

lemma keeps_write_connected [keeps_rules]: "keeps_db (write_connected L E p prevs q)"
  unfolding write_connected_def UpdateTxIndex_def
  by (cases prevs) (auto intro!: keeps_rules simp: case_prod_beta)

lemma keeps_DisconnectBlock [keeps_rules]: "keeps_db (DisconnectBlock L E b prevs)"
  unfolding DisconnectBlock_def by (cases prevs) (auto intro!: keeps_rules)

lemma ConnectBlock_kept:
  assumes "ConnectBlock L E best bh fs pool b prevs fJC s = (r, s')"
  shows "db_kept (cb_db s) (cb_db s') \<and> bare (cb_pindex s') = bare (cb_pindex s) \<and> pnext (cb_pindex s') = pnext (cb_pindex s)"
proof -
  define w where "w pi (t :: connect_totals) = act_then (write_index L E (diskindex_of pi))
      (if fJC then act_return () else write_connected L E pi prevs (mapQueuedChanges t))" for pi t
  have k: "keeps_db (w pi t)" for pi t unfolding w_def by (cases fJC) (auto intro!: keeps_rules)
  obtain r1 t where t: "act_each (connect_tx L E bh (cb_db s) fs pool (cb_pindex s # prevs) fJC) (vtx b)
      (connect_start fJC (cb_pindex s) b (cb_cache s)) = (r1, t)" by fastforce
  define pi where "pi = (cb_pindex s)\<lparr>nMint := ct_nValueOut t - ct_nValueIn t + ct_nFees t,
         nMoneySupply := (case prevs of [] \<Rightarrow> 0 | p # _ \<Rightarrow> nMoneySupply p) + ct_nValueOut t - ct_nValueIn t\<rparr>"
  obtain r2 db2 where w: "w pi t (cb_db s) = (r2, db2)" by fastforce
  have kept: "db_kept (cb_db s) db2" by (rule keeps_dbD [OF k w])
  have "s' = s \<or> s' = s\<lparr>cb_cache := ct_cache t\<rparr> \<or> s' = s\<lparr>cb_cache := ct_cache t, cb_pindex := pi, cb_db := db2\<rparr>"
  proof (cases "CheckBlock L E best (\<not> fJC) (\<not> fJC) True b")
    case (Inl e)
    then show ?thesis using assms by (simp add: ConnectBlock_def)
  next
    case c: (Inr u)
    show ?thesis
    proof (cases r1)
      case (Inl e)
      then show ?thesis using assms c t by (simp add: ConnectBlock_def)
    next
      case r1: (Inr v)
      show ?thesis
      proof (cases "check_stake_reward L E (cb_db s) fs prevs b (ct_nStakeReward t) (ct_nFees t)")
        case (Inl e)
        then show ?thesis using assms c t r1 by (simp add: ConnectBlock_def Let_def)
      next
        case (Inr x)
        then show ?thesis using assms c t r1 w
          by (cases fJC) (simp_all add: ConnectBlock_def Let_def act_on_def w_def pi_def split: prod.splits)
      qed
    qed
  qed
  then show ?thesis using kept by (auto simp: bare_def pi_def)
qed

text \<open>
  What a step leaves alone: everything but the batch of the transaction, the signature cache
  and the amounts \<open>nMint\<close>, \<open>nMoneySupply\<close> of entries.
\<close>

definition same_links :: "block_map \<Rightarrow> block_map \<Rightarrow> bool" where
  "same_links M M' \<longleftrightarrow> same_tree M M' \<and> (\<forall>h. map_option pnext (M h) = map_option pnext (M' h))"

definition same_rest :: "node \<Rightarrow> node \<Rightarrow> bool" where
  "same_rest nd nd' \<longleftrightarrow> pindexGenesisBlock nd' = pindexGenesisBlock nd \<and> pindexBest nd' = pindexBest nd
     \<and> hashBestChain nd' = hashBestChain nd \<and> nBestHeight nd' = nBestHeight nd
     \<and> bnBestChainTrust nd' = bnBestChainTrust nd \<and> pblockindexFBBHLast nd' = pblockindexFBBHLast nd
     \<and> setStakeSeen nd' = setStakeSeen nd \<and> mapProofOfStake nd' = mapProofOfStake nd
     \<and> nd_files nd' = nd_files nd \<and> nd_pool nd' = nd_pool nd"

definition node_kept :: "node \<Rightarrow> node \<Rightarrow> bool" where
  "node_kept nd nd' \<longleftrightarrow> same_links (mapBlockIndex nd) (mapBlockIndex nd') \<and> db_kept (nd_db nd) (nd_db nd')
     \<and> same_rest nd nd' \<and> bnBestInvalidTrust nd' = bnBestInvalidTrust nd"

lemma same_links_refl [simp]: "same_links M M"
  by (simp add: same_links_def)

lemma same_links_trans: "same_links M N \<Longrightarrow> same_links N K \<Longrightarrow> same_links M K"
  using same_tree_trans by (fastforce simp: same_links_def)

lemma node_kept_refl [simp]: "node_kept nd nd"
  by (simp add: node_kept_def same_rest_def)

lemma node_kept_trans: "node_kept a b \<Longrightarrow> node_kept b c \<Longrightarrow> node_kept a c"
  unfolding node_kept_def same_rest_def using same_links_trans db_kept_trans by (metis (no_types, lifting))

lemma on_db_kept: "keeps_db m \<Longrightarrow> on_db m nd = (r, nd') \<Longrightarrow> node_kept nd nd'"
  unfolding on_db_def act_on_def using keeps_dbD [of m "nd_db nd"]
  by (auto simp: node_kept_def same_rest_def split: prod.splits)

lemma node_ConnectBlock_kept:
  assumes "node_ConnectBlock L E b h nd = (r, nd')"
  shows "node_kept nd nd'"
proof (cases "mapBlockIndex nd h")
  case None
  then show ?thesis using assms by (simp add: node_ConnectBlock_def)
next
  case (Some i)
  obtain c where c: "ConnectBlock L E (best_entry nd) (nBestHeight nd) (nd_files nd) (nd_pool nd) b
        (chain_at (mapBlockIndex nd) (pprev i)) False \<lparr>cb_db = nd_db nd, cb_pindex = i, cb_cache = nd_cache nd\<rparr> = (r, c)"
      "nd' = nd\<lparr>nd_db := cb_db c, mapBlockIndex := (mapBlockIndex nd)(h \<mapsto> cb_pindex c), nd_cache := cb_cache c\<rparr>"
    using assms Some by (auto simp: node_ConnectBlock_def split: prod.splits)
  have k: "db_kept (nd_db nd) (cb_db c)" "bare (cb_pindex c) = bare i" "pnext (cb_pindex c) = pnext i"
    using ConnectBlock_kept [OF c(1)] by simp_all
  have "same_links (mapBlockIndex nd) ((mapBlockIndex nd)(h \<mapsto> cb_pindex c))"
    using same_tree_upd [of "mapBlockIndex nd" h i "cb_pindex c"] Some k(2,3) by (simp add: same_links_def)
  then show ?thesis using k(1) c(2) by (simp add: node_kept_def same_rest_def)
qed

lemma disconnect_branch_kept:
  "disconnect_branch L E hs txs nd = (r, nd') \<Longrightarrow> node_kept nd nd'"
proof (induction hs arbitrary: nd txs)
  case (Cons h hs)
  show ?case
  proof (cases "mapBlockIndex nd h")
    case s: (Some i)
    show ?thesis
    proof (cases "block_ReadFromDisk L (fTestNet E) i True (nd_files nd)")
      case (Some b)
      obtain r1 nd1 where 1: "on_db (DisconnectBlock L E b (chain_at (mapBlockIndex nd) (pprev i))) nd = (r1, nd1)"
        by fastforce
      note k = on_db_kept [OF keeps_DisconnectBlock 1]
      show ?thesis
      proof (cases r1)
        case (Inl e)
        then show ?thesis using Cons.prems s Some 1 k by (simp add: act_simps)
      next
        case (Inr u)
        then show ?thesis using Cons.prems s Some 1 Cons.IH node_kept_trans [OF k] by (auto simp: act_simps)
      qed
    qed (use Cons.prems s in simp)
  qed (use Cons.prems in simp)
qed simp

lemma connect_branch_kept:
  "connect_branch L E hs txs nd = (r, nd') \<Longrightarrow> node_kept nd nd'"
proof (induction hs arbitrary: nd txs)
  case (Cons h hs)
  show ?case
  proof (cases "mapBlockIndex nd h")
    case s: (Some i)
    show ?thesis
    proof (cases "block_ReadFromDisk L (fTestNet E) i True (nd_files nd)")
      case (Some b)
      obtain r1 nd1 where 1: "node_ConnectBlock L E b h nd = (r1, nd1)" by fastforce
      note k = node_ConnectBlock_kept [OF 1]
      then show ?thesis using Cons.prems s Some 1 Cons.IH [where nd = nd1] node_kept_trans [OF k] by (cases r1) auto
    qed (use Cons.prems s in simp)
  qed (use Cons.prems in simp)
qed simp

text \<open>After the commit nothing is refused any more.\<close>
lemma act_each_no_refuse:
  assumes "\<And>x s n t. f x s \<noteq> (Inl (Refused n), t)"
  shows "act_each f xs s \<noteq> (Inl (Refused n), t)"
proof (induction xs arbitrary: s)
  case (Cons x xs)
  show ?case
  proof (cases "f x s")
    case (Pair r s')
    then show ?thesis using Cons.IH [of s'] assms [of x s n t]
      by (cases r) (auto simp: act_simps)
  qed
qed (simp add: act_simps)

lemma resurrect_no_refuse: "resurrect L E tx nd \<noteq> (Inl (Refused n), nd')"
  by (auto simp: resurrect_def act_then_def act_bind_def act_try_def act_simps split: prod.splits sum.splits failure.splits)

lemma node_remove_no_refuse: "node_remove L tx nd \<noteq> (Inl (Refused n), nd')"
  by (simp add: node_remove_def act_simps)

section \<open>A refused switch\<close>

text \<open>\<open>store_same\<close>: the store is untouched as well; \<open>refused_from\<close> allows for the record of \<open>InvalidChainFound\<close>.\<close>

definition store_same :: "node \<Rightarrow> node \<Rightarrow> bool" where
  "store_same nd nd' \<longleftrightarrow> same_links (mapBlockIndex nd) (mapBlockIndex nd') \<and> same_rest nd nd'
     \<and> bnBestInvalidTrust nd' = bnBestInvalidTrust nd \<and> ldb_store (nd_db nd') = ldb_store (nd_db nd)"

definition refused_from :: "node \<Rightarrow> node \<Rightarrow> bool" where
  "refused_from nd nd' \<longleftrightarrow> same_links (mapBlockIndex nd) (mapBlockIndex nd') \<and> same_rest nd nd'
     \<and> activeBatch (nd_db nd') = None
     \<and> (smap_ok (ldb_store (nd_db nd)) \<longrightarrow> (\<forall>k. k \<noteq> db_key ''bnBestInvalidTrust'' \<longrightarrow>
          map_of (ldb_store (nd_db nd')) k = map_of (ldb_store (nd_db nd)) k))"

lemma same_rest_trans: "same_rest a b \<Longrightarrow> same_rest b c \<Longrightarrow> same_rest a c"
  by (simp add: same_rest_def)

lemma store_same_trans: "store_same a b \<Longrightarrow> store_same b c \<Longrightarrow> store_same a c"
  by (auto simp: store_same_def same_rest_def intro: same_links_trans)

lemma store_same_refused: "store_same a b \<Longrightarrow> refused_from b c \<Longrightarrow> refused_from a c"
  by (auto simp: store_same_def refused_from_def same_rest_def intro: same_links_trans)

lemma kept_store:
  "node_kept nd nd' \<Longrightarrow> activeBatch (nd_db nd) \<noteq> None \<Longrightarrow> store_same nd nd' \<and> activeBatch (nd_db nd') \<noteq> None"
  by (simp add: node_kept_def store_same_def db_kept_def)

lemma commit_refused:
  assumes "on_db (act_then m TxnCommit) nd = (Inl (Refused n), nd')" and "keeps_db m" and "activeBatch (nd_db nd) \<noteq> None"
  shows "store_same nd nd'"
proof -
  obtain r db where m: "m (nd_db nd) = (r, db)" by fastforce
  have k: "ldb_store db = ldb_store (nd_db nd)" using keeps_dbD [OF assms(2) m] assms(3) by (simp add: db_kept_def)
  have "\<exists>d. nd' = nd\<lparr>nd_db := d\<rparr> \<and> ldb_store d = ldb_store (nd_db nd)"
  proof (cases r)
    case (Inl e)
    then show ?thesis using assms(1) m k by (auto simp: on_db_def act_on_def act_simps)
  next
    case (Inr u)
    then show ?thesis
      using assms(1) m k by (auto simp: on_db_def act_on_def act_simps TxnCommit_def ldb_Write_def split: option.splits if_splits prod.splits)
  qed
  then show ?thesis by (auto simp: store_same_def same_rest_def)
qed

lemma keeps_WriteHash [keeps_rules]: "keeps_db (WriteHashBestChain h)"
  unfolding WriteHashBestChain_def by (rule keeps_Write)

lemma act_then_refused:
  "act_then m k s = (Inl e, t) \<longleftrightarrow> m s = (Inl e, t) \<or> (\<exists>x s'. m s = (Inr x, s') \<and> k s' = (Inl e, t))"
  by (auto simp: act_then_def act_bind_def split: prod.splits sum.splits)

lemma act_bind_refused:
  "act_bind m f s = (Inl e, t) \<longleftrightarrow> m s = (Inl e, t) \<or> (\<exists>x s'. m s = (Inr x, s') \<and> f x s' = (Inl e, t))"
  by (auto simp: act_bind_def split: prod.splits sum.splits)

lemma Reorganize_refused:
  assumes "Reorganize L E h nd = (Inl (Refused n), nd')" and "activeBatch (nd_db nd) \<noteq> None"
  shows "store_same nd nd'"
proof (cases "best_chain nd = [] \<or> find_fork (best_chain nd) (chain_at (mapBlockIndex nd) (Some h)) = None")
  case True
  then show ?thesis using assms by (auto simp: Reorganize_def store_same_def same_rest_def split: if_splits)
next
  case False
  then obtain c where c: "find_fork (best_chain nd) (chain_at (mapBlockIndex nd) (Some h)) = Some c" "best_chain nd \<noteq> []"
    by auto
  define D where "D = branch_above (best_chain nd) c"
  define C where "C = rev (branch_above (chain_at (mapBlockIndex nd) (Some h)) c)"
  define post where "post txs dels = act_then (act_modify (\<lambda>nd. nd\<lparr>mapBlockIndex := relink D C (mapBlockIndex nd)\<rparr>))
              (act_then (act_each (resurrect L E) txs) (act_each (node_remove L) dels))" for txs dels
  have post: "post txs dels s \<noteq> (Inl (Refused n), t)" for txs dels s t
    using act_each_no_refuse [of "resurrect L E", OF resurrect_no_refuse] act_each_no_refuse [of "node_remove L", OF node_remove_no_refuse]
    by (auto simp: post_def act_then_refused act_simps)
  have r: "act_bind (disconnect_branch L E D []) (\<lambda>txs. act_bind (connect_branch L E C []) (\<lambda>dels.
      act_then (on_db (act_then (WriteHashBestChain h) TxnCommit)) (post txs dels))) nd = (Inl (Refused n), nd')"
    using assms(1) c by (simp add: Reorganize_def Let_def D_def C_def post_def)
  obtain r1 nd1 where 1: "disconnect_branch L E D [] nd = (r1, nd1)" by fastforce
  note k1 = kept_store [OF disconnect_branch_kept [OF 1] assms(2)]
  show ?thesis
  proof (cases r1)
    case (Inl e)
    then show ?thesis using r 1 k1 by (simp add: act_simps)
  next
    case r1: (Inr txs)
    obtain r2 nd2 where 2: "connect_branch L E C [] nd1 = (r2, nd2)" by fastforce
    have k2: "store_same nd1 nd2 \<and> activeBatch (nd_db nd2) \<noteq> None"
      by (rule kept_store [OF connect_branch_kept [OF 2]]) (use k1 in blast)
    show ?thesis
    proof (cases r2)
      case (Inl e)
      then show ?thesis using r 1 2 r1 k1 k2 store_same_trans by (auto simp: act_simps)
    next
      case (Inr dels)
      then have "act_then (on_db (act_then (WriteHashBestChain h) TxnCommit)) (post txs dels) nd2 = (Inl (Refused n), nd')"
        using r 1 2 r1 by (simp add: act_simps)
      then have "on_db (act_then (WriteHashBestChain h) TxnCommit) nd2 = (Inl (Refused n), nd')"
        using post by (auto simp: act_then_refused)
      then have "store_same nd2 nd'" by (rule commit_refused) (use k2 keeps_WriteHash in auto)
      then show ?thesis using k1 k2 store_same_trans by metis
    qed
  qed
qed

lemma chain_refused_from:
  assumes "chain_refused L h m nd = (Inl (Refused n), nd')"
  shows "refused_from nd nd' \<and> n = m"
proof -
  define nd1 where "nd1 = nd\<lparr>nd_db := nd_db nd\<lparr>activeBatch := None\<rparr>\<rparr>"
  have a: "on_db TxnAbort nd = (Inr (), nd1)" by (simp add: on_db_def act_on_def TxnAbort_def nd1_def)
  obtain r nd2 where i: "InvalidChainFound L h nd1 = (r, nd2)" by fastforce
  then have r: "r = Inr () \<or> r = Inl Crashed"
    by (auto simp: InvalidChainFound_def Let_def split: option.splits if_splits)
  then have nd': "nd' = nd2" "n = m" using assms a i by (auto simp: chain_refused_def act_simps)
  define db where "db = snd (WriteBestInvalidTrust L (bnChainTrust (the (mapBlockIndex nd h))) (CTxDB_open ''r+'' (nd_db nd1)))"
  have "nd2 = nd1 \<or> (\<exists>v. nd2 = nd1\<lparr>bnBestInvalidTrust := v, nd_db := nd_db nd1\<lparr>ldb_store := ldb_store db\<rparr>\<rparr>)"
    using i by (auto simp: InvalidChainFound_def Let_def db_def nd1_def split: option.splits if_splits)
  moreover have "\<exists>v. ldb_store db = ldb_store (nd_db nd) \<or> ldb_store db = smap_put (db_key ''bnBestInvalidTrust'') v (ldb_store (nd_db nd))"
    by (auto simp: db_def WriteBestInvalidTrust_def db_Write_def CTxDB_open_def ldb_Write_def nd1_def split: if_splits)
  ultimately show ?thesis
    using nd' by (elim disjE exE) (auto simp: refused_from_def same_rest_def nd1_def smap_simps)
qed

lemma SetBestChainInner_refused:
  assumes "SetBestChainInner L E b h nd = (Inl (Refused n), nd')" and "activeBatch (nd_db nd) \<noteq> None"
  shows "refused_from nd nd' \<or> store_same nd nd'"
proof -
  define post where "post = act_then (\<lambda>nd. if Option.bind (mapBlockIndex nd h) pprev = None then (Inl Crashed, nd)
              else (Inr (), nd\<lparr>mapBlockIndex := link_prev_to (Some h) h (mapBlockIndex nd)\<rparr>))
            (act_each (node_remove L) (vtx b))"
  have post: "post s \<noteq> (Inl (Refused n), t)" for s t
    using act_each_no_refuse [of "node_remove L", OF node_remove_no_refuse] by (auto simp: post_def act_then_refused split: if_splits)
  obtain r1 nd1 where 1: "node_ConnectBlock L E b h nd = (r1, nd1)" by fastforce
  note k1 = kept_store [OF node_ConnectBlock_kept [OF 1] assms(2)]
  show ?thesis
  proof (cases r1)
    case (Inl e)
    then have "chain_refused L h n nd1 = (Inl (Refused n), nd') \<or> (\<exists>m. chain_refused L h m nd1 = (Inl (Refused n), nd'))"
      using assms(1) 1 by (cases e) (auto simp: SetBestChainInner_def act_simps)
    then show ?thesis using chain_refused_from k1 store_same_refused by blast
  next
    case r1: (Inr u)
    obtain r2 nd2 where 2: "on_db (WriteHashBestChain (block_GetHash L b)) nd1 = (r2, nd2)" by fastforce
    have k2: "store_same nd1 nd2 \<and> activeBatch (nd_db nd2) \<noteq> None"
      by (rule kept_store [OF on_db_kept [OF keeps_WriteHash 2]]) (use k1 in blast)
    then have k: "store_same nd nd2" using k1 store_same_trans by blast
    show ?thesis
    proof (cases r2)
      case (Inl e)
      then have "\<exists>m. chain_refused L h m nd2 = (Inl (Refused n), nd')"
        using assms(1) 1 2 r1 by (cases e) (auto simp: SetBestChainInner_def act_simps)
      then show ?thesis using chain_refused_from k store_same_refused by blast
    next
      case (Inr v)
      then have "act_then (on_db TxnCommit) post nd2 = (Inl (Refused n), nd')"
        using assms(1) 1 2 r1 by (simp add: SetBestChainInner_def act_simps post_def)
      then have "on_db TxnCommit nd2 = (Inl (Refused n), nd')" using post by (auto simp: act_then_refused)
      then have "on_db (act_then (act_return ()) TxnCommit) nd2 = (Inl (Refused n), nd')"
        by (simp add: on_db_def act_on_def act_simps)
      then have "store_same nd2 nd'" by (rule commit_refused) (use k2 keeps_return in auto)
      then show ?thesis using k store_same_trans by blast
    qed
  qed
qed

definition as_before :: "node \<Rightarrow> node \<Rightarrow> bool" where
  "as_before nd nd' \<longleftrightarrow> same_links (mapBlockIndex nd) (mapBlockIndex nd') \<and> same_rest nd nd'
     \<and> (\<forall>k. k \<noteq> db_key ''bnBestInvalidTrust'' \<longrightarrow>
          map_of (ldb_store (nd_db nd')) k = map_of (ldb_store (nd_db nd)) k)"

lemma as_before_intros:
  "store_same nd nd' \<Longrightarrow> as_before nd nd'"
  "refused_from nd nd' \<Longrightarrow> smap_ok (ldb_store (nd_db nd)) \<Longrightarrow> as_before nd nd'"
  by (simp_all add: store_same_def refused_from_def as_before_def)

lemma begin_store: 
  assumes "activeBatch (nd_db nd) = None"
  obtains nd1 where "on_db TxnBegin nd = (Inr (), nd1)" and "store_same nd nd1" and "activeBatch (nd_db nd1) = Some []"
    and "mapBlockIndex nd1 = mapBlockIndex nd" and "db_ok (nd_db nd) \<Longrightarrow> db_ok (nd_db nd1)" and "same_rest nd nd1"
proof -
  define nd1 where "nd1 = nd\<lparr>nd_db := nd_db nd\<lparr>activeBatch := Some []\<rparr>\<rparr>"
  have "on_db TxnBegin nd = (Inr (), nd1)" using assms by (simp add: on_db_def act_on_def TxnBegin_def nd1_def)
  then show ?thesis by (rule that) (simp_all add: nd1_def store_same_def same_rest_def db_ok_def)
qed

lemma connect_postponed_no_refuse: "connect_postponed L E hs nd \<noteq> (Inl (Refused n), nd')"
proof (induction hs arbitrary: nd)
  case (Cons h hs)
  then show ?case by (auto split: option.splits prod.splits sum.splits failure.splits)
qed simp

lemma switch_branch_refused:
  assumes "switch_branch L E h nd = (Inl (Refused n), nd')" and "activeBatch (nd_db nd) \<noteq> None"
  shows "refused_from nd nd'"
proof -
  obtain best where best: "best_entry nd = Some best" using assms(1) by (auto simp: switch_branch_def split: option.splits)
  obtain ps m where pm: "postpone L (bnChainTrust best) (chain_at (mapBlockIndex nd) (Some h)) = (ps, m)" by fastforce
  obtain r nd1 where 1: "Reorganize L E m nd = (r, nd1)" by fastforce
  show ?thesis
  proof (cases "\<exists>k. r = Inl (Refused k)")
    case True
    then obtain k where k: "r = Inl (Refused k)" by blast
    then have "chain_refused L h 0 nd1 = (Inl (Refused n), nd')" using assms(1) best pm 1 by (simp add: switch_branch_def)
    then show ?thesis using chain_refused_from Reorganize_refused [OF 1 [unfolded k] assms(2)] store_same_refused by blast
  next
    case False
    then show ?thesis
      using assms(1) best pm 1 connect_postponed_no_refuse
      by (cases r) (auto simp: switch_branch_def split: failure.splits)
  qed
qed

text \<open>C3: 
  A refused switch changes nothing. When \<open>SetBestChain\<close> returns false - whichever block of the new
  branch failed, and after however many blocks of the old one were taken back - the best
  block and its trust, the links of all entries, the memory pool and every record of the
  database are as before, but for the record of the best invalid trust.
\<close>
theorem refused_switch_keeps_node:
  assumes "SetBestChain L E b h nd = (Inl (Refused n), nd')" and "activeBatch (nd_db nd) = None"
    and "smap_ok (ldb_store (nd_db nd))"
  shows "as_before nd nd'"
proof -
  obtain nd1 where 1: "on_db TxnBegin nd = (Inr (), nd1)" "store_same nd nd1" "activeBatch (nd_db nd1) \<noteq> None"
      "smap_ok (ldb_store (nd_db nd1))"
    by (rule begin_store [OF assms(2)]) (use assms(3) in \<open>auto simp: store_same_def\<close>)
  have best: "set_best x y s \<noteq> (Inl (Refused n), t)" for x y s t by (auto simp: set_best_def split: option.splits)
  consider
      "on_db (act_then (act_try (WriteHashBestChain (block_GetHash L b))) TxnCommit) nd1 = (Inl (Refused n), nd')"
    | "SetBestChainInner L E b h nd1 = (Inl (Refused n), nd')" | "switch_branch L E h nd1 = (Inl (Refused n), nd')"
    using assms(1) 1(1) best by (auto simp: SetBestChain_def Let_def act_then_refused act_modify_def split: if_splits)
  then have "as_before nd1 nd'"
  proof cases
    case 1
    have "keeps_db (act_try (WriteHashBestChain (block_GetHash L b)))" by (rule keeps_try [OF keeps_WriteHash])
    then show ?thesis using commit_refused [OF 1] \<open>activeBatch (nd_db nd1) \<noteq> None\<close> as_before_intros(1) by blast
  next
    case 2
    then show ?thesis using SetBestChainInner_refused \<open>activeBatch (nd_db nd1) \<noteq> None\<close> as_before_intros 1(4) by blast
  next
    case 3
    then show ?thesis using switch_branch_refused \<open>activeBatch (nd_db nd1) \<noteq> None\<close> as_before_intros(2) 1(4) by blast
  qed
  then show ?thesis using 1(2) by (auto simp: as_before_def store_same_def intro: same_links_trans same_rest_trans)
qed

section \<open>A switch that succeeds\<close>
lemma same_links_main: "same_links M M' \<Longrightarrow> main_ok M b \<Longrightarrow> main_ok M' b"
proof -
  assume s: "same_links M M'" and m: "main_ok M b"
  then have t: "same_tree M M'" by (simp add: same_links_def)
  show "main_ok M' b"
    unfolding main_ok_def
  proof (intro allI impI)
    fix h i' q
    assume i': "M' h = Some i'"
    obtain i where i: "M h = Some i" by (rule same_treeD [OF same_tree_sym [OF t] i'])
    have "pnext i' = pnext i" using s i i' by (auto simp: same_links_def dest: spec [of _ h])
    then show "pnext i' = Some q \<longleftrightarrow> descends M' b q \<and> Option.bind (M' q) pprev = Some h"
      using m i same_tree_descends [OF t] same_tree_pprev [OF t] by (simp add: main_ok_def)
  qed
qed

lemma same_links_sym: "same_links M M' \<Longrightarrow> same_links M' M"
  by (simp add: same_links_def same_tree_def)

lemma same_links_link:
  assumes "same_links M M'" shows "same_links (link_prev_to v h M) (link_prev_to v h M')"
proof -
  have t: "same_tree M M'" using assms by (simp add: same_links_def)
  show ?thesis
  proof (cases "Option.bind (M h) pprev")
    case None
    then show ?thesis using assms same_tree_pprev [OF t, of h] by (simp add: link_prev_to_def)
  next
    case (Some q)
    have "same_tree (set_pnext v q M) (set_pnext v q M')"
      using same_tree_trans [OF same_tree_sym [OF set_pnext_tree] same_tree_trans [OF t set_pnext_tree]] .
    moreover have "map_option pnext (set_pnext v q M k) = map_option pnext (set_pnext v q M' k)" for k
      using assms same_tree_None [OF t, of q] by (cases "M q"; cases "M' q") (auto simp: same_links_def set_pnext_def)
    ultimately show ?thesis using Some same_tree_pprev [OF t, of h] by (simp add: link_prev_to_def same_links_def)
  qed
qed

lemma same_links_relink: "same_links M M' \<Longrightarrow> same_links (relink ds cs M) (relink ds cs M')"
proof -
  have f: "same_links (fold (\<lambda>h. link_prev_to (v h) h) hs M) (fold (\<lambda>h. link_prev_to (v h) h) hs M')"
    if "same_links M M'" for v hs M M'
    using that by (induction hs arbitrary: M M') (simp_all add: same_links_link)
  assume "same_links M M'"
  then show ?thesis unfolding relink_def by (intro f [where v = Some] f [where v = "\<lambda>_. None"])
qed

definition pool_only :: "node \<Rightarrow> node \<Rightarrow> bool" where
  "pool_only nd nd' \<longleftrightarrow> (\<exists>p c. nd' = nd\<lparr>nd_pool := p, nd_cache := c\<rparr>)"

lemma pool_only_trans: "pool_only a b \<Longrightarrow> pool_only b c \<Longrightarrow> pool_only a c"
  unfolding pool_only_def by (elim exE) (hypsubst, simp, blast)

lemma pool_only_self: "pool_only nd nd"
  unfolding pool_only_def by (rule exI [of _ "nd_pool nd"], rule exI [of _ "nd_cache nd"]) simp

lemma resurrect_pool: "resurrect L E tx nd = (r, nd') \<Longrightarrow> pool_only nd nd'"
proof -
  assume a: "resurrect L E tx nd = (r, nd')"
  obtain r1 s where p: "pool_accept L E (nBestHeight nd) (best_chain nd) (nd_db nd) (nd_files nd) tx False
      \<lparr>ac_pool = nd_pool nd, ac_cache = nd_cache nd\<rparr> = (r1, s)" by fastforce
  have "nd' = nd\<lparr>nd_pool := ac_pool s, nd_cache := ac_cache s\<rparr>"
    using a p by (auto simp: resurrect_def AcceptToMemoryPool_def act_then_def act_bind_def act_try_def act_simps
        split: prod.splits sum.splits failure.splits)
  then show ?thesis by (auto simp: pool_only_def)
qed

lemma node_remove_pool: "node_remove L tx nd = (r, nd') \<Longrightarrow> pool_only nd nd'"
  unfolding pool_only_def
  by (rule exI [of _ "pool_remove L tx (nd_pool nd)"], rule exI [of _ "nd_cache nd"]) (auto simp: node_remove_def act_simps)

lemma act_each_pool:
  assumes "\<And>x nd r nd'. f x nd = (r, nd') \<Longrightarrow> pool_only nd nd'" and "act_each f xs nd = (r, nd')"
  shows "pool_only nd nd'"
  by (rule act_each_inv [where P = "pool_only nd", OF _ pool_only_self assms(2)]) (use assms(1) pool_only_trans in blast)

lemma commit_hash:
  assumes "on_db (act_then (WriteHashBestChain h) TxnCommit) nd = (Inr (), nd')" and "db_ok (nd_db nd)"
  shows "\<exists>db. nd' = nd\<lparr>nd_db := db\<rparr> \<and> db_ok db \<and> ReadHashBestChain db = Some h \<and> activeBatch db = None"
proof -
  define w where "w = WriteHashBestChain h (nd_db nd)"
  have w: "fst w = Inr ()" "db_ok (snd w)" "db_view (snd w) (db_key ''hashBestChain'') = Some (ser_u256 h)"
    using db_Write_ok [OF assms(2), of "db_key ''hashBestChain''" "ser_u256 h"] by (simp_all add: w_def WriteHashBestChain_def)
  have c: "TxnCommit (snd w) = (Inr (), nd_db nd') \<and> nd' = nd\<lparr>nd_db := nd_db nd'\<rparr>"
    using assms(1) w(1) by (auto simp: on_db_def act_on_def act_then_Inr w_def split: prod.splits)
  then have "activeBatch (snd w) \<noteq> None" by (auto simp: TxnCommit_def split: option.splits)
  then obtain db where "TxnCommit (snd w) = (Inr (), db)" "db_ok db" "db_view db = db_view (snd w)" "activeBatch db = None"
    using TxnCommit_ok [OF w(2)] by blast
  then have "db_ok (nd_db nd')" "db_view (nd_db nd') (db_key ''hashBestChain'') = Some (ser_u256 h)" "activeBatch (nd_db nd') = None"
    using c w(3) by auto
  then show ?thesis using c hash256.unser_ser [of h "[]"]
    by (intro exI [of _ "nd_db nd'"]) (simp add: ReadHashBestChain_def db_Read_view)
qed

text \<open>The state in which the best block is \<open>h\<close>: its entry, the links and the record of the database agree.\<close>

definition links_to :: "node \<Rightarrow> u256 \<Rightarrow> bool" where
  "links_to nd h \<longleftrightarrow> map_ok (mapBlockIndex nd) \<and> main_ok (mapBlockIndex nd) h
     \<and> db_ok (nd_db nd) \<and> ReadHashBestChain (nd_db nd) = Some h"

lemma pool_only_links: "pool_only nd nd' \<Longrightarrow> links_to nd h \<Longrightarrow> links_to nd' h"
  by (auto simp: pool_only_def links_to_def)

lemma kept_ok: "node_kept nd nd' \<Longrightarrow> db_ok (nd_db nd) \<Longrightarrow> db_ok (nd_db nd')"
  by (simp add: node_kept_def db_kept_def)

lemma Reorganize_links:
  assumes "Reorganize L E h nd = (Inr (), nd')" and "map_ok (mapBlockIndex nd)" and "main_ok (mapBlockIndex nd) a"
    and "pindexBest nd = Some a" and "mapBlockIndex nd a = Some i" and "mapBlockIndex nd h = Some j"
    and "db_ok (nd_db nd)"
  shows "links_to nd' h \<and> same_tree (mapBlockIndex nd) (mapBlockIndex nd')"
proof -
  let ?M = "mapBlockIndex nd"
  have best: "best_chain nd = chain_at ?M (Some a)" by (simp add: best_chain_def assms(4))
  have ne: "best_chain nd \<noteq> []" unfolding best by (rule chain_at_nonempty [OF assms(2,5)])
  obtain c where c: "find_fork (chain_at ?M (Some a)) (chain_at ?M (Some h)) = Some c"
    using assms(1) ne by (auto simp: Reorganize_def best split: option.splits)
  define D where "D = branch_above (chain_at ?M (Some a)) c"
  define C where "C = rev (branch_above (chain_at ?M (Some h)) c)"
  obtain txs nd1 dels nd2 nd3 nd4 where
    1: "disconnect_branch L E D [] nd = (Inr txs, nd1)" and 2: "connect_branch L E C [] nd1 = (Inr dels, nd2)"
    and 3: "on_db (act_then (WriteHashBestChain h) TxnCommit) nd2 = (Inr (), nd3)"
    and 4: "act_each (resurrect L E) txs (nd3\<lparr>mapBlockIndex := relink D C (mapBlockIndex nd3)\<rparr>) = (Inr (), nd4)"
    and 5: "act_each (node_remove L) dels nd4 = (Inr (), nd')"
    using assms(1) ne c
    by (auto simp: Reorganize_def best Let_def D_def [symmetric] C_def [symmetric] act_bind_Inr act_then_Inr act_modify_def)
  note k = node_kept_trans [OF disconnect_branch_kept [OF 1] connect_branch_kept [OF 2]]
  then have s2: "same_links ?M (mapBlockIndex nd2)" by (simp add: node_kept_def)
  obtain db where db: "nd3 = nd2\<lparr>nd_db := db\<rparr>" "db_ok db" "ReadHashBestChain db = Some h"
    using commit_hash [OF 3 kept_ok [OF k assms(7)]] by blast
  define N where "N = relink D C (mapBlockIndex nd2)"
  have sN: "same_links (relink D C ?M) N" unfolding N_def by (rule same_links_relink [OF s2])
  have "main_ok (relink D C ?M) h" unfolding D_def C_def by (rule relink_main [OF assms(2,3,5,6) c])
  then have mN: "main_ok N h" by (rule same_links_main [OF sN])
  have tN: "same_tree ?M N" using relink_tree [of ?M D C] sN same_tree_trans by (auto simp: same_links_def)
  have "links_to (nd3\<lparr>mapBlockIndex := relink D C (mapBlockIndex nd3)\<rparr>) h"
    using db mN map_ok_main [OF assms(2) tN mN] by (simp add: links_to_def N_def)
  moreover have p: "pool_only (nd3\<lparr>mapBlockIndex := relink D C (mapBlockIndex nd3)\<rparr>) nd'"
    by (rule pool_only_trans [OF act_each_pool [OF resurrect_pool 4] act_each_pool [OF node_remove_pool 5]])
  ultimately have "links_to nd' h" using pool_only_links by blast
  moreover have "mapBlockIndex nd' = N" using p db(1) by (auto simp: pool_only_def N_def)
  ultimately show ?thesis using tN by simp
qed

lemma SetBestChainInner_links:
  assumes "SetBestChainInner L E b h nd = (Inr (), nd')" and "map_ok (mapBlockIndex nd)" and "main_ok (mapBlockIndex nd) a"
    and "mapBlockIndex nd a = Some i" and "mapBlockIndex nd h = Some j" and "pprev j = Some a"
    and "db_ok (nd_db nd)" and "block_GetHash L b = h"
  shows "links_to nd' h \<and> same_tree (mapBlockIndex nd) (mapBlockIndex nd')"
proof -
  let ?M = "mapBlockIndex nd"
  obtain nd1 nd2 where 1: "node_ConnectBlock L E b h nd = (Inr (), nd1)" and 2: "on_db (WriteHashBestChain h) nd1 = (Inr (), nd2)"
    and r: "act_then (on_db TxnCommit)
          (act_then (\<lambda>nd. if Option.bind (mapBlockIndex nd h) pprev = None then (Inl Crashed, nd)
              else (Inr (), nd\<lparr>mapBlockIndex := link_prev_to (Some h) h (mapBlockIndex nd)\<rparr>))
            (act_each (node_remove L) (vtx b))) nd2 = (Inr (), nd')"
    using assms(1,8) by (auto simp: SetBestChainInner_def chain_refused_def act_then_Inr act_fail_def split: prod.splits sum.splits failure.splits)
  obtain nd3 where 3: "on_db TxnCommit nd2 = (Inr (), nd3)"
    and 4: "act_each (node_remove L) (vtx b) (nd3\<lparr>mapBlockIndex := link_prev_to (Some h) h (mapBlockIndex nd3)\<rparr>) = (Inr (), nd')"
    using r by (auto simp: act_then_Inr split: if_splits)
  note k = node_ConnectBlock_kept [OF 1]
  have s1: "same_links ?M (mapBlockIndex nd1)" using k by (simp add: node_kept_def)
  have "on_db (act_then (WriteHashBestChain h) TxnCommit) nd1 = (Inr (), nd3)"
    using 2 3 by (auto simp: on_db_def act_on_def act_then_Inr act_simps split: prod.splits)
  then obtain db where db: "nd3 = nd1\<lparr>nd_db := db\<rparr>" "db_ok db" "ReadHashBestChain db = Some h"
    using commit_hash kept_ok [OF k assms(7)] by blast
  define N where "N = link_prev_to (Some h) h (mapBlockIndex nd1)"
  have sN: "same_links (link_prev_to (Some h) h ?M) N" unfolding N_def by (rule same_links_link [OF s1])
  have mN: "main_ok N h" by (rule same_links_main [OF sN link_new_best [OF assms(2-6)]])
  have tN: "same_tree ?M N" using link_prev_to_tree [of ?M "Some h" h] sN same_tree_trans by (auto simp: same_links_def)
  have "links_to (nd3\<lparr>mapBlockIndex := link_prev_to (Some h) h (mapBlockIndex nd3)\<rparr>) h"
    using db mN map_ok_main [OF assms(2) tN mN] by (simp add: links_to_def N_def)
  moreover have p: "pool_only (nd3\<lparr>mapBlockIndex := link_prev_to (Some h) h (mapBlockIndex nd3)\<rparr>) nd'"
    by (rule act_each_pool [OF node_remove_pool 4])
  ultimately have "links_to nd' h" using pool_only_links by blast
  moreover have "mapBlockIndex nd' = N" using p db(1) by (auto simp: pool_only_def N_def)
  ultimately show ?thesis using tN by simp
qed

lemma postpone_none: "postpone L t ch = ([], m) \<Longrightarrow> ch \<noteq> [] \<Longrightarrow> m = phashBlock (hd ch)"
  by (cases "(L, t, ch)" rule: postpone.cases) (auto split: if_splits prod.splits)

text \<open>C2: 
  A switch keeps the links of the best branch. With the forward links along the branch of the
  best block and nowhere else, \<open>SetBestChain\<close> of a block - on top of the best block, or of
  another branch when no block is postponed - leaves them along the branch of the new block and
  nowhere else; the best block of the node and of the database are that block, and the tree of
  blocks keeps its shape.
\<close>
theorem best_chain_linked:
  assumes "SetBestChain L E b h nd = (Inr (), nd')" and "block_GetHash L b = h"
    and "map_ok (mapBlockIndex nd)" and "main_ok (mapBlockIndex nd) a" and "mapBlockIndex nd a = Some i"
    and "pindexBest nd = Some a" and "hashBestChain nd = a" and "pindexGenesisBlock nd \<noteq> None"
    and "mapBlockIndex nd h = Some j" and "pprev j = Some (hashPrevBlock b)"
    and "db_ok (nd_db nd)" and "activeBatch (nd_db nd) = None"
    and "hashPrevBlock b \<noteq> a \<longrightarrow> fst (postpone L (bnChainTrust i) (chain_at (mapBlockIndex nd) (Some h))) = []"
  shows "map_ok (mapBlockIndex nd') \<and> main_ok (mapBlockIndex nd') h
    \<and> pindexBest nd' = Some h \<and> hashBestChain nd' = h \<and> nBestHeight nd' = nHeight j
    \<and> ReadHashBestChain (nd_db nd') = Some h \<and> same_tree (mapBlockIndex nd) (mapBlockIndex nd')"
proof -
  obtain nd1 where 1: "on_db TxnBegin nd = (Inr (), nd1)" "mapBlockIndex nd1 = mapBlockIndex nd"
      "db_ok (nd_db nd1)" "same_rest nd nd1"
    by (rule begin_store [OF assms(12)]) (use assms(11) in auto)
  have same: "pindexBest nd1 = Some a" "hashBestChain nd1 = a" "pindexGenesisBlock nd1 \<noteq> None"
    using 1(4) assms(6-8) by (simp_all add: same_rest_def)
  obtain nd2 where 2: "(if hashPrevBlock b = a then SetBestChainInner L E b h nd1 else switch_branch L E h nd1) = (Inr (), nd2)"
    and 3: "set_best h h nd2 = (Inr (), nd')"
    using assms(1) 1(1) same assms(2) by (auto simp: SetBestChain_def Let_def act_then_Inr split: if_splits)
  have "links_to nd2 h \<and> same_tree (mapBlockIndex nd1) (mapBlockIndex nd2)"
  proof (cases "hashPrevBlock b = a")
    case True
    then show ?thesis
      using SetBestChainInner_links [where nd = nd1 and nd' = nd2 and b = b and h = h and a = a] 2 1(2,3) assms(2-5,9,10) by auto
  next
    case False
    obtain m where m: "postpone L (bnChainTrust i) (chain_at (mapBlockIndex nd) (Some h)) = ([], m)"
      using False assms(13) by (cases "postpone L (bnChainTrust i) (chain_at (mapBlockIndex nd) (Some h))") auto
    have "m = phashBlock (hd (chain_at (mapBlockIndex nd) (Some h)))"
      using postpone_none [OF m] chain_at_nonempty [OF assms(3,9)] by simp
    then have "m = h" using map_okD [OF assms(3,9)] by (simp add: chain_at_unfold [OF assms(3,9)] entry_ok_def)
    then have "Reorganize L E h nd1 = (Inr (), nd2)"
      using 2 False m same(1) assms(5) 1(2)
      by (auto simp: switch_branch_def best_entry_def chain_refused_def act_then_Inr act_fail_def split: prod.splits sum.splits failure.splits)
    then show ?thesis using Reorganize_links [of L E h nd1 nd2 a i j] same(1) 1(2,3) assms(3-5,9) by simp
  qed
  moreover obtain k where k: "mapBlockIndex nd2 h = Some k" "bare k = bare j"
    by (rule same_treeD [of "mapBlockIndex nd1" "mapBlockIndex nd2" h j]) (use calculation 1(2) assms(9) in auto)
  ultimately show ?thesis using 3 bare_eq [OF k(2)] 1(2) by (auto simp: set_best_def links_to_def)
qed

section \<open>Blocks by height\<close>
lemma main_next:
  assumes "map_ok M" and "main_ok M b" and "M b = Some i" and "p \<in> set (chain_at M (Some b))" and "nHeight p < nHeight i"
  obtains q where "Option.bind (pnext p) M = Some q" and "q \<in> set (chain_at M (Some b))" and "nHeight q = nHeight p + 1"
proof -
  let ?C = "chain_at M (Some b)"
  have e: "\<forall>x \<in> set ?C. M (phashBlock x) = Some x"
    using chain_at_entries [OF assms(1,3)] by (simp add: list_all_iff)
  obtain k where k: "k < length ?C" "?C ! k = p" using assms(4) by (auto simp: in_set_conv_nth)
  have "nHeight p = nHeight i - int k" using chain_nth_height [OF assms(1,3) k(1)] k(2) by simp
  then have k0: "0 < k" using assms(5) by simp
  define q where "q = ?C ! (k - 1)"
  have q: "q \<in> set ?C" "nHeight q = nHeight p + 1"
    using k k0 chain_nth_height [OF assms(1,3), of "k - 1"] \<open>nHeight p = nHeight i - int k\<close> by (simp_all add: q_def)
  have "?C ! (k - 1) # drop k ?C = drop (k - 1) ?C" using k k0 by (metis Cons_nth_drop_Suc Suc_diff_1 less_imp_diff_less)
  also have "\<dots> = chain_at M (Some (phashBlock q))" using drop_chain_at [OF assms(1,3), of "k - 1"] k k0 by (simp add: q_def)
  also have "\<dots> = q # chain_at M (pprev q)" using chain_at_unfold [OF assms(1)] e q(1) by blast
  finally have t: "chain_at M (pprev q) = drop k ?C" by simp
  then have "chain_at M (pprev q) \<noteq> []" using k(1) by simp
  then obtain h j where h: "pprev q = Some h" "M h = Some j" by (cases "pprev q") (auto simp: chain_at_def split: option.splits)
  have "hd (chain_at M (Some h)) = p" using t h(1) k by (simp add: hd_drop_conv_nth)
  then have "j = p" by (simp add: chain_at_unfold [OF assms(1) h(2)])
  then have ph: "phashBlock p = h" using map_okD [OF assms(1) h(2)] by (simp add: entry_ok_def)
  have "descends M b (phashBlock q)" using q(1) by (auto simp: descends_def)
  moreover have mq: "M (phashBlock q) = Some q" using e q(1) by blast
  ultimately have "pnext p = Some (phashBlock q)"
    using assms(2) h \<open>j = p\<close> by (simp add: main_ok_def)
  then show ?thesis using that [of q] q mq by simp
qed

lemma height_forward_main:
  assumes "map_ok M" and "main_ok M b" and "M b = Some i" and "p \<in> set (chain_at M (Some b))"
    and "nHeight p \<le> height" and "height \<le> nHeight i"
  shows "\<exists>q \<in> set (chain_at M (Some b)). height_forward M height p = Some (Inr q) \<and> nHeight q = height"
  using assms(4,5)
proof (induction "nat (height - nHeight p)" arbitrary: p)
  case 0
  then show ?case by (simp add: height_forward.simps)
next
  case (Suc n)
  then have lt: "nHeight p < height" by simp
  obtain q where q: "Option.bind (pnext p) M = Some q" "q \<in> set (chain_at M (Some b))" "nHeight q = nHeight p + 1"
    by (rule main_next [OF assms(1-3) Suc.prems(1)]) (use lt assms(6) in simp)
  have "n = nat (height - nHeight q)" using Suc.hyps(2) q(3) by simp
  from Suc.hyps(1) [OF this q(2)] lt q(1,3) show ?case by (simp add: height_forward.simps [of M height p])
qed

lemma height_start_cases:
  "Option.bind (pindexBest nd) (mapBlockIndex nd) \<noteq> None \<Longrightarrow> Option.bind (pindexGenesisBlock nd) (mapBlockIndex nd) \<noteq> None \<Longrightarrow>
    height_start nd height \<in> {pindexGenesisBlock nd, pindexBest nd, pblockindexFBBHLast nd} \<and>
    Option.bind (height_start nd height) (mapBlockIndex nd) \<noteq> None"
  by (auto simp: height_start_def Let_def split: option.splits if_splits)

text \<open>C16: 
  A block by its height. With the forward links along the best branch, \<open>FindBlockByHeight\<close> ends
  for every height from that of the genesis block to that of the best block and returns the
  block of the best branch at that height, wherever its cached starting point is on that branch.
\<close>
theorem FindBlockByHeight_main:
  assumes "map_ok (mapBlockIndex nd)" and "main_ok (mapBlockIndex nd) b" and "pindexBest nd = Some b"
    and "mapBlockIndex nd b = Some i" and "pindexGenesisBlock nd = Some g" and "descends (mapBlockIndex nd) b g"
    and "\<forall>l. pblockindexFBBHLast nd = Some l \<longrightarrow> descends (mapBlockIndex nd) b l"
    and "0 \<le> height" and "height \<le> nHeight i"
  shows "\<exists>q. fst (FindBlockByHeight height nd) = Some (Inr q) \<and> nHeight q = height
    \<and> q \<in> set (best_chain nd) \<and> snd (FindBlockByHeight height nd) = nd\<lparr>pblockindexFBBHLast := Some (phashBlock q)\<rparr>"
proof -
  let ?M = "mapBlockIndex nd"
  have e: "\<forall>x \<in> set (chain_at ?M (Some b)). ?M (phashBlock x) = Some x"
    using chain_at_entries [OF assms(1,4)] by (simp add: list_all_iff)
  then have ent: "?M h \<noteq> None" if "descends ?M b h" for h using that by (auto simp: descends_def)
  obtain s where s: "height_start nd height = Some s" "descends ?M b s"
    using height_start_cases [of nd height] assms(3-7) ent [OF assms(6)] descends_refl [OF assms(1,4)] by force
  obtain w where w: "?M s = Some w" using ent [OF s(2)] by blast
  have ws: "w \<in> set (chain_at ?M (Some b))" by (rule descends_entry [OF assms(1,4) w s(2)])
  obtain p r where p: "trace_back height (chain_at ?M (Some s)) = p # r" "nHeight p \<le> height" "p \<in> set (chain_at ?M (Some s))"
  proof (cases "height \<le> nHeight w")
    case True
    then show ?thesis using trace_back_chain [OF assms(1) w assms(8)] that by fastforce
  next
    case False
    then show ?thesis using that [of w "chain_at ?M (pprev w)"] by (simp add: trace_back_def chain_at_unfold [OF assms(1) w])
  qed
  have "set (chain_at ?M (Some s)) \<subseteq> set (chain_at ?M (Some b))"
    using chain_at_suffix [OF assms(1,4) s(2)] by (auto dest: in_set_dropD)
  then have "p \<in> set (chain_at ?M (Some b))" using p(3) by blast
  from height_forward_main [OF assms(1,2,4) this p(2) assms(9)]
  show ?thesis using s(1) p(1) by (auto simp: FindBlockByHeight_def best_chain_def assms(3))
qed

text \<open>C15: 
  The fork is the deepest block two branches share: \<open>Reorganize\<close> finds, of all blocks both the
  old and the new best block descend from, the one that descends from all the others, and fails
  only when there is none.
\<close>
theorem fork_is_deepest:
  assumes "map_ok M" and "M a = Some i" and "M b = Some j"
  shows "case find_fork (chain_at M (Some a)) (chain_at M (Some b)) of
      None \<Rightarrow> \<forall>h. \<not> (descends M a h \<and> descends M b h)
    | Some c \<Rightarrow> \<exists>f. c = chain_at M (Some f) \<and> descends M a f \<and> descends M b f
        \<and> (\<forall>h. descends M a h \<and> descends M b h \<longrightarrow> descends M f h)"
proof (cases "find_fork (chain_at M (Some a)) (chain_at M (Some b))")
  case None
  then have "dropWhile (\<lambda>p. \<not> descends M b (phashBlock p)) (chain_at M (Some a)) = []"
    using find_fork_chain [OF assms] by (simp split: list.splits)
  then have "\<not> (descends M a h \<and> descends M b h)" for h by (auto simp: dropWhile_eq_Nil_conv descends_def [of M a])
  then show ?thesis using None by simp
next
  case (Some c)
  obtain f where "c = chain_at M (Some (phashBlock f))" "f \<in> set (chain_at M (Some a))"
      "f \<in> set (chain_at M (Some b))" "\<forall>h. descends M a h \<and> descends M b h \<longrightarrow> descends M (phashBlock f) h"
    by (rule find_fork_deepest [OF assms Some])
  then show ?thesis using Some by (auto simp: descends_def)
qed

section \<open>Witnesses\<close>

text \<open>A tree of three blocks: 0 below 5 and below the block of the hash \<open>hashGenesisBlockOfficial\<close>.\<close>

definition tree_block :: "u256 \<Rightarrow> u256 option \<Rightarrow> int \<Rightarrow> CBlockIndex" where
  "tree_block h p height = index_empty\<lparr>phashBlock := h, pprev := p, nHeight := height, bi_nFile := 1, bi_nBlockPos := 8\<rparr>"

definition tree_map :: block_map where
  "tree_map = [0 \<mapsto> tree_block 0 None 0, 5 \<mapsto> tree_block 5 (Some 0) 1,
     hashGenesisBlockOfficial \<mapsto> tree_block hashGenesisBlockOfficial (Some 0) 1]"

lemma tree_keys: "hashGenesisBlockOfficial \<noteq> 0" "hashGenesisBlockOfficial \<noteq> 5"
  by (simp_all add: hashGenesisBlockOfficial_def)

lemma tree_map_at: "tree_map 0 = Some (tree_block 0 None 0)" "tree_map 5 = Some (tree_block 5 (Some 0) 1)"
  "tree_map hashGenesisBlockOfficial = Some (tree_block hashGenesisBlockOfficial (Some 0) 1)"
  using tree_keys by (simp_all add: tree_map_def)

lemma tree_block_fields [simp]: "phashBlock (tree_block h p n) = h" "pprev (tree_block h p n) = p"
  "nHeight (tree_block h p n) = n" "pnext (tree_block h p n) = None" "bi_nFile (tree_block h p n) = 1"
  "bi_nBlockPos (tree_block h p n) = 8" "bnChainTrust (tree_block h p n) = 0"
  by (simp_all add: tree_block_def index_empty_def)

lemma tree_cases: "tree_map h = Some i \<Longrightarrow> h = 0 \<and> i = tree_block 0 None 0 \<or> h \<noteq> 0 \<and> i = tree_block h (Some 0) 1"
  using tree_keys by (auto simp: tree_map_def split: if_splits)

lemma tree_ok: "map_ok tree_map"
  unfolding map_ok_def
proof (intro allI impI)
  fix h i
  assume "tree_map h = Some i"
  then show "entry_ok tree_map h i" using tree_cases [of h i] tree_map_at(1) by (auto simp: entry_ok_def)
qed

lemma tree_chains: "chain_at tree_map (Some 0) = [tree_block 0 None 0]"
  "chain_at tree_map (Some 5) = [tree_block 5 (Some 0) 1, tree_block 0 None 0]"
  "chain_at tree_map (Some hashGenesisBlockOfficial) = [tree_block hashGenesisBlockOfficial (Some 0) 1, tree_block 0 None 0]"
  by (simp_all add: chain_at_unfold [OF tree_ok tree_map_at(1)] chain_at_unfold [OF tree_ok tree_map_at(2)]
      chain_at_unfold [OF tree_ok tree_map_at(3)])

theorem fork_is_deepest_witness:
  "\<exists>c f. find_fork (chain_at tree_map (Some 5)) (chain_at tree_map (Some hashGenesisBlockOfficial)) = Some c
    \<and> c = chain_at tree_map (Some f) \<and> descends tree_map 5 f \<and> descends tree_map hashGenesisBlockOfficial f"
proof -
  have "descends tree_map 5 0 \<and> descends tree_map hashGenesisBlockOfficial 0" by (simp add: descends_def tree_chains)
  then show ?thesis using fork_is_deepest [OF tree_ok tree_map_at(2,3)] by (force split: option.splits)
qed

definition tree_node :: "CTxDB \<Rightarrow> node" where
  "tree_node db = \<lparr>mapBlockIndex = tree_map, pindexGenesisBlock = Some 0, pindexBest = Some 0, hashBestChain = 0,
     nBestHeight = 0, bnBestChainTrust = 0, bnBestInvalidTrust = 0, pblockindexFBBHLast = None, setStakeSeen = {},
     mapProofOfStake = Map.empty, nd_db = db, nd_files = files_empty, nd_pool = mint_pool, nd_cache = cache_empty\<rparr>"

lemma tree_node_fields [simp]: "mapBlockIndex (tree_node db) = tree_map" "pindexGenesisBlock (tree_node db) = Some 0"
  "pindexBest (tree_node db) = Some 0" "hashBestChain (tree_node db) = 0" "nd_db (tree_node db) = db"
  "nBestHeight (tree_node db) = 0" "nd_files (tree_node db) = files_empty" "nd_pool (tree_node db) = mint_pool"
  "nd_cache (tree_node db) = cache_empty" "bnBestInvalidTrust (tree_node db) = 0"
  by (simp_all add: tree_node_def)

lemma tree_main: "main_ok tree_map 0"
  unfolding main_ok_def
proof (intro allI impI)
  fix h i q
  assume h: "tree_map h = Some i"
  have "pnext i = None" using tree_cases [OF h] by auto
  moreover have "\<not> (descends tree_map 0 q \<and> Option.bind (tree_map q) pprev = Some h)"
    by (auto simp: descends_def tree_chains tree_map_at)
  ultimately show "pnext i = Some q \<longleftrightarrow> descends tree_map 0 q \<and> Option.bind (tree_map q) pprev = Some h" by simp
qed

theorem refused_switch_keeps_node_witness:
  "\<exists>nd'. SetBestChain ref_lib env_test block_SetNull 5 (tree_node (db_empty\<lparr>activeBatch := None\<rparr>)) = (Inl (Refused 100), nd')
    \<and> as_before (tree_node (db_empty\<lparr>activeBatch := None\<rparr>)) nd'"
proof -
  define nd where "nd = tree_node (db_empty\<lparr>activeBatch := None\<rparr>)"
  define nd1 where "nd1 = nd\<lparr>nd_db := db_empty\<rparr>"
  have f: "mapBlockIndex nd1 = tree_map" "pindexBest nd1 = Some 0" "hashBestChain nd1 = 0" "pindexGenesisBlock nd1 = Some 0"
    by (simp_all add: nd1_def nd_def)
  have b: "on_db TxnBegin nd = (Inr (), nd1)"
    by (simp add: on_db_def act_on_def TxnBegin_def nd1_def nd_def) (simp add: db_empty_def)
  have v: "vtx block_SetNull = []" "hashPrevBlock block_SetNull = 0" by (simp_all add: block_SetNull_def)
  have c: "\<exists>nd2. node_ConnectBlock ref_lib env_test block_SetNull 5 nd1 = (Inl (Refused 100), nd2) \<and> mapBlockIndex nd2 = tree_map(5 \<mapsto> tree_block 5 (Some 0) 1) \<and> pindexBest nd2 = Some 0"
    by (simp add: node_ConnectBlock_def f tree_map_at ConnectBlock_def CheckBlock_def v)
  then obtain nd2 where n2: "node_ConnectBlock ref_lib env_test block_SetNull 5 nd1 = (Inl (Refused 100), nd2)"
      "mapBlockIndex nd2 = tree_map(5 \<mapsto> tree_block 5 (Some 0) 1)" "pindexBest nd2 = Some 0" by blast
  have "\<exists>nd3. chain_refused ref_lib 5 100 nd2 = (Inl (Refused 100), nd3)"
  proof -
    define s where "s = nd2\<lparr>nd_db := nd_db nd2\<lparr>activeBatch := None\<rparr>\<rparr>"
    have "mapBlockIndex s 5 = Some (tree_block 5 (Some 0) 1)" "mapBlockIndex s 0 = Some (tree_block 0 None 0)" "pindexBest s = Some 0"
      using n2(2,3) tree_map_at(1) by (simp_all add: s_def)
    then have "\<exists>t. InvalidChainFound ref_lib 5 s = (Inr (), t)"
      by (simp add: InvalidChainFound_def best_entry_def Let_def)
    then show ?thesis by (auto simp: chain_refused_def act_simps on_db_def act_on_def TxnAbort_def s_def)
  qed
  then obtain nd3 where n3: "chain_refused ref_lib 5 100 nd2 = (Inl (Refused 100), nd3)" by blast
  have "SetBestChainInner ref_lib env_test block_SetNull 5 nd1 = (Inl (Refused 100), nd3)"
    using n2(1) n3 by (simp add: SetBestChainInner_def act_simps)
  then have r: "SetBestChain ref_lib env_test block_SetNull 5 nd = (Inl (Refused 100), nd3)"
    using b by (simp add: SetBestChain_def Let_def act_simps f v)
  have "as_before nd nd3" by (rule refused_switch_keeps_node [OF r]) (simp_all add: nd_def db_empty_def)
  then show ?thesis using r unfolding nd_def by blast
qed

theorem best_chain_linked_witness:
  "\<exists>db nd'. SetBestChain genesis_lib env_test mint_block hashGenesisBlockOfficial (tree_node db) = (Inr (), nd')
    \<and> main_ok (mapBlockIndex nd') hashGenesisBlockOfficial
    \<and> ReadHashBestChain (nd_db nd') = Some hashGenesisBlockOfficial"
proof -
  let ?h = hashGenesisBlockOfficial
  obtain db where db: "db_ok db" "tx_index_of db = [fund_hash \<mapsto> txindex_new pos_mempool 1]" "index_wf (tx_index_of db)"
      "activeBatch db = None"
    using mint_db by blast
  obtain db1 where db1: "TxnBegin db = (Inr (), db1)" "db_ok db1" "db_view db1 = db_view db" "activeBatch db1 = Some []"
    using TxnBegin_ok [OF db(1,4)] by blast
  have T: "tx_index_of db1 = tx_index_of db" by (simp add: fun_eq_iff ReadTxIndex_view db(1) db1(2,3))
  define nd1 where "nd1 = (tree_node db)\<lparr>nd_db := db1\<rparr>"
  have b: "on_db TxnBegin (tree_node db) = (Inr (), nd1)" by (simp add: on_db_def act_on_def db1(1) nd1_def)
  have f: "mapBlockIndex nd1 = tree_map" "pindexBest nd1 = Some 0" "hashBestChain nd1 = 0" "pindexGenesisBlock nd1 = Some 0"
      "nd_db nd1 = db1" "nBestHeight nd1 = 0" "nd_files nd1 = files_empty" "nd_pool nd1 = mint_pool" "nd_cache nd1 = cache_empty"
    by (simp_all add: nd1_def)
  have hash: "block_GetHash genesis_lib mint_block = ?h" by (simp add: block_GetHash_def genesis_scrypt)
  have prev: "hashPrevBlock mint_block = 0" by (simp add: mint_block_def sample_block_def block_SetNull_def)
  obtain c where c: "ConnectBlock genesis_lib env_test (best_entry nd1) 0 files_empty mint_pool mint_block
      (chain_at tree_map (Some 0)) False \<lparr>cb_db = db1, cb_pindex = tree_block ?h (Some 0) 1, cb_cache = cache_empty\<rparr> = (Inr (), c)"
    using mint_ConnectBlock [OF db1(2)] T db(2,3) by fastforce
  obtain nd2 where n2: "node_ConnectBlock genesis_lib env_test mint_block ?h nd1 = (Inr (), nd2)"
    using c by (simp add: node_ConnectBlock_def f tree_map_at(3))
  note k = node_ConnectBlock_kept [OF n2]
  have ok2: "db_ok (nd_db nd2)" "activeBatch (nd_db nd2) \<noteq> None"
    using k db1(2,4) by (simp_all add: node_kept_def db_kept_def f)
  define w where "w = WriteHashBestChain ?h (nd_db nd2)"
  have w: "fst w = Inr ()" "db_ok (snd w)" "activeBatch (snd w) \<noteq> None"
    using db_Write_ok [OF ok2(1), of "db_key ''hashBestChain''" "ser_u256 ?h"] ok2(2)
    by (simp_all add: w_def WriteHashBestChain_def)
  define nd3 where "nd3 = nd2\<lparr>nd_db := snd w\<rparr>"
  have n3: "on_db (WriteHashBestChain ?h) nd2 = (Inr (), nd3)"
    using w(1) by (cases w) (simp add: on_db_def act_on_def w_def [symmetric] nd3_def)
  obtain db4 where "TxnCommit (snd w) = (Inr (), db4)" using TxnCommit_ok [OF w(2,3)] by blast
  then obtain nd4 where n4: "on_db TxnCommit nd3 = (Inr (), nd4)" "mapBlockIndex nd4 = mapBlockIndex nd2"
    by (simp add: on_db_def act_on_def nd3_def)
  have t: "same_tree tree_map (mapBlockIndex nd4)" using k by (simp add: node_kept_def same_links_def f n4(2))
  have p: "Option.bind (mapBlockIndex nd4 ?h) pprev = Some 0"
    using same_tree_pprev [OF t, of ?h] tree_map_at(3) by simp
  define nd5 where "nd5 = nd4\<lparr>mapBlockIndex := link_prev_to (Some ?h) ?h (mapBlockIndex nd4)\<rparr>"
  have "\<exists>nd6. act_each (node_remove genesis_lib) txs s = (Inr (), nd6)" for txs s
    by (induction txs arbitrary: s) (simp_all add: act_simps node_remove_def)
  then obtain nd6 where n6: "act_each (node_remove genesis_lib) (vtx mint_block) nd5 = (Inr (), nd6)" by blast
  have "SetBestChainInner genesis_lib env_test mint_block ?h nd1 = (Inr (), nd6)"
    using n2 n3 n4(1) n6 p by (simp add: SetBestChainInner_def act_simps hash nd5_def)
  moreover have "mapBlockIndex nd6 ?h \<noteq> None"
  proof -
    have "same_tree tree_map (mapBlockIndex nd5)" unfolding nd5_def using t link_prev_to_tree same_tree_trans by fastforce
    moreover have "pool_only nd5 nd6" by (rule act_each_pool [OF node_remove_pool n6])
    then have "mapBlockIndex nd6 = mapBlockIndex nd5" by (auto simp: pool_only_def)
    ultimately show ?thesis using same_tree_None [of tree_map _ ?h] tree_map_at(3) by simp
  qed
  ultimately obtain nd7 where s: "SetBestChain genesis_lib env_test mint_block ?h (tree_node db) = (Inr (), nd7)"
    using b by (auto simp: SetBestChain_def Let_def act_simps f prev set_best_def)
  have "pprev (tree_block ?h (Some 0) 1) = Some (hashPrevBlock mint_block)" by (simp add: prev)
  then show ?thesis
    using best_chain_linked [OF s hash, of 0 "tree_block 0 None 0" "tree_block ?h (Some 0) 1"] s tree_ok tree_main tree_map_at db(1,4) prev
    by auto
qed

theorem FindBlockByHeight_main_witness:
  "\<exists>q. fst (FindBlockByHeight 0 (tree_node db_empty)) = Some (Inr q) \<and> nHeight q = 0 \<and> phashBlock q = 0"
proof -
  have d: "descends tree_map 0 0" by (simp add: descends_def tree_chains)
  have l: "pblockindexFBBHLast (tree_node db_empty) = None" by (simp add: tree_node_def)
  show ?thesis
    using FindBlockByHeight_main [of "tree_node db_empty" 0 "tree_block 0 None 0" 0 0] tree_ok tree_main tree_map_at(1) d l
    by (auto simp: best_chain_def tree_chains)
qed

end
