(* ===== verification/Accept.thy ===== *)
theory Accept
  imports Main_Chain
begin

text \<open>
  What the node does with a block it receives (\<open>main.cpp\<close>: \<open>ProcessBlock\<close>,
  \<open>CBlock::AcceptBlock\<close>, the orphan blocks) and with a synchronised checkpoint
  (\<open>checkpoints.cpp\<close>: pending checkpoints, \<open>ProcessSyncCheckpoint\<close>). \<open>Refused n\<close> is a
  \<open>return false\<close> after which the score of the block is \<open>n\<close>. A search of the orphan blocks that
  never ends, since their predecessors form a cycle, is written \<open>Crashed\<close> as well.
\<close>

section \<open>Peers\<close>

text \<open>
  \<open>node_sent\<close> records, in order, the messages pushed to a peer and the calls of \<open>AskFor\<close> (which
  spaces requests by the clock) and of \<open>Misbehaving\<close>. A pointer to a peer is its index in
  \<open>vNodes\<close>.
\<close>

datatype message =
    Push_getblocks CBlockLocator u256
  | Ask_block u256
  | Push_checkpoint CSyncCheckpoint
  | Misbehave int

record CInv =
  inv_type :: int
  inv_hash :: u256

definition MSG_TX :: int where "MSG_TX = 1"
definition MSG_BLOCK :: int where "MSG_BLOCK = 2"

record CNode =
  nStartingHeight :: int
  hashCheckpointKnown :: u256
  pindexLastGetBlocksBegin :: "u256 option"
  hashLastGetBlocksEnd :: u256
  setInventoryKnown :: "CInv set"
  vInventoryToSend :: "CInv list"
  node_sent :: "message list"

definition node_send :: "message \<Rightarrow> CNode \<Rightarrow> CNode" where
  "node_send m n = n\<lparr>node_sent := node_sent n @ [m]\<rparr>"

definition PushInventory :: "CInv \<Rightarrow> CNode \<Rightarrow> CNode" where
  "PushInventory item n =
     (if item \<in> setInventoryKnown n then n else n\<lparr>vInventoryToSend := vInventoryToSend n @ [item]\<rparr>)"

definition PushGetBlocks :: "u256 \<Rightarrow> block_map \<Rightarrow> u256 option \<Rightarrow> u256 \<Rightarrow> CNode \<Rightarrow> CNode" where
  "PushGetBlocks genesis M pindexBegin hashEnd n =
     (if pindexBegin = pindexLastGetBlocksBegin n \<and> hashEnd = hashLastGetBlocksEnd n then n
      else node_send (Push_getblocks (locator_Set genesis (chain_at M pindexBegin)) hashEnd)
             (n\<lparr>pindexLastGetBlocksBegin := pindexBegin, hashLastGetBlocksEnd := hashEnd\<rparr>))"

definition RelayTo :: "CSyncCheckpoint \<Rightarrow> CNode \<Rightarrow> CNode" where
  "RelayTo c n =
     (if hashCheckpointKnown n \<noteq> hashCheckpoint c
      then node_send (Push_checkpoint c) (n\<lparr>hashCheckpointKnown := hashCheckpoint c\<rparr>) else n)"

section \<open>The state\<close>

text \<open>\<open>mapOrphanBlocksByPrev\<close> is a multimap: the blocks of a key in the order they were inserted.\<close>

record full_node =
  fn_node :: node
  fn_sync :: sync_state
  mapOrphanBlocks :: "u256 \<rightharpoonup> CBlock"
  mapOrphanBlocksByPrev :: "(u256 \<times> CBlock) list"
  setStakeSeenOrphan :: "(COutPoint \<times> u32) set"
  vNodes :: "CNode list"
  fShutdown :: bool

definition on_node :: "(node, 'a) action \<Rightarrow> (full_node, 'a) action" where
  "on_node = act_on fn_node (\<lambda>nd fn. fn\<lparr>fn_node := nd\<rparr>)"

definition fn_map :: "full_node \<Rightarrow> block_map" where
  "fn_map fn = mapBlockIndex (fn_node fn)"

definition to_peer :: "nat option \<Rightarrow> (CNode \<Rightarrow> CNode) \<Rightarrow> full_node \<Rightarrow> full_node" where
  "to_peer pfrom f fn =
     (case pfrom of None \<Rightarrow> fn | Some i \<Rightarrow> fn\<lparr>vNodes := (vNodes fn)[i := f (vNodes fn ! i)]\<rparr>)"

definition ask_blocks :: "node_env \<Rightarrow> nat option \<Rightarrow> u256 \<Rightarrow> full_node \<Rightarrow> full_node" where
  "ask_blocks E pfrom hashEnd fn =
     to_peer pfrom (PushGetBlocks (hashGenesisBlock (fTestNet E)) (fn_map fn) (pindexBest (fn_node fn)) hashEnd) fn"

section \<open>Orphan blocks\<close>

text \<open>Back to the first block of a chain of orphans.\<close>

partial_function (option) orphan_root :: "(u256 \<Rightarrow> CBlock option) \<Rightarrow> CBlock \<Rightarrow> CBlock option" where
  "orphan_root orphans b =
     (case orphans (hashPrevBlock b) of None \<Rightarrow> Some b | Some b' \<Rightarrow> orphan_root orphans b')"

definition GetOrphanRoot :: "extlib \<Rightarrow> (u256 \<rightharpoonup> CBlock) \<Rightarrow> CBlock \<Rightarrow> u256 option" where
  "GetOrphanRoot L orphans b = map_option (block_GetHash L) (orphan_root orphans b)"

definition WantedByOrphan :: "(u256 \<rightharpoonup> CBlock) \<Rightarrow> CBlock \<Rightarrow> u256 option" where
  "WantedByOrphan orphans b = map_option hashPrevBlock (orphan_root orphans b)"

definition WantedByPendingSyncCheckpoint :: "u256 \<Rightarrow> full_node \<Rightarrow> bool option" where
  "WantedByPendingSyncCheckpoint hashBlock fn =
     (let pending = hashPendingCheckpoint (fn_sync fn)
      in if pending = 0 then Some False
         else if hashBlock = pending then Some True
         else (case mapOrphanBlocks fn pending of None \<Rightarrow> Some False
               | Some b \<Rightarrow> map_option (\<lambda>w. hashBlock = w) (WantedByOrphan (mapOrphanBlocks fn) b)))"

section \<open>Synchronised checkpoints\<close>

text \<open>A \<open>CTxDB\<close> object of its own.\<close>

definition open_db :: "(full_node, unit) action" where
  "open_db = on_node (act_modify (\<lambda>nd. nd\<lparr>nd_db := CTxDB_open ''r+'' (nd_db nd)\<rparr>))"

definition cp_WriteSyncCheckpoint :: "u256 \<Rightarrow> (full_node, unit) action" where
  "cp_WriteSyncCheckpoint hash =
     act_then open_db (act_then (on_node (on_db (act_try TxnBegin))) (\<lambda>fn.
       case on_node (on_db (WriteSyncCheckpoint hash)) fn of
         (Inl (Refused n), fn) \<Rightarrow> act_then (on_node (on_db (act_try TxnAbort))) (act_fail (Refused 0)) fn
       | (Inl Crashed, fn) \<Rightarrow> (Inl Crashed, fn)
       | (Inr u, fn) \<Rightarrow> act_then (on_node (on_db TxnCommit))
           (act_modify (\<lambda>fn. fn\<lparr>fn_sync := (fn_sync fn)\<lparr>hashSyncCheckpoint := hash\<rparr>\<rparr>)) fn))"

text \<open>
  Make the branch of an accepted block the best chain, unless the block is in it already;
  \<open>blame\<close> is what remains when that is refused.
\<close>

definition switch_main :: "extlib \<Rightarrow> node_env \<Rightarrow> (full_node \<Rightarrow> full_node) \<Rightarrow> CBlockIndex \<Rightarrow> (full_node, unit) action" where
  "switch_main L E blame p fn =
     (if IsInMainChain (pindexBest (fn_node fn)) p then (Inr (), fn)
      else case block_ReadFromDisk L (fTestNet E) p True (nd_files (fn_node fn)) of
        None \<Rightarrow> (Inl (Refused 0), fn)
      | Some b \<Rightarrow> (case act_then open_db (on_node (SetBestChain L E b (phashBlock p))) fn of
          (Inl (Refused n), fn) \<Rightarrow> (Inl (Refused 0), blame fn)
        | r \<Rightarrow> r))"

definition mark_invalid :: "u256 \<Rightarrow> full_node \<Rightarrow> full_node" where
  "mark_invalid hash fn = fn\<lparr>fn_sync := (fn_sync fn)\<lparr>hashInvalidCheckpoint := hash\<rparr>\<rparr>"

definition set_pending :: "u256 \<Rightarrow> CSyncCheckpoint \<Rightarrow> full_node \<Rightarrow> full_node" where
  "set_pending hash c fn =
     fn\<lparr>fn_sync := (fn_sync fn)\<lparr>hashPendingCheckpoint := hash, checkpointMessagePending := c\<rparr>\<rparr>"

text \<open>The message of the checkpoint taken from the pending one, relayed to every peer.\<close>

definition relay_pending :: "full_node \<Rightarrow> full_node" where
  "relay_pending fn =
     (let c = checkpointMessagePending (fn_sync fn);
          fn = set_pending 0 checkpoint_SetNull (fn\<lparr>fn_sync := (fn_sync fn)\<lparr>checkpointMessage := c\<rparr>\<rparr>)
      in if checkpoint_IsNull c then fn else fn\<lparr>vNodes := map (RelayTo c) (vNodes fn)\<rparr>)"

definition AcceptPendingSyncCheckpoint :: "extlib \<Rightarrow> node_env \<Rightarrow> (full_node, unit) action" where
  "AcceptPendingSyncCheckpoint L E fn =
     (let pending = hashPendingCheckpoint (fn_sync fn)
      in case (if pending = 0 then None else fn_map fn pending) of
           None \<Rightarrow> (Inl (Refused 0), fn)
         | Some pindexCheckpoint \<Rightarrow>
            (case ValidateSyncCheckpoint (fn_map fn) pending (fn_sync fn) of
               (False, ss) \<Rightarrow> (Inl (Refused 0), set_pending 0 checkpoint_SetNull (fn\<lparr>fn_sync := ss\<rparr>))
             | (True, ss) \<Rightarrow>
                 act_then (switch_main L E (mark_invalid pending) pindexCheckpoint)
                   (act_then (cp_WriteSyncCheckpoint pending) (act_modify relay_pending))
                   (fn\<lparr>fn_sync := ss\<rparr>)))"

text \<open>The last hardened checkpoint in the main chain becomes the synchronised one.\<close>

definition reset_to_hardened :: "(full_node, unit) action" where
  "reset_to_hardened fn =
     (case find (\<lambda>(height, hash, t). case fn_map fn hash of None \<Rightarrow> False
                   | Some p \<Rightarrow> IsInMainChain (pindexBest (fn_node fn)) p) (rev mapCheckpoints) of
        None \<Rightarrow> (Inl (Refused 0), fn)
      | Some (height, hash, t) \<Rightarrow> cp_WriteSyncCheckpoint hash fn)"

definition ResetSyncCheckpoint :: "extlib \<Rightarrow> node_env \<Rightarrow> (full_node, unit) action" where
  "ResetSyncCheckpoint L E fn =
     (let hash = fst (snd (last mapCheckpoints))
      in case fn_map fn hash of
           Some p \<Rightarrow> act_then (switch_main L E id p) reset_to_hardened fn
         | None \<Rightarrow> reset_to_hardened (set_pending hash checkpoint_SetNull fn))"

definition AskForPendingSyncCheckpoint :: "nat option \<Rightarrow> full_node \<Rightarrow> full_node" where
  "AskForPendingSyncCheckpoint pfrom fn =
     (let pending = hashPendingCheckpoint (fn_sync fn)
      in if pending \<noteq> 0 \<and> fn_map fn pending = None \<and> mapOrphanBlocks fn pending = None
         then to_peer pfrom (node_send (Ask_block pending)) fn else fn)"

text \<open>A checkpoint whose block is not here yet: it is kept as pending and the peer is asked for the block.\<close>

definition await_checkpoint :: "node_env \<Rightarrow> nat option \<Rightarrow> CSyncCheckpoint \<Rightarrow> (full_node, unit) action" where
  "await_checkpoint E pfrom c fn =
     (let fn = set_pending (hashCheckpoint c) c fn
      in if pfrom = None then (Inl (Refused 0), fn)
         else let fn = ask_blocks E pfrom (hashCheckpoint c) fn
              in case (case mapOrphanBlocks fn (hashCheckpoint c) of None \<Rightarrow> Some (hashCheckpoint c)
                       | Some b \<Rightarrow> WantedByOrphan (mapOrphanBlocks fn) b) of
                   None \<Rightarrow> (Inl Crashed, fn)
                 | Some w \<Rightarrow> (Inl (Refused 0), to_peer pfrom (node_send (Ask_block w)) fn))"

definition ProcessSyncCheckpoint :: "extlib \<Rightarrow> node_env \<Rightarrow> nat option \<Rightarrow> CSyncCheckpoint \<Rightarrow> (full_node, unit) action" where
  "ProcessSyncCheckpoint L E pfrom c fn =
     (case CheckSignature L c of
        None \<Rightarrow> (Inl Crashed, fn)
      | Some (False, c) \<Rightarrow> (Inl (Refused 0), fn)
      | Some (True, c) \<Rightarrow>
         (case fn_map fn (hashCheckpoint c) of
            None \<Rightarrow> await_checkpoint E pfrom c fn
          | Some pindexCheckpoint \<Rightarrow>
             (case ValidateSyncCheckpoint (fn_map fn) (hashCheckpoint c) (fn_sync fn) of
                (False, ss) \<Rightarrow> (Inl (Refused 0), fn\<lparr>fn_sync := ss\<rparr>)
              | (True, ss) \<Rightarrow>
                  act_then (switch_main L E (mark_invalid (hashCheckpoint c)) pindexCheckpoint)
                    (act_then (cp_WriteSyncCheckpoint (hashCheckpoint c))
                      (act_modify (\<lambda>fn. set_pending 0 checkpoint_SetNull
                         (fn\<lparr>fn_sync := (fn_sync fn)\<lparr>checkpointMessage := c\<rparr>\<rparr>))))
                    (fn\<lparr>fn_sync := ss\<rparr>))))"

section \<open>Accepting a block\<close>

definition END_POW_TIME :: u32 where "END_POW_TIME = HARDFORK_TIME + 60 * 60 * 24"
definition nMinDiskSpace :: u64 where "nMinDiskSpace = 52428800"

text \<open>\<open>space\<close>: the free bytes the file system reports, given the files of blocks.\<close>

definition CheckDiskSpace :: "(block_files \<Rightarrow> u64) \<Rightarrow> u64 \<Rightarrow> (full_node, unit) action" where
  "CheckDiskSpace space nAdditionalBytes fn =
     (if space (nd_files (fn_node fn)) < nMinDiskSpace + nAdditionalBytes
      then (Inl (Refused 0), fn\<lparr>fShutdown := True\<rparr>) else (Inr (), fn))"

text \<open>The checks of \<open>AcceptBlock\<close>, which look at the place of the block in the tree.\<close>

definition check_place ::
  "extlib \<Rightarrow> node_env \<Rightarrow> block_map \<Rightarrow> int \<Rightarrow> sync_state \<Rightarrow> CBlock \<Rightarrow> CBlockIndex \<Rightarrow> failure + unit" where
  "check_place L E M bestHeight ss b pindexPrev =
     (let hash = block_GetHash L b; testnet = fTestNet E; height = nHeight pindexPrev + 1;
          prevs = chain_at M (Some (hashPrevBlock b));
          drift = (if height < 405000 then nOldMaxClockDrift else nMaxClockDrift)
      in if block_IsProofOfWork b \<and> int (unat END_POW_TIME) \<le> index_GetBlockTime pindexPrev \<and> \<not> testnet
         then Inl (Refused 100)
         else case GetNextTargetRequired L testnet prevs (block_IsProofOfStake b) of
           None \<Rightarrow> Inl Crashed
         | Some required \<Rightarrow>
            if nBits b \<noteq> required then Inl (Refused 100)
            else if block_GetBlockTime b \<le> GetMedianTimePast prevs
                 \<or> block_GetBlockTime b + drift < index_GetBlockTime pindexPrev then Inl (Refused 0)
            else if \<not> list_all (\<lambda>tx. tx_IsFinal bestHeight (adjustedTime E) tx height (block_GetBlockTime b)) (vtx b)
            then Inl (Refused 10)
            else if \<not> CheckHardened testnet height hash then Inl (Refused 100)
            else case CheckSync testnet M hash prevs ss of
              None \<Rightarrow> Inl Crashed
            | Some ok \<Rightarrow>
               if \<not> ok \<and> \<not> fNoSyncCheckpoints E then Inl (Refused 0)
               else if nVersion b < 3 \<and> (\<not> testnet \<and> 14060 < height \<or> testnet \<and> 0 < height) then Inl (Refused 0)
               else let expect = push_int64 L height; script = scriptSig (vin (vtx b ! 0) ! 0)
                    in if length script < length expect \<or> take (length expect) script \<noteq> expect
                       then Inl (Refused 100) else Inr ())"

text \<open>Relay the inventory of a new best block; \<open>nStartingHeight\<close> is -1 where the peer sent none.\<close>

definition relay_block :: "node_env \<Rightarrow> u256 \<Rightarrow> full_node \<Rightarrow> full_node" where
  "relay_block E hash fn =
     (if hashBestChain (fn_node fn) = hash
      then fn\<lparr>vNodes := map (\<lambda>n.
             if (if nStartingHeight n \<noteq> - 1 then nStartingHeight n - 2000 else GetTotalBlocksEstimate (fTestNet E))
                  < nBestHeight (fn_node fn)
             then PushInventory \<lparr>inv_type = MSG_BLOCK, inv_hash = hash\<rparr> n else n) (vNodes fn)\<rparr>
      else fn)"

definition AcceptBlock :: "extlib \<Rightarrow> node_env \<Rightarrow> (block_files \<Rightarrow> u64) \<Rightarrow> CBlock \<Rightarrow> (full_node, unit) action" where
  "AcceptBlock L E space b fn =
     (let hash = block_GetHash L b
      in if fn_map fn hash \<noteq> None then (Inl (Refused 0), fn)
         else case fn_map fn (hashPrevBlock b) of None \<Rightarrow> (Inl (Refused 10), fn)
         | Some pindexPrev \<Rightarrow>
            act_then (act_lift (check_place L E (fn_map fn) (nBestHeight (fn_node fn)) (fn_sync fn) b pindexPrev))
           (act_then (CheckDiskSpace space (of_nat (block_size b)))
           (act_bind (on_node (act_on nd_files (\<lambda>fs nd. nd\<lparr>nd_files := fs\<rparr>) (WriteToDisk (fTestNet E) b)))
             (\<lambda>(nFile, nBlockPos).
            act_then (on_node (AddToBlockIndex L E nFile nBlockPos b))
           (act_then (act_modify (relay_block E hash))
           (act_then (act_try (AcceptPendingSyncCheckpoint L E)) (act_return ())))))) fn)"

section \<open>Processing a block\<close>

text \<open>A stake seen before is allowed only for a block an orphan or the pending checkpoint waits for.\<close>

definition stake_check :: "(COutPoint \<times> u32) set \<Rightarrow> u256 \<Rightarrow> CBlock \<Rightarrow> (full_node, unit) action" where
  "stake_check seen hash b fn =
     (if block_IsProofOfStake b \<and> block_GetProofOfStake b \<in> seen
         \<and> \<not> list_ex (\<lambda>(prev, orphan). prev = hash) (mapOrphanBlocksByPrev fn)
      then (case WantedByPendingSyncCheckpoint hash fn of
              None \<Rightarrow> (Inl Crashed, fn)
            | Some wanted \<Rightarrow> (if wanted then Inr () else Inl (Refused 0), fn))
      else (Inr (), fn))"

text \<open>The kernel of a proof of stake; \<open>None\<close> is a walk along the chain that does not end.\<close>

definition prove_stake :: "extlib \<Rightarrow> node_env \<Rightarrow> nat option \<Rightarrow> u256 \<Rightarrow> CBlock \<Rightarrow> (full_node, unit) action" where
  "prove_stake L E pfrom hash b fn =
     (if \<not> block_IsProofOfStake b then (Inr (), fn)
      else let nd = fn_node fn
      in case CheckProofOfStake L E (mapBlockIndex nd) (nd_db nd) (nd_files nd) (vtx b ! 1) (nBits b) (nd_cache nd) of
        (r, cache) \<Rightarrow>
          let fn = fn\<lparr>fn_node := nd\<lparr>nd_cache := cache\<rparr>\<rparr>
          in case r of
               Some (Inr hashProof) \<Rightarrow>
                 (Inr (), if mapProofOfStake nd hash = None
                    then fn\<lparr>fn_node := (fn_node fn)\<lparr>mapProofOfStake := (mapProofOfStake nd)(hash \<mapsto> hashProof)\<rparr>\<rparr>
                    else fn)
             | Some (Inl (Refused n)) \<Rightarrow> (Inl (Refused 0), ask_blocks E pfrom hash fn)
             | _ \<Rightarrow> (Inl Crashed, fn))"

text \<open>A proof-of-work block off the best chain needs the work expected since the checkpoint.\<close>

definition spam_check :: "extlib \<Rightarrow> node_env \<Rightarrow> nat option \<Rightarrow> u256 \<Rightarrow> CBlock \<Rightarrow> (full_node, unit) action" where
  "spam_check L E pfrom hash b fn =
     (case GetLastSyncCheckpoint (fn_map fn) (fn_sync fn) of
        None \<Rightarrow> (Inr (), fn)
      | Some pcheckpoint \<Rightarrow>
          if block_IsProofOfStake b \<or> hashPrevBlock b = hashBestChain (fn_node fn) then (Inr (), fn)
          else case WantedByPendingSyncCheckpoint hash fn of
            None \<Rightarrow> (Inl Crashed, fn)
          | Some True \<Rightarrow> (Inr (), fn)
          | Some False \<Rightarrow>
             (case GetLastBlockIndex (chain_at (fn_map fn) (Some (phashBlock pcheckpoint))) False of
                [] \<Rightarrow> (Inl Crashed, fn)
              | base # _ \<Rightarrow>
                  let deltaTime = block_GetBlockTime b - int (unat (bi_nTime pcheckpoint));
                      bnRequired = SetCompact L (ComputeMinWork L (fTestNet E) (bi_nBits base) deltaTime)
                  in if bn_gt L (SetCompact L (nBits b)) bnRequired
                     then (Inl (Refused 0), to_peer pfrom (node_send (Misbehave 100)) fn)
                     else (Inr (), fn)))"

definition add_orphan :: "extlib \<Rightarrow> node_env \<Rightarrow> nat option \<Rightarrow> u256 \<Rightarrow> CBlock \<Rightarrow> (full_node, unit) action" where
  "add_orphan L E pfrom hash b =
     act_then (\<lambda>fn. stake_check (setStakeSeenOrphan fn) hash b fn) (\<lambda>fn.
       let fn = fn\<lparr>setStakeSeenOrphan := (if block_IsProofOfStake b
                     then insert (block_GetProofOfStake b) (setStakeSeenOrphan fn) else setStakeSeenOrphan fn),
                   mapOrphanBlocks := (mapOrphanBlocks fn)(hash \<mapsto> b),
                   mapOrphanBlocksByPrev := mapOrphanBlocksByPrev fn @ [(hashPrevBlock b, b)]\<rparr>
       in if pfrom = None then (Inr (), fn)
          else case GetOrphanRoot L (mapOrphanBlocks fn) b of
            None \<Rightarrow> (Inl Crashed, fn)
          | Some hashRoot \<Rightarrow>
              let fn = ask_blocks E pfrom hashRoot fn
              in if fInitialDownload E then (Inr (), fn)
                 else case WantedByOrphan (mapOrphanBlocks fn) b of
                   None \<Rightarrow> (Inl Crashed, fn)
                 | Some w \<Rightarrow> (Inr (), to_peer pfrom (node_send (Ask_block w)) fn))"

definition drop_orphan :: "u256 \<Rightarrow> CBlock \<Rightarrow> full_node \<Rightarrow> full_node" where
  "drop_orphan hash b fn =
     fn\<lparr>mapOrphanBlocks := (mapOrphanBlocks fn)(hash := None),
        setStakeSeenOrphan := setStakeSeenOrphan fn - {block_GetProofOfStake b}\<rparr>"

text \<open>Accept the orphans that waited for a block; the result holds the hashes of those accepted.\<close>

fun accept_orphans ::
  "extlib \<Rightarrow> node_env \<Rightarrow> (block_files \<Rightarrow> u64) \<Rightarrow> CBlock list \<Rightarrow> (full_node, u256 list) action" where
  "accept_orphans L E space [] fn = (Inr [], fn)"
| "accept_orphans L E space (b # bs) fn =
     (case act_try (AcceptBlock L E space b) fn of
        (Inl e, fn) \<Rightarrow> (Inl e, fn)
      | (Inr ok, fn) \<Rightarrow>
          (case accept_orphans L E space bs (drop_orphan (block_GetHash L b) b fn) of
             (Inl e, fn) \<Rightarrow> (Inl e, fn)
           | (Inr hs, fn) \<Rightarrow> (Inr (if ok then block_GetHash L b # hs else hs), fn)))"

text \<open>The operations above do not touch the index of the orphans by predecessor.\<close>


definition orphans_of :: "full_node \<Rightarrow> (u256 \<rightharpoonup> CBlock) \<times> (u256 \<times> CBlock) list \<times> (COutPoint \<times> u32) set" where
  "orphans_of fn = (mapOrphanBlocks fn, mapOrphanBlocksByPrev fn, setStakeSeenOrphan fn)"

lemma keep_on_node [keep_rules]: "act_keeps orphans_of (on_node m)"
  by (auto simp: act_keeps_def on_node_def act_on_def orphans_of_def split: prod.splits)

lemma keep_open_db [keep_rules]: "act_keeps orphans_of open_db"
  by (simp add: open_db_def keep_on_node)

lemma keep_set_sync [keep_rules]: "act_keeps orphans_of (act_modify (\<lambda>fn. fn\<lparr>fn_sync := g fn\<rparr>))"
  by (rule keep_modify) (simp add: orphans_of_def)

lemma keep_write_sync [keep_rules]: "act_keeps orphans_of (cp_WriteSyncCheckpoint hash)"
  unfolding cp_WriteSyncCheckpoint_def by (intro keep_rules)

lemma keep_switch [keep_rules]:
  assumes "\<And>fn. orphans_of (blame fn) = orphans_of fn"
  shows "act_keeps orphans_of (switch_main L E blame p)"
  unfolding switch_main_def
  by (intro keep_rules keep_if keep_option keep_update [where g = blame] assms)

lemma keep_set_pending: "orphans_of (set_pending h c fn) = orphans_of fn" "orphans_of (mark_invalid h fn) = orphans_of fn"
  "orphans_of (relay_pending fn) = orphans_of fn" "orphans_of (relay_block E h fn) = orphans_of fn"
  "orphans_of (fn\<lparr>fn_sync := ss\<rparr>) = orphans_of fn"
  by (auto simp: orphans_of_def set_pending_def mark_invalid_def relay_pending_def relay_block_def Let_def)

lemma keep_pending [keep_rules]: "act_keeps orphans_of (AcceptPendingSyncCheckpoint L E)"
  unfolding act_keeps_def AcceptPendingSyncCheckpoint_def Let_def
  using keep_then [OF keep_switch [OF keep_set_pending(2)] keep_then [OF keep_write_sync keep_modify [where g = relay_pending and f = orphans_of, OF keep_set_pending(3)]]]
  by (auto simp: act_keeps_def keep_set_pending split: option.splits prod.splits bool.splits)

lemma keep_AcceptBlock [keep_rules]: "act_keeps orphans_of (AcceptBlock L E space b)"
proof -
  have d: "act_keeps orphans_of (CheckDiskSpace space n)" for n
    by (auto simp: act_keeps_def CheckDiskSpace_def orphans_of_def)
  have "act_keeps orphans_of (act_then (act_lift r) (act_then (CheckDiskSpace space (of_nat (block_size b)))
           (act_bind (on_node (act_on nd_files (\<lambda>fs nd. nd\<lparr>nd_files := fs\<rparr>) (WriteToDisk (fTestNet E) b)))
             (\<lambda>(nFile, nBlockPos).
            act_then (on_node (AddToBlockIndex L E nFile nBlockPos b))
           (act_then (act_modify (relay_block E (block_GetHash L b)))
           (act_then (act_try (AcceptPendingSyncCheckpoint L E)) (act_return ())))))))" for r :: "failure + unit"
    by (intro keep_rules d keep_modify [where g = "relay_block E (block_GetHash L b)"] keep_set_pending)
  then show ?thesis unfolding act_keeps_def AcceptBlock_def Let_def by (auto split: option.splits)
qed

lemma accept_orphans_orphans:
  "accept_orphans L E space bs fn = (r, fn') \<Longrightarrow> mapOrphanBlocksByPrev fn' = mapOrphanBlocksByPrev fn
     \<and> (\<forall>hs. r = Inr hs \<longrightarrow> length hs \<le> length bs)"
proof (induction bs arbitrary: fn r fn')
  case (Cons b bs)
  obtain q fn1 where 1: "act_try (AcceptBlock L E space b) fn = (q, fn1)" by fastforce
  have k: "mapOrphanBlocksByPrev fn1 = mapOrphanBlocksByPrev fn"
    using act_keepsD [OF keep_try [OF keep_AcceptBlock] 1] by (simp add: orphans_of_def)
  obtain p fn2 where 2: "accept_orphans L E space bs (drop_orphan (block_GetHash L b) b fn1) = (p, fn2)" by fastforce
  have d: "mapOrphanBlocksByPrev (drop_orphan h b fn1) = mapOrphanBlocksByPrev fn1" for h by (simp add: drop_orphan_def)
  show ?case
  proof (cases q)
    case (Inl e)
    then show ?thesis using Cons.prems 1 k by auto
  next
    case (Inr ok)
    then show ?thesis using Cons.prems Cons.IH [OF 2] k d 1 2 by (cases p) (auto split: if_splits)
  qed
qed simp

text \<open>The queue of accepted blocks; every round takes the orphans of one block out of the index.\<close>

function process_queue ::
  "extlib \<Rightarrow> node_env \<Rightarrow> (block_files \<Rightarrow> u64) \<Rightarrow> u256 list \<Rightarrow> full_node \<Rightarrow> (failure + unit) \<times> full_node" where
  "process_queue L E space [] fn = (Inr (), fn)"
| "process_queue L E space (hashParent # queue) fn =
     (case accept_orphans L E space
             (map snd (filter (\<lambda>(prev, orphan). prev = hashParent) (mapOrphanBlocksByPrev fn))) fn of
        (Inl e, fn') \<Rightarrow> (Inl e, fn')
      | (Inr accepted, fn') \<Rightarrow>
          process_queue L E space (queue @ accepted)
            (fn'\<lparr>mapOrphanBlocksByPrev := filter (\<lambda>(prev, orphan). prev \<noteq> hashParent) (mapOrphanBlocksByPrev fn')\<rparr>))"
  by pat_completeness auto
termination
proof (relation "measure (\<lambda>(L, E, space, queue, fn). length queue + length (mapOrphanBlocksByPrev fn))", goal_cases)
  case (2 L E space hashParent queue fn r fn' accepted)
  let ?P = "\<lambda>(prev, orphan :: CBlock). prev = hashParent"
  have a: "mapOrphanBlocksByPrev fn' = mapOrphanBlocksByPrev fn"
      "length accepted \<le> length (filter ?P (mapOrphanBlocksByPrev fn))"
    using accept_orphans_orphans [OF 2(1) [symmetric, unfolded 2(2) [symmetric]]] 2 by auto
  have "length (filter ?P xs) + length (filter (\<lambda>(prev, orphan). prev \<noteq> hashParent) xs) = length xs" for xs
    by (induction xs) auto
  from this [of "mapOrphanBlocksByPrev fn"] show ?case using a by simp
qed simp

definition ProcessBlock ::
  "extlib \<Rightarrow> node_env \<Rightarrow> (block_files \<Rightarrow> u64) \<Rightarrow> nat option \<Rightarrow> CBlock \<Rightarrow> (full_node, unit) action" where
  "ProcessBlock L E space pfrom b fn =
     (let hash = block_GetHash L b
      in if fn_map fn hash \<noteq> None \<or> mapOrphanBlocks fn hash \<noteq> None then (Inl (Refused 0), fn)
         else act_then (\<lambda>fn. stake_check (setStakeSeen (fn_node fn)) hash b fn)
             (act_then (\<lambda>fn. (CheckBlock L E (best_entry (fn_node fn)) True True True b, fn))
             (act_then (prove_stake L E pfrom hash b)
             (act_then (spam_check L E pfrom hash b)
             (act_then (act_modify (\<lambda>fn. if fInitialDownload E then fn else AskForPendingSyncCheckpoint pfrom fn))
               (\<lambda>fn. if fn_map fn (hashPrevBlock b) = None then add_orphan L E pfrom hash b fn
                      else act_then (AcceptBlock L E space b) (process_queue L E space [hash]) fn))))) fn)"

end
