(* ===== verification/Block_Flow.thy ===== *)
theory Block_Flow
  imports Accept
begin

text \<open>
  What an accepted block satisfied, where it stands in the tree afterwards, how the orphan
  blocks are kept, and what processing a block preserves.
\<close>

section \<open>The tree only grows\<close>

text \<open>The tree of a node without the links, amounts of its entries: what no switch of branch changes.\<close>

definition tree_of :: "node \<Rightarrow> u256 \<Rightarrow> CBlockIndex option" where
  "tree_of nd h = map_option bare (mapBlockIndex nd h)"

lemma tree_of_eq: "tree_of nd' = tree_of nd \<longleftrightarrow> same_tree (mapBlockIndex nd) (mapBlockIndex nd')"
  unfolding same_tree_def tree_of_def fun_eq_iff by metis

lemma keep_kept: "(\<And>nd r nd'. m nd = (r, nd') \<Longrightarrow> node_kept nd nd') \<Longrightarrow> act_keeps tree_of m"
  unfolding act_keeps_def by (metis node_kept_def prod.collapse same_links_def tree_of_eq)

lemma keep_on_db [keep_rules]: "act_keeps tree_of (on_db m)"
  unfolding on_db_def by (rule keep_on) (simp add: tree_of_def fun_eq_iff)

lemma keep_connect [keep_rules]: "act_keeps tree_of (node_ConnectBlock L E b h)"
  by (rule keep_kept) (rule node_ConnectBlock_kept)

lemma keep_branches [keep_rules]: "act_keeps tree_of (disconnect_branch L E hs txs)" "act_keeps tree_of (connect_branch L E hs txs)"
  by (rule keep_kept, rule disconnect_branch_kept connect_branch_kept, assumption)+

lemma keep_link: "tree_of (nd\<lparr>mapBlockIndex := link_prev_to v h (mapBlockIndex nd)\<rparr>) = tree_of nd"
  "tree_of (nd\<lparr>mapBlockIndex := relink ds cs (mapBlockIndex nd)\<rparr>) = tree_of nd"
  unfolding tree_of_eq by (simp_all add: link_prev_to_tree relink_tree)

lemma keep_pool: "(\<And>nd r nd'. m nd = (r, nd') \<Longrightarrow> pool_only nd nd') \<Longrightarrow> act_keeps tree_of m"
  unfolding act_keeps_def pool_only_def by (metis (no_types, lifting) node.select_convs(1) node.surjective node.update_convs prod.collapse tree_of_eq same_tree_refl)

lemma keep_resurrect [keep_rules]: "act_keeps tree_of (resurrect L E tx)" "act_keeps tree_of (node_remove L tx)"
  by (rule keep_pool, rule resurrect_pool node_remove_pool, assumption)+

lemma keep_Reorganize [keep_rules]: "act_keeps tree_of (Reorganize L E h)"
  unfolding act_keeps_def Reorganize_def Let_def
  by (simp split: option.split) (intro allI impI keep_at keep_rules keep_modify keep_link)

lemma tree_fields:
  "tree_of (nd\<lparr>nd_db := db\<rparr>) = tree_of nd" "tree_of (nd\<lparr>bnBestInvalidTrust := t, nd_db := db\<rparr>) = tree_of nd"
  "tree_of (nd\<lparr>nd_files := fs\<rparr>) = tree_of nd" "tree_of (nd\<lparr>nd_cache := c\<rparr>) = tree_of nd"
  "tree_of (nd\<lparr>pindexGenesisBlock := g\<rparr>) = tree_of nd"
  by (simp_all add: tree_of_def fun_eq_iff)

lemma keep_invalid [keep_rules]: "act_keeps tree_of (InvalidChainFound L h)"
proof -
  have i: "tree_of (if c then nd\<lparr>bnBestInvalidTrust := t, nd_db := db\<rparr> else nd) = tree_of nd" for c nd t db
    using tree_fields(2) by (cases c) (simp_all only: if_True if_False)
  show ?thesis unfolding act_keeps_def InvalidChainFound_def Let_def
    by (intro allI, split option.split, intro conjI impI allI) (simp_all only: snd_conv if_split i, simp add: i)
qed

lemma keep_refused [keep_rules]: "act_keeps tree_of (chain_refused L h n)"
  unfolding chain_refused_def by (intro keep_rules)

lemma keep_SetBestChainInner [keep_rules]: "act_keeps tree_of (SetBestChainInner L E b h)"
  unfolding SetBestChainInner_def by (intro keep_rules keep_if keep_update keep_link)

lemma keep_postponed [keep_rules]: "act_keeps tree_of (connect_postponed L E hs)"
proof (induction hs)
  case (Cons h hs)
  have "act_keeps tree_of (\<lambda>nd. connect_postponed L E (h # hs) nd)"
    unfolding connect_postponed.simps by (intro keep_rules keep_option Cons.IH)
  then show ?case by simp
qed (simp add: act_keeps_def)

lemma keep_switch_branch [keep_rules]: "act_keeps tree_of (switch_branch L E h)"
  unfolding act_keeps_def
proof
  fix nd
  show "tree_of (snd (switch_branch L E h nd)) = tree_of nd"
  proof (cases "best_entry nd")
    case (Some best)
    obtain ps m where p: "postpone L (bnChainTrust best) (chain_at (mapBlockIndex nd) (Some h)) = (ps, m)" by fastforce
    show ?thesis unfolding switch_branch_def Some option.case p prod.case by (rule keep_at) (intro keep_rules)
  qed (simp add: switch_branch_def)
qed

lemma keep_set_best [keep_rules]: "act_keeps tree_of (set_best hash h)"
  unfolding act_keeps_def set_best_def by (simp add: tree_of_def fun_eq_iff split: option.split)

lemma keep_SetBestChain [keep_rules]: "act_keeps tree_of (SetBestChain L E b h)"
  unfolding SetBestChain_def Let_def by (intro keep_rules keep_if keep_modify tree_fields)

text \<open>A tree: every entry is under its own key, one above its parent.\<close>

definition tree_ok :: "block_map \<Rightarrow> bool" where
  "tree_ok M \<longleftrightarrow> (\<forall>h i. M h = Some i \<longrightarrow> phashBlock i = h
     \<and> (case pprev i of None \<Rightarrow> nHeight i = 0
        | Some q \<Rightarrow> (\<exists>j. M q = Some j \<and> nHeight i = nHeight j + 1 \<and> 0 \<le> nHeight j)))"

text \<open>The tree may get new entries; those it has stay where they are.\<close>

definition grows :: "block_map \<Rightarrow> block_map \<Rightarrow> bool" where
  "grows M M' \<longleftrightarrow> (tree_ok M \<longrightarrow> tree_ok M') \<and> (\<forall>h i. M h = Some i \<longrightarrow> (\<exists>j. M' h = Some j \<and> bare j = bare i))"

lemma grows_trans: "grows M N \<Longrightarrow> grows N K \<Longrightarrow> grows M K"
  unfolding grows_def by metis

lemma grows_same:
  assumes "same_tree M M'"
  shows "grows M M'"
  unfolding grows_def
proof (intro conjI impI allI)
  show "\<exists>j. M' h = Some j \<and> bare j = bare i" if "M h = Some i" for h i
    using same_treeD [OF assms that] by metis
  assume t: "tree_ok M"
  show "tree_ok M'" unfolding tree_ok_def
  proof (intro allI impI)
    fix h i assume i: "M' h = Some i"
    obtain j where j: "M h = Some j" "bare j = bare i" by (rule same_treeD [OF same_tree_sym [OF assms] i])
    note b = bare_eq [OF j(2)]
    have p: "phashBlock j = h" "case pprev j of None \<Rightarrow> nHeight j = 0
        | Some q \<Rightarrow> (\<exists>j'. M q = Some j' \<and> nHeight j = nHeight j' + 1 \<and> 0 \<le> nHeight j')"
      using t j(1) by (auto simp: tree_ok_def)
    show "phashBlock i = h \<and> (case pprev i of None \<Rightarrow> nHeight i = 0
        | Some q \<Rightarrow> (\<exists>j. M' q = Some j \<and> nHeight i = nHeight j + 1 \<and> 0 \<le> nHeight j))"
    proof (cases "pprev i")
      case None
      then show ?thesis using p b by simp
    next
      case (Some q)
      then obtain k where k: "M q = Some k" "nHeight j = nHeight k + 1" "0 \<le> nHeight k" using p(2) b by auto
      obtain l where "M' q = Some l" "bare l = bare k" by (rule same_treeD [OF assms k(1)])
      then show ?thesis using Some p(1) b k bare_eq [of l k] by auto
    qed
  qed
qed

lemma grows_keep: "act_keeps tree_of m \<Longrightarrow> m nd = (r, nd') \<Longrightarrow> grows (mapBlockIndex nd) (mapBlockIndex nd')"
  by (rule grows_same, rule tree_of_eq [THEN iffD1], rule act_keepsD)

lemma tree_okD:
  assumes "tree_ok M" and "M h = Some i"
  shows "phashBlock i = h" and "case pprev i of None \<Rightarrow> nHeight i = 0
     | Some q \<Rightarrow> (\<exists>j. M q = Some j \<and> nHeight i = nHeight j + 1 \<and> 0 \<le> nHeight j)"
  using assms(1)[unfolded tree_ok_def, rule_format, OF assms(2)] by blast+

lemma tree_ok_height: "tree_ok M \<Longrightarrow> M h = Some i \<Longrightarrow> 0 \<le> nHeight i"
  using tree_okD(2) [of M h i] by (auto split: option.splits)

lemma grows_insert:
  assumes "M h = None" and "phashBlock p = h"
    and "case pprev p of None \<Rightarrow> nHeight p = 0 | Some q \<Rightarrow> (\<exists>j. M q = Some j \<and> nHeight p = nHeight j + 1)"
  shows "grows M (M(h \<mapsto> p))"
  unfolding grows_def
proof (intro conjI impI allI)
  show "\<exists>j. (M(h \<mapsto> p)) k = Some j \<and> bare j = bare i" if "M k = Some i" for k i
    using that assms(1) by (cases "k = h") auto
  assume t: "tree_ok M"
  show "tree_ok (M(h \<mapsto> p))" unfolding tree_ok_def
  proof (intro allI impI)
    fix k i assume i: "(M(h \<mapsto> p)) k = Some i"
    have q: "\<exists>j. (M(h \<mapsto> p)) q = Some j \<and> n = nHeight j + 1 \<and> 0 \<le> nHeight j"
      if "\<exists>j. M q = Some j \<and> n = nHeight j + 1" for q n
      using that assms(1) tree_ok_height [OF t] by (cases "q = h") auto
    show "phashBlock i = k \<and> (case pprev i of None \<Rightarrow> nHeight i = 0
        | Some q \<Rightarrow> (\<exists>j. (M(h \<mapsto> p)) q = Some j \<and> nHeight i = nHeight j + 1 \<and> 0 \<le> nHeight j))"
    proof (cases "k = h")
      case True
      then have p: "i = p" "phashBlock p = k" using i assms(2) by simp_all
      show ?thesis
      proof (cases "pprev p")
        case None
        then show ?thesis using p assms(3) by simp
      next
        case (Some x)
        then have "\<exists>j. M x = Some j \<and> nHeight p = nHeight j + 1" using assms(3) by simp
        from q [OF this] show ?thesis unfolding p(1) Some using p(2) by simp
      qed
    next
      case False
      then have "M k = Some i" using i by simp
      then have "phashBlock i = k" "case pprev i of None \<Rightarrow> nHeight i = 0
        | Some q \<Rightarrow> (\<exists>j. M q = Some j \<and> nHeight i = nHeight j + 1 \<and> 0 \<le> nHeight j)" using tree_okD [OF t] by blast+
      note i' = this
      show ?thesis
      proof (cases "pprev i")
        case None
        then show ?thesis using i' by simp
      next
        case (Some x)
        then have "\<exists>j. M x = Some j \<and> nHeight i = nHeight j + 1" using i'(2) by auto
        from q [OF this] show ?thesis unfolding Some using i'(1) by simp
      qed
    qed
  qed
qed

section \<open>A new entry\<close>

text \<open>The fields of an entry that are set before the rules of the stake are looked at.\<close>

definition core :: "CBlockIndex \<Rightarrow> u256 \<times> u32 \<times> u32 \<times> u32 \<times> u32 \<times> u256 option \<times> int" where
  "core p = (phashBlock p, bi_nBits p, bi_nTime p, bi_nFile p, bi_nBlockPos p, pprev p, nHeight p)"

lemma core_updates:
  "core (p\<lparr>bnChainTrust := t\<rparr>) = core p" "core (p\<lparr>hashProofOfStake := h\<rparr>) = core p" "core (p\<lparr>nStakeModifierChecksum := c\<rparr>) = core p"
  "core (SetStakeModifier m g p) = core p" "SetStakeEntropyBit n p = (ok, p') \<Longrightarrow> core p' = core p"
  by (auto simp: core_def SetStakeModifier_def SetStakeEntropyBit_def Let_def split: if_splits)

lemma new_entry_fields:
  assumes "new_entry L E nFile nBlockPos b nd = Inr p"
  shows "phashBlock p = block_GetHash L b" and "bi_nBits p = nBits b" and "bi_nTime p = nTime b"
    and "bi_nFile p = nFile" and "bi_nBlockPos p = nBlockPos"
    and "mapBlockIndex nd (hashPrevBlock b) = Some q \<Longrightarrow> pprev p = Some (hashPrevBlock b) \<and> nHeight p = nHeight q + 1"
    and "mapBlockIndex nd (hashPrevBlock b) = None \<Longrightarrow> pprev p = None \<and> nHeight p = 0"
proof -
  define p0 where "p0 = (let p = (index_of_block nFile nBlockPos b)\<lparr>phashBlock := block_GetHash L b\<rparr>
      in case mapBlockIndex nd (hashPrevBlock b) of None \<Rightarrow> p
         | Some q \<Rightarrow> p\<lparr>pprev := Some (hashPrevBlock b), nHeight := nHeight q + 1\<rparr>)"
  have p0: "phashBlock p0 = block_GetHash L b" "bi_nBits p0 = nBits b" "bi_nTime p0 = nTime b" "bi_nFile p0 = nFile"
      "bi_nBlockPos p0 = nBlockPos"
      "mapBlockIndex nd (hashPrevBlock b) = Some q \<Longrightarrow> pprev p0 = Some (hashPrevBlock b) \<and> nHeight p0 = nHeight q + 1"
      "mapBlockIndex nd (hashPrevBlock b) = None \<Longrightarrow> pprev p0 = None \<and> nHeight p0 = 0"
    by (auto simp: p0_def Let_def index_of_block_def index_empty_def SetProofOfStake_def split: option.split)
  define prevs where "prevs = chain_at (mapBlockIndex nd) (pprev p0)"
  obtain trust where "GetBlockTrust L p0 = Some trust"
    using assms by (auto simp: new_entry_def Let_def p0_def split: option.splits)
  define p1 where "p1 = p0\<lparr>bnChainTrust := BN_add L (case prevs of [] \<Rightarrow> bn_of_int L 0 | q # _ \<Rightarrow> bnChainTrust q) trust\<rparr>"
  obtain ok p2 where e: "SetStakeEntropyBit (block_GetStakeEntropyBit L (fTestNet E) b (of_int (nHeight p1))) p1 = (ok, p2)" by fastforce
  define p3 where "p3 = (case mapProofOfStake nd (block_GetHash L b) of
                                  Some h \<Rightarrow> if index_IsProofOfStake p2 then p2\<lparr>hashProofOfStake := h\<rparr> else p2
                                | None \<Rightarrow> p2)"
  have n: "new_entry L E nFile nBlockPos b nd = (if ok then
       if index_IsProofOfStake p2 \<and> mapProofOfStake nd (block_GetHash L b) = None then Inl (Refused 0)
       else case ComputeNextStakeModifier L (mapBlockIndex nd) prevs (bi_nTime p3) of
              None \<Rightarrow> Inl (Refused 0)
            | Some (modifier, fGenerated) \<Rightarrow>
                (case GetStakeModifierChecksum L (fTestNet E) (SetStakeModifier modifier fGenerated p3 # prevs) of
                   None \<Rightarrow> Inl Crashed
                 | Some checksum \<Rightarrow>
                     if CheckStakeModifierCheckpoints (fTestNet E) (nHeight (SetStakeModifier modifier fGenerated p3)) checksum
                     then Inr ((SetStakeModifier modifier fGenerated p3)\<lparr>nStakeModifierChecksum := checksum\<rparr>) else Inl (Refused 0))
     else Inl (Refused 0))"
    using \<open>GetBlockTrust L p0 = Some trust\<close> e unfolding new_entry_def Let_def p0_def prevs_def p1_def p3_def
    by simp
  have "core p = core p3" using assms unfolding n by (auto simp: core_updates split: if_splits option.splits)
  also have "\<dots> = core p2" by (auto simp: p3_def core_updates split: option.splits)
  also have "\<dots> = core p0" using core_updates(5) [OF e] by (simp add: p1_def core_updates)
  finally have "core p = core p0" .
  then show "phashBlock p = block_GetHash L b" "bi_nBits p = nBits b" "bi_nTime p = nTime b"
    "bi_nFile p = nFile" "bi_nBlockPos p = nBlockPos"
    "mapBlockIndex nd (hashPrevBlock b) = Some q \<Longrightarrow> pprev p = Some (hashPrevBlock b) \<and> nHeight p = nHeight q + 1"
    "mapBlockIndex nd (hashPrevBlock b) = None \<Longrightarrow> pprev p = None \<and> nHeight p = 0"
    using p0 by (auto simp: core_def)
qed

lemma AddToBlockIndex_steps:
  assumes "AddToBlockIndex L E nFile nBlockPos b nd = (r, nd')"
  shows "nd' = nd \<and> r \<noteq> Inr () \<or> (\<exists>p. mapBlockIndex nd (block_GetHash L b) = None \<and> new_entry L E nFile nBlockPos b nd = Inr p
    \<and> same_tree ((mapBlockIndex nd)(block_GetHash L b \<mapsto> p)) (mapBlockIndex nd'))"
proof (cases "mapBlockIndex nd (block_GetHash L b) \<noteq> None \<or> (\<exists>e. new_entry L E nFile nBlockPos b nd = Inl e)")
  case True
  then show ?thesis using assms
    by (cases "mapBlockIndex nd (block_GetHash L b)") (auto simp: AddToBlockIndex_def Let_def)
next
  case False
  then obtain p where p: "mapBlockIndex nd (block_GetHash L b) = None" "new_entry L E nFile nBlockPos b nd = Inr p"
    by (cases "new_entry L E nFile nBlockPos b nd") auto
  define nd1 where "nd1 = nd\<lparr>mapBlockIndex := (mapBlockIndex nd)(block_GetHash L b \<mapsto> p),
                         setStakeSeen := (if index_IsProofOfStake p
                            then insert (prevoutStake p, nStakeTime p) (setStakeSeen nd) else setStakeSeen nd),
                         nd_db := CTxDB_open ''r+'' (nd_db nd)\<rparr>"
  define m where "m = act_then (on_db (act_then TxnBegin (act_then (act_try (write_index L E (diskindex_of p))) TxnCommit)))
                  (\<lambda>nd. if bn_gt L (bnChainTrust p) (bnBestChainTrust nd) then SetBestChain L E b (block_GetHash L b) nd
                        else (Inr (), nd))"
  have "m nd1 = (r, nd')" using assms p by (simp add: AddToBlockIndex_def Let_def nd1_def m_def)
  moreover have "act_keeps tree_of m" unfolding m_def by (intro keep_rules keep_if)
  ultimately have "tree_of nd' = tree_of nd1" by (rule act_keepsD [rotated])
  then have "same_tree (mapBlockIndex nd1) (mapBlockIndex nd')" by (simp only: tree_of_eq)
  then show ?thesis using p by (simp add: nd1_def)
qed

lemma AddToBlockIndex_grows:
  assumes "AddToBlockIndex L E nFile nBlockPos b nd = (r, nd')"
  shows "grows (mapBlockIndex nd) (mapBlockIndex nd')"
  using AddToBlockIndex_steps [OF assms]
proof (elim disjE conjE exE)
  assume "nd' = nd"
  then show ?thesis by (simp add: grows_same)
next
  fix p
  assume p: "mapBlockIndex nd (block_GetHash L b) = None" "new_entry L E nFile nBlockPos b nd = Inr p"
    "same_tree ((mapBlockIndex nd)(block_GetHash L b \<mapsto> p)) (mapBlockIndex nd')"
  have "grows (mapBlockIndex nd) ((mapBlockIndex nd)(block_GetHash L b \<mapsto> p))"
    by (rule grows_insert [where M = "mapBlockIndex nd" and h = "block_GetHash L b", OF p(1) new_entry_fields(1) [OF p(2)]])
      (cases "mapBlockIndex nd (hashPrevBlock b)", use new_entry_fields(6,7) [OF p(2)] in auto)
  then show ?thesis using grows_same [OF p(3)] grows_trans by blast
qed

section \<open>The whole node\<close>

definition ftree :: "full_node \<Rightarrow> u256 \<Rightarrow> CBlockIndex option" where
  "ftree fn = tree_of (fn_node fn)"

lemma ftree_eq: "ftree fn' = ftree fn \<longleftrightarrow> same_tree (fn_map fn) (fn_map fn')"
  by (simp add: ftree_def tree_of_eq fn_map_def)

lemma keep_ftree [keep_rules]: "act_keeps tree_of m \<Longrightarrow> act_keeps ftree (on_node m)"
  by (auto simp: act_keeps_def on_node_def act_on_def ftree_def split: prod.splits) (metis snd_conv)

lemma ftree_updates:
  "ftree (fn\<lparr>fn_sync := ss\<rparr>) = ftree fn" "ftree (mark_invalid h fn) = ftree fn" "ftree (set_pending h c fn) = ftree fn"
  "ftree (relay_pending fn) = ftree fn" "ftree (relay_block E h fn) = ftree fn" "ftree (to_peer pfrom f fn) = ftree fn"
  "ftree (ask_blocks E pfrom h fn) = ftree fn" "ftree (drop_orphan h b fn) = ftree fn"
  "ftree (AskForPendingSyncCheckpoint pfrom fn) = ftree fn" "ftree (fn\<lparr>fShutdown := s\<rparr>) = ftree fn"
  "ftree (fn\<lparr>mapOrphanBlocksByPrev := m\<rparr>) = ftree fn"
  by (auto simp: ftree_def set_pending_def mark_invalid_def relay_pending_def relay_block_def to_peer_def ask_blocks_def
      drop_orphan_def AskForPendingSyncCheckpoint_def Let_def split: option.split)

lemma keep_ftree_sync [keep_rules]: "act_keeps ftree (cp_WriteSyncCheckpoint hash)" and keep_open [keep_rules]: "act_keeps ftree open_db"
proof -
  show o: "act_keeps ftree open_db" unfolding open_db_def by (intro keep_rules keep_modify tree_fields)
  have "act_keeps ftree (act_modify (\<lambda>fn. fn\<lparr>fn_sync := g fn\<rparr>))" for g by (rule keep_modify) (rule ftree_updates)
  then show "act_keeps ftree (cp_WriteSyncCheckpoint hash)"
    unfolding cp_WriteSyncCheckpoint_def by (intro keep_rules o)
qed

lemma keep_ftree_switch [keep_rules]:
  "(\<And>fn. ftree (blame fn) = ftree fn) \<Longrightarrow> act_keeps ftree (switch_main L E blame p)"
  unfolding switch_main_def by (intro keep_rules keep_if keep_option keep_update [where g = blame])

lemma keep_ftree_pending [keep_rules]: "act_keeps ftree (AcceptPendingSyncCheckpoint L E)"
  unfolding act_keeps_def AcceptPendingSyncCheckpoint_def Let_def
  using keep_then [OF keep_ftree_switch [OF ftree_updates(2)] keep_then [OF keep_ftree_sync keep_modify [where g = relay_pending and f = ftree, OF ftree_updates(4)]]]
  by (auto simp: act_keeps_def ftree_updates split: option.splits prod.splits bool.splits)

lemma keep_ftree_disk [keep_rules]: "act_keeps ftree (CheckDiskSpace space n)"
  by (auto simp: act_keeps_def CheckDiskSpace_def ftree_updates)

lemma keep_ftree_write [keep_rules]: "act_keeps ftree (on_node (act_on nd_files (\<lambda>fs nd. nd\<lparr>nd_files := fs\<rparr>) m))"
  by (rule keep_ftree, rule keep_on, rule tree_fields)

section \<open>An accepted block\<close>
lemma check_place_Inr:
  assumes "check_place L E M bestHeight ss b prev = Inr ()"
  defines "prevs \<equiv> chain_at M (Some (hashPrevBlock b))" and "height \<equiv> nHeight prev + 1"
  shows "GetNextTargetRequired L (fTestNet E) prevs (block_IsProofOfStake b) = Some (nBits b)"
    and "GetMedianTimePast prevs < block_GetBlockTime b"
    and "index_GetBlockTime prev \<le> block_GetBlockTime b + (if height < 405000 then nOldMaxClockDrift else nMaxClockDrift)"
    and "\<forall>tx \<in> set (vtx b). tx_IsFinal bestHeight (adjustedTime E) tx height (block_GetBlockTime b)"
    and "CheckHardened (fTestNet E) height (block_GetHash L b)"
    and "CheckSync (fTestNet E) M (block_GetHash L b) prevs ss = Some True \<or> fNoSyncCheckpoints E"
    and "\<exists>rest. scriptSig (vin (vtx b ! 0) ! 0) = push_int64 L height @ rest"
    and "block_IsProofOfWork b \<longrightarrow> fTestNet E \<or> index_GetBlockTime prev < int (unat END_POW_TIME)"
proof -
  obtain required ok where g: "GetNextTargetRequired L (fTestNet E) prevs (block_IsProofOfStake b) = Some required"
      "CheckSync (fTestNet E) M (block_GetHash L b) prevs ss = Some ok"
    using assms(1) by (auto simp: check_place_def Let_def prevs_def split: option.splits if_splits)
  have r: "nBits b = required" "GetMedianTimePast prevs < block_GetBlockTime b"
    "index_GetBlockTime prev \<le> block_GetBlockTime b + (if height < 405000 then nOldMaxClockDrift else nMaxClockDrift)"
    "list_all (\<lambda>tx. tx_IsFinal bestHeight (adjustedTime E) tx height (block_GetBlockTime b)) (vtx b)"
    "CheckHardened (fTestNet E) height (block_GetHash L b)" "ok \<or> fNoSyncCheckpoints E"
    "take (length (push_int64 L height)) (scriptSig (vin (vtx b ! 0) ! 0)) = push_int64 L height"
    "\<not> (block_IsProofOfWork b \<and> int (unat END_POW_TIME) \<le> index_GetBlockTime prev \<and> \<not> fTestNet E)"
    using assms(1) g unfolding check_place_def Let_def prevs_def [symmetric] height_def [symmetric]
    by (simp_all add: not_le not_less split: if_splits)
  show "\<exists>rest. scriptSig (vin (vtx b ! 0) ! 0) = push_int64 L height @ rest"
    using r(7) by (metis append_take_drop_id)
  show "GetNextTargetRequired L (fTestNet E) prevs (block_IsProofOfStake b) = Some (nBits b)"
    "GetMedianTimePast prevs < block_GetBlockTime b"
    "index_GetBlockTime prev \<le> block_GetBlockTime b + (if height < 405000 then nOldMaxClockDrift else nMaxClockDrift)"
    "\<forall>tx \<in> set (vtx b). tx_IsFinal bestHeight (adjustedTime E) tx height (block_GetBlockTime b)"
    "CheckHardened (fTestNet E) height (block_GetHash L b)"
    "CheckSync (fTestNet E) M (block_GetHash L b) prevs ss = Some True \<or> fNoSyncCheckpoints E"
    using g r by (auto simp: list_all_iff)
  show "block_IsProofOfWork b \<longrightarrow> fTestNet E \<or> index_GetBlockTime prev < int (unat END_POW_TIME)" using r(8) by auto
qed

lemma AcceptBlock_steps:
  assumes "AcceptBlock L E space b fn = (r, fn')"
  shows "same_tree (fn_map fn) (fn_map fn') \<and> r \<noteq> Inr ()
    \<or> (\<exists>prev nFile nBlockPos fn1 r1 fn2. fn_map fn (block_GetHash L b) = None \<and> fn_map fn (hashPrevBlock b) = Some prev
        \<and> check_place L E (fn_map fn) (nBestHeight (fn_node fn)) (fn_sync fn) b prev = Inr ()
        \<and> same_tree (fn_map fn) (fn_map fn1) \<and> on_node (AddToBlockIndex L E nFile nBlockPos b) fn1 = (r1, fn2)
        \<and> same_tree (fn_map fn2) (fn_map fn') \<and> (r = Inr () \<longrightarrow> r1 = Inr ()))"
proof (cases "fn_map fn (block_GetHash L b) \<noteq> None \<or> fn_map fn (hashPrevBlock b) = None")
  case True
  then show ?thesis using assms by (auto simp: AcceptBlock_def Let_def split: option.splits if_splits)
next
  case False
  then obtain prev where prev: "fn_map fn (block_GetHash L b) = None" "fn_map fn (hashPrevBlock b) = Some prev" by auto
  define post where "post = act_then (act_modify (relay_block E (block_GetHash L b)))
           (act_then (act_try (AcceptPendingSyncCheckpoint L E)) (act_return ()))"
  have post: "act_keeps ftree post" unfolding post_def
    by (intro keep_rules keep_modify [where g = "relay_block E (block_GetHash L b)"] ftree_updates)
  define check where "check = check_place L E (fn_map fn) (nBestHeight (fn_node fn)) (fn_sync fn) b prev"
  define disk where "disk = on_node (act_on nd_files (\<lambda>fs nd. nd\<lparr>nd_files := fs\<rparr>) (WriteToDisk (fTestNet E) b))"
  have run: "act_then (act_lift check) (act_then (CheckDiskSpace space (of_nat (block_size b))) (act_bind disk (\<lambda>(nFile, nBlockPos).
      act_then (on_node (AddToBlockIndex L E nFile nBlockPos b)) post))) fn = (r, fn')"
    using assms prev by (simp add: AcceptBlock_def Let_def post_def check_def disk_def)
  show ?thesis
  proof (cases check)
    case (Inl e)
    then have "act_lift check fn = (Inl e, fn)" by (simp add: act_simps)
    then have "r = Inl e" "fn' = fn" using run by (simp_all add: act_bind_simps(4))
    then show ?thesis by simp
  next
    case c: (Inr u)
    obtain r0 fn0 where 0: "CheckDiskSpace space (of_nat (block_size b)) fn = (r0, fn0)" by fastforce
    have t0: "same_tree (fn_map fn) (fn_map fn0)" using act_keepsD [OF keep_ftree_disk 0] by (simp only: ftree_eq)
    show ?thesis
    proof (cases r0)
      case (Inl e)
      then show ?thesis using run c 0 t0 by (auto simp: act_simps)
    next
      case r0: (Inr v)
      obtain rd fn1 where 1: "disk fn0 = (rd, fn1)" by fastforce
      have "same_tree (fn_map fn0) (fn_map fn1)" using act_keepsD [OF keep_ftree_write 1 [unfolded disk_def]] by (simp only: ftree_eq)
      then have t1: "same_tree (fn_map fn) (fn_map fn1)" by (rule same_tree_trans [OF t0])
      show ?thesis
      proof (cases rd)
        case (Inl e)
        then show ?thesis using run c 0 r0 1 t1 by (auto simp: act_simps)
      next
        case (Inr pos)
        obtain nFile nBlockPos where pos: "pos = (nFile, nBlockPos)" by fastforce
        obtain r1 fn2 where 2: "on_node (AddToBlockIndex L E nFile nBlockPos b) fn1 = (r1, fn2)" by fastforce
        have e: "act_then (on_node (AddToBlockIndex L E nFile nBlockPos b)) post fn1 = (r, fn')"
          using run c 0 r0 1 Inr pos by (simp add: act_simps)
        have "same_tree (fn_map fn2) (fn_map fn') \<and> (r = Inr () \<longrightarrow> r1 = Inr ())"
        proof (cases r1)
          case (Inl x)
          then show ?thesis using e 2 by (simp add: act_simps)
        next
          case (Inr x)
          then have "post fn2 = (r, fn')" using e 2 by (simp add: act_simps)
          from act_keepsD [OF post this] show ?thesis using Inr by (simp add: ftree_eq)
        qed
        moreover have "check = Inr ()" using c by simp
        ultimately show ?thesis using prev t1 2 unfolding check_def by blast
      qed
    qed
  qed
qed

lemma on_node_map: "on_node m fn = (r, fn') \<Longrightarrow> m (fn_node fn) = (r, fn_node fn')"
  by (auto simp: on_node_def act_on_def split: prod.splits)

lemma AcceptBlock_grows:
  assumes "AcceptBlock L E space b fn = (r, fn')"
  shows "grows (fn_map fn) (fn_map fn')"
  using AcceptBlock_steps [OF assms]
proof (elim disjE conjE exE)
  assume "same_tree (fn_map fn) (fn_map fn')"
  then show ?thesis by (rule grows_same)
next
  fix prev nFile nBlockPos fn1 r1 fn2
  assume a: "same_tree (fn_map fn) (fn_map fn1)" "on_node (AddToBlockIndex L E nFile nBlockPos b) fn1 = (r1, fn2)"
    "same_tree (fn_map fn2) (fn_map fn')"
  have "grows (fn_map fn1) (fn_map fn2)"
    using AddToBlockIndex_grows [OF on_node_map [OF a(2)]] by (simp add: fn_map_def)
  then show ?thesis using grows_same [OF a(1)] grows_same [OF a(3)] grows_trans by blast
qed

lemma AcceptBlock_entry:
  assumes "AcceptBlock L E space b fn = (Inr (), fn')"
  obtains prev p where "fn_map fn (block_GetHash L b) = None" and "fn_map fn (hashPrevBlock b) = Some prev"
    and "check_place L E (fn_map fn) (nBestHeight (fn_node fn)) (fn_sync fn) b prev = Inr ()"
    and "fn_map fn' (block_GetHash L b) = Some p" and "pprev p = Some (hashPrevBlock b)" and "nHeight p = nHeight prev + 1"
    and "phashBlock p = block_GetHash L b"
proof -
  obtain prev nFile nBlockPos fn1 fn2 where s: "fn_map fn (block_GetHash L b) = None" "fn_map fn (hashPrevBlock b) = Some prev"
      "check_place L E (fn_map fn) (nBestHeight (fn_node fn)) (fn_sync fn) b prev = Inr ()"
      "same_tree (fn_map fn) (fn_map fn1)" "on_node (AddToBlockIndex L E nFile nBlockPos b) fn1 = (Inr (), fn2)"
      "same_tree (fn_map fn2) (fn_map fn')"
    using AcceptBlock_steps [OF assms] by (elim disjE) blast+
  obtain q where q: "fn_map fn1 (hashPrevBlock b) = Some q" "bare q = bare prev" by (rule same_treeD [OF s(4,2)])
  obtain i where i: "new_entry L E nFile nBlockPos b (fn_node fn1) = Inr i"
      "same_tree ((fn_map fn1)(block_GetHash L b \<mapsto> i)) (fn_map fn2)"
    using AddToBlockIndex_steps [OF on_node_map [OF s(5)]] by (auto simp: fn_map_def)
  have "same_tree ((fn_map fn1)(block_GetHash L b \<mapsto> i)) (fn_map fn')" using i(2) s(6) by (rule same_tree_trans)
  then obtain p where p: "fn_map fn' (block_GetHash L b) = Some p" "bare p = bare i"
    using same_treeD [of "(fn_map fn1)(block_GetHash L b \<mapsto> i)" "fn_map fn'" "block_GetHash L b" i] by auto
  have "pprev i = Some (hashPrevBlock b)" "nHeight i = nHeight q + 1" "phashBlock i = block_GetHash L b"
    using new_entry_fields(1,6) [OF i(1)] q(1) by (simp_all add: fn_map_def)
  then have "pprev p = Some (hashPrevBlock b)" "nHeight p = nHeight prev + 1" "phashBlock p = block_GetHash L b"
    using bare_eq [OF p(2)] bare_eq [OF q(2)] by simp_all
  then show thesis by (rule that [OF s(1-3) p(1)])
qed

text \<open>C4: A block that \<open>AcceptBlock\<close> accepts was unknown, has a known parent and keeps the rules of its
  place: the target is the one the retargeting rules ask for, its time is above the median of
  the last eleven blocks and not too far below its parent's, a proof of work comes before
  proof of work ends (main network), every transaction is final, the
  hardened and the synchronised checkpoints allow it (unless those are switched off) and its
  coinbase begins with its height. Afterwards the index holds it, one above its parent.
\<close>
theorem accepted_block_keeps_rules:
  assumes "AcceptBlock L E space b fn = (Inr (), fn')"
  shows "\<exists>prev p. fn_map fn (block_GetHash L b) = None \<and> fn_map fn (hashPrevBlock b) = Some prev
    \<and> GetNextTargetRequired L (fTestNet E) (chain_at (fn_map fn) (Some (hashPrevBlock b))) (block_IsProofOfStake b) = Some (nBits b)
    \<and> GetMedianTimePast (chain_at (fn_map fn) (Some (hashPrevBlock b))) < block_GetBlockTime b
    \<and> index_GetBlockTime prev \<le> block_GetBlockTime b + (if nHeight prev + 1 < 405000 then nOldMaxClockDrift else nMaxClockDrift)
    \<and> (block_IsProofOfWork b \<longrightarrow> fTestNet E \<or> index_GetBlockTime prev < int (unat END_POW_TIME))
    \<and> (\<forall>tx \<in> set (vtx b). tx_IsFinal (nBestHeight (fn_node fn)) (adjustedTime E) tx (nHeight prev + 1) (block_GetBlockTime b))
    \<and> CheckHardened (fTestNet E) (nHeight prev + 1) (block_GetHash L b)
    \<and> (CheckSync (fTestNet E) (fn_map fn) (block_GetHash L b) (chain_at (fn_map fn) (Some (hashPrevBlock b))) (fn_sync fn) = Some True
       \<or> fNoSyncCheckpoints E)
    \<and> (\<exists>rest. scriptSig (vin (vtx b ! 0) ! 0) = push_int64 L (nHeight prev + 1) @ rest)
    \<and> fn_map fn' (block_GetHash L b) = Some p \<and> pprev p = Some (hashPrevBlock b) \<and> nHeight p = nHeight prev + 1
    \<and> phashBlock p = block_GetHash L b"
proof -
  obtain prev p where a: "fn_map fn (block_GetHash L b) = None" "fn_map fn (hashPrevBlock b) = Some prev"
      "check_place L E (fn_map fn) (nBestHeight (fn_node fn)) (fn_sync fn) b prev = Inr ()"
      "fn_map fn' (block_GetHash L b) = Some p" "pprev p = Some (hashPrevBlock b)" "nHeight p = nHeight prev + 1"
      "phashBlock p = block_GetHash L b"
    by (rule AcceptBlock_entry [OF assms])
  show ?thesis using a(1,2,4-7) check_place_Inr [OF a(3)] by (intro exI [of _ prev] exI [of _ p] conjI) assumption+
qed

section \<open>The orphan blocks\<close>

text \<open>
  The two maps of the orphans hold the same blocks, each under its hash and under the hash of
  its parent.
\<close>

definition orphan_blocks_ok :: "extlib \<Rightarrow> full_node \<Rightarrow> bool" where
  "orphan_blocks_ok L fn \<longleftrightarrow>
     (\<forall>(prev, b) \<in> set (mapOrphanBlocksByPrev fn). prev = hashPrevBlock b \<and> mapOrphanBlocks fn (block_GetHash L b) = Some b)
   \<and> (\<forall>h b. mapOrphanBlocks fn h = Some b \<longrightarrow> h = block_GetHash L b \<and> (hashPrevBlock b, b) \<in> set (mapOrphanBlocksByPrev fn))"

lemma orphan_blocks_ok_cong: "orphans_of fn' = orphans_of fn \<Longrightarrow> orphan_blocks_ok L fn' \<longleftrightarrow> orphan_blocks_ok L fn"
  by (simp add: orphan_blocks_ok_def orphans_of_def)

lemma accept_orphans_maps:
  "accept_orphans L E space bs fn = (r, fn') \<Longrightarrow> r \<noteq> Inl Crashed \<Longrightarrow>
     mapOrphanBlocks fn' = (mapOrphanBlocks fn) |` (- block_GetHash L ` set bs) \<and> (\<exists>hs. r = Inr hs)"
proof (induction bs arbitrary: fn r fn')
  case (Cons b bs)
  obtain q fn1 where 1: "act_try (AcceptBlock L E space b) fn = (q, fn1)" by fastforce
  have k: "mapOrphanBlocks fn1 = mapOrphanBlocks fn"
    using act_keepsD [OF keep_try [OF keep_AcceptBlock] 1] by (simp add: orphans_of_def)
  have q: "q = Inl Crashed \<or> (\<exists>ok. q = Inr ok)"
    using 1 by (auto simp: act_try_def split: prod.splits sum.splits failure.splits)
  then obtain ok where ok: "q = Inr ok" using Cons.prems 1 by fastforce
  obtain p fn2 where 2: "accept_orphans L E space bs (drop_orphan (block_GetHash L b) b fn1) = (p, fn2)" by fastforce
  have p: "p \<noteq> Inl Crashed" using Cons.prems 1 ok 2 by auto
  note ih = Cons.IH [OF 2 p]
  have "fn' = fn2" "\<exists>hs. r = Inr hs" using Cons.prems(1) 1 ok 2 ih by auto
  moreover have "mapOrphanBlocks fn2 = mapOrphanBlocks fn |` (- block_GetHash L ` set (b # bs))"
    using ih k by (auto simp: drop_orphan_def restrict_map_def fun_eq_iff)
  ultimately show ?case by simp
qed (simp add: restrict_map_def)

lemma orphan_blocks_okI:
  assumes "\<And>prev b. (prev, b) \<in> set (mapOrphanBlocksByPrev fn) \<Longrightarrow>
      prev = hashPrevBlock b \<and> mapOrphanBlocks fn (block_GetHash L b) = Some b"
    and "\<And>h b. mapOrphanBlocks fn h = Some b \<Longrightarrow> h = block_GetHash L b \<and> (hashPrevBlock b, b) \<in> set (mapOrphanBlocksByPrev fn)"
  shows "orphan_blocks_ok L fn"
  unfolding orphan_blocks_ok_def using assms by blast

lemma orphan_blocks_okD:
  assumes "orphan_blocks_ok L fn"
  shows "(prev, b) \<in> set (mapOrphanBlocksByPrev fn) \<Longrightarrow> prev = hashPrevBlock b"
    and "(prev, b) \<in> set (mapOrphanBlocksByPrev fn) \<Longrightarrow> mapOrphanBlocks fn (block_GetHash L b) = Some b"
    and "mapOrphanBlocks fn h = Some b \<Longrightarrow> h = block_GetHash L b"
    and "mapOrphanBlocks fn h = Some b \<Longrightarrow> (hashPrevBlock b, b) \<in> set (mapOrphanBlocksByPrev fn)"
  using assms [unfolded orphan_blocks_ok_def, THEN conjunct1, THEN bspec, of "(prev, b)"]
    assms [unfolded orphan_blocks_ok_def, THEN conjunct2, rule_format, of h b] by simp_all

text \<open>The maps after the orphans of \<open>h\<close> are taken out of both.\<close>
lemma orphan_blocks_take:
  assumes "orphan_blocks_ok L fn"
    and "mapOrphanBlocks fn' = mapOrphanBlocks fn |` (- gone)"
    and "mapOrphanBlocksByPrev fn' = filter (\<lambda>(prev, orphan). prev \<noteq> h) (mapOrphanBlocksByPrev fn)"
    and "gone = block_GetHash L ` {b. (h, b) \<in> set (mapOrphanBlocksByPrev fn)}"
  shows "orphan_blocks_ok L fn'"
proof -
  note ok = orphan_blocks_okD [OF assms(1)]
  have gone: "prev = h" if "block_GetHash L b \<in> gone" "(prev, b) \<in> set (mapOrphanBlocksByPrev fn)" for prev b
  proof -
    note in_gone = that(1)
    obtain x where x: "block_GetHash L b = block_GetHash L x" "x \<in> {b. (h, b) \<in> set (mapOrphanBlocksByPrev fn)}"
      by (rule imageE [OF in_gone [unfolded assms(4)]])
    have x': "(h, x) \<in> set (mapOrphanBlocksByPrev fn)" using x(2) by (rule CollectD)
    have "Some b = Some x" by (rule trans [OF ok(2) [OF that(2), symmetric]]) (unfold x(1), rule ok(2) [OF x'])
    then have "b = x" by (rule option.inject [THEN iffD1])
    then show "prev = h" using ok(1) [OF that(2)] ok(1) [OF x'] by simp
  qed
  show ?thesis
  proof (rule orphan_blocks_okI)
    fix prev b assume "(prev, b) \<in> set (mapOrphanBlocksByPrev fn')"
    then have q: "(prev, b) \<in> set (mapOrphanBlocksByPrev fn)" "prev \<noteq> h" by (simp_all add: assms(3))
    have "block_GetHash L b \<notin> gone" using gone [OF _ q(1)] q(2) by (rule contrapos_nn [rotated])
    then show "prev = hashPrevBlock b \<and> mapOrphanBlocks fn' (block_GetHash L b) = Some b"
      using ok(1,2) [OF q(1)] by (simp add: assms(2))
  next
    fix x b assume "mapOrphanBlocks fn' x = Some b"
    then have a: "mapOrphanBlocks fn x = Some b" "x \<notin> gone" by (simp_all add: assms(2) restrict_map_def split: if_splits)
    have "hashPrevBlock b \<noteq> h"
    proof
      assume "hashPrevBlock b = h"
      then have "b \<in> {b. (h, b) \<in> set (mapOrphanBlocksByPrev fn)}" using ok(4) [OF a(1)] by simp
      then have "block_GetHash L b \<in> gone" unfolding assms(4) by (rule imageI)
      then show False using a(2) ok(3) [OF a(1)] by simp
    qed
    then show "x = block_GetHash L b \<and> (hashPrevBlock b, b) \<in> set (mapOrphanBlocksByPrev fn')"
      using ok(3,4) [OF a(1)] by (simp add: assms(3))
  qed
qed

lemma orphan_round:
  assumes "orphan_blocks_ok L fn" and "r \<noteq> Inl Crashed"
    and "accept_orphans L E space (map snd (filter (\<lambda>(prev, orphan). prev = h) (mapOrphanBlocksByPrev fn))) fn = (r, fn')"
  shows "orphan_blocks_ok L (fn'\<lparr>mapOrphanBlocksByPrev := filter (\<lambda>(prev, orphan). prev \<noteq> h) (mapOrphanBlocksByPrev fn')\<rparr>)"
proof -
  define bs where "bs = map snd (filter (\<lambda>(prev, orphan). prev = h) (mapOrphanBlocksByPrev fn))"
  have m: "mapOrphanBlocks fn' = mapOrphanBlocks fn |` (- block_GetHash L ` set bs)"
      "mapOrphanBlocksByPrev fn' = mapOrphanBlocksByPrev fn"
    using accept_orphans_maps [OF assms(3,2)] accept_orphans_orphans [OF assms(3)] unfolding bs_def by blast+
  have "set bs = {b. (h, b) \<in> set (mapOrphanBlocksByPrev fn)}" unfolding bs_def by force
  then show ?thesis by (intro orphan_blocks_take [OF assms(1)]) (simp_all add: m)
qed

lemma process_queue_orphans:
  "process_queue L E space queue fn = (r, fn') \<Longrightarrow> r \<noteq> Inl Crashed \<Longrightarrow>
     (orphan_blocks_ok L fn \<longrightarrow> orphan_blocks_ok L fn') \<and> set (mapOrphanBlocksByPrev fn') \<subseteq> set (mapOrphanBlocksByPrev fn)
     \<and> (\<forall>h \<in> set queue. \<forall>(prev, b) \<in> set (mapOrphanBlocksByPrev fn'). prev \<noteq> h)"
proof (induction L E space queue fn rule: process_queue.induct)
  case (2 L E space h queue fn)
  obtain q fn1 where 1: "accept_orphans L E space
      (map snd (filter (\<lambda>(prev, orphan). prev = h) (mapOrphanBlocksByPrev fn))) fn = (q, fn1)" by fastforce
  have "q \<noteq> Inl Crashed" using "2.prems" 1 by auto
  then obtain hs where hs: "q = Inr hs" using accept_orphans_maps [OF 1] by blast
  let ?fn = "fn1\<lparr>mapOrphanBlocksByPrev := filter (\<lambda>(prev, orphan). prev \<noteq> h) (mapOrphanBlocksByPrev fn1)\<rparr>"
  have "process_queue L E space (queue @ hs) ?fn = (r, fn')" using "2.prems" 1 hs by simp
  note ih = "2.IH" [OF 1 [symmetric] hs this "2.prems"(2)]
  have s: "mapOrphanBlocksByPrev fn1 = mapOrphanBlocksByPrev fn" using accept_orphans_orphans [OF 1] by simp
  have "orphan_blocks_ok L fn \<longrightarrow> orphan_blocks_ok L ?fn" using orphan_round [OF _ _ 1] hs by simp
  then show ?case using ih s by fastforce
qed simp

section \<open>Processing a block\<close>

definition fview :: "full_node \<Rightarrow> (u256 \<Rightarrow> CBlockIndex option) \<times> (u256 \<rightharpoonup> CBlock) \<times> (u256 \<times> CBlock) list \<times> (COutPoint \<times> u32) set" where
  "fview fn = (ftree fn, orphans_of fn)"

lemma fview_eq: "fview fn' = fview fn \<longleftrightarrow> same_tree (fn_map fn) (fn_map fn') \<and> orphans_of fn' = orphans_of fn"
  by (simp add: fview_def ftree_eq)

lemma fview_updates: "fview (to_peer pfrom f fn) = fview fn" "fview (ask_blocks E pfrom h fn) = fview fn"
  "fview (AskForPendingSyncCheckpoint pfrom fn) = fview fn"
  "fview (fn\<lparr>fn_node := (fn_node fn)\<lparr>nd_cache := c\<rparr>\<rparr>) = fview fn"
  "fview (fn\<lparr>fn_node := (fn_node fn)\<lparr>nd_cache := c, mapProofOfStake := m\<rparr>\<rparr>) = fview fn"
  by (auto simp: fview_def ftree_def tree_of_def orphans_of_def to_peer_def ask_blocks_def AskForPendingSyncCheckpoint_def Let_def
      split: option.split)

lemma keep_stake_check: "act_keeps fview (stake_check seen h b)"
  by (auto simp: act_keeps_def stake_check_def split: option.split)

lemma keep_prove_stake: "act_keeps fview (prove_stake L E pfrom h b)"
  unfolding act_keeps_def prove_stake_def Let_def
  by (auto simp: fview_updates split: option.split sum.split failure.split prod.split)

lemma keep_spam_check: "act_keeps fview (spam_check L E pfrom h b)"
  unfolding act_keeps_def spam_check_def Let_def
  by (auto simp: fview_updates split: option.split list.split bool.split)

lemma keep_then_cases:
  assumes "act_then m k s = (r, s')" and "act_keeps f m"
  obtains s1 where "f s1 = f s" and "(\<exists>e. r = Inl e \<and> s' = s1) \<or> k s1 = (r, s')"
proof -
  obtain q s1 where 1: "m s = (q, s1)" by fastforce
  show thesis
    by (rule that [of s1, OF act_keepsD [OF assms(2) 1]]) (use assms(1) 1 in \<open>cases q; auto simp: act_simps\<close>)
qed

lemma keep_then_chain:
  assumes "act_then m k s = (r, s')" and "act_keeps f m"
    and "\<And>s. k s = (r, s') \<Longrightarrow> \<exists>t. f t = f s \<and> ((\<exists>e. r = Inl e \<and> s' = t) \<or> Q t)"
  shows "\<exists>t. f t = f s \<and> ((\<exists>e. r = Inl e \<and> s' = t) \<or> Q t)"
proof (rule keep_then_cases [OF assms(1,2)])
  fix s1 assume s1: "f s1 = f s" "(\<exists>e. r = Inl e \<and> s' = s1) \<or> k s1 = (r, s')"
  from s1(2) show ?thesis
  proof
    assume "\<exists>e. r = Inl e \<and> s' = s1"
    then show ?thesis using s1(1) by (intro exI [of _ s1]) simp
  next
    assume "k s1 = (r, s')"
    from assms(3) [OF this] show ?thesis using s1(1) by simp
  qed
qed

lemma ProcessBlock_steps:
  assumes "ProcessBlock L E space pfrom b fn = (r, fn')"
  shows "fn_map fn (block_GetHash L b) \<noteq> None \<and> r = Inl (Refused 0) \<and> fn' = fn
    \<or> mapOrphanBlocks fn (block_GetHash L b) \<noteq> None \<and> r = Inl (Refused 0) \<and> fn' = fn
    \<or> fn_map fn (block_GetHash L b) = None \<and> mapOrphanBlocks fn (block_GetHash L b) = None
      \<and> (\<exists>fn1. fview fn1 = fview fn \<and> ((\<exists>e. r = Inl e \<and> fn' = fn1)
         \<or> (if fn_map fn (hashPrevBlock b) = None then add_orphan L E pfrom (block_GetHash L b) b fn1 = (r, fn')
            else act_then (AcceptBlock L E space b) (process_queue L E space [block_GetHash L b]) fn1 = (r, fn'))))"
proof -
  define h where "h = block_GetHash L b"
  define last_step where "last_step = (\<lambda>fn. if fn_map fn (hashPrevBlock b) = None then add_orphan L E pfrom h b fn
                      else act_then (AcceptBlock L E space b) (process_queue L E space [h]) fn)"
  define ask where "ask = (\<lambda>fn. if fInitialDownload E then fn else AskForPendingSyncCheckpoint pfrom fn)"
  have ask: "act_keeps fview (act_modify ask)" unfolding ask_def by (rule keep_modify) (simp add: fview_updates)
  have chk: "act_keeps fview (\<lambda>fn. (CheckBlock L E (best_entry (fn_node fn)) True True True b, fn))" by (rule keep_result)
  have stk: "act_keeps fview (\<lambda>fn. stake_check (setStakeSeen (fn_node fn)) h b fn)"
    using keep_stake_check by (simp add: act_keeps_def)
  show ?thesis
  proof (cases "fn_map fn h \<noteq> None \<or> mapOrphanBlocks fn h \<noteq> None")
    case True
    then have "r = Inl (Refused 0)" "fn' = fn" using assms by (simp_all add: ProcessBlock_def Let_def h_def)
    then show ?thesis using True by (simp add: h_def) blast
  next
    case False
    then have "act_then (\<lambda>fn. stake_check (setStakeSeen (fn_node fn)) h b fn)
             (act_then (\<lambda>fn. (CheckBlock L E (best_entry (fn_node fn)) True True True b, fn))
             (act_then (prove_stake L E pfrom h b)
             (act_then (spam_check L E pfrom h b)
             (act_then (act_modify ask) last_step)))) fn = (r, fn')"
      using assms by (simp add: ProcessBlock_def Let_def h_def [symmetric] ask_def last_step_def)
    then have "\<exists>fn1. fview fn1 = fview fn \<and> ((\<exists>e. r = Inl e \<and> fn' = fn1) \<or> last_step fn1 = (r, fn'))"
      by (elim keep_then_chain) ((rule stk chk keep_prove_stake keep_spam_check ask)+, blast)
    then obtain fn1 where v: "fview fn1 = fview fn" and e: "(\<exists>e. r = Inl e \<and> fn' = fn1) \<or> last_step fn1 = (r, fn')" by blast
    have "fn_map fn1 (hashPrevBlock b) = None \<longleftrightarrow> fn_map fn (hashPrevBlock b) = None"
      using v same_tree_None [of "fn_map fn" "fn_map fn1"] by (simp add: fview_eq)
    then show ?thesis using False v e by (auto simp: h_def last_step_def)
  qed
qed

lemma accept_orphans_grows: "accept_orphans L E space bs fn = (r, fn') \<Longrightarrow> grows (fn_map fn) (fn_map fn')"
proof (induction bs arbitrary: fn r fn')
  case (Cons b bs)
  obtain q fn1 where 1: "AcceptBlock L E space b fn = (q, fn1)" by fastforce
  obtain p where p: "act_try (AcceptBlock L E space b) fn = (p, fn1)"
    using 1 act_try_def [of "AcceptBlock L E space b" fn] by (cases q) (auto split: failure.splits)
  obtain t fn2 where 2: "accept_orphans L E space bs (drop_orphan (block_GetHash L b) b fn1) = (t, fn2)" by fastforce
  have d: "fn_map (drop_orphan (block_GetHash L b) b fn1) = fn_map fn1" by (simp add: drop_orphan_def fn_map_def)
  note g = AcceptBlock_grows [OF 1] Cons.IH [OF 2, unfolded d]
  have "fn' = fn1 \<or> fn' = fn2" using Cons.prems p 2 by (auto split: sum.splits prod.splits)
  then show ?case using g grows_trans by blast
qed (simp add: grows_def)

lemma process_queue_grows: "process_queue L E space queue fn = (r, fn') \<Longrightarrow> grows (fn_map fn) (fn_map fn')"
proof (induction L E space queue fn rule: process_queue.induct)
  case (2 L E space h queue fn)
  obtain q fn1 where 1: "accept_orphans L E space
      (map snd (filter (\<lambda>(prev, orphan). prev = h) (mapOrphanBlocksByPrev fn))) fn = (q, fn1)" by fastforce
  note g = accept_orphans_grows [OF 1]
  show ?case
  proof (cases q)
    case (Inl e)
    then show ?thesis using "2.prems" 1 g by simp
  next
    case (Inr hs)
    let ?fn = "fn1\<lparr>mapOrphanBlocksByPrev := filter (\<lambda>(prev, orphan). prev \<noteq> h) (mapOrphanBlocksByPrev fn1)\<rparr>"
    have "process_queue L E space (queue @ hs) ?fn = (r, fn')" using "2.prems" 1 Inr by simp
    from "2.IH" [OF 1 [symmetric] Inr this] have "grows (fn_map fn1) (fn_map fn')" by (simp add: fn_map_def)
    then show ?thesis using g grows_trans by blast
  qed
qed (simp add: grows_def)

lemma add_orphan_result:
  assumes "add_orphan L E pfrom h b fn = (r, fn')"
  shows "same_tree (fn_map fn) (fn_map fn')
    \<and> (orphans_of fn' = orphans_of fn \<and> r \<noteq> Inr ()
       \<or> mapOrphanBlocks fn' = (mapOrphanBlocks fn)(h \<mapsto> b)
         \<and> mapOrphanBlocksByPrev fn' = mapOrphanBlocksByPrev fn @ [(hashPrevBlock b, b)])"
proof -
  define stored where "stored = (\<lambda>fn :: full_node. fn\<lparr>setStakeSeenOrphan := (if block_IsProofOfStake b
                     then insert (block_GetProofOfStake b) (setStakeSeenOrphan fn) else setStakeSeenOrphan fn),
                   mapOrphanBlocks := (mapOrphanBlocks fn)(h \<mapsto> b),
                   mapOrphanBlocksByPrev := mapOrphanBlocksByPrev fn @ [(hashPrevBlock b, b)]\<rparr>)"
  obtain q where s: "stake_check (setStakeSeenOrphan fn) h b fn = (q, fn)"
  proof -
    have "snd (stake_check (setStakeSeenOrphan fn) h b fn) = fn" by (auto simp: stake_check_def split: option.split)
    then show ?thesis using that [of "fst (stake_check (setStakeSeenOrphan fn) h b fn)"] by (metis prod.collapse)
  qed
  show ?thesis
  proof (cases q)
    case (Inl e)
    then have "r = Inl e" "fn' = fn" using assms s by (simp_all add: add_orphan_def act_then_def act_bind_def)
    then show ?thesis by simp
  next
    case (Inr u)
    have "(\<lambda>fn. if pfrom = None then (Inr (), fn)
          else case GetOrphanRoot L (mapOrphanBlocks fn) b of
            None \<Rightarrow> (Inl Crashed, fn)
          | Some hashRoot \<Rightarrow>
              let fn = ask_blocks E pfrom hashRoot fn
              in if fInitialDownload E then (Inr (), fn)
                 else case WantedByOrphan (mapOrphanBlocks fn) b of
                   None \<Rightarrow> (Inl Crashed, fn)
                 | Some w \<Rightarrow> (Inr (), to_peer pfrom (node_send (Ask_block w)) fn)) (stored fn) = (r, fn')"
      using assms s Inr unfolding add_orphan_def stored_def by (simp only: act_then_def act_bind_def prod.case sum.case Let_def)
    then have "fview fn' = fview (stored fn)"
      by (auto simp: fview_updates Let_def split: option.splits if_splits)
    moreover have "ftree (stored fn) = ftree fn" by (simp add: stored_def ftree_def)
    ultimately show ?thesis
      by (simp add: fview_def ftree_eq orphans_of_def) (simp add: stored_def)
  qed
qed

lemma orphan_blocks_add:
  assumes "orphan_blocks_ok L fn" and "mapOrphanBlocks fn (block_GetHash L b) = None"
    and "mapOrphanBlocks fn' = (mapOrphanBlocks fn)(block_GetHash L b \<mapsto> b)"
    and "mapOrphanBlocksByPrev fn' = mapOrphanBlocksByPrev fn @ [(hashPrevBlock b, b)]"
  shows "orphan_blocks_ok L fn'"
proof (rule orphan_blocks_okI)
  note ok = orphan_blocks_okD [OF assms(1)]
  fix prev c assume "(prev, c) \<in> set (mapOrphanBlocksByPrev fn')"
  then consider "(prev, c) \<in> set (mapOrphanBlocksByPrev fn)" | "prev = hashPrevBlock b" "c = b" by (auto simp: assms(4))
  then show "prev = hashPrevBlock c \<and> mapOrphanBlocks fn' (block_GetHash L c) = Some c"
  proof cases
    case 1
    then show ?thesis using ok(1,2) [OF 1] assms(2) by (cases "block_GetHash L c = block_GetHash L b") (simp_all add: assms(3))
  next
    case 2
    then show ?thesis by (simp add: assms(3))
  qed
next
  note ok = orphan_blocks_okD [OF assms(1)]
  fix h c assume "mapOrphanBlocks fn' h = Some c"
  then consider "h = block_GetHash L b" "c = b" | "mapOrphanBlocks fn h = Some c"
    by (cases "h = block_GetHash L b") (simp_all add: assms(3))
  then show "h = block_GetHash L c \<and> (hashPrevBlock c, c) \<in> set (mapOrphanBlocksByPrev fn')"
  proof cases
    case 1
    then show ?thesis by (simp add: assms(4))
  next
    case 2
    then show ?thesis using ok(3,4) [OF 2] by (simp add: assms(4))
  qed
qed

lemma queue_step:
  assumes "act_then (AcceptBlock L E space b) (process_queue L E space [block_GetHash L b]) fn = (r, fn')"
  shows "grows (fn_map fn) (fn_map fn')"
    and "r \<noteq> Inl Crashed \<Longrightarrow> orphan_blocks_ok L fn \<Longrightarrow> orphan_blocks_ok L fn'"
    and "r = Inr () \<Longrightarrow> fn_map fn' (block_GetHash L b) \<noteq> None
       \<and> (\<forall>(prev, c) \<in> set (mapOrphanBlocksByPrev fn'). prev \<noteq> block_GetHash L b)"
proof -
  obtain q fn1 where 1: "AcceptBlock L E space b fn = (q, fn1)" by fastforce
  have o1: "orphans_of fn1 = orphans_of fn" by (rule act_keepsD [OF keep_AcceptBlock 1])
  have "grows (fn_map fn) (fn_map fn')
    \<and> (r \<noteq> Inl Crashed \<longrightarrow> orphan_blocks_ok L fn \<longrightarrow> orphan_blocks_ok L fn')
    \<and> (r = Inr () \<longrightarrow> fn_map fn' (block_GetHash L b) \<noteq> None
       \<and> (\<forall>(prev, c) \<in> set (mapOrphanBlocksByPrev fn'). prev \<noteq> block_GetHash L b))"
  proof (cases q)
    case (Inl e)
    then have "r = Inl e" "fn' = fn1" using assms 1 by (simp_all add: act_then_def act_bind_def)
    then show ?thesis using AcceptBlock_grows [OF 1] orphan_blocks_ok_cong [OF o1] by simp
  next
    case (Inr u)
    then have 2: "process_queue L E space [block_GetHash L b] fn1 = (r, fn')" using assms 1 by (simp add: act_then_def act_bind_def)
    have a: "AcceptBlock L E space b fn = (Inr (), fn1)" using 1 Inr by simp
    have g: "grows (fn_map fn1) (fn_map fn')" by (rule process_queue_grows [OF 2])
    obtain p where "fn_map fn1 (block_GetHash L b) = Some p" by (rule AcceptBlock_entry [OF a])
    then have "fn_map fn' (block_GetHash L b) \<noteq> None" using g unfolding grows_def by blast
    then show ?thesis
      using grows_trans [OF AcceptBlock_grows [OF 1] g] process_queue_orphans [OF 2] orphan_blocks_ok_cong [OF o1] by auto
  qed
  then show "grows (fn_map fn) (fn_map fn')"
    and "r \<noteq> Inl Crashed \<Longrightarrow> orphan_blocks_ok L fn \<Longrightarrow> orphan_blocks_ok L fn'"
    and "r = Inr () \<Longrightarrow> fn_map fn' (block_GetHash L b) \<noteq> None
       \<and> (\<forall>(prev, c) \<in> set (mapOrphanBlocksByPrev fn'). prev \<noteq> block_GetHash L b)" by simp_all
qed

text \<open>C5: 
  \<open>ProcessBlock\<close>, whatever it returns, keeps the entries of the index where they are in the tree
  (only the links to the next block and the amounts may change), and a well-formed tree stays
  one. Unless the process fails, the two maps of the orphans keep holding the same blocks. A
  block known already, in the tree or as an orphan, is refused and nothing changes. When a
  block is taken, it was unknown; if its parent is unknown too it is now an orphan, listed
  under its parent, and otherwise it is in the tree and no orphan is left that waits for it.
\<close>
theorem process_block_keeps:
  assumes "ProcessBlock L E space pfrom b fn = (r, fn')"
  shows "(tree_ok (fn_map fn) \<longrightarrow> tree_ok (fn_map fn'))
    \<and> (\<forall>h i. fn_map fn h = Some i \<longrightarrow> (\<exists>j. fn_map fn' h = Some j \<and> bare j = bare i))
    \<and> (r \<noteq> Inl Crashed \<longrightarrow> orphan_blocks_ok L fn \<longrightarrow> orphan_blocks_ok L fn')
    \<and> (fn_map fn (block_GetHash L b) \<noteq> None \<or> mapOrphanBlocks fn (block_GetHash L b) \<noteq> None
         \<longrightarrow> r = Inl (Refused 0) \<and> fn' = fn)
    \<and> (r = Inr () \<longrightarrow>
         (if fn_map fn (hashPrevBlock b) = None
          then mapOrphanBlocks fn' (block_GetHash L b) = Some b \<and> (hashPrevBlock b, b) \<in> set (mapOrphanBlocksByPrev fn')
          else fn_map fn' (block_GetHash L b) \<noteq> None
               \<and> (\<forall>(prev, c) \<in> set (mapOrphanBlocksByPrev fn'). prev \<noteq> block_GetHash L b)))"
proof -
  let ?h = "block_GetHash L b"
  let ?keeps = "\<lambda>g g'. grows (fn_map g) (fn_map g') \<and> (r \<noteq> Inl Crashed \<longrightarrow> orphan_blocks_ok L g \<longrightarrow> orphan_blocks_ok L g')"
  let ?taken = "\<lambda>g'. if fn_map fn (hashPrevBlock b) = None
      then mapOrphanBlocks g' ?h = Some b \<and> (hashPrevBlock b, b) \<in> set (mapOrphanBlocksByPrev g')
      else fn_map g' ?h \<noteq> None \<and> (\<forall>(prev, c) \<in> set (mapOrphanBlocksByPrev g'). prev \<noteq> ?h)"
  have refl: "grows (fn_map fn) (fn_map fn)" by (rule grows_same) simp
  have "?keeps fn fn' \<and> (fn_map fn ?h \<noteq> None \<or> mapOrphanBlocks fn ?h \<noteq> None \<longrightarrow> r = Inl (Refused 0) \<and> fn' = fn)
      \<and> (r = Inr () \<longrightarrow> ?taken fn')"
  proof (cases "fn_map fn ?h \<noteq> None \<or> mapOrphanBlocks fn ?h \<noteq> None")
    case True
    then have "r = Inl (Refused 0) \<and> fn' = fn" using ProcessBlock_steps [OF assms] by auto
    then show ?thesis using refl by simp
  next
    case False
    then obtain fn1 where v: "fview fn1 = fview fn" and e: "(\<exists>e. r = Inl e \<and> fn' = fn1)
         \<or> (if fn_map fn (hashPrevBlock b) = None then add_orphan L E pfrom ?h b fn1 = (r, fn')
            else act_then (AcceptBlock L E space b) (process_queue L E space [?h]) fn1 = (r, fn'))"
      using ProcessBlock_steps [OF assms] by (elim disjE conjE exE) simp_all
    have o: "orphans_of fn1 = orphans_of fn" and g: "grows (fn_map fn) (fn_map fn1)"
      using v grows_same by (auto simp: fview_eq)
    note ok = orphan_blocks_ok_cong [OF o, of L]
    have "?keeps fn1 fn' \<and> (r = Inr () \<longrightarrow> ?taken fn')"
      using e
    proof (elim disjE exE conjE)
      fix e assume "r = Inl e" "fn' = fn1"
      then show ?thesis using grows_same by simp
    next
      assume e: "if fn_map fn (hashPrevBlock b) = None then add_orphan L E pfrom ?h b fn1 = (r, fn')
            else act_then (AcceptBlock L E space b) (process_queue L E space [?h]) fn1 = (r, fn')"
      show ?thesis
      proof (cases "fn_map fn (hashPrevBlock b) = None")
        case True
        then have a: "add_orphan L E pfrom ?h b fn1 = (r, fn')" using e by simp
        have n: "mapOrphanBlocks fn1 ?h = None" using False o by (simp add: orphans_of_def)
        from add_orphan_result [OF a] show ?thesis
        proof (elim conjE disjE)
          assume "same_tree (fn_map fn1) (fn_map fn')" "orphans_of fn' = orphans_of fn1" "r \<noteq> Inr ()"
          then show ?thesis using grows_same orphan_blocks_ok_cong [of fn' fn1 L] by simp
        next
          assume "same_tree (fn_map fn1) (fn_map fn')" "mapOrphanBlocks fn' = (mapOrphanBlocks fn1)(?h \<mapsto> b)"
            "mapOrphanBlocksByPrev fn' = mapOrphanBlocksByPrev fn1 @ [(hashPrevBlock b, b)]"
          then show ?thesis using grows_same orphan_blocks_add [of L fn1 b fn'] n True by simp
        qed
      next
        case p: False
        then have "act_then (AcceptBlock L E space b) (process_queue L E space [?h]) fn1 = (r, fn')" using e by simp
        from queue_step [OF this] show ?thesis using p by (simp only: if_False) blast
      qed
    qed
    then show ?thesis using False g ok grows_trans by blast
  qed
  then show ?thesis unfolding grows_def by blast
qed

section \<open>A node with one block\<close>

definition first_tx :: CTransaction where
  "first_tx = mint_tx\<lparr>vin := [txin_new outpoint_null [0x51, 2]]\<rparr>"

definition first_block :: CBlock where
  "first_block = sample_block\<lparr>vtx := [first_tx], nTime := 6, nBits := GetCompact genesis_lib (bnProofOfWorkLimit genesis_lib False),
     vchBlockSig := []\<rparr>"

definition first_entry :: CBlockIndex where
  "first_entry = (tree_block 0 None 0)\<lparr>nFlags := BLOCK_STAKE_MODIFIER\<rparr>"

definition first_node :: "int \<Rightarrow> full_node" where
  "first_node trust = \<lparr>fn_node = (tree_node (db_empty\<lparr>activeBatch := None\<rparr>))\<lparr>mapBlockIndex := [0 \<mapsto> first_entry], bnBestChainTrust := bn_of_int genesis_lib trust\<rparr>,
     fn_sync = sync_start\<lparr>hashSyncCheckpoint := 0\<rparr>, mapOrphanBlocks = Map.empty, mapOrphanBlocksByPrev = [],
     setStakeSeenOrphan = {}, vNodes = [], fShutdown = False\<rparr>"

lemma first_map: "fn_map (first_node t) = [0 \<mapsto> first_entry]"
  by (simp add: first_node_def fn_map_def)

lemma first_block_fields: "vtx first_block = [first_tx]" "nTime first_block = 6" "nBits first_block = GetCompact genesis_lib (bnProofOfWorkLimit genesis_lib False)"
   "hashPrevBlock first_block = 0"
  by (simp_all add: first_block_def sample_block_def block_SetNull_def)

lemma first_entry_fields: "phashBlock first_entry = 0" "pprev first_entry = None" "nHeight first_entry = 0"
  "index_GetBlockTime first_entry = 0" "bi_nTime first_entry = 0" "index_IsProofOfStake first_entry = False"
  "pnext first_entry = None" "bnChainTrust first_entry = 0" "nFlags first_entry = BLOCK_STAKE_MODIFIER"
  by (simp_all add: first_entry_def index_GetBlockTime_def tree_block_def index_empty_def index_IsProofOfStake_def
      BLOCK_STAKE_MODIFIER_def BLOCK_PROOF_OF_STAKE_def)

lemma first_chain: "chain_at [0 \<mapsto> first_entry] (Some 0) = [first_entry]"
proof -
  have m: "map_ok [0 \<mapsto> first_entry]" by (auto simp: map_ok_def entry_ok_def first_entry_fields)
  show ?thesis using chain_at_unfold [OF m, of 0 first_entry] by (simp add: first_entry_fields)
qed

lemma first_pow: "\<not> block_IsProofOfStake first_block" by (simp add: block_IsProofOfStake_def first_block_fields)

lemma first_target: "GetNextTargetRequired genesis_lib False [first_entry] False
    = Some (GetCompact genesis_lib (bnProofOfWorkLimit genesis_lib False))"
  by (simp add: GetNextTargetRequired_def GetNextTargetRequiredHybrid_def last_two_def hybrid_limit_def first_entry_fields Let_def)

lemma first_push: "push_int64 genesis_lib 1 = [0x51]"
  by (simp add: push_int64_def)

lemma first_place: "check_place genesis_lib env_test [0 \<mapsto> first_entry] 0 (sync_start\<lparr>hashSyncCheckpoint := 0\<rparr>) first_block first_entry = Inr ()"
proof -
  note e = first_entry_fields
  have m: "GetMedianTimePast [first_entry] = 0" by (simp add: GetMedianTimePast_def e)
  have c: "CheckSync False [0 \<mapsto> first_entry] h [first_entry] (sync_start\<lparr>hashSyncCheckpoint := 0\<rparr>) = Some True" for h
    by (simp add: CheckSync_def e trace_back_def)
  have h: "CheckHardened False 1 h" for h by (simp add: CheckHardened_def checkpoints_def mapCheckpoints_def)
  have t: "tx_IsFinal x y first_tx 1 z" for x y z by (simp add: tx_IsFinal_def first_tx_def mint_tx_def)
  have s: "take (Suc 0) (scriptSig (vin first_tx ! 0)) = [0x51]" "scriptSig (vin first_tx ! 0) \<noteq> []" by (simp_all add: first_tx_def txin_new_def)
  show ?thesis by (simp add: check_place_def first_block_fields Let_def first_chain e m c h t s first_push block_IsProofOfWork_def first_pow first_target env_test_def
   block_GetBlockTime_def END_POW_TIME_def HARDFORK_TIME_def nOldMaxClockDrift_def)
qed


lemma block_entropy_bit: "\<not> 1 < block_GetStakeEntropyBit L testnet b h"
proof -
  have a: "x AND 1 = (if bit x 0 then 1 else 0)" for x :: u64
  proof (rule bit_word_eqI)
    fix n assume "n < LENGTH(64)"
    show "bit (x AND 1) n \<longleftrightarrow> bit (if bit x 0 then 1 else 0 :: u64) n" by (cases "n = 0") (auto simp: bit_simps)
  qed
  have b: "drop_bit 159 x = (if bit x 159 then 1 else 0)" for x :: u160
  proof (rule bit_word_eqI)
    fix n assume "n < LENGTH(160)"
    show "bit (drop_bit 159 x) n \<longleftrightarrow> bit (if bit x 159 then 1 else 0 :: u160) n"
      using impossible_bit [of "159 + n" x] by (cases "n = 0") (auto simp: bit_simps)
  qed
  show ?thesis unfolding block_GetStakeEntropyBit_def a b by simp
qed

lemma first_new_entry:
  assumes "mapBlockIndex nd = [0 \<mapsto> first_entry]"
  shows "\<exists>p t. new_entry genesis_lib env_test f pos first_block nd = Inr p
    \<and> bnChainTrust p = BN_add genesis_lib 0 (bn_of_int genesis_lib t) \<and> (t = 0 \<or> t = 1)"
proof -
  have e: "\<not> fTestNet env_test" by (simp add: env_test_def)
  have h: "block_GetHash genesis_lib first_block = hashGenesisBlockOfficial" by (simp add: block_GetHash_def genesis_scrypt)
  define bit where "bit = block_GetStakeEntropyBit genesis_lib False first_block 1"
  have bit: "\<not> 1 < bit" unfolding bit_def by (rule block_entropy_bit)
  define p0 where "p0 = (index_of_block f pos first_block)\<lparr>phashBlock := hashGenesisBlockOfficial, pprev := Some 0, nHeight := 1\<rparr>"
  have p0: "nFlags p0 = 0" "bi_nTime p0 = 6" "pprev p0 = Some 0" "nHeight p0 = 1"
    by (simp_all add: p0_def index_of_block_def Let_def first_pow first_block_fields index_empty_def)
  obtain t where t: "GetBlockTrust genesis_lib p0 = Some (bn_of_int genesis_lib t)" "t = 0 \<or> t = 1"
  proof (cases "bn_le genesis_lib (SetCompact genesis_lib (bi_nBits p0)) (bn_of_int genesis_lib 0)")
    case True
    then show ?thesis by (intro that [of 0]) (simp_all add: GetBlockTrust_def Let_def)
  next
    case False
    then show ?thesis by (intro that [of 1]) (simp_all add: GetBlockTrust_def Let_def index_IsProofOfStake_def p0)
  qed
  define p1 where "p1 = p0\<lparr>bnChainTrust := BN_add genesis_lib 0 (bn_of_int genesis_lib t), nFlags := (if bit \<noteq> 0 then BLOCK_STAKE_ENTROPY else 0)\<rparr>"
  have p1: "index_IsProofOfStake p1 = False" "bi_nTime p1 = 6" "nHeight p1 = 1"
    by (simp_all add: p1_def p0 index_IsProofOfStake_def BLOCK_STAKE_ENTROPY_def BLOCK_PROOF_OF_STAKE_def)
  have m: "ComputeNextStakeModifier genesis_lib [0 \<mapsto> first_entry] [first_entry] 6 = Some (nStakeModifier first_entry, False)"
    by (simp add: ComputeNextStakeModifier_def GetLastStakeModifier_def GeneratedStakeModifier_def first_entry_fields BLOCK_STAKE_MODIFIER_def Let_def)
  define p2 where "p2 = p1\<lparr>nStakeModifier := nStakeModifier first_entry\<rparr>"
  obtain c where c: "GetStakeModifierChecksum genesis_lib False [p2, first_entry] = Some c"
    by (simp add: GetStakeModifierChecksum_def)
  have k: "CheckStakeModifierCheckpoints False 1 c" by (simp add: CheckStakeModifierCheckpoints_def mapStakeModifierCheckpoints_def)
  have "SetStakeEntropyBit bit (p0\<lparr>bnChainTrust := BN_add genesis_lib 0 (bn_of_int genesis_lib t)\<rparr>) = (True, p1)"
    using bit by (simp add: SetStakeEntropyBit_def p1_def p0)
  note steps = this
  have "block_GetStakeEntropyBit genesis_lib (fTestNet env_test) first_block (of_int (nHeight p0)) = bit"
    by (simp add: bit_def e p0)
  moreover have "(index_of_block f pos first_block)\<lparr>phashBlock := hashGenesisBlockOfficial, pprev := Some 0, nHeight := 0 + 1\<rparr> = p0"
    by (simp add: p0_def)
  ultimately have "new_entry genesis_lib env_test f pos first_block nd = Inr (p2\<lparr>nStakeModifierChecksum := c\<rparr>)"
    using steps t m c k p1
    by (cases "mapProofOfStake nd hashGenesisBlockOfficial") (simp_all add: new_entry_def Let_def assms h first_block_fields first_entry_fields first_chain e p0 p2_def SetStakeModifier_def)
  then show ?thesis using t(2) by (auto simp: p2_def p1_def)
qed

abbreviation plenty :: "block_files \<Rightarrow> u64" where "plenty \<equiv> \<lambda>_. 1000000000"

lemma first_size: "block_size first_block < 1000" "length (ser_CBlock False first_block) < 2 ^ 32"
proof -
  have v: "vchBlockSig first_block = []"
    by (simp add: first_block_def sample_block_def block_SetNull_def)
  have ok: "\<forall>tx \<in> set (vtx first_block). tx_ok tx" 
    by (simp add: first_block_fields tx_ok_def first_tx_def mint_tx_def txin_new_def i32_ok_def i64_ok_def bytes_ok_def txin_ok_def txout_ok_def)
  show s: "block_size first_block < 1000"
    by (simp add: block_size_def v first_block_fields first_tx_def mint_tx_def txin_new_def tx_size_def vector_size_def txin_size_def txout_size_def bytes_size_def GetSizeOfCompactSize_def)
  show "length (ser_CBlock False first_block) < 2 ^ 32"
    using transactions.length_ser [of "vtx first_block"] byte_vector.length_ser [of "vchBlockSig first_block"] ok s
    by (simp add: ser_CBlock_def block_size_def v first_block_fields bytes_ok_def)
qed

lemma first_accepted: "\<exists>fn'. AcceptBlock genesis_lib env_test plenty first_block (first_node 1) = (Inr (), fn')"
proof -
  let ?fn = "first_node 1"
  have h: "block_GetHash genesis_lib first_block = hashGenesisBlockOfficial" by (simp add: block_GetHash_def genesis_scrypt)
  have e: "\<not> fTestNet env_test" by (simp add: env_test_def)
  have pl: "check_place genesis_lib env_test (fn_map ?fn) (nBestHeight (fn_node ?fn)) (fn_sync ?fn) first_block first_entry = Inr ()"
    using first_place by (simp add: fn_map_def first_node_def)
  have sp: "CheckDiskSpace plenty (of_nat (block_size first_block)) ?fn = (Inr (), ?fn)"
  proof -
    have "\<not> (1000000000 :: u64) < nMinDiskSpace + of_nat (block_size first_block)"
      using first_size(1) by (simp add: nMinDiskSpace_def word_less_nat_alt unat_word_ariths unat_of_nat)
    then show ?thesis by (simp add: CheckDiskSpace_def)
  qed
  obtain fs where fs: "WriteToDisk False first_block files_empty = (Inr (1, 8), fs)" using write_first [OF first_size(2)] by blast
  define nd1 where "nd1 = (fn_node ?fn)\<lparr>nd_files := fs\<rparr>"
  have w: "on_node (act_on nd_files (\<lambda>fs nd. nd\<lparr>nd_files := fs\<rparr>) (WriteToDisk (fTestNet env_test) first_block)) ?fn
      = (Inr (1, 8), ?fn\<lparr>fn_node := nd1\<rparr>)"
    using fs by (simp add: on_node_def act_on_def e nd1_def first_node_def)
  have m1: "mapBlockIndex nd1 = [0 \<mapsto> first_entry]" "bnBestChainTrust nd1 = bn_of_int genesis_lib 1" "nd_db nd1 = db_empty\<lparr>activeBatch := None\<rparr>"
    by (simp_all add: nd1_def first_node_def)
  obtain p t where p: "new_entry genesis_lib env_test 1 8 first_block nd1 = Inr p"
      "bnChainTrust p = BN_add genesis_lib 0 (bn_of_int genesis_lib t)" "t = 0 \<or> t = 1"
    using first_new_entry [OF m1(1)] by blast
  have gt: "\<not> bn_gt genesis_lib (bnChainTrust p) (bn_of_int genesis_lib 1)"
    using p(3) by (auto simp: p(2) bn_simps bn_ok_genesis)
  define nd2 where "nd2 = nd1\<lparr>mapBlockIndex := (mapBlockIndex nd1)(hashGenesisBlockOfficial \<mapsto> p),
                         setStakeSeen := (if index_IsProofOfStake p
                            then insert (prevoutStake p, nStakeTime p) (setStakeSeen nd1) else setStakeSeen nd1),
                         nd_db := CTxDB_open ''r+'' (nd_db nd1)\<rparr>"
  obtain db where db: "act_then TxnBegin (act_then (act_try (write_index genesis_lib env_test (diskindex_of p))) TxnCommit) (nd_db nd2) = (Inr (), db)"
  proof -
    have o: "db_ok (nd_db nd2)" "activeBatch (nd_db nd2) = None"
      by (simp_all add: nd2_def m1 CTxDB_open_def db_ok_def db_empty_def)
    obtain db1 where 1: "TxnBegin (nd_db nd2) = (Inr (), db1)" "db_ok db1" "activeBatch db1 = Some []" using TxnBegin_ok [OF o] by blast
    obtain key v where k: "write_index genesis_lib env_test (diskindex_of p) = db_Write key v"
      by (cases "diskindex_GetBlockHash genesis_lib (fUseFastIndex env_test) (adjustedTime env_test) (diskindex_of p)")
        (simp add: write_index_def WriteBlockIndex_def)
    obtain db2 where 2: "db_Write key v db1 = (Inr (), db2)" "db_ok db2" "activeBatch db2 \<noteq> None"
      using db_Write_ok [OF 1(2), of key v] 1(3) by (cases "db_Write key v db1") auto
    obtain db3 where "TxnCommit db2 = (Inr (), db3)" using TxnCommit_ok [OF 2(2,3)] by blast
    moreover have "act_try (db_Write key v) db1 = (Inr True, db2)" using 2(1) by (simp add: act_try_def)
    ultimately show ?thesis using 1(1) k by (intro that [of db3]) (simp add: act_simps)
  qed
  define nd3 where "nd3 = nd2\<lparr>nd_db := db\<rparr>"
  have t2: "bnBestChainTrust nd2 = bn_of_int genesis_lib 1" by (simp add: nd2_def m1)
  have add: "AddToBlockIndex genesis_lib env_test 1 8 first_block nd1 = (Inr (), nd3)"
    using p(1) gt db t2 tree_keys(1) by (simp add: AddToBlockIndex_def Let_def h m1 nd2_def [symmetric, unfolded m1] act_simps on_db_def act_on_def nd3_def)
  let ?fn2 = "relay_block env_test hashGenesisBlockOfficial (?fn\<lparr>fn_node := nd3\<rparr>)"
  have a: "on_node (AddToBlockIndex genesis_lib env_test 1 8 first_block) (?fn\<lparr>fn_node := nd1\<rparr>) = (Inr (), ?fn\<lparr>fn_node := nd3\<rparr>)"
    using add by (simp add: on_node_def act_on_def)
  have "hashPendingCheckpoint (fn_sync ?fn2) = 0" by (simp add: relay_block_def first_node_def sync_start_def)
  then have "act_try (AcceptPendingSyncCheckpoint genesis_lib env_test) ?fn2 = (Inr False, ?fn2)"
    by (simp add: act_try_def AcceptPendingSyncCheckpoint_def)
  then show ?thesis
    using pl sp w a tree_keys(1) by (simp add: AcceptBlock_def Let_def h first_map first_block_fields act_simps)
qed

theorem accepted_block_keeps_rules_witness:
  "\<exists>fn' p. AcceptBlock genesis_lib env_test plenty first_block (first_node 1) = (Inr (), fn')
    \<and> fn_map fn' hashGenesisBlockOfficial = Some p \<and> pprev p = Some 0 \<and> nHeight p = 1"
proof -
  obtain fn' where f: "AcceptBlock genesis_lib env_test plenty first_block (first_node 1) = (Inr (), fn')"
    using first_accepted by blast
  have h: "block_GetHash genesis_lib first_block = hashGenesisBlockOfficial" by (simp add: block_GetHash_def genesis_scrypt)
  show ?thesis
    using accepted_block_keeps_rules [OF f] f by (auto simp: h first_map first_block_fields first_entry_fields)
qed

text \<open>A block whose parent is unknown is stored, and refused when it arrives again.\<close>
lemma mint_block_orphan:
  assumes "fn_map fn = Map.empty" "mapOrphanBlocks fn = Map.empty" "hashPendingCheckpoint (fn_sync fn) = 0"
  shows "\<exists>fn'. ProcessBlock genesis_lib env_test plenty None mint_block fn = (Inr (), fn')"
proof -
  have p: "\<not> block_IsProofOfStake mint_block" using mint_coinbase by (simp add: block_IsProofOfStake_def mint_block_def)
  have s: "stake_check seen h mint_block f = (Inr (), f)" "prove_stake genesis_lib env_test None h mint_block f = (Inr (), f)" for seen h f
    by (simp_all add: stake_check_def prove_stake_def p)
  have m: "spam_check genesis_lib env_test None h mint_block fn = (Inr (), fn)" for h
    using assms(1) by (simp add: spam_check_def GetLastSyncCheckpoint_def)
  have a: "AskForPendingSyncCheckpoint None fn = fn" using assms(3) by (simp add: AskForPendingSyncCheckpoint_def Let_def)
  show ?thesis
    by (simp add: ProcessBlock_def Let_def assms act_simps s m a mint_block_checked add_orphan_def)
qed

definition empty_node :: full_node where
  "empty_node = (first_node 0)\<lparr>fn_node := (fn_node (first_node 0))\<lparr>mapBlockIndex := Map.empty\<rparr>\<rparr>"

theorem process_block_keeps_witness:
  "\<exists>fn1. ProcessBlock genesis_lib env_test plenty None mint_block empty_node = (Inr (), fn1)
    \<and> mapOrphanBlocks fn1 hashGenesisBlockOfficial = Some mint_block \<and> orphan_blocks_ok genesis_lib fn1
    \<and> ProcessBlock genesis_lib env_test plenty None mint_block fn1 = (Inl (Refused 0), fn1)"
proof -
  have e: "fn_map empty_node = Map.empty" "mapOrphanBlocks empty_node = Map.empty" "mapOrphanBlocksByPrev empty_node = []"
      "hashPendingCheckpoint (fn_sync empty_node) = 0"
    by (simp_all add: empty_node_def first_node_def fn_map_def sync_start_def)
  obtain fn1 where 1: "ProcessBlock genesis_lib env_test plenty None mint_block empty_node = (Inr (), fn1)"
    using mint_block_orphan [OF e(1,2,4)] by blast
  have h: "block_GetHash genesis_lib mint_block = hashGenesisBlockOfficial" by (simp add: block_GetHash_def genesis_scrypt)
  have "orphan_blocks_ok genesis_lib empty_node" by (simp add: orphan_blocks_ok_def e)
  then have o: "mapOrphanBlocks fn1 hashGenesisBlockOfficial = Some mint_block" "orphan_blocks_ok genesis_lib fn1"
    using process_block_keeps [OF 1] by (simp_all add: e h)
  obtain r fn2 where 2: "ProcessBlock genesis_lib env_test plenty None mint_block fn1 = (r, fn2)" by fastforce
  have "r = Inl (Refused 0) \<and> fn2 = fn1" using process_block_keeps [OF 2] o(1) by (simp add: h)
  then show ?thesis using 1 2 o by blast
qed

end
