(* ===== verification/Spec2Isabelle.thy ===== *)
theory Spec2Isabelle
  imports Script_Verify Keystore Targets Block_Flow
begin

text \<open>
  A model of the consensus core of CryptoBullion (CBX), a proof-of-work/proof-of-stake
  currency derived from Bitcoin and PPCoin, and the theorems that make its parts correct.
  Paths below are under \<open>src/src/\<close>.

  \<^bold>\<open>Parts.\<close> The program keeps a tree of blocks, of which one branch is the main chain, and
  the transactions waiting for a block; it checks what peers send, signs what its owner
  spends, and stores the keys. The theories follow the layers of the code:

  \<^item> \<open>Cbx_Prelude\<close>: machine integers, bytes, errors as sums; \<open>Std_Map\<close>: \<open>std::map\<close> as a
    sorted list; \<open>Extern\<close>: OpenSSL and the scrypt assembly as the record \<open>extlib\<close>, an
    argument of every definition that calls them, with their documented behaviour as the
    hypotheses \<open>bn_ok\<close>, \<open>hash_ok\<close>, \<open>ec_ok\<close>, \<open>aes_ok\<close>, and an instance that meets them.
  \<^item> \<open>Uint_Base\<close> (\<open>uint256.h\<close>), \<open>Serialize\<close> (\<open>serialize.h\<close>), \<open>Bignum\<close> (\<open>bignum.h\<close>),
    \<open>Hashing\<close> (\<open>util.h\<close>, \<open>key.h\<close>), \<open>Keys\<close> (\<open>key.cpp\<close>, \<open>crypter.cpp\<close>, the interface of
    \<open>keystore.h\<close>), \<open>Keystore\<close> (\<open>keystore.cpp\<close>).
  \<^item> \<open>Script_Codec\<close>, \<open>Script_Interp\<close>, \<open>Script_Solve\<close>, \<open>Script_Verify\<close> (\<open>script.h\<close>,
    \<open>script.cpp\<close>): the format of scripts, the stack machine, the recognition of standard
    scripts, signature hashes, the signature cache, verification and signing.
  \<^item> \<open>Transaction\<close> (\<open>main.h\<close>, \<open>main.cpp\<close>): transactions and their context-free rules.
  \<^item> \<open>Scrypt\<close> (\<open>pbkdf2.cpp\<close>, \<open>scrypt_mine.cpp\<close>, \<open>scrypt-generic.cpp\<close>), \<open>Block\<close> and
    \<open>Block_Index\<close> (\<open>main.h\<close>): the block, its hash and Merkle tree, the index of blocks.
  \<^item> \<open>Targets\<close> (\<open>main.cpp\<close>): rewards, the minimum work, the retargeting rules with their hard
    forks, the proof-of-work check; the double-precision arithmetic of the rewards.
  \<^item> \<open>Effects\<close>: a step on a state that may fail; \<open>Txdb\<close> (\<open>txdb-leveldb.h\<close>, \<open>txdb-leveldb.cpp\<close>):
    the transaction database over an ordered map that may fail, with its batch;
    \<open>Block_Store\<close> (\<open>main.h\<close>, \<open>main.cpp\<close>): the files of blocks.
  \<^item> \<open>Mempool\<close> (\<open>main.h\<close>, \<open>main.cpp\<close>): the memory pool and the orphan transactions;
    \<open>Checkpoints\<close> (\<open>checkpoints.cpp\<close>); \<open>Inputs\<close> (\<open>main.cpp\<close>): fetching, connecting and
    disconnecting the inputs of a transaction, admission to the pool.
  \<^item> \<open>Kernel\<close> (\<open>kernel.cpp\<close>): the stake modifier and the kernel of a proof of stake;
    \<open>Check_Block\<close>, \<open>Connect_Block\<close> (\<open>main.cpp\<close>): the checks of a block, coin age, connecting a
    block to the database and disconnecting it.
  \<^item> \<open>Chain\<close>, \<open>Main_Chain\<close> (\<open>main.cpp\<close>): the tree of blocks and its best branch: finding the
    fork, reorganising, setting the best chain, adding a block; its invariant.
  \<^item> \<open>Accept\<close> (\<open>main.cpp\<close>, \<open>checkpoints.cpp\<close>, \<open>net.h\<close>): a block that arrives: where it may
    stand, accepting it, the orphan blocks that wait for it, the inventories pushed to peers, the
    synchronised checkpoints that are pending or arrive. \<open>Block_Flow\<close>: what an accepted block
    satisfied, that the tree only grows, that the maps of the orphans agree.

  \<^bold>\<open>Correspondence.\<close> Every definition keeps the name of the function it translates, with a
  prefix where names clash (\<open>block_GetHash\<close> is \<open>CBlock::GetHash\<close>). A C++ object is a record,
  \<open>this\<close> an argument, a mutated object part of the result. A check that adds to the
  denial-of-service score returns \<open>Inl\<close> of the score. An operation on the database is an
  \<open>action\<close>, which returns its outcome and the state it leaves: \<open>Refused n\<close> is a \<open>return false\<close>
  that adds \<open>n\<close> to the score, \<open>Crashed\<close> an exception or a failed assertion. An exception is an \<open>Inl\<close>, a NULL
  dereference or throw of a big-number operation \<open>None\<close>. A pointer to a block is the key of
  the block in \<open>mapBlockIndex\<close>.

  \<^bold>\<open>Lemmas.\<close> The locale \<open>codec\<close> is the contract between writing and reading; each wire format
  interprets it. The locale \<open>key_store\<close> is the contract of a key store, interpreted for the
  basic and the encrypted store; \<open>tx_index\<close> that of the index of transactions, interpreted for
  the database. The properties are claims numbered C1, C2, \<dots> in the theories.

  \<^bold>\<open>Bounds and fuel.\<close> Loops are structural or have a measure. \<open>ancestors\<close> takes fuel; one
  more than the height of a block is enough (lemma \<open>ancestors_enough\<close>). Recursion through
  redeem scripts (\<open>IsMine\<close>) is a \<open>partial_function\<close>; so is the walk of the stake kernel along
  \<open>pnext\<close> (\<open>kernel_walk\<close>), which returns on a well-formed index (lemma \<open>kernel_walk_returns\<close>), the search for a
  height (\<open>height_forward\<close>, lemma \<open>height_forward_main\<close>) and the walk to the root of a
  group of orphan blocks (\<open>orphan_root\<close>), which the code does not bound either.

  \<^bold>\<open>Not modelled.\<close> Threads, sockets, timers, the message loop, the signing of checkpoints, the user interface, RPC formatting, the database
  libraries and vendored code; logging and locks, which do not change results; the
  probability that a hash function collides.
\<close>

end
